(* ===== verification/Prelude.thy ===== *)
theory Prelude
  imports Main "HOL-Library.AList" "HOL-Library.Word" "HOL-Library.List_Lexorder" "HOL-Library.Char_ord" "HOL-Library.Multiset"
begin

text \<open>
  Shared ground of the development: how JavaScript values are represented, the error and
  effect types, and the generic lemmas the component theories use.

  \<^item> A JavaScript string is a \<^typ>\<open>string\<close>, one \<^typ>\<open>char\<close> per UTF-16 code unit; code units
    above 255 are outside the model. Length, indexing and \<open><\<close> are then those of the source.
  \<^item> A \<open>number\<close> that the code uses as a counter, version, generation or time is an \<^typ>\<open>int\<close>.
  \<^item> A \<open>Map\<close> or a plain object used as a dictionary is an association list in insertion order:
    \<open>map.get(k)\<close> is \<^const>\<open>map_of\<close>, \<open>map.set(k, v)\<close> is \<^const>\<open>AList.update\<close> (in place when the key
    is present, at the end otherwise), \<open>{...a, ...b}\<close> is \<open>spread a b\<close>. Only own properties exist.
  \<^item> \<open>undefined\<close> is \<^const>\<open>None\<close>, a thrown error is \<^const>\<open>Inl\<close>.
  \<^item> An \<open>async\<close> function is a function of the state of the world it runs in: \<open>('w, 'a) io\<close>.
    A step between two awaits is atomic, as it is in the browser's event loop.
\<close>

section \<open>Errors and results\<close>

datatype js_error =
    Error string
  | NamedError string string
  | APIRequestError "string option" "nat option"
  | TypeError

type_synonym 'a result = "js_error + 'a"

definition rbind :: "'a result \<Rightarrow> ('a \<Rightarrow> 'b result) \<Rightarrow> 'b result" where
  "rbind r f = (case r of Inl e \<Rightarrow> Inl e | Inr x \<Rightarrow> f x)"

definition to_option :: "'a result \<Rightarrow> 'a option" where
  "to_option r = (case r of Inl _ \<Rightarrow> None | Inr x \<Rightarrow> Some x)"

definition err_code :: "js_error \<Rightarrow> string option" where
  "err_code e = (case e of APIRequestError c _ \<Rightarrow> c | _ \<Rightarrow> None)"

lemma rbind_simps [simp]: "rbind (Inl e) f = Inl e" "rbind (Inr x) f = f x"
  by (simp_all add: rbind_def)

lemma rbind_eq_Inr: "rbind r f = Inr y \<longleftrightarrow> (\<exists>x. r = Inr x \<and> f x = Inr y)"
  by (cases r) auto

lemma to_option_simps [simp]: "to_option (Inl e) = None" "to_option (Inr x) = Some x"
  by (simp_all add: to_option_def)

lemma to_option_eq_Some [simp]: "to_option r = Some x \<longleftrightarrow> r = Inr x"
  by (cases r) auto

section \<open>Effects\<close>

type_synonym ('w, 'a) io = "'w \<Rightarrow> 'a result \<times> 'w"

definition ret :: "'a \<Rightarrow> ('w, 'a) io" where
  "ret x = (\<lambda>w. (Inr x, w))"

definition throw :: "js_error \<Rightarrow> ('w, 'a) io" where
  "throw e = (\<lambda>w. (Inl e, w))"

definition bind_io :: "('w, 'a) io \<Rightarrow> ('a \<Rightarrow> ('w, 'b) io) \<Rightarrow> ('w, 'b) io" where
  "bind_io m f = (\<lambda>w. case m w of (Inl e, w') \<Rightarrow> (Inl e, w') | (Inr x, w') \<Rightarrow> f x w')"

definition catch_io :: "('w, 'a) io \<Rightarrow> (js_error \<Rightarrow> ('w, 'a) io) \<Rightarrow> ('w, 'a) io" where
  "catch_io m h = (\<lambda>w. case m w of (Inl e, w') \<Rightarrow> h e w' | (Inr x, w') \<Rightarrow> (Inr x, w'))"

definition lift_result :: "'a result \<Rightarrow> ('w, 'a) io" where
  "lift_result r = (\<lambda>w. (r, w))"

lemma io_simps [simp]:
  "ret x w = (Inr x, w)"
  "throw e w = (Inl e, w)"
  "lift_result r w = (r, w)"
  by (simp_all add: ret_def throw_def lift_result_def)

lemma bind_io_Inr: "m w = (Inr x, w') \<Longrightarrow> bind_io m f w = f x w'"
  by (simp add: bind_io_def)

lemma bind_io_Inl: "m w = (Inl e, w') \<Longrightarrow> bind_io m f w = (Inl e, w')"
  by (simp add: bind_io_def)

text \<open>
  Reasoning about effects: \<open>triple P m Q E\<close> says that from a world with \<open>P\<close>, \<open>m\<close> either returns a value
  with \<open>Q\<close> or throws in a world with \<open>E\<close>. The rules in \<open>triples\<close> follow the shape of the program.
\<close>

named_theorems triples

definition triple :: "('w \<Rightarrow> bool) \<Rightarrow> ('w, 'a) io \<Rightarrow> ('a \<Rightarrow> 'w \<Rightarrow> bool) \<Rightarrow> ('w \<Rightarrow> bool) \<Rightarrow> bool" where
  "triple P m Q E \<longleftrightarrow> (\<forall>w. P w \<longrightarrow> (case m w of (Inr x, w') \<Rightarrow> Q x w' | (Inl e, w') \<Rightarrow> E w'))"

lemma tripleI: "(\<And>w. P w \<Longrightarrow> case m w of (Inr x, w') \<Rightarrow> Q x w' | (Inl e, w') \<Rightarrow> E w') \<Longrightarrow> triple P m Q E"
  by (simp add: triple_def)

lemma tripleD:
  "triple P m Q E \<Longrightarrow> P w \<Longrightarrow> m w = (Inr x, w') \<Longrightarrow> Q x w'"
  "triple P m Q E \<Longrightarrow> P w \<Longrightarrow> m w = (Inl e, w') \<Longrightarrow> E w'"
  by (auto simp: triple_def)

lemma triple_ret [triples]: "(\<And>w. P w \<Longrightarrow> Q x w) \<Longrightarrow> triple P (ret x) Q E"
  by (simp add: triple_def)

lemma triple_throw [triples]: "(\<And>w. P w \<Longrightarrow> E w) \<Longrightarrow> triple P (throw e) Q E"
  by (simp add: triple_def)

lemma triple_lift [triples]: "(\<And>w x. P w \<Longrightarrow> r = Inr x \<Longrightarrow> Q x w) \<Longrightarrow> (\<And>w. P w \<Longrightarrow> E w) \<Longrightarrow> triple P (lift_result r) Q E"
  by (cases r) (auto simp: triple_def)

lemma triple_bind [triples]:
  "triple P m R E \<Longrightarrow> (\<And>x. triple (R x) (f x) Q E) \<Longrightarrow> triple P (bind_io m f) Q E"
  unfolding triple_def bind_io_def by (fastforce split: sum.splits prod.splits)

lemma triple_catch [triples]:
  "triple P m Q R \<Longrightarrow> (\<And>e. triple R (h e) Q E) \<Longrightarrow> triple P (catch_io m h) Q E"
  unfolding triple_def catch_io_def by (fastforce split: sum.splits prod.splits)

lemma triple_if [triples]:
  "(b \<Longrightarrow> triple P m Q E) \<Longrightarrow> (\<not> b \<Longrightarrow> triple P n Q E) \<Longrightarrow> triple P (if b then m else n) Q E"
  by simp

lemma triple_conseq:
  "triple P m Q E \<Longrightarrow> (\<And>w. P' w \<Longrightarrow> P w) \<Longrightarrow> (\<And>x w. Q x w \<Longrightarrow> Q' x w) \<Longrightarrow> (\<And>w. E w \<Longrightarrow> E' w) \<Longrightarrow> triple P' m Q' E'"
  unfolding triple_def by (fastforce split: sum.splits prod.splits)

lemma triple_pre: "triple P m Q E \<Longrightarrow> (\<And>w. P' w \<Longrightarrow> P w) \<Longrightarrow> triple P' m Q E"
  by (auto simp: triple_def)

lemma triple_bind_ret:
  "triple P m (\<lambda>_. R) E \<Longrightarrow> (\<And>x w. R w \<Longrightarrow> Q (f x) w) \<Longrightarrow> triple P (bind_io m (\<lambda>x. ret (f x))) Q E"
  by (rule triple_bind, assumption, rule triple_ret) blast

lemma triple_pull: "(b \<Longrightarrow> triple P m Q E) \<Longrightarrow> triple (\<lambda>w. b \<and> P w) m Q E"
  by (auto simp: triple_def)

section \<open>Dictionaries\<close>

type_synonym ('k, 'v) dict = "('k \<times> 'v) list"

definition spread :: "('k, 'v) dict \<Rightarrow> ('k, 'v) dict \<Rightarrow> ('k, 'v) dict" where
  "spread a b = fold (\<lambda>(k, v). AList.update k v) b a"

abbreviation keys_of :: "('k, 'v) dict \<Rightarrow> 'k list" where
  "keys_of d \<equiv> map fst d"

lemma map_of_update [simp]: "map_of (AList.update k v d) = (map_of d)(k \<mapsto> v)"
  by (rule AList.update_conv')

lemma spread_simps [simp]:
  "spread a [] = a"
  "spread a ((k, v) # b) = spread (AList.update k v a) b"
  by (simp_all add: spread_def)

lemma map_of_spread_other: "k \<notin> set (keys_of b) \<Longrightarrow> map_of (spread a b) k = map_of a k"
  by (induction b arbitrary: a) auto

lemma map_of_spread:
  "distinct (keys_of b) \<Longrightarrow> map_of (spread a b) = map_of a ++ map_of b"
proof (induction b arbitrary: a)
  case Nil
  then show ?case by simp
next
  case (Cons p b)
  obtain k v where p: "p = (k, v)" by (cases p)
  from Cons.prems p have k: "map_of b k = None" by (simp add: map_of_eq_None_iff)
  from Cons.prems have "distinct (keys_of b)" by simp
  note ih = Cons.IH [OF this, of "AList.update k v a"]
  from k show ?case
    by (auto simp: p ih fun_eq_iff map_add_def split: option.splits)
qed

lemma distinct_update [simp]: "distinct (keys_of d) \<Longrightarrow> distinct (keys_of (AList.update k v d))"
  by (rule AList.distinct_update)

lemma distinct_spread [simp]: "distinct (keys_of a) \<Longrightarrow> distinct (keys_of (spread a b))"
  by (induction b arbitrary: a) auto

lemma map_le_upd [simp]: "m k = None \<or> m k = Some v \<Longrightarrow> m \<subseteq>\<^sub>m m(k \<mapsto> v)"
  by (auto simp: map_le_def)

lemma map_leD: "m \<subseteq>\<^sub>m n \<Longrightarrow> m k = Some v \<Longrightarrow> n k = Some v"
  by (metis domI map_le_def)

lemma find_SomeD: "find P xs = Some x \<Longrightarrow> x \<in> set xs \<and> P x"
  by (auto simp: find_Some_iff)

section \<open>Optional numbers\<close>

definition or0 :: "int option \<Rightarrow> int" where
  "or0 x = (case x of None \<Rightarrow> 0 | Some n \<Rightarrow> n)"

lemma or0_simps [simp]: "or0 None = 0" "or0 (Some n) = n"
  by (simp_all add: or0_def)

section \<open>Sorting\<close>

text \<open>\<open>Array.prototype.sort\<close> is stable; \<open>le x y\<close> is \<open>compare(x, y) <= 0\<close>.\<close>

fun insert_by :: "('a \<Rightarrow> 'a \<Rightarrow> bool) \<Rightarrow> 'a \<Rightarrow> 'a list \<Rightarrow> 'a list" where
  "insert_by le x [] = [x]"
| "insert_by le x (y # ys) = (if le x y then x # y # ys else y # insert_by le x ys)"

definition sort_by :: "('a \<Rightarrow> 'a \<Rightarrow> bool) \<Rightarrow> 'a list \<Rightarrow> 'a list" where
  "sort_by le xs = foldr (insert_by le) xs []"

lemma mset_insert_by [simp]: "mset (insert_by le x ys) = add_mset x (mset ys)"
  by (induction ys) auto

lemma mset_sort_by [simp]: "mset (sort_by le xs) = mset xs"
  by (induction xs) (auto simp: sort_by_def)

lemma set_sort_by [simp]: "set (sort_by le xs) = set xs"
  by (metis mset_sort_by set_mset_mset)

lemma length_sort_by [simp]: "length (sort_by le xs) = length xs"
  by (metis mset_sort_by size_mset)

lemma set_insert_by [simp]: "set (insert_by le x ys) = insert x (set ys)"
  by (induction ys) auto

text \<open>What a comparator has to satisfy for a sort to mean anything.\<close>

locale comparator =
  fixes le :: "'a \<Rightarrow> 'a \<Rightarrow> bool"
  assumes total: "le x y \<or> le y x"
    and trans: "le x y \<Longrightarrow> le y z \<Longrightarrow> le x z"
begin

lemma sorted_insert: "sorted_wrt le ys \<Longrightarrow> sorted_wrt le (insert_by le x ys)"
  by (induction ys) (auto dest: trans, metis total)

lemma sorted_sort: "sorted_wrt le (sort_by le xs)"
  by (induction xs) (auto simp: sort_by_def sorted_insert)

lemma insert_front: "\<forall>y \<in> set ys. le x y \<Longrightarrow> insert_by le x ys = x # ys"
  by (cases ys) auto

lemma sort_sorted: "sorted_wrt le xs \<Longrightarrow> sort_by le xs = xs"
  by (induction xs) (auto simp: sort_by_def insert_front)

end

section \<open>States that only rise\<close>

text \<open>
  Much of what this program remembers may only grow: floors, pins, digests, migration markers.
  The contract of such a memory: an order on states, and a step that never goes down in it.
\<close>

locale rising =
  fixes le :: "'s \<Rightarrow> 's \<Rightarrow> bool"
    and step :: "'a \<Rightarrow> 's \<Rightarrow> 's"
  assumes le_refl: "le s s"
    and le_trans: "le s t \<Longrightarrow> le t u \<Longrightarrow> le s u"
    and step_up: "le s (step a s)"
begin

lemma fold_up: "le s (fold step xs s)"
proof (induction xs arbitrary: s)
  case Nil
  show ?case by (simp add: le_refl)
next
  case (Cons a xs)
  from step_up [of s a] Cons.IH [of "step a s"] show ?case
    by (simp add: le_trans [of s "step a s"])
qed

lemma fold_prefix_up: "le (fold step xs s) (fold step (xs @ ys) s)"
  by (simp add: fold_up)

lemma fold_above_each: "x \<in> set xs \<Longrightarrow> \<exists>t. le s t \<and> le (step x t) (fold step xs s)"
proof -
  assume "x \<in> set xs"
  then obtain ys zs where xs: "xs = ys @ x # zs" by (meson split_list)
  have "le (step x (fold step ys s)) (fold step xs s)" by (simp add: xs fold_up)
  with fold_up [of s ys] show ?thesis by blast
qed

end

end
