(* ===== verification/Bytes.thy ===== *)
theory Bytes
  imports Prelude
begin

unbundle bit_operations_syntax

text \<open>
  Byte strings and their text forms: what \<open>Uint8Array\<close>, \<open>TextEncoder\<close>, \<open>TextDecoder\<close>,
  \<open>DataView\<close>, \<open>btoa\<close> and \<open>atob\<close> do for \<open>web/src/crypto.ts\<close>, \<open>teamKeys.ts\<close> and \<open>pins.ts\<close>,
  the constant-time comparison, the hexadecimal and base64 forms, and the identifiers
  minted by the server (\<open>cnt_\<close>, \<open>dev_\<close>, \<open>usr_\<close>, \<open>lnk_\<close>, \<open>obj_\<close> with 26 Crockford symbols).
  The lemmas are the round trips and injectivity facts the framing proofs rest on.
\<close>

type_synonym byte = "8 word"
type_synonym bytes = "byte list"

section \<open>White space\<close>

text \<open>What the white space class of regular expressions matches and \<open>trim\<close> removes, of the characters the model has.\<close>

definition js_space :: "char \<Rightarrow> bool" where
  "js_space c = (let n = (of_char c :: nat) in 9 \<le> n \<and> n \<le> 13 \<or> n = 32 \<or> n = 160)"

definition js_trim :: "string \<Rightarrow> string" where
  "js_trim s = rev (dropWhile js_space (rev (dropWhile js_space s)))"

text \<open>\<open>toLowerCase\<close> on the characters the model has: the capital letters of ASCII and of Latin-1, each 32 below its small letter.\<close>

definition js_lower_char :: "char \<Rightarrow> char" where
  "js_lower_char c = (let n = (of_char c :: nat) in
     if 65 \<le> n \<and> n \<le> 90 \<or> 192 \<le> n \<and> n \<le> 222 \<and> n \<noteq> 215 then char_of (n + 32) else c)"

definition js_lower :: "string \<Rightarrow> string" where
  "js_lower s = map js_lower_char s"

lemma js_lower_char_idem [simp]: "js_lower_char (js_lower_char c) = js_lower_char c"
  by (auto simp: js_lower_char_def Let_def)

lemma js_lower_idem [simp]: "js_lower (js_lower s) = js_lower s"
  by (simp add: js_lower_def)

section \<open>Text encoding\<close>

definition utf8_char :: "char \<Rightarrow> bytes" where
  "utf8_char c = (let n = (of_char c :: nat) in
     if n < 128 then [of_nat n] else [of_nat (192 + n div 64), of_nat (128 + n mod 64)])"

definition encode :: "string \<Rightarrow> bytes" where
  "encode s = concat (map utf8_char s)"

fun decode :: "bytes \<Rightarrow> string option" where
  "decode [] = Some []"
| "decode (b # bs) =
     (if unat b < 128 then map_option ((#) (char_of (unat b))) (decode bs)
      else case bs of
        [] \<Rightarrow> None
      | c # cs \<Rightarrow>
          (if (unat b = 194 \<or> unat b = 195) \<and> 128 \<le> unat c \<and> unat c < 192
           then map_option ((#) (char_of ((unat b - 192) * 64 + (unat c - 128)))) (decode cs)
           else None))"

lemma unat_of_nat_byte: "n < 256 \<Longrightarrow> unat (of_nat n :: byte) = n"
  by (simp add: unat_of_nat)

lemma unat_byte_less: "unat (b :: byte) < 256"
  using unsigned_less [where 'a = nat, of b] by simp

lemma unat_utf8_lead: "n < 256 \<Longrightarrow> unat (of_nat (192 + n div 64) :: byte) = 192 + n div 64"
  by (rule unat_of_nat_byte) simp

lemma unat_utf8_tail: "unat (of_nat (128 + n mod 64) :: byte) = 128 + n mod 64"
  by (rule unat_of_nat_byte) (simp add: less_trans [of "n mod 64" 64])

lemma decode_utf8_char: "decode (utf8_char c @ bs) = map_option ((#) c) (decode bs)"
proof (cases "(of_char c :: nat) < 128")
  case True
  then show ?thesis by (simp add: utf8_char_def unat_of_nat_byte)
next
  case False
  let ?n = "of_char c :: nat"
  have small: "?n < 256" by simp
  with False have "?n div 64 = 2 \<or> ?n div 64 = 3" by arith
  moreover have "(?n div 64) * 64 + ?n mod 64 = ?n" by simp
  ultimately show ?thesis
    using False by (auto simp: utf8_char_def Let_def unat_utf8_lead [OF small] unat_utf8_tail
        simp del: of_nat_add)
qed

lemma decode_encode [simp]: "decode (encode s) = Some s"
  by (induction s) (simp_all add: encode_def decode_utf8_char)

lemma encode_inj [simp]: "encode s = encode t \<longleftrightarrow> s = t"
  by (metis decode_encode option.inject)

lemma encode_append [simp]: "encode (s @ t) = encode s @ encode t"
  by (simp add: encode_def)

definition ascii :: "string \<Rightarrow> bool" where
  "ascii s = list_all (\<lambda>c. (of_char c :: nat) < 128) s"

lemma length_encode_ascii: "ascii s \<Longrightarrow> length (encode s) = length s"
  by (induction s) (simp_all add: ascii_def encode_def utf8_char_def)

section \<open>Comparison, concatenation, big-endian integers\<close>

text \<open>\<open>diff |= a[i] ^ b[i]\<close> over all positions, with no early exit.\<close>

definition sameBytes :: "bytes \<Rightarrow> bytes \<Rightarrow> bool" where
  "sameBytes a b =
     (if length a \<noteq> length b then False
      else fold (\<lambda>(x, y) diff. diff OR (x XOR y)) (zip a b) 0 = 0)"

lemma xor_byte_eq_0: "(x :: byte) XOR y = 0 \<longleftrightarrow> x = y"
  by (auto simp: bit_eq_iff bit_xor_iff)

lemma fold_diff_zero:
  "fold (\<lambda>(x, y) diff. diff OR (x XOR y)) ps (d :: byte) = 0 \<longleftrightarrow>
     d = 0 \<and> (\<forall>(x, y) \<in> set ps. x = y)"
  by (induction ps arbitrary: d) (auto simp: or_eq_0_iff xor_byte_eq_0)

lemma sameBytes_iff [simp]: "sameBytes a b \<longleftrightarrow> a = b"
proof -
  have "length a = length b \<Longrightarrow> (\<forall>(x, y) \<in> set (zip a b). x = y) \<longleftrightarrow> list_all2 (=) a b"
    by (simp add: list_all2_iff)
  then show ?thesis by (auto simp: sameBytes_def fold_diff_zero list.rel_eq)
qed

definition concat_bytes :: "bytes list \<Rightarrow> bytes" where
  "concat_bytes parts = concat parts"

definition be16 :: "nat \<Rightarrow> bytes" where
  "be16 n = [of_nat (n div 256), of_nat n]"

definition be32 :: "nat \<Rightarrow> bytes" where
  "be32 n = [of_nat (n div 16777216), of_nat (n div 65536), of_nat (n div 256), of_nat n]"

lemma length_be [simp]: "length (be16 n) = 2" "length (be32 n) = 4"
  by (simp_all add: be16_def be32_def)

lemma of_nat_byte_eq: "(of_nat m :: byte) = of_nat n \<longleftrightarrow> m mod 256 = n mod 256"
  by (simp add: of_nat_eq_iff word_of_nat_eq_iff take_bit_eq_mod)

lemma eq_by_div_mod_256: "(m :: nat) div 256 = n div 256 \<Longrightarrow> m mod 256 = n mod 256 \<Longrightarrow> m = n"
  by (metis div_mult_mod_eq)

lemma be16_inj: "m < 65536 \<Longrightarrow> n < 65536 \<Longrightarrow> be16 m = be16 n \<longleftrightarrow> m = n"
  by (auto simp: be16_def of_nat_byte_eq intro: eq_by_div_mod_256)

lemma be32_inj:
  assumes "m < 4294967296" "n < 4294967296"
  shows "be32 m = be32 n \<longleftrightarrow> m = n"
proof
  assume eq: "be32 m = be32 n"
  have split: "k div 65536 = k div 256 div 256" "k div 16777216 = k div 256 div 256 div 256" for k :: nat
    by (simp_all add: div_mult2_eq [symmetric])
  have "m div 256 div 256 div 256 < 256" "n div 256 div 256 div 256 < 256"
    using assms by simp_all
  with eq show "m = n"
    by (auto simp: be32_def of_nat_byte_eq split intro: eq_by_div_mod_256)
qed simp

section \<open>Hexadecimal\<close>

definition hex_digit :: "nat \<Rightarrow> char" where
  "hex_digit n = ''0123456789abcdef'' ! (n mod 16)"

definition bytesToHex :: "bytes \<Rightarrow> string" where
  "bytesToHex bs = concat (map (\<lambda>b. [hex_digit (unat b div 16), hex_digit (unat b)]) bs)"

lemma hex_digit_inj: "hex_digit m = hex_digit n \<longleftrightarrow> m mod 16 = n mod 16"
proof -
  have "distinct ''0123456789abcdef''" by simp
  then show ?thesis unfolding hex_digit_def by (subst nth_eq_iff_index_eq) auto
qed

lemma hex_byte_inj:
  "hex_digit (unat a div 16) = hex_digit (unat b div 16) \<Longrightarrow>
   hex_digit (unat a) = hex_digit (unat b) \<Longrightarrow> a = (b :: byte)"
proof -
  assume "hex_digit (unat a div 16) = hex_digit (unat b div 16)" "hex_digit (unat a) = hex_digit (unat b)"
  moreover have "unat a < 256" "unat b < 256" by (rule unat_byte_less)+
  ultimately have "unat a div 16 = unat b div 16" "unat a mod 16 = unat b mod 16"
    by (simp_all add: hex_digit_inj)
  then have "unat a = unat b" by (metis div_mult_mod_eq)
  then show "a = b" by (simp add: word_unat_eq_iff)
qed

lemma bytesToHex_inj [simp]: "bytesToHex a = bytesToHex b \<longleftrightarrow> a = b"
proof
  show "bytesToHex a = bytesToHex b \<Longrightarrow> a = b"
  proof (induction a arbitrary: b)
    case Nil
    then show ?case by (cases b) (auto simp: bytesToHex_def)
  next
    case (Cons x a)
    then show ?case by (cases b) (auto simp: bytesToHex_def dest: hex_byte_inj)
  qed
qed simp

section \<open>Base64\<close>

definition B64 :: string where
  "B64 = ''ABCDEFGHIJKLMNOPQRSTUVWXYZabcdefghijklmnopqrstuvwxyz0123456789+/''"

definition b64_char :: "nat \<Rightarrow> char" where
  "b64_char n = B64 ! n"

fun index_from :: "nat \<Rightarrow> char \<Rightarrow> string \<Rightarrow> nat option" where
  "index_from i c [] = None"
| "index_from i c (d # ds) = (if c = d then Some i else index_from (Suc i) c ds)"

definition b64_index :: "char \<Rightarrow> nat option" where
  "b64_index c = index_from 0 c B64"

lemma index_from_nth:
  "distinct ds \<Longrightarrow> n < length ds \<Longrightarrow> index_from i (ds ! n) ds = Some (i + n)"
  by (induction ds arbitrary: i n) (auto simp: nth_Cons split: nat.splits)

lemma index_from_None: "index_from i c ds = None \<longleftrightarrow> c \<notin> set ds"
  by (induction ds arbitrary: i) auto

lemma length_B64 [simp]: "length B64 = 64"
  by (simp add: B64_def)

lemma distinct_B64: "distinct B64"
  unfolding B64_def by code_simp

lemma b64_index_char [simp]: "n < 64 \<Longrightarrow> b64_index (b64_char n) = Some n"
  by (simp add: b64_index_def b64_char_def index_from_nth [OF distinct_B64])

text \<open>Three bytes as four six-bit groups and back.\<close>

fun sextets :: "nat list \<Rightarrow> nat list" where
  "sextets [] = []"
| "sextets [x] = [x div 4, (x mod 4) * 16]"
| "sextets [x, y] = [x div 4, (x mod 4) * 16 + y div 16, (y mod 16) * 4]"
| "sextets (x # y # z # r) =
     [x div 4, (x mod 4) * 16 + y div 16, (y mod 16) * 4 + z div 64, z mod 64] @ sextets r"

fun unsextets :: "nat list \<Rightarrow> nat list" where
  "unsextets (p # q # r # s # t) =
     [p * 4 + q div 16, (q mod 16) * 16 + r div 4, (r mod 4) * 64 + s] @ unsextets t"
| "unsextets [p, q, r] = [p * 4 + q div 16, (q mod 16) * 16 + r div 4]"
| "unsextets [p, q] = [p * 4 + q div 16]"
| "unsextets _ = []"

lemma unsextets_sextets: "list_all (\<lambda>x. x < 256) xs \<Longrightarrow> unsextets (sextets xs) = xs"
  by (induction xs rule: sextets.induct) auto

lemma sextets_small: "list_all (\<lambda>x. x < 256) xs \<Longrightarrow> list_all (\<lambda>x. x < 64) (sextets xs)"
  by (induction xs rule: sextets.induct) auto

lemma length_sextets: "length (sextets xs) = (length xs * 4 + 2) div 3"
  by (induction xs rule: sextets.induct) auto

definition base64 :: "bytes \<Rightarrow> string" where
  "base64 bs = map b64_char (sextets (map unat bs)) @ replicate ((3 - length bs mod 3) mod 3) (CHR ''='')"

definition is_space :: "char \<Rightarrow> bool" where
  "is_space c = (c \<in> {CHR '' '', CHR 0x09, CHR 0x0A, CHR 0x0C, CHR 0x0D})"

definition strip_pad :: "string \<Rightarrow> string" where
  "strip_pad s =
     (if length s mod 4 \<noteq> 0 then s
      else if s \<noteq> [] \<and> last s = CHR ''='' then
        (let t = butlast s in if t \<noteq> [] \<and> last t = CHR ''='' then butlast t else t)
      else s)"

text \<open>\<open>atob\<close> is the forgiving decode of the Infra standard: white space is dropped, padding may be absent.\<close>

definition fromBase64 :: "string \<Rightarrow> bytes result" where
  "fromBase64 value =
     (let s = strip_pad (filter (\<lambda>c. \<not> is_space c) value) in
      if length s mod 4 = 1 \<or> \<not> list_all (\<lambda>c. b64_index c \<noteq> None) s
      then Inl (NamedError ''InvalidCharacterError'' ''atob'')
      else Inr (map of_nat (unsextets (map (the \<circ> b64_index) s))))"

lemma b64_char_ordinary:
  assumes "n < 64"
  shows "\<not> is_space (b64_char n)" "b64_char n \<noteq> CHR ''=''"
proof -
  have "b64_char n \<in> set B64" using assms by (simp add: b64_char_def)
  then show "\<not> is_space (b64_char n)" "b64_char n \<noteq> CHR ''=''"
    by (auto simp: B64_def is_space_def)
qed

lemma not_space_pad: "\<not> is_space (CHR ''='')"
  by (simp add: is_space_def)

lemma b64_text_clean:
  "list_all (\<lambda>x. x < 64) xs \<Longrightarrow>
     filter (\<lambda>c. \<not> is_space c) (map b64_char xs @ replicate k (CHR ''='')) =
     map b64_char xs @ replicate k (CHR ''='')"
  by (auto simp: filter_id_conv list_all_iff b64_char_ordinary not_space_pad)

lemma strip_pad_b64:
  assumes "list_all (\<lambda>x. x < 64) xs" "k \<le> 2" "(length xs + k) mod 4 = 0"
  shows "strip_pad (map b64_char xs @ replicate k (CHR ''='')) = map b64_char xs"
proof -
  have tail: "xs \<noteq> [] \<Longrightarrow> b64_char (last xs) \<noteq> CHR ''=''"
    using assms(1) by (auto simp: list_all_iff intro!: b64_char_ordinary(2))
  consider "k = 0" | "k = 1" | "k = 2" using assms(2) by linarith
  then show ?thesis
  proof cases
    case 1
    then show ?thesis using tail by (auto simp: strip_pad_def last_map)
  next
    case 2
    then show ?thesis using assms(3) tail by (auto simp: strip_pad_def last_map butlast_append Let_def)
  next
    case 3
    then have "replicate k (CHR ''='') = [CHR ''='', CHR ''='']" by (simp add: numeral_2_eq_2)
    with 3 assms(3) show ?thesis by (auto simp: strip_pad_def butlast_append last_append)
  qed
qed

lemma b64_lengths:
  fixes n :: nat
  shows "(3 - n mod 3) mod 3 \<le> 2" "((n * 4 + 2) div 3 + (3 - n mod 3) mod 3) mod 4 = 0"
    "(n * 4 + 2) div 3 mod 4 \<noteq> 1"
proof -
  obtain q r where n: "n = 3 * q + r" "r < 3"
    by (metis mod_less_divisor mult_div_mod_eq zero_less_numeral)
  have d: "(n * 4 + 2) div 3 = 4 * q + (4 * r + 2) div 3"
  proof -
    have "n * 4 + 2 = (4 * r + 2) + 3 * (4 * q)" using n by simp
    then show ?thesis by (metis add.commute div_mult_self2 zero_neq_numeral)
  qed
  have m: "n mod 3 = r" using n by simp
  have r: "r = 0 \<or> r = 1 \<or> r = 2" using n(2) by linarith
  show "(3 - n mod 3) mod 3 \<le> 2" using r by (auto simp: m)
  show "((n * 4 + 2) div 3 + (3 - n mod 3) mod 3) mod 4 = 0" unfolding d m using r by auto
  show "(n * 4 + 2) div 3 mod 4 \<noteq> 1" unfolding d using r by auto
qed

lemma of_nat_unat_list: "map (of_nat \<circ> unat) bs = (bs :: bytes)"
  by (induction bs) simp_all

lemma fromBase64_base64 [simp]: "fromBase64 (base64 bs) = Inr bs"
proof -
  let ?xs = "sextets (map unat bs)" and ?k = "(3 - length bs mod 3) mod 3"
  have bytes: "list_all (\<lambda>x. x < 256) (map unat bs)"
    by (simp add: list_all_iff unat_byte_less)
  then have small: "list_all (\<lambda>x. x < 64) ?xs" by (rule sextets_small)
  have len: "length ?xs = (length bs * 4 + 2) div 3" by (simp add: length_sextets)
  have k: "?k \<le> 2" and four: "(length ?xs + ?k) mod 4 = 0" and one: "length ?xs mod 4 \<noteq> 1"
    unfolding len by (rule b64_lengths)+
  have strip: "strip_pad (filter (\<lambda>c. \<not> is_space c) (base64 bs)) = map b64_char ?xs"
    unfolding base64_def b64_text_clean [OF small] using small k four by (intro strip_pad_b64) simp_all
  have idx: "map (the \<circ> b64_index \<circ> b64_char) ?xs = ?xs"
    using small by (auto simp: list_all_iff intro: map_idI)
  have known: "list_all (\<lambda>c. b64_index c \<noteq> None) (map b64_char ?xs)"
    using small by (auto simp: list_all_iff)
  show ?thesis
    using one known unsextets_sextets [OF bytes]
    by (simp add: fromBase64_def strip idx of_nat_unat_list)
qed

lemma base64_inj [simp]: "base64 a = base64 b \<longleftrightarrow> a = b"
  by (metis fromBase64_base64 sum.inject(2))

section \<open>Identifiers\<close>

definition crockford :: "char \<Rightarrow> bool" where
  "crockford c = (c \<in> set ''0123456789abcdefghjkmnpqrstvwxyz'')"

definition prefixed_id :: "string \<Rightarrow> string \<Rightarrow> bool" where
  "prefixed_id prefix s =
     (length s = 30 \<and> take 4 s = prefix @ ''_'' \<and> list_all crockford (drop 4 s))"

lemma crockford_ascii: "crockford c \<Longrightarrow> (of_char c :: nat) < 128"
  by (auto simp: crockford_def)

lemma prefixed_id_length: "prefixed_id p s \<Longrightarrow> length s = 30"
  by (simp add: prefixed_id_def)

section \<open>Percent encoding\<close>

definition hex_upper :: "nat \<Rightarrow> char" where
  "hex_upper n = ''0123456789ABCDEF'' ! (n mod 16)"

definition uri_plain :: "char \<Rightarrow> bool" where
  "uri_plain c = (let n = (of_char c :: nat) in 48 \<le> n \<and> n \<le> 57 \<or> 65 \<le> n \<and> n \<le> 90 \<or> 97 \<le> n \<and> n \<le> 122 \<or>
     c \<in> set [CHR ''-'', CHR ''_'', CHR ''.'', CHR ''!'', CHR ''~'', CHR ''*'', CHR 0x27, CHR ''('', CHR '')''])"

definition percent :: "byte \<Rightarrow> string" where
  "percent b = [CHR ''%'', hex_upper (unat b div 16), hex_upper (unat b)]"

definition encodeURIComponent :: "string \<Rightarrow> string" where
  "encodeURIComponent s = concat (map (\<lambda>c. if uri_plain c then [c] else concat (map percent (utf8_char c))) s)"

end
