(* ===== verification/Trace.thy ===== *)
theory Trace
  imports Bytes
begin

text \<open>
  Programs that talk to a server, a store or the user: a world in which every such call acts on an opaque
  outside state, with the calls that matter noted in a log, and a stream of random bytes. What a program
  guarantees for every outside is stated over the order of the events in its log. The calculus is the
  weakest precondition: \<open>wp m Q E w\<close> holds when \<open>m\<close> run in \<open>w\<close> returns with \<open>Q\<close> or throws with \<open>E\<close>; the rules
  in \<open>wps\<close> compute it along the program text.
\<close>

section \<open>Weakest preconditions\<close>

named_theorems wps

definition wp :: "('w, 'a) io \<Rightarrow> ('a \<Rightarrow> 'w \<Rightarrow> bool) \<Rightarrow> (js_error \<Rightarrow> 'w \<Rightarrow> bool) \<Rightarrow> 'w \<Rightarrow> bool" where
  "wp m Q E w \<longleftrightarrow> (case m w of (Inr x, w') \<Rightarrow> Q x w' | (Inl e, w') \<Rightarrow> E e w')"

lemma wp_ret [wps]: "wp (ret x) Q E w = Q x w"
  by (simp add: wp_def)

lemma wp_throw [wps]: "wp (throw e) Q E w = E e w"
  by (simp add: wp_def)

lemma wp_lift [wps]: "wp (lift_result r) Q E w = (case r of Inr x \<Rightarrow> Q x w | Inl e \<Rightarrow> E e w)"
  by (simp add: wp_def split: sum.split)

lemma wp_bind [wps]: "wp (bind_io m f) Q E w = wp m (\<lambda>x. wp (f x) Q E) E w"
  by (simp add: wp_def bind_io_def split: prod.split sum.split)

lemma wp_catch [wps]: "wp (catch_io m h) Q E w = wp m Q (\<lambda>e. wp (h e) Q E) w"
  by (simp add: wp_def catch_io_def split: prod.split sum.split)

lemma wp_if [wps]: "wp (if b then m else n) Q E w = (if b then wp m Q E w else wp n Q E w)"
  by simp

lemma wp_option [wps]: "wp (case x of None \<Rightarrow> m | Some y \<Rightarrow> n y) Q E w = (case x of None \<Rightarrow> wp m Q E w | Some y \<Rightarrow> wp (n y) Q E w)"
  by (simp split: option.split)

lemma wp_prod [wps]: "wp (case x of (a, b) \<Rightarrow> m a b) Q E w = (case x of (a, b) \<Rightarrow> wp (m a b) Q E w)"
  by (simp split: prod.split)

lemma wp_sum [wps]: "wp (case x of Inl a \<Rightarrow> m a | Inr b \<Rightarrow> n b) Q E w = (case x of Inl a \<Rightarrow> wp (m a) Q E w | Inr b \<Rightarrow> wp (n b) Q E w)"
  by (simp split: sum.split)

lemma wp_list [wps]: "wp (case xs of [] \<Rightarrow> m | y # ys \<Rightarrow> n y ys) Q E w = (case xs of [] \<Rightarrow> wp m Q E w | y # ys \<Rightarrow> wp (n y ys) Q E w)"
  by (simp split: list.split)

lemma wp_nat [wps]: "wp (case n of 0 \<Rightarrow> m | Suc k \<Rightarrow> f k) Q E w = (case n of 0 \<Rightarrow> wp m Q E w | Suc k \<Rightarrow> wp (f k) Q E w)"
  by (simp split: nat.split)

lemma wp_let [wps]: "wp (let x = a in m x) Q E w = (let x = a in wp (m x) Q E w)"
  by simp

lemma wp_mono:
  "wp m Q E w \<Longrightarrow> (\<And>x w. Q x w \<Longrightarrow> Q' x w) \<Longrightarrow> (\<And>e w. E e w \<Longrightarrow> E' e w) \<Longrightarrow> wp m Q' E' w"
  by (auto simp: wp_def split: prod.splits sum.splits)

lemma wpD:
  "wp m Q E w \<Longrightarrow> m w = (Inr x, w') \<Longrightarrow> Q x w'"
  "wp m Q E w \<Longrightarrow> m w = (Inl e, w') \<Longrightarrow> E e w'"
  by (simp_all add: wp_def)

lemma wp_run: "wp m (\<lambda>_. P) (\<lambda>_. P) w \<Longrightarrow> m w = (r, w') \<Longrightarrow> P w'"
  by (cases r) (simp_all add: wp_def)

section \<open>The world\<close>

record ('o, 'e) traced =
  t_outside :: 'o
  t_random :: "nat \<Rightarrow> byte"
  t_drawn :: nat
  t_log :: "'e list"

definition call :: "('o, 'a) io \<Rightarrow> (('o, 'e, 'x) traced_scheme, 'a) io" where
  "call m w = (let (r, out) = m (t_outside w) in (r, w\<lparr>t_outside := out\<rparr>))"

definition log_event :: "'e \<Rightarrow> (('o, 'e, 'x) traced_scheme, unit) io" where
  "log_event e w = (Inr (), w\<lparr>t_log := t_log w @ [e]\<rparr>)"

definition noting :: "('a \<Rightarrow> 'e list) \<Rightarrow> (('o, 'e, 'x) traced_scheme, 'a) io \<Rightarrow> (('o, 'e, 'x) traced_scheme, 'a) io" where
  "noting f m = bind_io m (\<lambda>x w. (Inr x, w\<lparr>t_log := t_log w @ f x\<rparr>))"

text \<open>\<open>randomBytes(n)\<close>: the next \<open>n\<close> bytes of the stream.\<close>

definition draw :: "nat \<Rightarrow> (('o, 'e, 'x) traced_scheme, bytes) io" where
  "draw n w = (Inr (map (t_random w) [t_drawn w..<t_drawn w + n]), w\<lparr>t_drawn := t_drawn w + n\<rparr>)"

lemma wp_call [wps]:
  "wp (call m) Q E w = (\<forall>r out. m (t_outside w) = (r, out) \<longrightarrow>
     (case r of Inr x \<Rightarrow> Q x (w\<lparr>t_outside := out\<rparr>) | Inl e \<Rightarrow> E e (w\<lparr>t_outside := out\<rparr>)))"
  by (auto simp: wp_def call_def split: prod.splits)

lemma wp_log_event [wps]: "wp (log_event e) Q E w = Q () (w\<lparr>t_log := t_log w @ [e]\<rparr>)"
  by (simp add: wp_def log_event_def)

lemma wp_noting [wps]: "wp (noting f m) Q E w = wp m (\<lambda>x w. Q x (w\<lparr>t_log := t_log w @ f x\<rparr>)) E w"
  by (simp add: noting_def wp_def bind_io_def split: prod.split sum.split)

lemma wp_draw [wps]: "wp (draw n) Q E w = Q (map (t_random w) [t_drawn w..<t_drawn w + n]) (w\<lparr>t_drawn := t_drawn w + n\<rparr>)"
  by (simp add: wp_def draw_def)

section \<open>Every event is allowed where it stands\<close>

definition every_event :: "('e list \<Rightarrow> 'e \<Rightarrow> bool) \<Rightarrow> 'e list \<Rightarrow> bool" where
  "every_event ok es \<longleftrightarrow> (\<forall>xs e ys. es = xs @ e # ys \<longrightarrow> ok xs e)"

lemma every_event_Nil [simp]: "every_event ok []"
  by (simp add: every_event_def)

text \<open>The events \<open>fs\<close> are allowed after \<open>es\<close>, one after the other.\<close>

fun tail_ok :: "('e list \<Rightarrow> 'e \<Rightarrow> bool) \<Rightarrow> 'e list \<Rightarrow> 'e list \<Rightarrow> bool" where
  "tail_ok ok es [] \<longleftrightarrow> True"
| "tail_ok ok es (f # fs) \<longleftrightarrow> ok es f \<and> tail_ok ok (es @ [f]) fs"

lemma every_event_snoc: "every_event ok (es @ [e]) \<longleftrightarrow> every_event ok es \<and> ok es e"
proof
  assume all: "every_event ok (es @ [e])"
  then have "ok es e" unfolding every_event_def by blast
  moreover have "ok xs f" if "es = xs @ f # ys" for xs f ys
    using all that unfolding every_event_def by (metis append.assoc append_Cons)
  ultimately show "every_event ok es \<and> ok es e" unfolding every_event_def by blast
next
  assume "every_event ok es \<and> ok es e"
  then show "every_event ok (es @ [e])"
    unfolding every_event_def by (auto simp: append_eq_append_conv2 append_eq_Cons_conv Cons_eq_append_conv)
qed

lemma every_event_append [simp]: "every_event ok (es @ fs) \<longleftrightarrow> every_event ok es \<and> tail_ok ok es fs"
proof (induction fs arbitrary: es)
  case Nil
  show ?case by simp
next
  case (Cons f fs)
  from Cons.IH [of "es @ [f]"] show ?case by (auto simp: every_event_snoc)
qed

lemma every_eventD: "every_event ok es \<Longrightarrow> es = xs @ e # ys \<Longrightarrow> ok xs e"
  by (simp add: every_event_def)

section \<open>Invariants of a program\<close>

text \<open>\<open>keeps I m\<close>: run in a world with \<open>I\<close>, \<open>m\<close> ends in a world with \<open>I\<close>, whether it returns or throws.\<close>

named_theorems keepers

definition keeps :: "('w \<Rightarrow> bool) \<Rightarrow> ('w, 'a) io \<Rightarrow> bool" where
  "keeps I m \<longleftrightarrow> (\<forall>w. I w \<longrightarrow> wp m (\<lambda>_. I) (\<lambda>_. I) w)"

lemma keepsI: "(\<And>w. I w \<Longrightarrow> wp m (\<lambda>_. I) (\<lambda>_. I) w) \<Longrightarrow> keeps I m"
  by (simp add: keeps_def)

lemma keepsD: "keeps I m \<Longrightarrow> I w \<Longrightarrow> wp m (\<lambda>_. I) (\<lambda>_. I) w"
  by (simp add: keeps_def)

lemma keeps_snd: "keeps I m \<Longrightarrow> I w \<Longrightarrow> I (snd (m w))"
  by (rule wp_run [OF keepsD]) (auto simp: prod_eq_iff)

lemma keeps_ret [keepers]: "keeps I (ret x)"
  by (simp add: keeps_def wps)

lemma keeps_throw [keepers]: "keeps I (throw e)"
  by (simp add: keeps_def wps)

lemma keeps_lift [keepers]: "keeps I (lift_result r)"
  by (simp add: keeps_def wps split: sum.split)

lemma keeps_bind [keepers]: "keeps I m \<Longrightarrow> (\<And>x. keeps I (f x)) \<Longrightarrow> keeps I (bind_io m f)"
  by (auto simp: keeps_def wp_bind intro: wp_mono)

lemma keeps_catch [keepers]: "keeps I m \<Longrightarrow> (\<And>e. keeps I (h e)) \<Longrightarrow> keeps I (catch_io m h)"
  by (auto simp: keeps_def wp_catch intro: wp_mono)

lemma keeps_if [keepers]: "(b \<Longrightarrow> keeps I m) \<Longrightarrow> (\<not> b \<Longrightarrow> keeps I n) \<Longrightarrow> keeps I (if b then m else n)"
  by simp

lemma keeps_option [keepers]: "keeps I m \<Longrightarrow> (\<And>y. keeps I (n y)) \<Longrightarrow> keeps I (case x of None \<Rightarrow> m | Some y \<Rightarrow> n y)"
  by (cases x) simp_all

lemma keeps_sum [keepers]: "(\<And>y. keeps I (m y)) \<Longrightarrow> (\<And>y. keeps I (n y)) \<Longrightarrow> keeps I (case x of Inl y \<Rightarrow> m y | Inr y \<Rightarrow> n y)"
  by (cases x) simp_all

lemma keeps_prod [keepers]: "(\<And>a b. keeps I (m a b)) \<Longrightarrow> keeps I (case x of (a, b) \<Rightarrow> m a b)"
  by (cases x) simp

lemma keeps_let [keepers]: "(\<And>x. keeps I (m x)) \<Longrightarrow> keeps I (let x = a in m x)"
  by simp

lemma wp_request:
  "wp m (\<lambda>_. P) (\<lambda>_. R) w \<Longrightarrow> (\<And>x w. P w \<Longrightarrow> wp (f x) Q (\<lambda>_. R) w) \<Longrightarrow> wp (bind_io m f) Q (\<lambda>_. R) w"
  unfolding wp_bind by (erule wp_mono) auto

text \<open>An invariant that depends neither on the outside nor on the random stream holds across every call and draw.\<close>

locale inside =
  fixes I :: "('o, 'e, 'x) traced_scheme \<Rightarrow> bool"
  assumes outside_irrelevant: "I (w\<lparr>t_outside := out\<rparr>) = I w"
    and stream_irrelevant: "I (w\<lparr>t_drawn := n\<rparr>) = I w"
begin

lemma keeps_call: "keeps I (call m)"
  by (auto simp: keeps_def wps outside_irrelevant split: sum.split)

lemma keeps_draw: "keeps I (draw n)"
  by (simp add: keeps_def wps stream_irrelevant)

lemma keeps_log: "(\<And>w. I w \<Longrightarrow> I (w\<lparr>t_log := t_log w @ [e]\<rparr>)) \<Longrightarrow> keeps I (log_event e)"
  by (simp add: keeps_def wps)

lemma keeps_noting: "keeps I m \<Longrightarrow> (\<And>x w. I w \<Longrightarrow> I (w\<lparr>t_log := t_log w @ f x\<rparr>)) \<Longrightarrow> keeps I (noting f m)"
  by (auto simp: keeps_def wp_noting intro: wp_mono)

lemmas keeps_outside = keeps_call keeps_draw

end

end
