(* ===== verification/Json.thy ===== *)
theory Json
  imports Bytes
begin

text \<open>
  \<open>JSON.stringify\<close> and \<open>JSON.parse\<close>, which every encrypted payload goes through. Numbers are
  integers and decimal fractions, kept exactly; a literal with an exponent, and with it numbers the language prints
  with one, is outside the model and does not parse. An object is its own enumerable string properties in order, with a repeated name overwriting the
  earlier value in place. Property names that are array indices, which the language would move to
  the front, do not occur in the payloads. The main lemma is the round trip \<open>parse_stringify\<close>.
\<close>

datatype json =
    JNull
  | JBool bool
  | JNum int
  | JDec int nat
  | JStr string
  | JArr "json list"
  | JObj "(string \<times> json) list"

text \<open>\<open>JDec m k\<close> is \<open>m / 10^k\<close> with a last digit that is not zero.\<close>

section \<open>Printing\<close>

definition digit_char :: "nat \<Rightarrow> char" where
  "digit_char n = ''0123456789'' ! n"

fun nat_text :: "nat \<Rightarrow> string" where
  "nat_text n = (if n < 10 then [digit_char n] else nat_text (n div 10) @ [digit_char (n mod 10)])"

declare nat_text.simps [simp del]

definition int_text :: "int \<Rightarrow> string" where
  "int_text i = (if i < 0 then CHR ''-'' # nat_text (nat (- i)) else nat_text (nat i))"

fun frac_text :: "nat \<Rightarrow> nat \<Rightarrow> string" where
  "frac_text 0 n = []"
| "frac_text (Suc k) n = frac_text k (n div 10) @ [digit_char (n mod 10)]"

definition dec_text :: "int \<Rightarrow> nat \<Rightarrow> string" where
  "dec_text m k =
     (let a = nat \<bar>m\<bar> in (if m < 0 then ''-'' else []) @ nat_text (a div 10 ^ k) @ ''.'' @ frac_text k (a mod 10 ^ k))"

abbreviation quote_char :: char where "quote_char \<equiv> CHR 0x22"
abbreviation backslash :: char where "backslash \<equiv> CHR 0x5C"

definition esc_char :: "char \<Rightarrow> string" where
  "esc_char c =
     (if c = quote_char then [backslash, quote_char]
      else if c = backslash then [backslash, backslash]
      else if c = CHR 0x08 then [backslash, CHR ''b'']
      else if c = CHR 0x0C then [backslash, CHR ''f'']
      else if c = CHR 0x0A then [backslash, CHR ''n'']
      else if c = CHR 0x0D then [backslash, CHR ''r'']
      else if c = CHR 0x09 then [backslash, CHR ''t'']
      else if (of_char c :: nat) < 32 then
        [backslash, CHR ''u'', CHR ''0'', CHR ''0'', hex_digit (of_char c div 16), hex_digit (of_char c)]
      else [c])"

definition str_text :: "string \<Rightarrow> string" where
  "str_text s = quote_char # concat (map esc_char s) @ [quote_char]"

fun sep_by :: "string list \<Rightarrow> string" where
  "sep_by [] = []"
| "sep_by [x] = x"
| "sep_by (x # y # r) = x @ CHR '','' # sep_by (y # r)"

fun stringify :: "json \<Rightarrow> string" where
  "stringify JNull = ''null''"
| "stringify (JBool b) = (if b then ''true'' else ''false'')"
| "stringify (JNum i) = int_text i"
| "stringify (JDec m k) = dec_text m k"
| "stringify (JStr s) = str_text s"
| "stringify (JArr xs) = CHR ''['' # sep_by (map stringify xs) @ [CHR '']'']"
| "stringify (JObj ms) =
     CHR ''{'' # sep_by (map (\<lambda>(k, v). str_text k @ CHR '':'' # stringify v) ms) @ [CHR ''}'']"

section \<open>Parsing\<close>

definition json_space :: "char \<Rightarrow> bool" where
  "json_space c = (c \<in> {CHR '' '', CHR 0x09, CHR 0x0A, CHR 0x0D})"

definition ws :: "string \<Rightarrow> string" where
  "ws s = dropWhile json_space s"

definition is_digit :: "char \<Rightarrow> bool" where
  "is_digit c = (c \<in> set ''0123456789'')"

definition digit_value :: "char \<Rightarrow> nat" where
  "digit_value c = of_char c - 48"

definition read_nat :: "string \<Rightarrow> nat" where
  "read_nat ds = foldl (\<lambda>n c. n * 10 + digit_value c) 0 ds"

definition hex_value :: "char \<Rightarrow> nat option" where
  "hex_value c = (case index_from 0 c ''0123456789abcdef'' of
     Some n \<Rightarrow> Some n | None \<Rightarrow> map_option ((+) 10) (index_from 0 c ''ABCDEF''))"

text \<open>\<open>\u\<close> escapes above 255 are code units outside the model.\<close>

definition hex4 :: "char \<Rightarrow> char \<Rightarrow> char \<Rightarrow> char \<Rightarrow> char option" where
  "hex4 a b c d =
     (case (hex_value a, hex_value b, hex_value c, hex_value d) of
        (Some 0, Some 0, Some x, Some y) \<Rightarrow> Some (char_of (x * 16 + y))
      | _ \<Rightarrow> None)"

definition escape_of :: "char \<Rightarrow> char option" where
  "escape_of e = map_of [(quote_char, quote_char), (backslash, backslash), (CHR ''/'', CHR ''/''),
     (CHR ''b'', CHR 0x08), (CHR ''f'', CHR 0x0C), (CHR ''n'', CHR 0x0A), (CHR ''r'', CHR 0x0D), (CHR ''t'', CHR 0x09)] e"

definition push :: "char \<Rightarrow> (string \<times> string) option \<Rightarrow> (string \<times> string) option" where
  "push c = map_option (\<lambda>(s, r). (c # s, r))"

fun str_body :: "string \<Rightarrow> (string \<times> string) option" where
  "str_body [] = None"
| "str_body (c # r) =
     (if c = quote_char then Some ([], r)
      else if c = backslash then
        (case r of
           [] \<Rightarrow> None
         | e # r1 \<Rightarrow>
             if e = CHR ''u'' then
               (case r1 of
                  x1 # x2 # x3 # x4 # r2 \<Rightarrow>
                    (case hex4 x1 x2 x3 x4 of None \<Rightarrow> None | Some d \<Rightarrow> push d (str_body r2))
                | _ \<Rightarrow> None)
             else (case escape_of e of None \<Rightarrow> None | Some d \<Rightarrow> push d (str_body r1)))
      else if (of_char c :: nat) < 32 then None
      else push c (str_body r))"

definition num_lit :: "string \<Rightarrow> (int \<times> string) option" where
  "num_lit s =
     (let neg = (s \<noteq> [] \<and> hd s = CHR ''-''); t = (if neg then tl s else s);
          ds = takeWhile is_digit t; r = dropWhile is_digit t in
      if ds = [] \<or> (hd ds = CHR ''0'' \<and> tl ds \<noteq> []) \<or> (r \<noteq> [] \<and> hd r \<in> set ''.eE'') then None
      else Some (if neg then - int (read_nat ds) else int (read_nat ds), r))"

fun dec_norm :: "int \<Rightarrow> nat \<Rightarrow> json" where
  "dec_norm m 0 = JNum m"
| "dec_norm m (Suc k) = (if m mod 10 = 0 then dec_norm (m div 10) k else JDec m (Suc k))"

definition dec_lit :: "string \<Rightarrow> (json \<times> string) option" where
  "dec_lit s =
     (let neg = (s \<noteq> [] \<and> hd s = CHR ''-''); t = (if neg then tl s else s);
          ds = takeWhile is_digit t; r = dropWhile is_digit t;
          fs = takeWhile is_digit (tl r); rest = dropWhile is_digit (tl r) in
      if ds = [] \<or> (hd ds = CHR ''0'' \<and> tl ds \<noteq> []) \<or> r = [] \<or> hd r \<noteq> CHR ''.'' \<or> fs = [] \<or> (rest \<noteq> [] \<and> hd rest \<in> set ''eE'') then None
      else Some (dec_norm (if neg then - int (read_nat (ds @ fs)) else int (read_nat (ds @ fs))) (length fs), rest))"

definition number_lit :: "string \<Rightarrow> (json \<times> string) option" where
  "number_lit s = (case num_lit s of Some (i, r) \<Rightarrow> Some (JNum i, r) | None \<Rightarrow> dec_lit s)"

definition strip_prefix :: "string \<Rightarrow> string \<Rightarrow> string option" where
  "strip_prefix p s = (if take (length p) s = p then Some (drop (length p) s) else None)"

fun parse_value :: "nat \<Rightarrow> string \<Rightarrow> (json \<times> string) option"
and parse_elems :: "nat \<Rightarrow> string \<Rightarrow> (json list \<times> string) option"
and parse_members :: "nat \<Rightarrow> string \<Rightarrow> ((string \<times> json) list \<times> string) option" where
  "parse_value 0 s = None"
| "parse_value (Suc n) s =
     (case ws s of
        [] \<Rightarrow> None
      | c # r \<Rightarrow>
          if c = quote_char then map_option (\<lambda>(t, r1). (JStr t, r1)) (str_body r)
          else if c = CHR ''['' then
            (case ws r of
               [] \<Rightarrow> None
             | d # r1 \<Rightarrow> if d = CHR '']'' then Some (JArr [], r1)
                 else map_option (\<lambda>(xs, r2). (JArr xs, r2)) (parse_elems n r))
          else if c = CHR ''{'' then
            (case ws r of
               [] \<Rightarrow> None
             | d # r1 \<Rightarrow> if d = CHR ''}'' then Some (JObj [], r1)
                 else map_option (\<lambda>(ms, r2). (JObj (spread [] ms), r2)) (parse_members n r))
          else if c = CHR ''n'' then map_option (Pair JNull) (strip_prefix ''null'' (c # r))
          else if c = CHR ''t'' then map_option (Pair (JBool True)) (strip_prefix ''true'' (c # r))
          else if c = CHR ''f'' then map_option (Pair (JBool False)) (strip_prefix ''false'' (c # r))
          else number_lit (c # r))"
| "parse_elems 0 s = None"
| "parse_elems (Suc n) s =
     (case parse_value n s of
        None \<Rightarrow> None
      | Some (v, r) \<Rightarrow>
          (case ws r of
             [] \<Rightarrow> None
           | d # r1 \<Rightarrow>
               if d = CHR '','' then map_option (\<lambda>(vs, r2). (v # vs, r2)) (parse_elems n r1)
               else if d = CHR '']'' then Some ([v], r1) else None))"
| "parse_members 0 s = None"
| "parse_members (Suc n) s =
     (case ws s of
        [] \<Rightarrow> None
      | q # t \<Rightarrow>
          if q \<noteq> quote_char then None
          else case str_body t of
            None \<Rightarrow> None
          | Some (k, r) \<Rightarrow>
              (case ws r of
                 [] \<Rightarrow> None
               | d # r1 \<Rightarrow>
                   if d \<noteq> CHR '':'' then None
                   else case parse_value n r1 of
                     None \<Rightarrow> None
                   | Some (v, r2) \<Rightarrow>
                       (case ws r2 of
                          [] \<Rightarrow> None
                        | e # r3 \<Rightarrow>
                            if e = CHR '','' then map_option (\<lambda>(ms, r4). ((k, v) # ms, r4)) (parse_members n r3)
                            else if e = CHR ''}'' then Some ([(k, v)], r3) else None)))"

text \<open>Every two calls consume a character, so this fuel never runs out before the text does.\<close>

definition parse :: "string \<Rightarrow> json result" where
  "parse s = (case parse_value (2 * length s + 2) s of
     Some (v, r) \<Rightarrow> if ws r = [] then Inr v else Inl (NamedError ''SyntaxError'' ''JSON.parse'')
   | None \<Rightarrow> Inl (NamedError ''SyntaxError'' ''JSON.parse''))"

section \<open>Field access\<close>

definition field :: "string \<Rightarrow> json \<Rightarrow> json option" where
  "field k j = (case j of JObj ms \<Rightarrow> map_of ms k | _ \<Rightarrow> None)"

fun str_of :: "json option \<Rightarrow> string option" where
  "str_of (Some (JStr s)) = Some s"
| "str_of _ = None"

fun num_of :: "json option \<Rightarrow> int option" where
  "num_of (Some (JNum n)) = Some n"
| "num_of _ = None"

fun truthy :: "json option \<Rightarrow> bool" where
  "truthy None = False"
| "truthy (Some JNull) = False"
| "truthy (Some (JBool b)) = b"
| "truthy (Some (JNum n)) = (n \<noteq> 0)"
| "truthy (Some (JDec m _)) = (m \<noteq> 0)"
| "truthy (Some (JStr s)) = (s \<noteq> [])"
| "truthy (Some (JArr _)) = True"
| "truthy (Some (JObj _)) = True"

text \<open>\<open>String(value)\<close> of a parsed value. An object that brings a \<open>toString\<close> of its own is outside the model.\<close>

fun js_text :: "json \<Rightarrow> string" where
  "js_text JNull = ''null''"
| "js_text (JBool b) = (if b then ''true'' else ''false'')"
| "js_text (JNum i) = int_text i"
| "js_text (JDec m k) = dec_text m k"
| "js_text (JStr s) = s"
| "js_text (JArr xs) = sep_by (map (\<lambda>v. if v = JNull then [] else js_text v) xs)"
| "js_text (JObj _) = ''[object Object]''"

section \<open>Round trip\<close>

fun wf_json :: "json \<Rightarrow> bool" where
  "wf_json (JArr xs) = list_all wf_json xs"
| "wf_json (JObj ms) = (distinct (keys_of ms) \<and> list_all (\<lambda>p. wf_json (snd p)) ms)"
| "wf_json (JDec m k) = (0 < k \<and> m mod 10 \<noteq> 0)"
| "wf_json _ = True"

lemma update_new: "k \<notin> set (keys_of a) \<Longrightarrow> AList.update k v a = a @ [(k, v)]"
  by (induction a) auto

lemma spread_distinct: "distinct (keys_of a @ keys_of b) \<Longrightarrow> spread a b = a @ b"
proof (induction b arbitrary: a)
  case (Cons p b)
  obtain k v where p: "p = (k, v)" by (cases p)
  with Cons.prems have "k \<notin> set (keys_of a)" by auto
  then have "AList.update k v a = a @ [(k, v)]" by (rule update_new)
  with Cons p show ?case by simp
qed simp

lemma read_nat_snoc: "read_nat (ds @ [c]) = read_nat ds * 10 + digit_value c"
  by (simp add: read_nat_def)

lemma digit_char_facts:
  assumes "n < 10"
  shows "digit_value (digit_char n) = n" "is_digit (digit_char n)" "n \<noteq> 0 \<Longrightarrow> digit_char n \<noteq> CHR ''0''"
proof -
  have "n \<in> {0, 1, 2, 3, 4, 5, 6, 7, 8, 9}" using assms by auto
  then show "digit_value (digit_char n) = n" "is_digit (digit_char n)" "n \<noteq> 0 \<Longrightarrow> digit_char n \<noteq> CHR ''0''"
    by (auto simp: digit_char_def digit_value_def is_digit_def)
qed

lemma nat_text_digits: "list_all is_digit (nat_text n) \<and> nat_text n \<noteq> []"
proof (induction n rule: nat_text.induct)
  case (1 n)
  then show ?case by (auto simp: nat_text.simps [of n] digit_char_facts)
qed

lemma read_nat_text [simp]: "read_nat (nat_text n) = n"
proof (induction n rule: nat_text.induct)
  case (1 n)
  show ?case
  proof (cases "n < 10")
    case True
    then show ?thesis by (subst nat_text.simps) (simp add: read_nat_def digit_char_facts)
  next
    case False
    with 1 show ?thesis by (subst nat_text.simps) (simp add: read_nat_snoc digit_char_facts)
  qed
qed

lemma nat_text_lead: "10 \<le> n \<Longrightarrow> hd (nat_text n) \<noteq> CHR ''0''"
proof (induction n rule: nat_text.induct)
  case (1 n)
  have tail: "nat_text n = nat_text (n div 10) @ [digit_char (n mod 10)]"
    using 1 by (subst nat_text.simps) simp
  show ?case
  proof (cases "n div 10 < 10")
    case True
    with tail have "nat_text n = [digit_char (n div 10), digit_char (n mod 10)]"
      by (simp add: nat_text.simps [of "n div 10"])
    moreover have "n div 10 \<noteq> 0" using "1.prems" by simp
    ultimately show ?thesis using True by (simp add: digit_char_facts)
  next
    case False
    with 1 have "hd (nat_text (n div 10)) \<noteq> CHR ''0''" by simp
    with tail nat_text_digits [of "n div 10"] show ?thesis by simp
  qed
qed

lemma nat_text_no_zero: "\<not> (hd (nat_text n) = CHR ''0'' \<and> tl (nat_text n) \<noteq> [])"
  using nat_text_lead [of n] by (cases "n < 10") (auto simp: nat_text.simps [of n])

text \<open>What may follow a printed value: nothing that a number literal would continue with.\<close>

definition ends_number :: "string \<Rightarrow> bool" where
  "ends_number r = (r = [] \<or> (\<not> is_digit (hd r) \<and> hd r \<notin> set ''.eE''))"

lemma take_digits:
  assumes "list_all is_digit ds" "ends_number r"
  shows "takeWhile is_digit (ds @ r) = ds" "dropWhile is_digit (ds @ r) = r"
  using assms by (induction ds) (cases r; auto simp: ends_number_def)+

lemma num_lit_digits:
  assumes "list_all is_digit ds" "ends_number r" "ds \<noteq> []" "\<not> (hd ds = CHR ''0'' \<and> tl ds \<noteq> [])"
  shows "num_lit (ds @ r) = Some (int (read_nat ds), r)"
    "num_lit (CHR ''-'' # ds @ r) = Some (- int (read_nat ds), r)"
proof -
  note td = take_digits [OF assms(1,2)]
  have minus: "hd ds \<noteq> CHR ''-''" using assms(1,3) by (cases ds) (auto simp: is_digit_def)
  have r: "\<not> (r \<noteq> [] \<and> hd r \<in> set ''.eE'')" using assms(2) by (auto simp: ends_number_def)
  show "num_lit (ds @ r) = Some (int (read_nat ds), r)"
    unfolding num_lit_def Let_def using minus assms(3,4) r td by (simp del: takeWhile_append takeWhile_append1)
  show "num_lit (CHR ''-'' # ds @ r) = Some (- int (read_nat ds), r)"
    unfolding num_lit_def Let_def using assms(3,4) r td by simp
qed

lemmas num_lit_nat =
  num_lit_digits [OF conjunct1 [OF nat_text_digits] _ conjunct2 [OF nat_text_digits] nat_text_no_zero, unfolded read_nat_text]

lemma num_lit_int: "ends_number r \<Longrightarrow> num_lit (int_text i @ r) = Some (i, r)"
  by (simp add: int_text_def num_lit_nat)

lemma frac_text_digits [simp]: "length (frac_text k n) = k" "list_all is_digit (frac_text k n)"
  by (induction k arbitrary: n) (auto simp: digit_char_facts)

lemma read_frac: "n < 10 ^ k \<Longrightarrow> read_nat (ds @ frac_text k n) = read_nat ds * 10 ^ k + n"
proof (induction k arbitrary: n)
  case (Suc k)
  have "read_nat (ds @ frac_text (Suc k) n) = read_nat (ds @ frac_text k (n div 10)) * 10 + n mod 10"
    using read_nat_snoc [of "ds @ frac_text k (n div 10)"] by (simp add: digit_char_facts)
  also have "\<dots> = (read_nat ds * 10 ^ k + n div 10) * 10 + n mod 10" using Suc by simp
  also have "\<dots> = read_nat ds * 10 ^ Suc k + n" by (simp add: algebra_simps)
  finally show ?case .
qed simp

lemma dec_norm_id: "0 < k \<Longrightarrow> m mod 10 \<noteq> 0 \<Longrightarrow> dec_norm m k = JDec m k"
  by (cases k) simp_all

lemma number_lit_digits:
  assumes "list_all is_digit ds" "ds \<noteq> []" "\<not> (hd ds = CHR ''0'' \<and> tl ds \<noteq> [])" "list_all is_digit fs" "fs \<noteq> []" "ends_number r"
  shows "number_lit (ds @ CHR ''.'' # fs @ r) = Some (dec_norm (int (read_nat (ds @ fs))) (length fs), r)"
    "number_lit (CHR ''-'' # ds @ CHR ''.'' # fs @ r) = Some (dec_norm (- int (read_nat (ds @ fs))) (length fs), r)"
proof -
  have point: "takeWhile is_digit (ds @ CHR ''.'' # t) = ds" "dropWhile is_digit (ds @ CHR ''.'' # t) = CHR ''.'' # t" for t
    using assms(1) by (auto simp: list_all_iff takeWhile_append dropWhile_append is_digit_def)
  note frac = take_digits [OF assms(4,6)]
  have minus: "hd (ds @ t) \<noteq> CHR ''-''" for t using assms(1,2) by (cases ds) (auto simp: is_digit_def)
  have rest: "\<not> (r \<noteq> [] \<and> hd r \<in> set ''eE'')" using assms(6) by (auto simp: ends_number_def)
  have none: "num_lit (ds @ CHR ''.'' # fs @ r) = None" "num_lit (CHR ''-'' # ds @ CHR ''.'' # fs @ r) = None"
    using point minus by (simp_all add: num_lit_def Let_def is_digit_def [of "CHR ''.''"])
  show "number_lit (ds @ CHR ''.'' # fs @ r) = Some (dec_norm (int (read_nat (ds @ fs))) (length fs), r)"
    unfolding number_lit_def none dec_lit_def Let_def using minus assms(2,3,5) point frac rest by simp
  show "number_lit (CHR ''-'' # ds @ CHR ''.'' # fs @ r) = Some (dec_norm (- int (read_nat (ds @ fs))) (length fs), r)"
    unfolding number_lit_def none dec_lit_def Let_def using assms(2,3,5) point frac rest by simp
qed

lemma number_lit_dec:
  assumes "wf_json (JDec m k)" "ends_number r"
  shows "number_lit (dec_text m k @ r) = Some (JDec m k, r)"
proof -
  define a where "a = nat \<bar>m\<bar>"
  have ds: "list_all is_digit (nat_text (a div 10 ^ k))" "nat_text (a div 10 ^ k) \<noteq> []" using nat_text_digits by auto
  have k: "0 < k" "m mod 10 \<noteq> 0" using assms(1) by auto
  then have fs: "frac_text k (a mod 10 ^ k) \<noteq> []" by (metis frac_text_digits(1) length_0_conv less_numeral_extra(3))
  have val: "read_nat (nat_text (a div 10 ^ k) @ frac_text k (a mod 10 ^ k)) = a" by (simp add: read_frac div_mult_mod_eq)
  note lit = number_lit_digits [OF ds nat_text_no_zero frac_text_digits(2) fs assms(2), unfolded val frac_text_digits(1)]
  show ?thesis using lit dec_norm_id [OF k] by (cases "m < 0") (simp_all add: dec_text_def Let_def flip: a_def, simp_all add: a_def)
qed

lemma hex_value_digit: "n < 16 \<Longrightarrow> hex_value (hex_digit n) = Some n"
proof -
  assume n: "n < 16"
  then have "index_from 0 (''0123456789abcdef'' ! n) ''0123456789abcdef'' = Some (0 + n)"
    by (intro index_from_nth) simp_all
  with n show ?thesis by (simp add: hex_value_def hex_digit_def)
qed

lemma hex4_control:
  assumes "(of_char c :: nat) < 32"
  shows "hex4 (CHR ''0'') (CHR ''0'') (hex_digit (of_char c div 16)) (hex_digit (of_char c)) = Some c"
proof -
  have "hex_digit (of_char c) = hex_digit (of_char c mod 16)" by (simp add: hex_digit_inj)
  moreover have "hex_value (hex_digit (of_char c mod 16)) = Some (of_char c mod 16)"
    by (rule hex_value_digit) simp
  moreover have "hex_value (hex_digit (of_char c div 16)) = Some (of_char c div 16)"
    using assms by (intro hex_value_digit) simp
  moreover have "hex_value (CHR ''0'') = Some 0" by (simp add: hex_value_def)
  moreover have "char_of (of_char c div 16 * 16 + of_char c mod 16 :: nat) = c" by simp
  ultimately show ?thesis by (simp add: hex4_def)
qed

lemma str_body_esc: "str_body (esc_char c @ r) = push c (str_body r)"
  by (simp add: esc_char_def escape_of_def hex4_control)

lemma str_body_text: "str_body (concat (map esc_char s) @ quote_char # r) = Some (s, r)"
  by (induction s) (simp_all add: str_body_esc push_def)

lemma ws_id [simp]: "s \<noteq> [] \<Longrightarrow> \<not> json_space (hd s) \<Longrightarrow> ws s = s"
  by (cases s) (simp_all add: ws_def)


lemma number_text_head:
  "\<exists>c t. int_text i = c # t \<and> (c = CHR ''-'' \<or> is_digit c)" "\<exists>c t. dec_text m k = c # t \<and> (c = CHR ''-'' \<or> is_digit c)"
proof -
  have "\<exists>c t. nat_text n = c # t \<and> is_digit c" for n
    using nat_text_digits [of n] by (cases "nat_text n") simp_all
  note head = this
  from head [of "nat i"] show "\<exists>c t. int_text i = c # t \<and> (c = CHR ''-'' \<or> is_digit c)"
    by (auto simp: int_text_def)
  from head [of "nat \<bar>m\<bar> div 10 ^ k"] show "\<exists>c t. dec_text m k = c # t \<and> (c = CHR ''-'' \<or> is_digit c)"
    by (auto simp: dec_text_def Let_def)
qed

definition value_head :: "char \<Rightarrow> bool" where
  "value_head c = (c = CHR ''-'' \<or> is_digit c \<or> c \<in> {quote_char, CHR ''['', CHR ''{'', CHR ''n'', CHR ''t'', CHR ''f''})"

lemma value_head_not: "value_head c \<Longrightarrow> \<not> json_space c \<and> c \<noteq> CHR '']'' \<and> c \<noteq> CHR ''}''"
  by (auto simp: value_head_def json_space_def is_digit_def)

lemma stringify_head: "\<exists>c t. stringify v = c # t \<and> value_head c"
proof (cases v)
  case (JNum i)
  with number_text_head(1) [of i] show ?thesis by (auto simp: value_head_def)
next
  case (JDec m k)
  with number_text_head(2) [of m k] show ?thesis by (auto simp: value_head_def)
qed (auto simp: value_head_def str_text_def)

lemma sep_by_Cons: "sep_by (x # xs) = x @ (if xs = [] then [] else CHR '','' # sep_by xs)"
  by (cases xs) simp_all

lemma ends_number_after [simp]:
  "ends_number (CHR '','' # r)" "ends_number (CHR '']'' # r)" "ends_number (CHR ''}'' # r)" "ends_number []"
  by (simp_all add: ends_number_def is_digit_def)

lemma ws_punct [simp]:
  "ws (CHR '','' # r) = CHR '','' # r" "ws (CHR '']'' # r) = CHR '']'' # r" "ws (CHR ''}'' # r) = CHR ''}'' # r"
  "ws (CHR '':'' # r) = CHR '':'' # r" "ws (quote_char # r) = quote_char # r" "ws [] = []"
  by (simp_all add: ws_def json_space_def)

definition reads_back :: "json \<Rightarrow> bool" where
  "reads_back v = (\<forall>n r. 2 * length (stringify v) \<le> n \<longrightarrow> ends_number r \<longrightarrow>
     parse_value n (stringify v @ r) = Some (v, r))"

lemma parse_elems_text:
  assumes "\<And>v. v \<in> set vs \<Longrightarrow> reads_back v" "vs \<noteq> []" "2 * length (sep_by (map stringify vs)) + 1 \<le> n"
  shows "parse_elems n (sep_by (map stringify vs) @ CHR '']'' # r) = Some (vs, r)"
  using assms
proof (induction vs arbitrary: n)
  case (Cons v vs)
  then obtain m where n: "n = Suc m" by (cases n) simp_all
  have v: "reads_back v" using Cons.prems by simp
  show ?case
  proof (cases "vs = []")
    case True
    with v Cons.prems n show ?thesis by (auto simp: reads_back_def sep_by_Cons)
  next
    case False
    then have fuel: "2 * length (stringify v) \<le> m" "2 * length (sep_by (map stringify vs)) + 1 \<le> m"
      using Cons.prems(3) by (simp_all add: n sep_by_Cons)
    let ?rest = "CHR '','' # sep_by (map stringify vs) @ CHR '']'' # r"
    have "parse_value m (stringify v @ ?rest) = Some (v, ?rest)"
      using v fuel by (simp add: reads_back_def)
    moreover have "parse_elems m (sep_by (map stringify vs) @ CHR '']'' # r) = Some (vs, r)"
      using Cons False fuel by simp
    ultimately show ?thesis using False by (simp add: n sep_by_Cons)
  qed
qed simp

abbreviation member_text :: "string \<times> json \<Rightarrow> string" where
  "member_text \<equiv> \<lambda>(k, v). str_text k @ CHR '':'' # stringify v"

lemma parse_members_text:
  assumes "\<And>k v. (k, v) \<in> set ms \<Longrightarrow> reads_back v" "ms \<noteq> []" "2 * length (sep_by (map member_text ms)) + 1 \<le> n"
  shows "parse_members n (sep_by (map member_text ms) @ CHR ''}'' # r) = Some (ms, r)"
  using assms
proof (induction ms arbitrary: n)
  case (Cons p ms)
  then obtain m where n: "n = Suc m" by (cases n) simp_all
  obtain k v where p: "p = (k, v)" by (cases p)
  have v: "reads_back v" using Cons.prems p by auto
  note key = str_body_text [of k]
  show ?case
  proof (cases "ms = []")
    case True
    with v Cons.prems n key p show ?thesis by (simp add: reads_back_def sep_by_Cons str_text_def)
  next
    case False
    then have fuel: "2 * length (stringify v) \<le> m" "2 * length (sep_by (map member_text ms)) + 1 \<le> m"
      using Cons.prems(3) by (simp_all add: n p sep_by_Cons)
    let ?rest = "CHR '','' # sep_by (map member_text ms) @ CHR ''}'' # r"
    have "parse_value m (stringify v @ ?rest) = Some (v, ?rest)"
      using v fuel by (simp add: reads_back_def)
    moreover have "parse_members m (sep_by (map member_text ms) @ CHR ''}'' # r) = Some (ms, r)"
      using Cons.IH Cons.prems False fuel by auto
    ultimately show ?thesis using False key by (simp add: n p sep_by_Cons str_text_def)
  qed
qed simp


lemma sep_by_head:
  assumes "\<exists>c t. f x = c # t \<and> value_head c"
  shows "\<exists>c t. sep_by (map f (x # xs)) @ r = c # t \<and> ws (c # t) = c # t \<and> c \<noteq> CHR '']'' \<and> c \<noteq> CHR ''}''"
proof -
  from assms obtain c t where "f x = c # t" "value_head c" by blast
  then show ?thesis using value_head_not [of c] by (auto simp: sep_by_Cons)
qed

lemma reads_back_JArr:
  assumes "\<And>v. v \<in> set vs \<Longrightarrow> reads_back v"
  shows "reads_back (JArr vs)"
  unfolding reads_back_def
proof (intro allI impI)
  fix n r
  assume n: "2 * length (stringify (JArr vs)) \<le> n"
  then obtain m where m: "n = Suc m" by (cases n) simp_all
  have open_bracket: "ws (CHR ''['' # t) = CHR ''['' # t" for t by (simp add: ws_def json_space_def)
  show "parse_value n (stringify (JArr vs) @ r) = Some (JArr vs, r)"
  proof (cases vs)
    case Nil
    then show ?thesis by (simp add: m open_bracket)
  next
    case (Cons v ws')
    obtain c t where head: "sep_by (map stringify vs) @ CHR '']'' # r = c # t" "ws (c # t) = c # t" "c \<noteq> CHR '']''"
      using sep_by_head [of stringify v ws' "CHR '']'' # r"] stringify_head [of v] Cons by blast
    have "parse_elems m (sep_by (map stringify vs) @ CHR '']'' # r) = Some (vs, r)"
      using assms n m Cons by (intro parse_elems_text) simp_all
    with head show ?thesis by (simp add: m open_bracket)
  qed
qed

lemma reads_back_JObj:
  assumes "\<And>k v. (k, v) \<in> set ms \<Longrightarrow> reads_back v" "distinct (keys_of ms)"
  shows "reads_back (JObj ms)"
  unfolding reads_back_def
proof (intro allI impI)
  fix n r
  assume n: "2 * length (stringify (JObj ms)) \<le> n"
  then obtain m where m: "n = Suc m" by (cases n) simp_all
  have open_brace: "ws (CHR ''{'' # t) = CHR ''{'' # t" for t by (simp add: ws_def json_space_def)
  show "parse_value n (stringify (JObj ms) @ r) = Some (JObj ms, r)"
  proof (cases ms)
    case Nil
    then show ?thesis by (simp add: m open_brace)
  next
    case (Cons p ms')
    have "\<exists>c t. member_text p = c # t \<and> value_head c"
      by (cases p) (simp add: str_text_def value_head_def)
    then obtain c t where head: "sep_by (map member_text ms) @ CHR ''}'' # r = c # t" "ws (c # t) = c # t" "c \<noteq> CHR ''}''"
      using sep_by_head [of member_text p ms' "CHR ''}'' # r"] Cons by blast
    have "parse_members m (sep_by (map member_text ms) @ CHR ''}'' # r) = Some (ms, r)"
      using assms(1) n m Cons by (intro parse_members_text) auto
    with head assms(2) show ?thesis by (simp add: m open_brace spread_distinct)
  qed
qed

lemma reads_backI:
  assumes "\<And>m r. ends_number r \<Longrightarrow> parse_value (Suc m) (stringify v @ r) = Some (v, r)"
  shows "reads_back v"
  unfolding reads_back_def
proof (intro allI impI)
  fix n r
  assume "2 * length (stringify v) \<le> n" "ends_number r"
  moreover from this(1) stringify_head [of v] obtain m where "n = Suc m" by (cases n) auto
  ultimately show "parse_value n (stringify v @ r) = Some (v, r)" using assms by simp
qed

lemma reads_back_leaf:
  "reads_back JNull" "reads_back (JBool b)" "reads_back (JStr s)"
  by (rule reads_backI; simp add: str_body_text strip_prefix_def str_text_def ws_def json_space_def)+

lemma reads_back_number:
  assumes "\<exists>c t. stringify v = c # t \<and> (c = CHR ''-'' \<or> is_digit c)" "\<And>r. ends_number r \<Longrightarrow> number_lit (stringify v @ r) = Some (v, r)"
  shows "reads_back v"
proof (rule reads_backI)
  fix m and r :: string
  assume r: "ends_number r"
  obtain c t where shown: "stringify v = c # t" and c: "c = CHR ''-'' \<or> is_digit c" using assms(1) by blast
  from c have "value_head c" by (auto simp: value_head_def)
  then have "ws (c # t @ r) = c # t @ r" using value_head_not by simp
  moreover have "number_lit (c # t @ r) = Some (v, r)" using assms(2) [OF r] shown by simp
  moreover have "c \<notin> {quote_char, CHR ''['', CHR ''{'', CHR ''n'', CHR ''t'', CHR ''f''}"
    using c by (auto simp: is_digit_def)
  ultimately show "parse_value (Suc m) (stringify v @ r) = Some (v, r)" by (simp add: shown)
qed

lemma reads_back_numbers: "reads_back (JNum i)" "wf_json (JDec m k) \<Longrightarrow> reads_back (JDec m k)"
  using number_text_head number_lit_dec by (auto intro!: reads_back_number simp: number_lit_def num_lit_int simp del: wf_json.simps)

lemma reads_back: "wf_json v \<Longrightarrow> reads_back v"
proof (induction v)
  case (JArr xs)
  then show ?case by (intro reads_back_JArr) (auto simp: list_all_iff)
next
  case (JObj ms)
  then show ?case by (intro reads_back_JObj) (fastforce simp: list_all_iff)+
qed (simp_all add: reads_back_leaf reads_back_numbers)

lemma parse_stringify [simp]: "wf_json v \<Longrightarrow> parse (stringify v) = Inr v"
  using reads_back [of v, unfolded reads_back_def, rule_format, of "2 * length (stringify v) + 2" "[]"]
  by (simp add: parse_def)

lemma stringify_inj: "wf_json v \<Longrightarrow> wf_json w \<Longrightarrow> stringify v = stringify w \<Longrightarrow> v = w"
  by (metis parse_stringify sum.inject(2))

section \<open>Everything parsed is well-formed\<close>

lemma set_update_dict: "set (AList.update k v d) \<subseteq> insert (k, v) (set d)"
  by (induction d) auto

lemma set_spread: "set (spread a b) \<subseteq> set a \<union> set b"
proof (induction b arbitrary: a)
  case (Cons p b)
  obtain k v where p: "p = (k, v)" by (cases p)
  from Cons.IH [of "AList.update k v a"] set_update_dict [of k v a] show ?case unfolding p by (simp only: spread_simps) auto
qed simp

lemma wf_spread: "list_all (\<lambda>p. wf_json (snd p)) ms \<Longrightarrow> wf_json (JObj (spread [] ms))"
  using set_spread [of "[]" ms] by (auto simp: list_all_iff)

lemma wf_no_members: "wf_json (JObj [])"
  by simp

lemma wf_dec_norm: "wf_json (dec_norm m k)"
  by (induction m k rule: dec_norm.induct) simp_all

lemma wf_number_lit: "number_lit s = Some (v, r) \<Longrightarrow> wf_json v"
  by (auto simp: number_lit_def dec_lit_def Let_def wf_dec_norm split: option.splits if_splits)

lemma parse_wf_parts:
  "parse_value n s = Some (v, r) \<Longrightarrow> wf_json v"
  "parse_elems n s = Some (vs, r) \<Longrightarrow> list_all wf_json vs"
  "parse_members n s = Some (ms, r) \<Longrightarrow> list_all (\<lambda>p. wf_json (snd p)) ms"
proof (induction n s and n s and n s arbitrary: v r and vs r and ms r rule: parse_value_parse_elems_parse_members.induct)
  case (2 n s)
  then show ?case
    by (auto simp del: wf_json.simps(2) simp: wf_spread wf_no_members wf_number_lit split: list.splits if_splits)
next
  case (4 n s)
  then show ?case by (auto split: option.splits prod.splits list.splits if_splits)
next
  case (6 n s)
  then show ?case by (auto split: option.splits prod.splits list.splits if_splits)
qed simp_all

lemma parse_wf: "parse s = Inr v \<Longrightarrow> wf_json v"
  by (auto simp: parse_def simp del: parse_value.simps split: option.splits if_splits dest: parse_wf_parts(1))

end
