(* ===== verification/Crypto.thy ===== *)
theory Crypto
  imports Bytes
begin

text \<open>
  Content encryption (\<open>web/src/crypto.ts\<close>). The primitives (WebCrypto, \<open>@noble\<close>, \<open>@hpke\<close>) are
  code outside the repository: they are the fields of the record \<open>lib\<close>, an argument of every
  definition that calls them, and what the code relies on is a named predicate on it
  (\<open>gcm_roundtrip\<close>, \<open>gcm_exact\<close>, \<open>gcm_overhead\<close>, \<open>hkdf_length\<close>). Random bytes are arguments.
  The definitions are the v1 and v2 frames, the associated data that binds a ciphertext to its
  container, object and kind, the v2-then-v1 opening rule with its migration switch, and the
  share-link payload. The lemmas: the binding is injective, sealing and opening are inverse,
  what opens as v2 was sealed for exactly that context, and v1 is never opened once refused.
\<close>

record lib =
  web_crypto :: bool
  hkdf_sha256 :: "bytes \<Rightarrow> nat \<Rightarrow> bytes \<Rightarrow> bytes \<Rightarrow> bytes"
  sha256 :: "bytes \<Rightarrow> bytes"
  pbkdf2 :: "bytes \<Rightarrow> bytes \<Rightarrow> int \<Rightarrow> bytes"
  gcm_seal :: "bytes \<Rightarrow> bytes \<Rightarrow> bytes option \<Rightarrow> bytes \<Rightarrow> bytes"
  gcm_open :: "bytes \<Rightarrow> bytes \<Rightarrow> bytes option \<Rightarrow> bytes \<Rightarrow> bytes option"
  x25519_public :: "bytes \<Rightarrow> bytes"
  x25519_shared :: "bytes \<Rightarrow> bytes \<Rightarrow> bytes option"
  hpke_seal :: "bytes \<Rightarrow> bytes \<Rightarrow> bytes \<Rightarrow> bytes \<Rightarrow> bytes \<Rightarrow> bytes \<times> bytes"
  hpke_open :: "bytes \<Rightarrow> bytes \<Rightarrow> bytes \<Rightarrow> bytes \<Rightarrow> bytes \<Rightarrow> bytes option"
  chacha_open :: "bytes \<Rightarrow> bytes \<Rightarrow> bytes \<Rightarrow> bytes \<Rightarrow> bytes option"

section \<open>What the code relies on of AES-GCM and HKDF\<close>

definition gcm_roundtrip :: "lib \<Rightarrow> bool" where
  "gcm_roundtrip L \<longleftrightarrow> (\<forall>k iv aad pt. gcm_open L k iv aad (gcm_seal L k iv aad pt) = Some pt)"

definition gcm_exact :: "lib \<Rightarrow> bool" where
  "gcm_exact L \<longleftrightarrow> (\<forall>k iv aad ct pt. gcm_open L k iv aad ct = Some pt \<longrightarrow> ct = gcm_seal L k iv aad pt)"

definition gcm_overhead :: "lib \<Rightarrow> bool" where
  "gcm_overhead L \<longleftrightarrow> (\<forall>k iv aad pt. length (gcm_seal L k iv aad pt) = length pt + 16)"

definition hkdf_length :: "lib \<Rightarrow> bool" where
  "hkdf_length L \<longleftrightarrow> (\<forall>ikm n salt info. length (hkdf_sha256 L ikm n salt info) = n)"

section \<open>Keys and frames\<close>

definition NEEDS_HTTPS :: string where
  "NEEDS_HTTPS = ''KyNotes needs a secure connection. Open it over HTTPS, or on localhost.''"

definition subtle :: "lib \<Rightarrow> 'a result \<Rightarrow> 'a result" where
  "subtle L r = (if web_crypto L then r else Inl (Error NEEDS_HTTPS))"

definition digestSha256Hex :: "lib \<Rightarrow> bytes \<Rightarrow> string result" where
  "digestSha256Hex L d = subtle L (Inr (bytesToHex (sha256 L d)))"

definition importAES256 :: "lib \<Rightarrow> bytes \<Rightarrow> bytes result" where
  "importAES256 L key =
     (if length key \<noteq> 32 then Inl (Error ''Refusing a content key that is not 256 bits'')
      else subtle L (Inr key))"

definition V2 :: byte where "V2 = 2"

definition CONTENT_V2 :: string where "CONTENT_V2 = ''kynotes/content/v2''"

definition encryptWithKey :: "lib \<Rightarrow> bytes \<Rightarrow> bytes \<Rightarrow> bytes \<Rightarrow> bytes option \<Rightarrow> bytes result" where
  "encryptWithKey L iv keyBytes plaintext aad =
     subtle L (rbind (importAES256 L keyBytes) (\<lambda>key.
       Inr ((if aad = None then [] else [V2]) @ iv @ gcm_seal L key iv aad plaintext)))"

definition decryptWithKey :: "lib \<Rightarrow> bytes \<Rightarrow> bytes \<Rightarrow> bytes option \<Rightarrow> bytes result" where
  "decryptWithKey L keyBytes bs aad =
     (let head = (if aad = None then 0 else 1) in
      if length bs < head + 28 then Inl (Error ''Ciphertext too short'')
      else rbind (importAES256 L keyBytes) (\<lambda>key.
        case gcm_open L key (take 12 (drop head bs)) aad (drop (head + 12) bs) of
          None \<Rightarrow> Inl (Error ''Unable to decrypt: invalid key or tampered ciphertext'')
        | Some plaintext \<Rightarrow> Inr plaintext))"

definition asContentKey :: "bytes \<Rightarrow> bytes result" where
  "asContentKey bs = (if length bs \<noteq> 32 then Inl (Error ''invalid content key'') else Inr bs)"

definition deriveObjectKeyBytes :: "lib \<Rightarrow> bytes \<Rightarrow> string \<Rightarrow> string \<Rightarrow> bytes result" where
  "deriveObjectKeyBytes L key containerID info =
     (if length key \<noteq> 32 then Inl (Error ''invalid content key'')
      else Inr (hkdf_sha256 L key 32 (encode containerID) (encode info)))"

section \<open>The binding of a ciphertext to its place\<close>

datatype content_kind = Object | Comment | Attachment | AttachmentMeta | ContainerMeta | ShareLabel

fun kind_name :: "content_kind \<Rightarrow> string" where
  "kind_name Object = ''object''"
| "kind_name Comment = ''comment''"
| "kind_name Attachment = ''attachment''"
| "kind_name AttachmentMeta = ''attachment-meta''"
| "kind_name ContainerMeta = ''container-meta''"
| "kind_name ShareLabel = ''share-label''"

definition aad_fields :: "string \<Rightarrow> string \<Rightarrow> content_kind \<Rightarrow> bytes list" where
  "aad_fields containerID boundID kind = map encode [CONTENT_V2, containerID, boundID, kind_name kind]"

definition contentAAD :: "string \<Rightarrow> string \<Rightarrow> content_kind \<Rightarrow> bytes result" where
  "contentAAD containerID boundID kind =
     (if boundID = [] then Inl (Error ''content needs the ID it is bound to'')
      else let fields = aad_fields containerID boundID kind in
        if \<exists>field \<in> set fields. 65535 < length field then Inl (Error ''content ID too long'')
        else Inr (concat (map (\<lambda>field. be16 (length field) @ field) fields)))"

definition sealContent :: "lib \<Rightarrow> bytes \<Rightarrow> bytes \<Rightarrow> string \<Rightarrow> string \<Rightarrow> content_kind \<Rightarrow> bytes \<Rightarrow> bytes result" where
  "sealContent L iv key containerID boundID kind plaintext =
     rbind (deriveObjectKeyBytes L key containerID CONTENT_V2) (\<lambda>k.
     rbind (contentAAD containerID boundID kind) (\<lambda>aad.
       encryptWithKey L iv k plaintext (Some aad)))"

definition openV2 :: "lib \<Rightarrow> bytes \<Rightarrow> string \<Rightarrow> string \<Rightarrow> content_kind \<Rightarrow> bytes \<Rightarrow> bytes result" where
  "openV2 L key containerID boundID kind bs =
     rbind (deriveObjectKeyBytes L key containerID CONTENT_V2) (\<lambda>k.
     rbind (contentAAD containerID boundID kind) (\<lambda>aad. decryptWithKey L k bs (Some aad)))"

definition openV1 :: "lib \<Rightarrow> bytes \<Rightarrow> string \<Rightarrow> string \<Rightarrow> bytes \<Rightarrow> bytes result" where
  "openV1 L key containerID v1Label bs =
     rbind (deriveObjectKeyBytes L key containerID v1Label) (\<lambda>k. decryptWithKey L k bs None)"

text \<open>The result carries whether the older form was read.\<close>

definition openContent ::
  "lib \<Rightarrow> bytes \<Rightarrow> string \<Rightarrow> string \<Rightarrow> content_kind \<Rightarrow> string \<Rightarrow> bytes \<Rightarrow> bool \<Rightarrow> (bytes \<times> bool) result" where
  "openContent L key containerID boundID kind v1Label bs v1 =
     (let older = (if \<not> v1 then Inl (Error ''Unable to decrypt: an older format this notebook no longer accepts, or tampered ciphertext'')
                   else rbind (openV1 L key containerID v1Label bs) (\<lambda>pt. Inr (pt, True))) in
      if bs \<noteq> [] \<and> hd bs = V2 then
        (case openV2 L key containerID boundID kind bs of
           Inr plaintext \<Rightarrow> Inr (plaintext, False)
         | Inl e \<Rightarrow> if \<not> v1 then Inl e else older)
      else older)"

section \<open>Attachments, legacy children, share links\<close>

definition encryptAttachment :: "lib \<Rightarrow> bytes \<Rightarrow> bytes \<Rightarrow> string \<Rightarrow> string \<Rightarrow> bytes \<Rightarrow> bytes result" where
  "encryptAttachment L iv key containerID pageID plaintext =
     sealContent L iv key containerID pageID Attachment plaintext"

definition decryptAttachment :: "lib \<Rightarrow> bytes \<Rightarrow> string \<Rightarrow> string \<Rightarrow> bytes \<Rightarrow> bool \<Rightarrow> bytes result" where
  "decryptAttachment L key containerID pageID bs v1 =
     rbind (openContent L key containerID pageID Attachment ''kynotes/object/v1'' bs v1) (\<lambda>r. Inr (fst r))"

definition metaPin :: "string \<Rightarrow> string" where
  "metaPin attachmentID = attachmentID @ ''/meta''"

type_synonym legacy = "(string, string) dict"

text \<open>\<open>page\<close> is absent when the read does not know the page; its pins are absent before migration.\<close>

definition legacyChildOpens :: "lib \<Rightarrow> legacy option option \<Rightarrow> bool \<Rightarrow> string \<Rightarrow> bytes \<Rightarrow> bool result" where
  "legacyChildOpens L page migrated childID ciphertext =
     (case page of
        None \<Rightarrow> Inr False
      | Some None \<Rightarrow> Inr (\<not> migrated)
      | Some (Some pins) \<Rightarrow>
          (case map_of pins childID of
             None \<Rightarrow> Inr False
           | Some digest \<Rightarrow> rbind (digestSha256Hex L ciphertext) (\<lambda>h. Inr (digest = h))))"

definition replace_char :: "char \<Rightarrow> char \<Rightarrow> string \<Rightarrow> string" where
  "replace_char a b s = map (\<lambda>c. if c = a then b else c) s"

definition base64url :: "bytes \<Rightarrow> string" where
  "base64url bs =
     filter (\<lambda>c. c \<noteq> CHR ''='') (replace_char (CHR ''/'') (CHR ''_'') (replace_char (CHR ''+'') (CHR ''-'') (base64 bs)))"

definition base64urlDecode :: "string \<Rightarrow> bytes result" where
  "base64urlDecode value =
     fromBase64 (replace_char (CHR ''_'') (CHR ''/'') (replace_char (CHR ''-'') (CHR ''+'') value)
       @ replicate ((4 - length value mod 4) mod 4) (CHR ''=''))"

section \<open>Keys derived from the password and the recovery code\<close>

definition RECOVERY_ITERATIONS :: int where "RECOVERY_ITERATIONS = 600000"

definition RECOVERY_KEK_LABEL :: bytes where "RECOVERY_KEK_LABEL = encode ''kynotes/recovery-kek/v1''"

definition pbkdf2Bits :: "lib \<Rightarrow> bytes \<Rightarrow> bytes \<Rightarrow> int \<Rightarrow> bytes result" where
  "pbkdf2Bits L input salt iterations = subtle L (Inr (pbkdf2 L input salt iterations))"

definition deriveRecoveryKEK :: "lib \<Rightarrow> bytes \<Rightarrow> bytes \<Rightarrow> bytes result" where
  "deriveRecoveryKEK L secret salt = pbkdf2Bits L secret (RECOVERY_KEK_LABEL @ salt) RECOVERY_ITERATIONS"

definition LOGIN_ITERATIONS :: int where "LOGIN_ITERATIONS = 600000"

definition LEGACY_LOGIN_ITERATIONS :: int where "LEGACY_LOGIN_ITERATIONS = 100000"

definition safe_integer :: "int \<Rightarrow> bool" where
  "safe_integer n = (\<bar>n\<bar> \<le> 9007199254740991)"

definition stretchPassword :: "lib \<Rightarrow> string \<Rightarrow> string \<Rightarrow> int \<Rightarrow> bytes result" where
  "stretchPassword L password salt iterations =
     rbind (fromBase64 salt) (\<lambda>s. pbkdf2Bits L (encode password) s iterations)"

record login_keys =
  authSecret :: string
  userKEK :: bytes

definition deriveLoginKeys :: "lib \<Rightarrow> string \<Rightarrow> string \<Rightarrow> int \<Rightarrow> int \<Rightarrow> login_keys result" where
  "deriveLoginKeys L password salt iterations floor =
     (if \<not> safe_integer iterations \<or> iterations < floor
      then Inl (Error ''The server asked for too few password iterations; refusing to sign in.'')
      else rbind (stretchPassword L password salt iterations) (\<lambda>stretched.
        let label = (\<lambda>info. hkdf_sha256 L stretched 32 [] (encode info)) in
        Inr \<lparr>authSecret = bytesToHex (label ''kynotes/auth/v1''), userKEK = label ''kynotes/user-kek/v1''\<rparr>))"

definition deriveAuthSecret :: "lib \<Rightarrow> string \<Rightarrow> string \<Rightarrow> int \<Rightarrow> int \<Rightarrow> string result" where
  "deriveAuthSecret L password salt iterations floor =
     rbind (deriveLoginKeys L password salt iterations floor) (\<lambda>k. Inr (authSecret k))"

definition randomLoginSalt :: "lib \<Rightarrow> bytes \<Rightarrow> string result" where
  "randomLoginSalt L random16 = subtle L (Inr (base64 random16))"

section \<open>A concrete library for the examples\<close>

text \<open>
  Not cryptography: a checksum stands for the authentication tag, so that the hypotheses on the
  primitives hold and examples evaluate.
\<close>

definition demo_tag :: "bytes \<Rightarrow> bytes \<Rightarrow> bytes \<Rightarrow> bytes" where
  "demo_tag k iv aad = replicate 16 (sum_list k + sum_list iv + sum_list aad)"

definition demo_seal :: "bytes \<Rightarrow> bytes \<Rightarrow> bytes \<Rightarrow> bytes \<Rightarrow> bytes" where
  "demo_seal k iv aad pt = pt @ demo_tag k iv aad"

definition demo_open :: "bytes \<Rightarrow> bytes \<Rightarrow> bytes \<Rightarrow> bytes \<Rightarrow> bytes option" where
  "demo_open k iv aad ct =
     (let pt = take (length ct - 16) ct in if ct = demo_seal k iv aad pt then Some pt else None)"

definition demo_lib :: lib where
  "demo_lib = \<lparr>web_crypto = True,
     hkdf_sha256 = (\<lambda>ikm n salt info. replicate n (sum_list ikm + sum_list salt + sum_list info)),
     sha256 = (\<lambda>d. replicate 32 (sum_list d)),
     pbkdf2 = (\<lambda>input salt n. replicate 32 (sum_list input + sum_list salt)),
     gcm_seal = (\<lambda>k iv aad pt. demo_seal k iv (case aad of None \<Rightarrow> [] | Some a \<Rightarrow> a) pt),
     gcm_open = (\<lambda>k iv aad ct. demo_open k iv (case aad of None \<Rightarrow> [] | Some a \<Rightarrow> a) ct),
     x25519_public = (\<lambda>k. take 32 (k @ replicate 32 0)),
     x25519_shared = (\<lambda>sk pk. Some (replicate 32 (sum_list sk + sum_list pk))),
     hpke_seal = (\<lambda>rpk ssk info seed pt. (replicate 32 (sum_list seed), demo_seal (replicate 32 (sum_list rpk + sum_list ssk)) [] info pt)),
     hpke_open = (\<lambda>rsk spk enc info ct. demo_open (replicate 32 (sum_list rsk + sum_list spk)) [] info ct),
     chacha_open = (\<lambda>k nonce aad ct. demo_open k nonce aad ct)\<rparr>"

section \<open>Frames\<close>

lemma asContentKey_Inr [simp]: "asContentKey bs = Inr k \<longleftrightarrow> k = bs \<and> length bs = 32"
  by (auto simp: asContentKey_def)

lemma importAES256_Inr: "importAES256 L key = Inr k \<longleftrightarrow> k = key \<and> length key = 32 \<and> web_crypto L"
  by (auto simp: importAES256_def subtle_def)

lemma encryptWithKey_Inr:
  "encryptWithKey L iv key pt aad = Inr bs \<longleftrightarrow>
     length key = 32 \<and> web_crypto L \<and> bs = (if aad = None then [] else [V2]) @ iv @ gcm_seal L key iv aad pt"
  by (auto simp: encryptWithKey_def importAES256_def subtle_def)

lemma decryptWithKey_encryptWithKey:
  assumes "gcm_roundtrip L" "gcm_overhead L" "length iv = 12"
    and "encryptWithKey L iv key pt aad = Inr bs"
  shows "decryptWithKey L key bs aad = Inr pt"
  using assms
  by (auto simp: encryptWithKey_Inr decryptWithKey_def importAES256_Inr gcm_roundtrip_def
      gcm_overhead_def importAES256_def subtle_def Let_def)

lemma decryptWithKey_exact:
  assumes "gcm_exact L" "decryptWithKey L key bs aad = Inr pt" "aad \<noteq> None \<Longrightarrow> hd bs = V2"
  shows "\<exists>iv. length iv = 12 \<and> encryptWithKey L iv key pt aad = Inr bs"
proof -
  let ?h = "if aad = None then 0 else 1 :: nat"
  from assms(2) have len: "\<not> length bs < ?h + 28" and key: "length key = 32" "web_crypto L"
    and opened: "gcm_open L key (take 12 (drop ?h bs)) aad (drop (?h + 12) bs) = Some pt"
    by (auto simp: decryptWithKey_def Let_def rbind_eq_Inr importAES256_Inr split: if_splits option.splits)
  from opened assms(1) have ct: "drop (?h + 12) bs = gcm_seal L key (take 12 (drop ?h bs)) aad pt"
    by (simp add: gcm_exact_def)
  have "take 12 (drop ?h bs) @ drop (?h + 12) bs = drop ?h bs"
    using append_take_drop_id [of 12 "drop ?h bs"] by (simp add: add.commute)
  then have body: "take 12 (drop ?h bs) @ gcm_seal L key (take 12 (drop ?h bs)) aad pt = drop ?h bs"
    unfolding ct .
  have "bs = (if aad = None then [] else [V2]) @ drop ?h bs"
    using len assms(3) by (cases aad; cases bs) auto
  with body key len show ?thesis
    by (intro exI [of _ "take 12 (drop ?h bs)"]) (auto simp: encryptWithKey_Inr)
qed

section \<open>The binding is injective\<close>

lemma framed_fields_inj:
  assumes "list_all (\<lambda>f. length f \<le> 65535) fs" "list_all (\<lambda>f. length f \<le> 65535) gs"
    and "length fs = length gs"
    and "concat (map (\<lambda>f. be16 (length f) @ f) fs) = concat (map (\<lambda>f. be16 (length f) @ f) (gs :: bytes list))"
  shows "fs = gs"
  using assms(3,1,2,4)
proof (induction fs gs rule: list_induct2)
  case (Cons f fs g gs)
  then have eq: "be16 (length f) @ f @ concat (map (\<lambda>f. be16 (length f) @ f) fs) =
      be16 (length g) @ g @ concat (map (\<lambda>f. be16 (length f) @ f) gs)" by simp
  then have "be16 (length f) = be16 (length g)" by (simp add: append_eq_append_conv)
  with Cons.prems have "length f = length g" by (simp add: be16_inj)
  with eq have "f = g" "concat (map (\<lambda>f. be16 (length f) @ f) fs) = concat (map (\<lambda>f. be16 (length f) @ f) gs)"
    by simp_all
  with Cons show ?case by simp
qed simp

lemma kind_name_inj [simp]: "kind_name j = kind_name k \<longleftrightarrow> j = k"
  by (cases j; cases k) simp_all

lemma contentAAD_Inr:
  "contentAAD c b k = Inr aad \<longleftrightarrow> b \<noteq> [] \<and> list_all (\<lambda>f. length f \<le> 65535) (aad_fields c b k) \<and>
     aad = concat (map (\<lambda>f. be16 (length f) @ f) (aad_fields c b k))"
  by (auto simp: contentAAD_def Let_def list_all_iff not_less dest: leD)

lemma contentAAD_inj:
  assumes "contentAAD c b k = Inr aad" "contentAAD c' b' k' = Inr aad"
  shows "c = c' \<and> b = b' \<and> k = k'"
proof -
  from assms have "aad_fields c b k = aad_fields c' b' k'"
    by (intro framed_fields_inj) (simp_all add: contentAAD_Inr, simp add: aad_fields_def)
  then show ?thesis by (simp add: aad_fields_def)
qed

section \<open>Sealing and opening content\<close>

lemma sealContent_Inr:
  "sealContent L iv key c b k pt = Inr bs \<longleftrightarrow> (\<exists>dk aad.
     deriveObjectKeyBytes L key c CONTENT_V2 = Inr dk \<and> contentAAD c b k = Inr aad \<and>
     encryptWithKey L iv dk pt (Some aad) = Inr bs)"
  by (auto simp: sealContent_def rbind_eq_Inr)

lemma openV2_Inr:
  "openV2 L key c b k bs = Inr pt \<longleftrightarrow> (\<exists>dk aad.
     deriveObjectKeyBytes L key c CONTENT_V2 = Inr dk \<and> contentAAD c b k = Inr aad \<and>
     decryptWithKey L dk bs (Some aad) = Inr pt)"
  by (auto simp: openV2_def rbind_eq_Inr)

lemma sealContent_v2: "sealContent L iv key c b k pt = Inr bs \<Longrightarrow> bs \<noteq> [] \<and> hd bs = V2"
  by (auto simp: sealContent_Inr encryptWithKey_Inr)

lemma openV2_sealContent:
  assumes "gcm_roundtrip L" "gcm_overhead L" "length iv = 12" "sealContent L iv key c b k pt = Inr bs"
  shows "openV2 L key c b k bs = Inr pt"
  using assms decryptWithKey_encryptWithKey [of L iv]
  unfolding sealContent_Inr openV2_Inr by blast

lemma openV2_exact:
  assumes "gcm_exact L" "openV2 L key c b k bs = Inr pt" "hd bs = V2"
  shows "\<exists>iv. length iv = 12 \<and> sealContent L iv key c b k pt = Inr bs"
  using assms decryptWithKey_exact [OF assms(1)]
  unfolding sealContent_Inr openV2_Inr by blast

lemma openContent_current:
  "openContent L key c b k label bs v1 = Inr (pt, False) \<longleftrightarrow>
     bs \<noteq> [] \<and> hd bs = V2 \<and> openV2 L key c b k bs = Inr pt"
  by (auto simp: openContent_def Let_def rbind_eq_Inr split: sum.splits if_splits)

lemma openContent_older:
  "openContent L key c b k label bs v1 = Inr (pt, True) \<Longrightarrow> v1 \<and> openV1 L key c label bs = Inr pt"
  by (auto simp: openContent_def Let_def rbind_eq_Inr split: sum.splits if_splits)

lemma openContent_refuses_v1:
  "openContent L key c b k label bs False = Inr r \<Longrightarrow> \<not> snd r"
  by (cases r) (auto dest: openContent_older)

section \<open>Share-link keys\<close>

lemma pad_of_length:
  fixes m k :: nat
  assumes "(m + k) mod 4 = 0" "k \<le> 2"
  shows "k = (4 - m mod 4) mod 4"
proof -
  have "m mod 4 = 0 \<or> m mod 4 = 1 \<or> m mod 4 = 2 \<or> m mod 4 = 3" by linarith
  moreover have "(m mod 4 + k) mod 4 = 0" using assms(1) by (simp add: mod_simps)
  moreover have "k = 0 \<or> k = 1 \<or> k = 2" using assms(2) by linarith
  ultimately show ?thesis by (elim disjE) simp_all
qed

lemma base64_split:
  "\<exists>xs k. base64 bs = map b64_char xs @ replicate k (CHR ''='') \<and> list_all (\<lambda>x. x < 64) xs \<and>
     k = (4 - length xs mod 4) mod 4"
proof (intro exI conjI)
  let ?xs = "sextets (map unat bs)" and ?k = "(3 - length bs mod 3) mod 3"
  show "base64 bs = map b64_char ?xs @ replicate ?k (CHR ''='')" by (simp add: base64_def)
  show "list_all (\<lambda>x. x < 64) ?xs"
    by (rule sextets_small) (simp add: list_all_iff unat_byte_less)
  show "?k = (4 - length ?xs mod 4) mod 4"
    unfolding length_sextets length_map by (intro pad_of_length b64_lengths)
qed

definition url_char :: "char \<Rightarrow> char" where
  "url_char c = (let u = (if c = CHR ''+'' then CHR ''-'' else c) in if u = CHR ''/'' then CHR ''_'' else u)"

definition plain_char :: "char \<Rightarrow> char" where
  "plain_char c = (let u = (if c = CHR ''-'' then CHR ''+'' else c) in if u = CHR ''_'' then CHR ''/'' else u)"

lemma url_char_undo:
  assumes "n < 64"
  shows "url_char (b64_char n) \<noteq> CHR ''=''"
    "plain_char (url_char (b64_char n)) = b64_char n"
proof -
  have "b64_char n \<in> set B64" using assms by (simp add: b64_char_def)
  then show "url_char (b64_char n) \<noteq> CHR ''=''"
    "plain_char (url_char (b64_char n)) = b64_char n"
    by (auto simp: B64_def url_char_def plain_char_def)
qed

lemma replace_chars:
  "replace_char (CHR ''_'') (CHR ''/'') (replace_char (CHR ''-'') (CHR ''+'') s) = map plain_char s"
  by (simp add: replace_char_def plain_char_def Let_def)

lemma base64urlDecode_base64url: "base64urlDecode (base64url bs) = Inr bs"
proof -
  obtain xs k where b: "base64 bs = map b64_char xs @ replicate k (CHR ''='')"
    and small: "list_all (\<lambda>x. x < 64) xs" and k: "k = (4 - length xs mod 4) mod 4"
    using base64_split by blast
  have chars: "url_char (b64_char n) \<noteq> CHR ''=''" if "n \<in> set xs" for n
    using small that by (auto simp: list_all_iff intro!: url_char_undo)
  have "base64url bs = filter (\<lambda>c. c \<noteq> CHR ''='') (map url_char (base64 bs))"
    by (simp add: base64url_def replace_char_def url_char_def [abs_def] Let_def comp_def)
  also have "\<dots> = map (url_char \<circ> b64_char) xs"
    using chars by (simp add: b url_char_def filter_id_conv) 
  finally have url: "base64url bs = map (url_char \<circ> b64_char) xs" .
  have "replace_char (CHR ''_'') (CHR ''/'') (replace_char (CHR ''-'') (CHR ''+'') (base64url bs)) = map b64_char xs"
    using small unfolding replace_chars by (simp add: url list_all_iff url_char_undo(2))
  moreover have "length (base64url bs) = length xs" by (simp add: url)
  ultimately have "base64urlDecode (base64url bs) = fromBase64 (base64 bs)"
    by (simp add: base64urlDecode_def b k)
  then show ?thesis by simp
qed


section \<open>The concrete library meets the hypotheses\<close>

lemma demo_open_seal [simp]: "demo_open k iv aad (demo_seal k iv aad pt) = Some pt"
  by (simp add: demo_open_def demo_seal_def demo_tag_def)

lemma demo_open_exact: "demo_open k iv aad ct = Some pt \<Longrightarrow> ct = demo_seal k iv aad pt"
  by (auto simp: demo_open_def Let_def split: if_splits)

lemma demo_seal_length [simp]: "length (demo_seal k iv aad pt) = length pt + 16"
  by (simp add: demo_seal_def demo_tag_def)

lemma demo_lib_laws:
  "gcm_roundtrip demo_lib" "gcm_exact demo_lib" "gcm_overhead demo_lib" "hkdf_length demo_lib"
  by (auto simp: gcm_roundtrip_def gcm_exact_def gcm_overhead_def hkdf_length_def demo_lib_def
      dest: demo_open_exact)

section \<open>Properties\<close>

text \<open>Content sealed for a container, object and kind opens again for that place to the same
  plaintext, in the current form, whether or not the older form is still accepted.\<close>

lemma content_roundtrip:
  assumes "gcm_roundtrip L" "gcm_overhead L" "length iv = 12"
    and "sealContent L iv key containerID boundID kind plaintext = Inr bs"
  shows "openContent L key containerID boundID kind v1Label bs v1 = Inr (plaintext, False)"
  using openV2_sealContent [OF assms] sealContent_v2 [OF assms(4)] by (simp add: openContent_current)



text \<open>The associated data of two pieces of content is the same only for the same container, the same
  bound ID and the same kind, so a ciphertext moved to another place is opened under other data.\<close>

lemma content_binding_injective:
  assumes "contentAAD containerID boundID kind = Inr aad" "contentAAD containerID' boundID' kind' = Inr aad"
  shows "containerID = containerID' \<and> boundID = boundID' \<and> kind = kind'"
  using assms by (rule contentAAD_inj)

text \<open>A server that asks for fewer password iterations than the floor gets no authentication secret,
  and any accepted request derives both keys from the asked number of iterations.\<close>

lemma login_iterations_floor:
  "deriveLoginKeys L password salt iterations floor = Inr k \<longleftrightarrow>
     safe_integer iterations \<and> floor \<le> iterations \<and>
     (\<exists>s. fromBase64 salt = Inr s \<and> web_crypto L \<and>
       k = \<lparr>authSecret = bytesToHex (hkdf_sha256 L (pbkdf2 L (encode password) s iterations) 32 [] (encode ''kynotes/auth/v1'')),
            userKEK = hkdf_sha256 L (pbkdf2 L (encode password) s iterations) 32 [] (encode ''kynotes/user-kek/v1'')\<rparr>)"
  by (auto simp: deriveLoginKeys_def stretchPassword_def pbkdf2Bits_def subtle_def rbind_eq_Inr Let_def)

end
