(* ===== verification/Http.thy ===== *)
theory Http
  imports Trace Json Crypto
begin

text \<open>
  The HTTP layer every other module calls (\<open>request\<close> and \<open>actionFetch\<close> of \<open>web/src/api.ts\<close>) and the single-sign-on
  confirmation in its retry path (\<open>web/src/reauth.ts\<close>). The browser around it, the network, the user at the dialog, the
  clock, is the outside; what leaves and what is answered is in the log. The properties: a request is sent once, or
  once more after the server asked for a confirmation that was then verified, and a confirmation that is not verified is
  cancelled on the server. Header names are lower case, as \<open>Headers\<close> keeps them.
\<close>

section \<open>Text helpers\<close>

definition starts_with :: "string \<Rightarrow> string \<Rightarrow> bool" where
  "starts_with p s = (take (length p) s = p)"

text \<open>\<open>split("; ")\<close> of the cookie line.\<close>

fun split_cookies :: "string \<Rightarrow> string \<Rightarrow> string list" where
  "split_cookies acc [] = [rev acc]"
| "split_cookies acc [c] = [rev (c # acc)]"
| "split_cookies acc (c # d # r) =
     (if c = CHR '';'' \<and> d = CHR '' '' then rev acc # split_cookies [] r else split_cookies (c # acc) (d # r))"

definition csrfToken :: "string \<Rightarrow> string" where
  "csrfToken cookie =
     (case find (starts_with ''csrf_token='') (split_cookies [] cookie) of None \<Rightarrow> [] | Some v \<Rightarrow> drop 11 v)"

definition KEY_SCHEME :: string where "KEY_SCHEME = ''shared-v2''"

definition serverGeneration :: "json option \<Rightarrow> int option" where
  "serverGeneration value =
     (let parsed = (case value of
          Some (JStr s) \<Rightarrow> if s \<noteq> [] \<and> list_all is_digit s then Some (int (read_nat s)) else None
        | Some (JNum n) \<Rightarrow> Some n
        | _ \<Rightarrow> None) in
      case parsed of Some n \<Rightarrow> if safe_integer n \<and> 0 \<le> n then Some n else None | None \<Rightarrow> None)"

section \<open>Requests and the browser\<close>

datatype body = TextBody string | BinaryBody bytes

record http_request =
  hr_path :: string
  hr_method :: "string option"
  hr_headers :: "(string, string) dict"
  hr_body :: "body option"

text \<open>\<open>hs_json\<close>: what \<open>response.json()\<close> gives.\<close>

record http_response =
  hs_status :: nat
  hs_json :: "json result"

definition resp_ok :: "http_response \<Rightarrow> bool" where
  "resp_ok r = (200 \<le> hs_status r \<and> hs_status r \<le> 299)"

datatype prompt = PromptCancelled | PromptBlocked | PromptOpened

record 'o browser =
  br_fetch :: "http_request \<Rightarrow> ('o, http_response) io"
  br_cookie :: "'o \<Rightarrow> string"
  br_prompt :: "('o, prompt) io"
  br_cancelled :: "('o, bool) io"
  br_now :: "('o, int) io"
  br_closed :: "('o, bool) io"
  br_wait :: "('o, unit) io"
  br_url :: "string \<Rightarrow> (string \<times> string \<times> string) option"

text \<open>\<open>OwnFetch\<close> is the caller's request, \<open>AuxFetch\<close> one of the confirmation, \<open>Answer\<close> a response to the latter.\<close>

datatype http_event =
    OwnFetch http_request
  | OwnAnswer http_request http_response
  | AuxFetch http_request
  | Answer http_request http_response
  | Navigate string

type_synonym 'o http_world = "('o, http_event) traced"

definition own_fetch :: "'o browser \<Rightarrow> http_request \<Rightarrow> ('o http_world, http_response) io" where
  "own_fetch br q = bind_io (log_event (OwnFetch q)) (\<lambda>_. noting (\<lambda>r. [OwnAnswer q r]) (call (br_fetch br q)))"

definition aux_fetch :: "'o browser \<Rightarrow> http_request \<Rightarrow> ('o http_world, http_response) io" where
  "aux_fetch br q = bind_io (log_event (AuxFetch q)) (\<lambda>_. noting (\<lambda>r. [Answer q r]) (call (br_fetch br q)))"

section \<open>Confirming one action\<close>

definition sso_endpoint :: "string \<Rightarrow> string" where
  "sso_endpoint challenge = ''/api/v1/auth/oidc/step-up/'' @ encodeURIComponent challenge"

definition sso_start :: "string \<Rightarrow> string \<Rightarrow> http_request" where
  "sso_start challenge csrf = \<lparr>hr_path = ''/api/v1/auth/oidc/step-up'', hr_method = Some ''POST'',
     hr_headers = [(''content-type'', ''application/json''), (''x-csrf-token'', csrf)],
     hr_body = Some (TextBody (stringify (JObj [(''challenge'', JStr challenge)])))\<rparr>"

definition sso_poll_request :: "string \<Rightarrow> http_request" where
  "sso_poll_request challenge = \<lparr>hr_path = sso_endpoint challenge, hr_method = None, hr_headers = [], hr_body = None\<rparr>"

definition sso_delete :: "string \<Rightarrow> string \<Rightarrow> http_request" where
  "sso_delete challenge csrf = \<lparr>hr_path = sso_endpoint challenge, hr_method = Some ''DELETE'', hr_headers = [(''x-csrf-token'', csrf)], hr_body = None\<rparr>"

definition gave_up :: js_error where "gave_up = Error ''Action confirmation cancelled or expired''"

definition says_verified :: "json \<Rightarrow> bool" where
  "says_verified status = (field ''verified'' status = Some (JBool True))"

text \<open>The loop of polls; the fuel counts its rounds. Five minutes of a clock that advances by a millisecond a round are enough: \<open>confirmation_ends\<close>.\<close>

definition fuel_out :: js_error where "fuel_out = NamedError ''Fuel'' []"

fun sso_poll :: "'o browser \<Rightarrow> string \<Rightarrow> int \<Rightarrow> nat \<Rightarrow> ('o http_world, unit) io" where
  "sso_poll br challenge expires 0 = throw fuel_out"
| "sso_poll br challenge expires (Suc n) =
     bind_io (call (br_cancelled br)) (\<lambda>cancelled.
     bind_io (call (br_now br)) (\<lambda>now.
       if cancelled \<or> \<not> now < expires then throw gave_up
       else bind_io (aux_fetch br (sso_poll_request challenge)) (\<lambda>response.
       bind_io (lift_result (hs_json response)) (\<lambda>status.
         if \<not> resp_ok response then throw (Error ''Confirmation expired or the session changed'')
         else if says_verified status then
           bind_io (call (br_cancelled br)) (\<lambda>cancelled. if cancelled then throw gave_up else ret ())
         else bind_io (call (br_closed br)) (\<lambda>closed.
           if closed then throw gave_up
           else bind_io (call (br_wait br)) (\<lambda>_. sso_poll br challenge expires n))))))"

definition sign_in_url :: "'o browser \<Rightarrow> string \<Rightarrow> string result" where
  "sign_in_url br u =
     (case br_url br u of
        None \<Rightarrow> Inl TypeError
      | Some (protocol, hostname, href) \<Rightarrow>
          if protocol \<noteq> ''https:'' \<and> \<not> (protocol = ''http:'' \<and> hostname \<in> {''localhost'', ''127.0.0.1'', ''[::1]''})
          then Inl (Error ''Invalid sign-in URL'') else Inr href)"

definition sso_started :: "'o browser \<Rightarrow> http_response \<Rightarrow> json \<Rightarrow> string result" where
  "sso_started br started value =
     (case str_of (field ''url'' value) of
        Some u \<Rightarrow> if resp_ok started then sign_in_url br u else Inl (Error ''Unable to start KySignOn confirmation'')
      | None \<Rightarrow> Inl (Error ''Unable to start KySignOn confirmation''))"

definition sso_opened :: "'o browser \<Rightarrow> string \<Rightarrow> string \<Rightarrow> nat \<Rightarrow> ('o http_world, unit) io" where
  "sso_opened br challenge csrf fuel =
     bind_io (aux_fetch br (sso_start challenge csrf)) (\<lambda>started.
     bind_io (lift_result (hs_json started)) (\<lambda>value.
     bind_io (lift_result (sso_started br started value)) (\<lambda>href.
     bind_io (call (br_cancelled br)) (\<lambda>cancelled.
       if cancelled then throw (Error ''Action confirmation cancelled'')
       else bind_io (log_event (Navigate href)) (\<lambda>_.
         bind_io (call (br_now br)) (\<lambda>now. sso_poll br challenge (now + 5 * 60000) fuel))))))"

text \<open>The \<open>finally\<close> block of a run that did not verify.\<close>

definition sso_abandon :: "'o browser \<Rightarrow> string \<Rightarrow> string \<Rightarrow> js_error \<Rightarrow> ('o http_world, unit) io" where
  "sso_abandon br challenge csrf error =
     bind_io (catch_io (bind_io (aux_fetch br (sso_delete challenge csrf)) (\<lambda>_. ret ())) (\<lambda>_. ret ())) (\<lambda>_. throw error)"

definition confirmSSOAction :: "'o browser \<Rightarrow> string \<Rightarrow> string \<Rightarrow> nat \<Rightarrow> ('o http_world, unit) io" where
  "confirmSSOAction br challenge csrf fuel =
     catch_io
       (bind_io (call (br_prompt br)) (\<lambda>p. case p of
          PromptCancelled \<Rightarrow> throw (Error ''Action confirmation cancelled'')
        | PromptBlocked \<Rightarrow> throw (Error ''Allow the KySignOn sign-in window to confirm this action'')
        | PromptOpened \<Rightarrow> sso_opened br challenge csrf fuel))
       (sso_abandon br challenge csrf)"

section \<open>Requests\<close>

text \<open>The challenge a refused request may be retried with, read from the body of a 403.\<close>

definition step_up_challenge :: "http_response \<Rightarrow> string option" where
  "step_up_challenge r =
     (if hs_status r \<noteq> 403 then None
      else case hs_json r of
        Inl _ \<Rightarrow> None
      | Inr detail \<Rightarrow>
          (case field ''error'' detail of
             Some e \<Rightarrow> if field ''code'' e = Some (JStr ''sso_step_up_required'') then str_of (field ''challenge'' e) else None
           | None \<Rightarrow> None))"

definition with_step_up :: "string \<Rightarrow> http_request \<Rightarrow> http_request" where
  "with_step_up challenge q = q\<lparr>hr_headers := AList.update ''x-kynotes-step-up'' challenge (hr_headers q)\<rparr>"

definition actionFetch :: "'o browser \<Rightarrow> nat \<Rightarrow> http_request \<Rightarrow> ('o http_world, http_response) io" where
  "actionFetch br fuel q =
     bind_io (own_fetch br q) (\<lambda>response.
       case step_up_challenge response of
         None \<Rightarrow> ret response
       | Some challenge \<Rightarrow>
           bind_io (call (\<lambda>out. (Inr (br_cookie br out), out))) (\<lambda>cookie.
           bind_io (confirmSSOAction br challenge (csrfToken cookie) fuel) (\<lambda>_.
             own_fetch br (with_step_up challenge q))))"

definition ascii_upper :: "string \<Rightarrow> string" where
  "ascii_upper s = map (\<lambda>c. let n = (of_char c :: nat) in if 97 \<le> n \<and> n \<le> 122 then char_of (n - 32) else c) s"

definition body_truthy :: "body option \<Rightarrow> bool" where
  "body_truthy b = (case b of None \<Rightarrow> False | Some (TextBody s) \<Rightarrow> s \<noteq> [] | Some (BinaryBody _) \<Rightarrow> True)"

definition mutating :: "http_request \<Rightarrow> bool" where
  "mutating q = (ascii_upper (case hr_method q of None \<Rightarrow> ''GET'' | Some m \<Rightarrow> m) \<in> {''POST'', ''PUT'', ''PATCH'', ''DELETE''})"

definition prepared_request :: "string \<Rightarrow> http_request \<Rightarrow> http_request" where
  "prepared_request cookie q =
     (let accept = AList.update ''accept'' ''application/json'' (hr_headers q);
          typed = (if body_truthy (hr_body q) \<and> map_of accept ''content-type'' = None
            then AList.update ''content-type'' ''application/json'' accept else accept) in
      q\<lparr>hr_headers :=
        (if mutating q then AList.update ''x-kynotes-key-scheme'' KEY_SCHEME (AList.update ''x-csrf-token'' (csrfToken cookie) typed) else typed)\<rparr>)"

text \<open>The error of a refused request. A body of \<open>null\<close> makes reading \<open>detail.error\<close> throw.\<close>

definition refusal :: "http_response \<Rightarrow> js_error" where
  "refusal r =
     (let detail = (case hs_json r of Inl _ \<Rightarrow> JObj [] | Inr v \<Rightarrow> v) in
      if detail = JNull then TypeError
      else APIRequestError (case field ''error'' detail of Some e \<Rightarrow> str_of (field ''code'' e) | None \<Rightarrow> None) (Some (hs_status r)))"

definition request_result :: "http_response \<Rightarrow> json option result" where
  "request_result r =
     (if \<not> resp_ok r then Inl (refusal r)
      else if hs_status r = 204 then Inr None
      else rbind (hs_json r) (\<lambda>v. Inr (Some v)))"

definition request :: "'o browser \<Rightarrow> nat \<Rightarrow> http_request \<Rightarrow> ('o http_world, json option) io" where
  "request br fuel q =
     bind_io (call (\<lambda>out. (Inr (br_cookie br out), out))) (\<lambda>cookie.
     bind_io (actionFetch br fuel (prepared_request cookie q)) (\<lambda>response. lift_result (request_result response)))"

section \<open>Properties\<close>

fun is_own :: "http_event \<Rightarrow> bool" where
  "is_own (OwnFetch q) = True"
| "is_own (OwnAnswer q r) = True"
| "is_own _ = False"

definition own_events :: "http_event list \<Rightarrow> http_event list" where
  "own_events es = filter is_own es"

definition verified_answer :: "string \<Rightarrow> http_event \<Rightarrow> bool" where
  "verified_answer challenge e \<longleftrightarrow> (\<exists>r status. e = Answer (sso_poll_request challenge) r \<and> resp_ok r \<and> hs_json r = Inr status \<and> says_verified status)"

text \<open>\<open>adds w P w'\<close>: since \<open>w\<close> the log has grown by events with \<open>P\<close>.\<close>

definition adds :: "('o, 'e, 'x) traced_scheme \<Rightarrow> ('e list \<Rightarrow> bool) \<Rightarrow> ('o, 'e, 'x) traced_scheme \<Rightarrow> bool" where
  "adds w P w' \<longleftrightarrow> (\<exists>es. t_log w' = t_log w @ es \<and> P es)"

lemma addsI: "t_log w' = t_log w @ es \<Longrightarrow> P es \<Longrightarrow> adds w P w'"
  by (auto simp: adds_def)

lemma adds_trans: "adds w P w1 \<Longrightarrow> adds w1 Q w2 \<Longrightarrow> (\<And>es fs. P es \<Longrightarrow> Q fs \<Longrightarrow> R (es @ fs)) \<Longrightarrow> adds w R w2"
  unfolding adds_def by (metis append.assoc)

lemma own_events_simps [simp]:
  "own_events [] = []" "own_events (es @ fs) = own_events es @ own_events fs"
  "own_events (e # es) = (if is_own e then [e] else []) @ own_events es"
  by (simp_all add: own_events_def)

definition aux_only :: "(http_event list \<Rightarrow> bool) \<Rightarrow> http_event list \<Rightarrow> bool" where
  "aux_only P es \<longleftrightarrow> own_events es = [] \<and> P es"

lemma adds_outside [simp]: "adds (w\<lparr>t_outside := out\<rparr>) P = adds w P"
  by (simp add: adds_def fun_eq_iff)

lemma adds_aux: "t_log w' = t_log w @ es \<Longrightarrow> own_events es = [] \<Longrightarrow> adds w (aux_only (\<lambda>_. True)) w'"
  by (auto simp: adds_def aux_only_def)

lemma wp_aux_fetch:
  "wp (aux_fetch br q) Q E w \<longleftrightarrow> (\<forall>r out. br_fetch br q (t_outside w) = (r, out) \<longrightarrow>
     (case r of Inr x \<Rightarrow> Q x (w\<lparr>t_outside := out, t_log := t_log w @ [AuxFetch q, Answer q x]\<rparr>)
      | Inl e \<Rightarrow> E e (w\<lparr>t_log := t_log w @ [AuxFetch q], t_outside := out\<rparr>)))"
  by (auto simp: aux_fetch_def wps split: sum.split)

lemma wp_own_fetch:
  "wp (own_fetch br q) Q E w \<longleftrightarrow> (\<forall>r out. br_fetch br q (t_outside w) = (r, out) \<longrightarrow>
     (case r of Inr x \<Rightarrow> Q x (w\<lparr>t_outside := out, t_log := t_log w @ [OwnFetch q, OwnAnswer q x]\<rparr>)
      | Inl e \<Rightarrow> E e (w\<lparr>t_log := t_log w @ [OwnFetch q], t_outside := out\<rparr>)))"
  by (auto simp: own_fetch_def wps split: sum.split)

lemma verified_answer_simps:
  "\<not> verified_answer challenge (AuxFetch q)"
  "resp_ok r \<Longrightarrow> hs_json r = Inr status \<Longrightarrow> says_verified status \<Longrightarrow> verified_answer challenge (Answer (sso_poll_request challenge) r)"
  by (simp_all add: verified_answer_def)

lemma sso_poll_verified:
  "adds w0 (aux_only (\<lambda>_. True)) w \<Longrightarrow>
   wp (sso_poll br challenge expires n)
     (\<lambda>_. adds w0 (aux_only (\<lambda>es. \<exists>e \<in> set es. verified_answer challenge e)))
     (\<lambda>_. adds w0 (aux_only (\<lambda>_. True))) w"
proof (induction n arbitrary: w)
  case 0
  then show ?case by (simp add: wps del: io_simps)
next
  case (Suc n)
  have grown: "adds w0 (aux_only (\<lambda>_. True)) w'" if "t_log w' = t_log w @ es" "own_events es = []" for w' :: "'a http_world" and es
    using Suc.prems that by (auto simp: adds_def aux_only_def)
  have seen: "adds w0 (aux_only (\<lambda>es. \<exists>e \<in> set es. verified_answer challenge e)) w'"
    if "t_log w' = t_log w @ es" "own_events es = []" "\<exists>e \<in> set es. verified_answer challenge e" for w' :: "'a http_world" and es
    using Suc.prems that unfolding adds_def aux_only_def by (metis append.assoc own_events_simps(2) UnCI set_append append_Nil)
  show ?case
    by (auto simp: wps wp_aux_fetch verified_answer_simps simp del: io_simps split: sum.split intro!: Suc.IH grown seen)
qed

lemma sso_opened_verified:
  "wp (sso_opened br challenge csrf fuel)
     (\<lambda>_. adds w (aux_only (\<lambda>es. \<exists>e \<in> set es. verified_answer challenge e))) (\<lambda>_. adds w (aux_only (\<lambda>_. True))) w"
  unfolding sso_opened_def
  by (auto simp: wps wp_aux_fetch simp del: io_simps split: sum.split intro!: adds_aux sso_poll_verified)

text \<open>A confirmation returns only after the server called the challenge verified; if it does not return, its cancellation was sent.\<close>

lemma confirm_settles:
  "wp (confirmSSOAction br challenge csrf fuel)
     (\<lambda>_. adds w (aux_only (\<lambda>es. \<exists>e \<in> set es. verified_answer challenge e)))
     (\<lambda>_. adds w (aux_only (\<lambda>es. AuxFetch (sso_delete challenge csrf) \<in> set es))) w"
proof -
  have cancel: "wp (sso_abandon br challenge csrf e) Q (\<lambda>_. adds w (aux_only (\<lambda>es. AuxFetch (sso_delete challenge csrf) \<in> set es))) w1"
    if "adds w (aux_only (\<lambda>_. True)) w1" for Q w1 e
    using that by (auto simp: sso_abandon_def wps wp_aux_fetch adds_def aux_only_def simp del: io_simps split: sum.split)
  have opened: "wp (sso_opened br challenge csrf fuel) (\<lambda>_. adds w (aux_only (\<lambda>es. \<exists>e \<in> set es. verified_answer challenge e)))
      (\<lambda>_. adds w (aux_only (\<lambda>_. True))) (w\<lparr>t_outside := out\<rparr>)" for out
    using sso_opened_verified [of br challenge csrf fuel "w\<lparr>t_outside := out\<rparr>"] by simp
  show ?thesis unfolding confirmSSOAction_def wp_catch wp_bind [of "call (br_prompt br)"] wp_call
    by (auto simp: wp_throw simp del: io_simps split: sum.split prompt.split intro!: cancel adds_aux intro: wp_mono [OF opened])
qed

text \<open>What one request \<open>p\<close> may leave in the log: it was sent once, and a confirmation its answer asked for was cancelled on the server; or it
  was sent again with the challenge it was asked to confirm, after the server called that challenge verified.\<close>

definition sent_once :: "http_request \<Rightarrow> http_event list \<Rightarrow> bool" where
  "sent_once p es \<longleftrightarrow> own_events es = [OwnFetch p] \<or>
     (\<exists>a. own_events es = [OwnFetch p, OwnAnswer p a] \<and>
       (case step_up_challenge a of None \<Rightarrow> True | Some challenge \<Rightarrow> \<exists>csrf. AuxFetch (sso_delete challenge csrf) \<in> set es))"

definition sent_confirmed :: "http_request \<Rightarrow> http_event list \<Rightarrow> bool" where
  "sent_confirmed p es \<longleftrightarrow>
     (\<exists>first a challenge second. es = first @ second \<and> own_events first = [OwnFetch p, OwnAnswer p a] \<and> step_up_challenge a = Some challenge \<and>
        (\<exists>e \<in> set first. verified_answer challenge e) \<and>
        (second = [OwnFetch (with_step_up challenge p)] \<or> (\<exists>b. second = [OwnFetch (with_step_up challenge p), OwnAnswer (with_step_up challenge p) b])))"

definition sent_well :: "http_request \<Rightarrow> http_event list \<Rightarrow> bool" where
  "sent_well p es \<longleftrightarrow> sent_once p es \<or> sent_confirmed p es"

lemma sent_plain: "sent_well p [OwnFetch p]" "step_up_challenge a = None \<Longrightarrow> sent_well p [OwnFetch p, OwnAnswer p a]"
  by (simp_all add: sent_well_def sent_once_def)

lemma sent_cancelled:
  "step_up_challenge a = Some c \<Longrightarrow> aux_only (\<lambda>es. AuxFetch (sso_delete c csrf) \<in> set es) gs \<Longrightarrow> sent_well p ([OwnFetch p, OwnAnswer p a] @ gs)"
  by (auto simp: sent_well_def sent_once_def aux_only_def)

lemma sent_again:
  assumes "step_up_challenge a = Some c" "aux_only (\<lambda>es. \<exists>e \<in> set es. verified_answer c e) gs"
    and "second = [OwnFetch (with_step_up c p)] \<or> (\<exists>b. second = [OwnFetch (with_step_up c p), OwnAnswer (with_step_up c p) b])"
  shows "sent_well p (([OwnFetch p, OwnAnswer p a] @ gs) @ second)"
proof -
  have "sent_confirmed p (([OwnFetch p, OwnAnswer p a] @ gs) @ second)" unfolding sent_confirmed_def
    using assms by (intro exI [of _ "[OwnFetch p, OwnAnswer p a] @ gs"] exI [of _ a] exI [of _ c] exI [of _ second]) (auto simp: aux_only_def)
  then show ?thesis by (simp add: sent_well_def)
qed

lemma actionFetch_well:
  "wp (actionFetch br fuel p) (\<lambda>_. adds w (sent_well p)) (\<lambda>_. adds w (sent_well p)) w"
proof -
  have second: "wp (own_fetch br (with_step_up c p)) (\<lambda>_. adds w (sent_well p)) (\<lambda>_. adds w (sent_well p)) w2"
    if "step_up_challenge a = Some c" "t_log w1 = t_log w @ [OwnFetch p, OwnAnswer p a]" "adds w1 (aux_only (\<lambda>es. \<exists>e \<in> set es. verified_answer c e)) w2" for a c w1 w2
  proof -
    from that(2,3) obtain gs where gs: "t_log w2 = t_log w @ [OwnFetch p, OwnAnswer p a] @ gs" "aux_only (\<lambda>es. \<exists>e \<in> set es. verified_answer c e) gs"
      by (auto simp: adds_def)
    show ?thesis unfolding wp_own_fetch
      by (auto simp: gs(1) split: sum.split intro!: addsI sent_again [OF that(1) gs(2), simplified])
  qed
  have fails: "adds w (sent_well p) w2"
    if "step_up_challenge a = Some c" "t_log w1 = t_log w @ [OwnFetch p, OwnAnswer p a]" "adds w1 (aux_only (\<lambda>es. AuxFetch (sso_delete c csrf) \<in> set es)) w2" for a c csrf w1 w2
    using that sent_cancelled by (auto simp: adds_def)
  have confirmed: "wp (confirmSSOAction br c csrf fuel) (\<lambda>_. wp (own_fetch br (with_step_up c p)) (\<lambda>_. adds w (sent_well p)) (\<lambda>_. adds w (sent_well p)))
      (\<lambda>_. adds w (sent_well p)) w1"
    if "step_up_challenge a = Some c" "t_log w1 = t_log w @ [OwnFetch p, OwnAnswer p a]" for a c csrf w1
    by (rule wp_mono [OF confirm_settles]) (erule second [OF that] fails [OF that])+
  show ?thesis unfolding actionFetch_def wp_bind [of "own_fetch br p"] wp_own_fetch [of br p]
    by (auto simp: wp_option wp_bind wp_call wp_ret simp del: io_simps split: sum.split option.split intro!: addsI sent_plain confirmed)
qed

text \<open>C13: whatever the network, the server and the user do, a call of \<open>request\<close> sends its request, with the headers it prepared, once; or once more with the
  challenge the server refused it with, and only after the server called that challenge verified. A challenge that was not verified is
  cancelled on the server before the call ends.\<close>

theorem request_sent_well:
  "\<exists>cookie es. t_log (snd (request br fuel q w)) = t_log w @ es \<and> sent_well (prepared_request cookie q) es"
proof -
  have "wp (request br fuel q) (\<lambda>_. adds w (sent_well (prepared_request (br_cookie br (t_outside w)) q))) (\<lambda>_. adds w (sent_well (prepared_request (br_cookie br (t_outside w)) q))) w"
    unfolding request_def wp_bind wp_call
    by (auto simp: wp_lift split: sum.split intro!: wp_mono [OF actionFetch_well [of br fuel _ "w\<lparr>t_outside := t_outside w\<rparr>", simplified]])
  then have "adds w (sent_well (prepared_request (br_cookie br (t_outside w)) q)) (snd (request br fuel q w))"
    by (rule wp_run) (rule prod.collapse [symmetric])
  then show ?thesis by (auto simp: adds_def)
qed

text \<open>Every request that changes something carries the CSRF token of the cookie and the key scheme of this bundle.\<close>

lemma prepared_headers:
  "mutating q \<Longrightarrow> map_of (hr_headers (prepared_request cookie q)) ''x-csrf-token'' = Some (csrfToken cookie) \<and>
     map_of (hr_headers (prepared_request cookie q)) ''x-kynotes-key-scheme'' = Some KEY_SCHEME"
  "map_of (hr_headers (prepared_request cookie q)) ''x-kynotes-step-up'' = map_of (hr_headers q) ''x-kynotes-step-up''"
  by (simp_all add: prepared_request_def Let_def)

section \<open>The confirmation ends\<close>

definition in_time :: "('o \<Rightarrow> int) \<Rightarrow> int \<Rightarrow> ('o, 'a) io \<Rightarrow> bool" where
  "in_time clock least m \<longleftrightarrow> (\<forall>out. clock out + least \<le> clock (snd (m out)) \<and> fst (m out) \<noteq> Inl fuel_out)"

text \<open>What is needed of the browser: its clock does not run backwards, a wait takes at least a millisecond, and no failure of its own
  is the model's end of fuel.\<close>

definition time_passes :: "'o browser \<Rightarrow> ('o \<Rightarrow> int) \<Rightarrow> bool" where
  "time_passes br clock \<longleftrightarrow>
     (\<forall>q. in_time clock 0 (br_fetch br q)) \<and> (\<forall>out. br_now br out = (Inr (clock out), out)) \<and> in_time clock 0 (br_prompt br) \<and>
     in_time clock 0 (br_cancelled br) \<and> in_time clock 0 (br_closed br) \<and> in_time clock 1 (br_wait br) \<and>
     (\<forall>q out r. fst (br_fetch br q out) = Inr r \<longrightarrow> hs_json r \<noteq> Inl fuel_out)"

lemma in_timeD: "in_time clock least m \<Longrightarrow> m out = (r, out') \<Longrightarrow> clock out + least \<le> clock out'"
  "in_time clock least m \<Longrightarrow> m out \<noteq> (Inl fuel_out, out')"
  unfolding in_time_def by (metis snd_conv, metis fst_conv)

lemma gave_up_not_fuel [simp]: "gave_up \<noteq> fuel_out" "Error m \<noteq> fuel_out" "TypeError \<noteq> fuel_out"
  by (simp_all add: gave_up_def fuel_out_def)

lemma wp_in_time:
  assumes "in_time clock least m" "\<And>x w'. clock (t_outside w) + least \<le> clock (t_outside w') \<Longrightarrow> Q x w'"
  shows "wp (call m) Q (\<lambda>e _. e \<noteq> fuel_out) w"
  unfolding wp_call using in_timeD [OF assms(1)] assms(2) by (auto split: sum.split)

lemma wp_fetch_in_time:
  assumes "time_passes br clock"
    and "\<And>x w'. hs_json x \<noteq> Inl fuel_out \<Longrightarrow> clock (t_outside w) \<le> clock (t_outside w') \<Longrightarrow> Q x w'"
  shows "wp (aux_fetch br q) Q (\<lambda>e _. e \<noteq> fuel_out) w"
proof -
  have "in_time clock 0 (br_fetch br q)" "fst (br_fetch br q out) = Inr r \<Longrightarrow> hs_json r \<noteq> Inl fuel_out" for out r
    using assms(1) by (auto simp: time_passes_def)
  from in_timeD [OF this(1)] this(2) show ?thesis unfolding wp_aux_fetch
    by (auto split: sum.split intro!: assms(2)) (metis fst_conv)
qed

lemma sso_poll_ends:
  assumes "time_passes br clock"
  shows "max 0 (expires - clock (t_outside w)) < int n \<Longrightarrow> wp (sso_poll br challenge expires n) (\<lambda>_ _. True) (\<lambda>e _. e \<noteq> fuel_out) w"
proof (induction n arbitrary: w)
  case (Suc n)
  from assms have t: "in_time clock 0 (br_cancelled br)" "in_time clock 0 (br_closed br)" "in_time clock 1 (br_wait br)"
    "br_now br out = (Inr (clock out), out)" for out by (auto simp: time_passes_def)
  have after: "wp (sso_poll br challenge expires n) (\<lambda>_ _. True) (\<lambda>e _. e \<noteq> fuel_out) w'"
    if "clock (t_outside w) + 1 \<le> clock (t_outside w')" "clock (t_outside w) < expires" for w'
    using that Suc.prems by (intro Suc.IH) linarith
  have now: "wp (call (br_now br)) Q E w' = Q (clock (t_outside w')) w'" for Q E and w' :: "'a http_world"
    by (simp add: wp_call t(4))
  show ?case
    by (auto simp: wp_bind now wp_if wp_throw wp_ret wp_lift simp del: io_simps split: sum.split
        intro!: wp_in_time [OF t(1)] wp_in_time [OF t(2)] wp_in_time [OF t(3)] wp_fetch_in_time [OF assms] after)
qed simp

lemma sso_started_not_fuel: "sso_started br r v \<noteq> Inl fuel_out"
  by (auto simp: sso_started_def sign_in_url_def split: option.split)

lemma sso_opened_ends:
  assumes "time_passes br clock"
  shows "wp (sso_opened br challenge csrf 300001) (\<lambda>_ _. True) (\<lambda>e _. e \<noteq> fuel_out) w"
proof -
  from assms have t: "in_time clock 0 (br_cancelled br)" "br_now br out = (Inr (clock out), out)" for out by (auto simp: time_passes_def)
  have now: "wp (call (br_now br)) Q E w' = Q (clock (t_outside w')) w'" for Q E and w' :: "'a http_world"
    by (simp add: wp_call t(2))
  have poll: "wp (sso_poll br challenge (clock out + 300000) 300001) (\<lambda>_ _. True) (\<lambda>e _. e \<noteq> fuel_out) w'" if "t_outside w' = out" for w' out
    using that by (intro sso_poll_ends [OF assms]) simp
  show ?thesis unfolding sso_opened_def
    by (auto simp: wp_bind now wp_if wp_throw wp_lift wp_log_event sso_started_not_fuel simp del: io_simps sso_poll.simps split: sum.split
        intro!: wp_in_time [OF t(1)] wp_fetch_in_time [OF assms] poll)
qed

lemma sso_abandon_error: "wp (sso_abandon br challenge csrf e) Q (\<lambda>e' _. e' = e) w"
  by (auto simp: sso_abandon_def wps wp_aux_fetch simp del: io_simps split: sum.split)

text \<open>A confirmation ends: while the clock does not run backwards and a wait takes at least a millisecond, the five minutes of polling are over
  within 300001 rounds, whatever the server answers and the user does.\<close>

lemma confirmation_ends:
  assumes "time_passes br clock"
  shows "fst (confirmSSOAction br challenge csrf 300001 w) \<noteq> Inl fuel_out"
proof -
  have abandon: "wp (sso_abandon br challenge csrf e) (\<lambda>_ _. True) (\<lambda>e _. e \<noteq> fuel_out) w'" if "e \<noteq> fuel_out" for e w'
    using that by (intro wp_mono [OF sso_abandon_error]) auto
  have "in_time clock 0 (br_prompt br)" using assms by (simp add: time_passes_def)
  then have "wp (confirmSSOAction br challenge csrf 300001) (\<lambda>_ _. True) (\<lambda>e _. e \<noteq> fuel_out) w"
    unfolding confirmSSOAction_def wp_catch wp_bind
    by (intro wp_mono [OF wp_in_time]) (auto simp: wp_throw simp del: io_simps split: prompt.split intro!: abandon wp_mono [OF sso_opened_ends [OF assms]])
  then show ?thesis by (auto simp: wp_def split: prod.splits sum.splits)
qed

text \<open>A browser whose server never verifies; its outside is the clock.\<close>

definition demo_browser :: "int browser" where
  "demo_browser = \<lparr>br_fetch = (\<lambda>_ t. (Inr \<lparr>hs_status = 200, hs_json = Inr (JObj [(''url'', JStr ''u'')])\<rparr>, t)), br_cookie = (\<lambda>_. ''a=1; csrf_token=tok''),
     br_prompt = (\<lambda>t. (Inr PromptOpened, t)), br_cancelled = (\<lambda>t. (Inr False, t)), br_now = (\<lambda>t. (Inr t, t)), br_closed = (\<lambda>t. (Inr False, t)),
     br_wait = (\<lambda>t. (Inr (), t + 1000)), br_url = (\<lambda>u. Some (''https:'', ''sso.example'', u))\<rparr>"

lemma demo_time: "time_passes demo_browser (\<lambda>t. t)"
  by (simp add: time_passes_def in_time_def demo_browser_def)

end
