(* ===== verification/TeamKeys.thy ===== *)
theory TeamKeys
  imports Crypto
begin

text \<open>
  Identities and key envelopes (\<open>web/src/teamKeys.ts\<close>): the v3 HPKE envelope that carries a
  container key to one device, the stored v2 envelope, the associated context both are bound to,
  and the identity private key wrapped under the login key. HPKE, X25519, AES-GCM and
  ChaCha20-Poly1305 are fields of \<open>lib\<close>; \<open>hpke_laws\<close> and \<open>x25519_length\<close> state what is relied on.
  The lemmas: the context determines container, generation, recipient and sender, the two envelope
  versions never share a context, wrapping and unwrapping are inverse, and a wrapped identity opens
  only for the user and key it was wrapped for.
\<close>

definition ENVELOPE_ALG :: string where
  "ENVELOPE_ALG = ''hpke-auth-x25519-hkdfsha256-chacha20poly1305''"
definition ENVELOPE_BYTES :: nat where "ENVELOPE_BYTES = 111"
definition LEGACY_ENVELOPE_ALG :: string where
  "LEGACY_ENVELOPE_ALG = ''x25519-hkdf-sha256-chacha20poly1305''"
definition LEGACY_ENVELOPE_BYTES :: nat where "LEGACY_ENVELOPE_BYTES = 123"
definition IDENTITY_WRAP_ALG :: string where "IDENTITY_WRAP_ALG = ''aes-256-gcm''"
definition WRAPPED_IDENTITY_BYTES :: nat where "WRAPPED_IDENTITY_BYTES = 60"
definition ENVELOPE_LABEL :: string where "ENVELOPE_LABEL = ''kynotes/envelope/v3''"
definition LEGACY_ENVELOPE_LABEL :: string where "LEGACY_ENVELOPE_LABEL = ''kynotes/envelope/v2''"
definition IDENTITY_LABEL :: string where "IDENTITY_LABEL = ''kynotes/identity/v1''"
definition ID_BYTES :: nat where "ID_BYTES = 30"

record identity =
  publicKey :: bytes
  privateKey :: bytes

text \<open>\<open>Sender\<close> and \<open>HeldIdentity\<close>: an identity and the device row it is registered under.\<close>

record held_identity = identity +
  deviceId :: string

definition idBytes :: "string \<Rightarrow> string \<Rightarrow> bytes result" where
  "idBytes prefix v =
     (if prefixed_id prefix v then Inr (encode v) else Inl (Error (''invalid '' @ prefix @ '' id'')))"

definition generateIdentity :: "lib \<Rightarrow> bytes \<Rightarrow> identity" where
  "generateIdentity L secretKey = \<lparr>publicKey = x25519_public L secretKey, privateKey = secretKey\<rparr>"

definition envelopeContext :: "string \<Rightarrow> string \<Rightarrow> int \<Rightarrow> string \<Rightarrow> string \<Rightarrow> bytes result" where
  "envelopeContext label containerID keyGeneration recipientDeviceID senderDeviceID =
     (if keyGeneration < 1 \<or> keyGeneration > 4294967295 then Inl (Error ''invalid key generation'')
      else
        rbind (idBytes ''cnt'' containerID) (\<lambda>c.
        rbind (idBytes ''dev'' recipientDeviceID) (\<lambda>r.
        rbind (idBytes ''dev'' senderDeviceID) (\<lambda>s.
          Inr (concat_bytes [encode label, c, be32 (nat keyGeneration), r, s])))))"

definition envelopeInfo :: "string \<Rightarrow> int \<Rightarrow> string \<Rightarrow> string \<Rightarrow> bytes result" where
  "envelopeInfo containerID keyGeneration recipientDeviceID senderDeviceID =
     envelopeContext ENVELOPE_LABEL containerID keyGeneration recipientDeviceID senderDeviceID"

definition hpke_error :: js_error where "hpke_error = Error ''hpke''"

text \<open>A key of another length does not deserialize.\<close>

definition hpkeKeyPair :: "lib \<Rightarrow> bytes \<Rightarrow> identity result" where
  "hpkeKeyPair L sk = (if length sk \<noteq> 32 then Inl hpke_error else Inr (generateIdentity L sk))"

definition sealEnvelope ::
  "lib \<Rightarrow> bytes \<Rightarrow> bytes \<Rightarrow> bytes \<Rightarrow> string \<Rightarrow> int \<Rightarrow> string \<Rightarrow> ('a held_identity_scheme) \<Rightarrow> bytes result" where
  "sealEnvelope L ephemeralSeed contentKey recipientPublicKey containerID keyGeneration recipientDeviceID sender =
     (if length contentKey \<noteq> 32 \<or> length recipientPublicKey \<noteq> 32 then Inl (Error ''invalid envelope input'')
      else
        rbind (envelopeInfo containerID keyGeneration recipientDeviceID (deviceId sender)) (\<lambda>info.
        rbind (hpkeKeyPair L (privateKey sender)) (\<lambda>senderKey.
          let (enc, ct) = hpke_seal L recipientPublicKey (privateKey senderKey) info ephemeralSeed contentKey in
          Inr (concat_bytes [[3], encode (deviceId sender), enc, ct]))))"

definition wrapEnvelope ::
  "lib \<Rightarrow> bytes \<Rightarrow> bytes \<Rightarrow> bytes \<Rightarrow> string \<Rightarrow> int \<Rightarrow> string \<Rightarrow> ('a held_identity_scheme) \<Rightarrow> bytes result" where
  "wrapEnvelope L fresh contentKey recipientPublicKey containerID keyGeneration recipientDeviceID sender =
     sealEnvelope L fresh contentKey recipientPublicKey containerID keyGeneration recipientDeviceID sender"

definition envelope_format :: "string \<Rightarrow> (byte \<times> nat) option" where
  "envelope_format alg =
     (if alg = ENVELOPE_ALG then Some (3, ENVELOPE_BYTES)
      else if alg = LEGACY_ENVELOPE_ALG then Some (2, LEGACY_ENVELOPE_BYTES) else None)"

text \<open>A sender field that is not UTF-8 decodes to replacement characters, which are no device ID.\<close>

definition envelopeSender :: "string \<Rightarrow> bytes \<Rightarrow> string result" where
  "envelopeSender alg envelope =
     (case envelope_format alg of
        None \<Rightarrow> Inl (Error ''unsupported envelope'')
      | Some (version, n) \<Rightarrow>
          if length envelope \<noteq> n \<or> hd envelope \<noteq> version then Inl (Error ''unsupported envelope'')
          else case decode (take ID_BYTES (drop 1 envelope)) of
            None \<Rightarrow> Inl (Error ''invalid dev id'')
          | Some sender \<Rightarrow> rbind (idBytes ''dev'' sender) (\<lambda>_. Inr sender))"

definition unwrapLegacyEnvelope ::
  "lib \<Rightarrow> bytes \<Rightarrow> bytes \<Rightarrow> string \<Rightarrow> int \<Rightarrow> string \<Rightarrow> string \<Rightarrow> bytes \<Rightarrow> bytes result" where
  "unwrapLegacyEnvelope L envelope recipientPrivateKey containerID keyGeneration recipientDeviceID sender senderPublicKey =
     rbind (envelopeContext LEGACY_ENVELOPE_LABEL containerID keyGeneration recipientDeviceID sender) (\<lambda>aad.
       let ephemeralPublic = take 32 (drop 31 envelope); nonce = take 12 (drop 63 envelope) in
       case (x25519_shared L recipientPrivateKey ephemeralPublic, x25519_shared L recipientPrivateKey senderPublicKey) of
         (Some a, Some b) \<Rightarrow>
           (let key = hkdf_sha256 L (concat_bytes [a, b]) 32
                  (concat_bytes [ephemeralPublic, x25519_public L recipientPrivateKey, senderPublicKey])
                  (encode LEGACY_ENVELOPE_LABEL)
            in case chacha_open L key nonce aad (drop 75 envelope) of
                 None \<Rightarrow> Inl (Error ''invalid tag'') | Some ck \<Rightarrow> Inr ck)
       | _ \<Rightarrow> Inl (Error ''invalid private or public key received''))"

definition unwrapEnvelope ::
  "lib \<Rightarrow> string \<Rightarrow> bytes \<Rightarrow> bytes \<Rightarrow> string \<Rightarrow> int \<Rightarrow> string \<Rightarrow> bytes \<Rightarrow> bytes result" where
  "unwrapEnvelope L alg envelope recipientPrivateKey containerID keyGeneration recipientDeviceID senderPublicKey =
     rbind (envelopeSender alg envelope) (\<lambda>sender.
       if length senderPublicKey \<noteq> 32 then Inl (Error ''invalid sender key'')
       else if alg = LEGACY_ENVELOPE_ALG then
         unwrapLegacyEnvelope L envelope recipientPrivateKey containerID keyGeneration recipientDeviceID sender senderPublicKey
       else
         rbind (hpkeKeyPair L recipientPrivateKey) (\<lambda>recipientKey.
         rbind (envelopeInfo containerID keyGeneration recipientDeviceID sender) (\<lambda>info.
           case hpke_open L (privateKey recipientKey) senderPublicKey (take 32 (drop (1 + ID_BYTES) envelope)) info
                  (drop (1 + ID_BYTES + 32) envelope) of
             None \<Rightarrow> Inl hpke_error | Some ck \<Rightarrow> Inr ck)))"

definition identityAAD :: "string \<Rightarrow> bytes result" where
  "identityAAD userID = rbind (idBytes ''usr'' userID) (\<lambda>u. Inr (concat_bytes [encode IDENTITY_LABEL, u]))"

definition sealIdentity :: "lib \<Rightarrow> bytes \<Rightarrow> bytes \<Rightarrow> string \<Rightarrow> bytes \<Rightarrow> bytes result" where
  "sealIdentity L kek sk userID nonce =
     (if length kek \<noteq> 32 \<or> length sk \<noteq> 32 \<or> length nonce \<noteq> 12 then Inl (Error ''invalid identity input'')
      else rbind (identityAAD userID) (\<lambda>aad. Inr (concat_bytes [nonce, gcm_seal L kek nonce (Some aad) sk])))"

definition wrapIdentity :: "lib \<Rightarrow> bytes \<Rightarrow> bytes \<Rightarrow> bytes \<Rightarrow> string \<Rightarrow> bytes result" where
  "wrapIdentity L random12 kek sk userID = sealIdentity L kek sk userID random12"

definition unwrapIdentity :: "lib \<Rightarrow> bytes \<Rightarrow> bytes \<Rightarrow> string \<Rightarrow> identity result" where
  "unwrapIdentity L kek wrapped userID =
     (if length kek \<noteq> 32 \<or> length wrapped \<noteq> WRAPPED_IDENTITY_BYTES then Inl (Error ''invalid wrapped identity'')
      else rbind (identityAAD userID) (\<lambda>aad.
        case gcm_open L kek (take 12 wrapped) (Some aad) (drop 12 wrapped) of
          None \<Rightarrow> Inl (Error ''invalid tag'')
        | Some sk \<Rightarrow> Inr (generateIdentity L sk)))"

section \<open>What the code relies on of X25519 and HPKE\<close>

definition x25519_length :: "lib \<Rightarrow> bool" where
  "x25519_length L \<longleftrightarrow> (\<forall>sk. length (x25519_public L sk) = 32)"

definition hpke_laws :: "lib \<Rightarrow> bool" where
  "hpke_laws L \<longleftrightarrow> (\<forall>rsk ssk info seed pt enc ct.
     length rsk = 32 \<longrightarrow> length ssk = 32 \<longrightarrow>
     hpke_seal L (x25519_public L rsk) ssk info seed pt = (enc, ct) \<longrightarrow>
       length enc = 32 \<and> length ct = length pt + 16 \<and>
       hpke_open L rsk (x25519_public L ssk) enc info ct = Some pt)"

section \<open>The context\<close>

lemma idBytes_Inr [simp]: "idBytes p v = Inr bs \<longleftrightarrow> prefixed_id p v \<and> bs = encode v"
  by (auto simp: idBytes_def)

lemma ascii_append: "ascii (s @ t) \<longleftrightarrow> ascii s \<and> ascii t"
  by (simp add: ascii_def)

lemma ascii_underscore: "ascii ''_''"
  by (simp add: ascii_def)

lemma prefixed_id_encode:
  assumes "prefixed_id p v" "ascii p"
  shows "length (encode v) = 30"
proof -
  have "v = (p @ ''_'') @ drop 4 v" using assms(1) append_take_drop_id [of 4 v] by (simp add: prefixed_id_def)
  moreover have "ascii (drop 4 v)"
    using assms(1) by (auto simp: prefixed_id_def ascii_def list_all_iff crockford_ascii)
  ultimately have "ascii v" using assms(2) by (metis ascii_append ascii_underscore)
  then show ?thesis using assms(1) by (simp add: length_encode_ascii prefixed_id_def)
qed


lemma id_prefix_ascii: "ascii ''cnt''" "ascii ''dev''" "ascii ''usr''" "ascii ''lnk''"
  by (simp_all add: ascii_def)

lemmas id_length = prefixed_id_encode [OF _ id_prefix_ascii(1)] prefixed_id_encode [OF _ id_prefix_ascii(2)]
  prefixed_id_encode [OF _ id_prefix_ascii(3)] prefixed_id_encode [OF _ id_prefix_ascii(4)]

lemma envelopeContext_Inr:
  "envelopeContext label c g r s = Inr bs \<longleftrightarrow>
     1 \<le> g \<and> g \<le> 4294967295 \<and> prefixed_id ''cnt'' c \<and> prefixed_id ''dev'' r \<and> prefixed_id ''dev'' s \<and>
     bs = encode label @ encode c @ be32 (nat g) @ encode r @ encode s"
  by (auto simp: envelopeContext_def rbind_eq_Inr concat_bytes_def)

lemma envelopeContext_inj:
  assumes "envelopeContext label c g r s = Inr bs" "envelopeContext label c' g' r' s' = Inr bs"
  shows "c = c' \<and> g = g' \<and> r = r' \<and> s = s'"
proof -
  from assms have "encode c @ be32 (nat g) @ encode r @ encode s = encode c' @ be32 (nat g') @ encode r' @ encode s'"
    by (simp add: envelopeContext_Inr)
  moreover have "length (encode c) = length (encode c')" "length (encode r) = length (encode r')"
    using assms by (simp_all add: envelopeContext_Inr id_length)
  ultimately have "c = c'" "be32 (nat g) = be32 (nat g')" "r = r'" "s = s'" by simp_all
  moreover have "nat g < 4294967296" "nat g' < 4294967296" "0 \<le> g" "0 \<le> g'"
    using assms by (auto simp: envelopeContext_Inr)
  ultimately show ?thesis by (metis be32_inj nat_0_le)
qed

lemma label_lengths: "length (encode ENVELOPE_LABEL) = length (encode LEGACY_ENVELOPE_LABEL)"
  by (subst (1 2) length_encode_ascii) (simp_all add: ascii_def ENVELOPE_LABEL_def LEGACY_ENVELOPE_LABEL_def)

lemma contexts_disjoint:
  assumes "envelopeContext LEGACY_ENVELOPE_LABEL c g r s = Inr aad"
  shows "envelopeInfo c' g' r' s' \<noteq> Inr aad"
proof
  assume "envelopeInfo c' g' r' s' = Inr aad"
  with assms have "encode ENVELOPE_LABEL = encode LEGACY_ENVELOPE_LABEL"
    using label_lengths by (simp add: envelopeInfo_def envelopeContext_Inr)
  then show False by (simp add: ENVELOPE_LABEL_def LEGACY_ENVELOPE_LABEL_def)
qed

section \<open>Envelopes\<close>

lemma sealEnvelope_Inr:
  "sealEnvelope L seed ck rpk c g r s = Inr bs \<longleftrightarrow>
     length ck = 32 \<and> length rpk = 32 \<and> length (privateKey s) = 32 \<and>
     (\<exists>info enc ct. envelopeInfo c g r (deviceId s) = Inr info \<and>
        hpke_seal L rpk (privateKey s) info seed ck = (enc, ct) \<and>
        bs = 3 # encode (deviceId s) @ enc @ ct)"
  by (auto simp: sealEnvelope_def rbind_eq_Inr hpkeKeyPair_def concat_bytes_def generateIdentity_def case_prod_beta)
    (metis prod.collapse)

lemma alg_distinct [simp]: "ENVELOPE_ALG \<noteq> LEGACY_ENVELOPE_ALG" "LEGACY_ENVELOPE_ALG \<noteq> ENVELOPE_ALG"
  by (simp_all add: ENVELOPE_ALG_def LEGACY_ENVELOPE_ALG_def)

lemma envelopeSender_framed:
  assumes "prefixed_id ''dev'' d" "length enc = 32" "length ct = 48"
  shows "envelopeSender ENVELOPE_ALG (3 # encode d @ enc @ ct) = Inr d"
  using assms id_length(2) [OF assms(1)]
  by (simp add: envelopeSender_def envelope_format_def ENVELOPE_BYTES_def ID_BYTES_def idBytes_def)

lemma hpke_lawsD:
  assumes "hpke_laws L" "length rsk = 32" "length ssk = 32"
    and "hpke_seal L (x25519_public L rsk) ssk info seed pt = (enc, ct)"
  shows "length enc = 32" "length ct = length pt + 16" "hpke_open L rsk (x25519_public L ssk) enc info ct = Some pt"
  using assms unfolding hpke_laws_def by blast+

lemma unwrap_wrapEnvelope:
  assumes "hpke_laws L" "length rsk = 32" "wrapEnvelope L fresh ck (x25519_public L rsk) c g r s = Inr bs"
    and "x25519_length L"
  shows "length bs = ENVELOPE_BYTES" "envelopeSender ENVELOPE_ALG bs = Inr (deviceId s)"
    "unwrapEnvelope L ENVELOPE_ALG bs rsk c g r (x25519_public L (privateKey s)) = Inr ck"
proof -
  from assms(3) obtain info enc ct where info: "envelopeInfo c g r (deviceId s) = Inr info"
    and sk: "length (privateKey s) = 32" and ck: "length ck = 32"
    and sealed: "hpke_seal L (x25519_public L rsk) (privateKey s) info fresh ck = (enc, ct)"
    and bs: "bs = 3 # encode (deviceId s) @ enc @ ct"
    unfolding wrapEnvelope_def sealEnvelope_Inr by blast
  from info have dev: "prefixed_id ''dev'' (deviceId s)" by (simp add: envelopeInfo_def envelopeContext_Inr)
  have opened: "length enc = 32" "length ct = 48" "hpke_open L rsk (x25519_public L (privateKey s)) enc info ct = Some ck"
    using hpke_lawsD [OF assms(1,2) sk sealed] ck by simp_all
  show "length bs = ENVELOPE_BYTES" using bs opened id_length(2) [OF dev] by (simp add: ENVELOPE_BYTES_def)
  show sender: "envelopeSender ENVELOPE_ALG bs = Inr (deviceId s)"
    unfolding bs using dev opened by (intro envelopeSender_framed)
  from sender info opened assms(2,4) id_length(2) [OF dev]
  show "unwrapEnvelope L ENVELOPE_ALG bs rsk c g r (x25519_public L (privateKey s)) = Inr ck"
    by (simp add: unwrapEnvelope_def hpkeKeyPair_def generateIdentity_def x25519_length_def ID_BYTES_def bs)
qed

lemma envelopeSender_device: "envelopeSender alg bs = Inr d \<Longrightarrow> prefixed_id ''dev'' d"
  by (auto simp: envelopeSender_def rbind_eq_Inr split: option.splits if_splits)

section \<open>Wrapped identities\<close>

lemma identityAAD_inj: "identityAAD u = Inr a \<Longrightarrow> identityAAD v = Inr a \<Longrightarrow> u = v"
  by (auto simp: identityAAD_def rbind_eq_Inr concat_bytes_def)

lemma sealIdentity_Inr:
  "sealIdentity L kek sk u nonce = Inr w \<longleftrightarrow> length kek = 32 \<and> length sk = 32 \<and> length nonce = 12 \<and>
     (\<exists>aad. identityAAD u = Inr aad \<and> w = nonce @ gcm_seal L kek nonce (Some aad) sk)"
  by (auto simp: sealIdentity_def rbind_eq_Inr concat_bytes_def)

lemma unwrapIdentity_sealIdentity:
  assumes "gcm_roundtrip L" "gcm_overhead L" "sealIdentity L kek sk u nonce = Inr w"
  shows "length w = WRAPPED_IDENTITY_BYTES" "unwrapIdentity L kek w u = Inr (generateIdentity L sk)"
  using assms
  by (auto simp: sealIdentity_Inr unwrapIdentity_def gcm_roundtrip_def gcm_overhead_def WRAPPED_IDENTITY_BYTES_def)

lemma unwrapIdentity_exact:
  assumes "gcm_exact L" "gcm_overhead L" "unwrapIdentity L kek w u = Inr i"
  shows "sealIdentity L kek (privateKey i) u (take 12 w) = Inr w"
proof -
  from assms(3) obtain aad where aad: "identityAAD u = Inr aad" and k: "length kek = 32"
    and w: "length w = 60" and opened: "gcm_open L kek (take 12 w) (Some aad) (drop 12 w) = Some (privateKey i)"
    by (auto simp: unwrapIdentity_def rbind_eq_Inr WRAPPED_IDENTITY_BYTES_def generateIdentity_def
        split: if_splits option.splits)
  then have sealed: "drop 12 w = gcm_seal L kek (take 12 w) (Some aad) (privateKey i)"
    using assms(1) by (simp add: gcm_exact_def)
  have "length (drop 12 w) = length (privateKey i) + 16"
    unfolding sealed using assms(2) by (simp add: gcm_overhead_def)
  then have "length (privateKey i) = 32" using w by simp
  moreover have "w = take 12 w @ gcm_seal L kek (take 12 w) (Some aad) (privateKey i)"
    using append_take_drop_id [of 12 w] unfolding sealed by simp
  ultimately show ?thesis using aad k w by (simp add: sealIdentity_Inr)
qed

section \<open>The concrete library\<close>

lemma sum_list_padded: "length k = 32 \<Longrightarrow> take 32 (k @ replicate 32 0) = (k :: bytes)"
  by simp

lemma demo_lib_hpke: "hpke_laws demo_lib" "x25519_length demo_lib"
  by (auto simp: hpke_laws_def x25519_length_def demo_lib_def)

section \<open>Properties\<close>

definition demo_cnt :: string where "demo_cnt = ''cnt_'' @ replicate 26 (CHR ''1'')"
definition demo_dev :: "char \<Rightarrow> string" where "demo_dev c = ''dev_'' @ replicate 26 c"
definition demo_usr :: "char \<Rightarrow> string" where "demo_usr c = ''usr_'' @ replicate 26 c"

lemma demo_ids: "prefixed_id ''cnt'' demo_cnt" "crockford c \<Longrightarrow> prefixed_id ''dev'' (demo_dev c)"
    "crockford c \<Longrightarrow> prefixed_id ''usr'' (demo_usr c)"
  by (simp_all add: prefixed_id_def demo_cnt_def demo_dev_def demo_usr_def list_all_iff crockford_def)

lemma demo_wrap_works:
  assumes "length ck = 32" "length rpk = 32" "length (privateKey s) = 32" "1 \<le> g" "g \<le> 4294967295"
    and "prefixed_id ''cnt'' c" "prefixed_id ''dev'' r" "prefixed_id ''dev'' (deviceId s)"
  shows "\<exists>bs. wrapEnvelope L seed ck rpk c g r s = Inr bs"
  using assms
  by (auto simp: wrapEnvelope_def sealEnvelope_def hpkeKeyPair_def envelopeInfo_def envelopeContext_def idBytes_def split: prod.splits)

text \<open>A container key wrapped for a device has the fixed v3 length, names its sender, and opens on
  that device for that container and generation, with the sender's public key, to the same key.\<close>

lemma envelope_roundtrip:
  assumes "hpke_laws L" "x25519_length L" "length recipientPrivateKey = 32"
    and "wrapEnvelope L fresh contentKey (x25519_public L recipientPrivateKey) containerID g recipientDeviceID sender = Inr bs"
  shows "length bs = ENVELOPE_BYTES \<and> envelopeSender ENVELOPE_ALG bs = Inr (deviceId sender) \<and>
    unwrapEnvelope L ENVELOPE_ALG bs recipientPrivateKey containerID g recipientDeviceID
      (x25519_public L (privateKey sender)) = Inr contentKey"
  using unwrap_wrapEnvelope [OF assms(1,3,4,2)] by simp

text \<open>The HPKE context of an envelope determines its container, generation, recipient and sender, and no
  v3 context equals a v2 one, so an envelope never opens for another place, generation, device or version
  without HPKE accepting a context it was not sealed for.\<close>

lemma envelope_context_binding:
  assumes "envelopeInfo containerID g recipient sender = Inr info"
  shows "(envelopeInfo containerID' g' recipient' sender' = Inr info \<longleftrightarrow>
       containerID' = containerID \<and> g' = g \<and> recipient' = recipient \<and> sender' = sender) \<and>
    envelopeContext LEGACY_ENVELOPE_LABEL containerID' g' recipient' sender' \<noteq> Inr info"
proof
  show "envelopeInfo containerID' g' recipient' sender' = Inr info \<longleftrightarrow>
       containerID' = containerID \<and> g' = g \<and> recipient' = recipient \<and> sender' = sender"
    using assms envelopeContext_inj [of ENVELOPE_LABEL] unfolding envelopeInfo_def by metis
  show "envelopeContext LEGACY_ENVELOPE_LABEL containerID' g' recipient' sender' \<noteq> Inr info"
    using assms contexts_disjoint by blast
qed

text \<open>An identity wrapped under the login key is 60 bytes and unwraps for the same user to the same key pair;
  and 60 bytes unwrap only if they were wrapped under this key for this user.\<close>

lemma identity_wrap_exact:
  assumes "gcm_roundtrip L" "gcm_exact L" "gcm_overhead L"
  shows "unwrapIdentity L kek wrapped user = Inr i \<longleftrightarrow>
    (\<exists>nonce. sealIdentity L kek (privateKey i) user nonce = Inr wrapped) \<and> publicKey i = x25519_public L (privateKey i)"
proof
  assume "unwrapIdentity L kek wrapped user = Inr i"
  with unwrapIdentity_exact [OF assms(2,3) this]
  show "(\<exists>nonce. sealIdentity L kek (privateKey i) user nonce = Inr wrapped) \<and> publicKey i = x25519_public L (privateKey i)"
    by (auto simp: unwrapIdentity_def rbind_eq_Inr generateIdentity_def split: if_splits option.splits)
next
  assume "(\<exists>nonce. sealIdentity L kek (privateKey i) user nonce = Inr wrapped) \<and> publicKey i = x25519_public L (privateKey i)"
  then show "unwrapIdentity L kek wrapped user = Inr i"
    using unwrapIdentity_sealIdentity(2) [OF assms(1,3)] by (cases i) (auto simp: generateIdentity_def)
qed

end
