(* ===== verification/Pins.thy ===== *)
theory Pins
  imports TeamKeys
begin

text \<open>
  Trust on first use (\<open>web/src/pins.ts\<close>): the pinned identity key of each colleague, the
  comparison of a shown key with its pin, the confirmation a user gives for a changed key, and the
  rows of the settings page. The object identity by which a confirmation is recognised
  (a \<open>WeakSet\<close>) is the list of confirmations minted so far, each with its own serial number.
  \<open>displayName\<close> and \<open>retrustMessage\<close> only format text with characters above 255 and are left out.
  The lemmas: keys are equal only as the same 32 bytes, an unchanged pin is never reported, every
  other keyed member is reported exactly once, and a confirmation replaces one pin and no other.
\<close>

record public_identity =
  idn_device :: string
  idn_key :: string

record member_key =
  userId :: string
  username :: string
  role :: string
  keyResetAt :: "string option"
  approved :: "bool option"
  pendingRole :: "string option"
  m_identity :: "public_identity option"

type_synonym pins = "(string, string) dict"

record pin_change =
  pc_member :: member_key
  pc_pinned :: string

definition publicKeyBytes :: "string \<Rightarrow> bytes result" where
  "publicKeyBytes pk = rbind (fromBase64 pk) (\<lambda>raw.
     if length raw \<noteq> 32 then Inl (Error ''invalid identity public key'') else Inr raw)"

definition validKey :: "string \<Rightarrow> bool" where
  "validKey key = (case publicKeyBytes key of Inr raw \<Rightarrow> length raw = 32 | Inl _ \<Rightarrow> False)"

definition sameKey :: "string \<Rightarrow> string \<Rightarrow> bool" where
  "sameKey a b =
     (case (publicKeyBytes a, publicKeyBytes b) of
        (Inr x, Inr y) \<Rightarrow> list_all (\<lambda>i. x ! i = y ! i) [0..<length x]
      | _ \<Rightarrow> False)"

definition FingerprintChangedError :: "member_key \<Rightarrow> js_error" where
  "FingerprintChangedError member =
     NamedError ''FingerprintChangedError'' (username member @ [CHR 0x27] @ ''s identity key changed'')"

record pin_confirmation =
  pf_serial :: nat
  pf_userId :: string
  pf_key :: string
  pf_pins :: pins

type_synonym confirmations = "pin_confirmation list"

definition mintConfirmation :: "string \<Rightarrow> string \<Rightarrow> pins \<Rightarrow> confirmations \<Rightarrow> pin_confirmation \<times> confirmations" where
  "mintConfirmation u key ps minted =
     (let c = \<lparr>pf_serial = length minted, pf_userId = u, pf_key = key, pf_pins = ps\<rparr> in (c, c # minted))"

definition isPinConfirmation :: "confirmations \<Rightarrow> pin_confirmation \<Rightarrow> bool" where
  "isPinConfirmation minted c = (c \<in> set minted)"

definition confirmFingerprintChange :: "pins \<Rightarrow> member_key \<Rightarrow> (confirmations, pin_confirmation) io" where
  "confirmFingerprintChange ps member minted =
     (case m_identity member of
        None \<Rightarrow> (Inl (Error ''invalid identity public key''), minted)
      | Some i \<Rightarrow>
          if idn_key i = [] \<or> \<not> validKey (idn_key i) then (Inl (Error ''invalid identity public key''), minted)
          else (let (c, minted') = mintConfirmation (userId member) (idn_key i)
                      (AList.update (userId member) (idn_key i) ps) minted
                in (Inr c, minted')))"

fun comparePins :: "pins \<Rightarrow> member_key list \<Rightarrow> member_key list \<times> pin_change list" where
  "comparePins ps [] = ([], [])"
| "comparePins ps (member # members) =
     (let (fresh, changed) = comparePins ps members in
      case m_identity member of
        None \<Rightarrow> (fresh, changed)
      | Some i \<Rightarrow>
          if idn_key i = [] then (fresh, changed)
          else case map_of ps (userId member) of
            None \<Rightarrow> (if validKey (idn_key i) then (member # fresh, changed) else (fresh, changed))
          | Some pinned \<Rightarrow>
              if \<not> sameKey pinned (idn_key i)
              then (fresh, \<lparr>pc_member = member, pc_pinned = pinned\<rparr> # changed)
              else (fresh, changed))"

fun groups_of_four :: "string \<Rightarrow> string list" where
  "groups_of_four (a # b # c # d # r) = [a, b, c, d] # groups_of_four r"
| "groups_of_four _ = []"

fun join_spaces :: "string list \<Rightarrow> string" where
  "join_spaces [] = []"
| "join_spaces [x] = x"
| "join_spaces (x # y # r) = x @ CHR '' '' # join_spaces (y # r)"

definition fingerprint :: "lib \<Rightarrow> string \<Rightarrow> string result" where
  "fingerprint L pk = rbind (publicKeyBytes pk) (\<lambda>raw.
     rbind (digestSha256Hex L raw) (\<lambda>h. Inr (join_spaces (groups_of_four h))))"

datatype pin_state = Same | Changed | Unseen

record pin_row =
  pr_userId :: string
  pr_pinned :: string
  pr_current :: "string option"
  pr_state :: pin_state

text \<open>On user IDs, which share their first four characters and are digits and lower-case letters after
  them, \<open>localeCompare\<close> is the order of the character codes.\<close>

definition pinRows :: "pins \<Rightarrow> (string, string) dict \<Rightarrow> pin_row list" where
  "pinRows ps current =
     map (\<lambda>(u, pinned).
       let now = map_of current u in
       \<lparr>pr_userId = u, pr_pinned = pinned, pr_current = now,
        pr_state = (case now of None \<Rightarrow> Unseen | Some k \<Rightarrow> if sameKey pinned k then Same else Changed)\<rparr>)
     (sort_key fst ps)"

definition retrustTarget :: "string \<Rightarrow> string \<Rightarrow> public_identity option \<Rightarrow> member_key option" where
  "retrustTarget u shown fresh =
     (case fresh of
        None \<Rightarrow> None
      | Some f \<Rightarrow>
          if \<not> validKey (idn_key f) \<or> \<not> sameKey shown (idn_key f) then None
          else Some \<lparr>userId = u, username = u, role = [], keyResetAt = None, approved = None,
            pendingRole = None, m_identity = Some \<lparr>idn_device = idn_device f, idn_key = idn_key f\<rparr>\<rparr>)"

section \<open>Keys\<close>

lemma publicKeyBytes_length: "publicKeyBytes k = Inr raw \<Longrightarrow> length raw = 32"
  by (auto simp: publicKeyBytes_def rbind_eq_Inr split: if_splits)

lemma validKey_iff: "validKey k \<longleftrightarrow> (\<exists>raw. publicKeyBytes k = Inr raw)"
  by (auto simp: validKey_def publicKeyBytes_length split: sum.splits)

lemma sameKey_iff: "sameKey a b \<longleftrightarrow> (\<exists>raw. publicKeyBytes a = Inr raw \<and> publicKeyBytes b = Inr raw)"
proof -
  have "list_all (\<lambda>i. x ! i = y ! i) [0..<length x] \<longleftrightarrow> x = y"
    if "publicKeyBytes a = Inr x" "publicKeyBytes b = Inr y" for x y
    using that [THEN publicKeyBytes_length] by (auto simp: list_all_iff intro: nth_equalityI)
  then show ?thesis by (auto simp: sameKey_def split: sum.splits)
qed

lemma sameKey_refl: "sameKey k k \<longleftrightarrow> validKey k"
  by (auto simp: sameKey_iff validKey_iff)

lemma sameKey_sym: "sameKey a b \<longleftrightarrow> sameKey b a"
  by (auto simp: sameKey_iff)

lemma sameKey_trans: "sameKey a b \<Longrightarrow> sameKey b c \<Longrightarrow> sameKey a c"
  by (auto simp: sameKey_iff)

lemma publicKeyBytes_base64 [simp]: "length raw = 32 \<Longrightarrow> publicKeyBytes (base64 raw) = Inr raw"
  by (simp add: publicKeyBytes_def)

section \<open>Comparison\<close>

definition is_fresh :: "pins \<Rightarrow> member_key \<Rightarrow> bool" where
  "is_fresh ps m = (\<exists>i. m_identity m = Some i \<and> idn_key i \<noteq> [] \<and> validKey (idn_key i) \<and> map_of ps (userId m) = None)"

definition is_changed :: "pins \<Rightarrow> member_key \<Rightarrow> bool" where
  "is_changed ps m = (\<exists>i p. m_identity m = Some i \<and> idn_key i \<noteq> [] \<and> map_of ps (userId m) = Some p \<and> \<not> sameKey p (idn_key i))"

lemma comparePins_spec:
  "fst (comparePins ps ms) = filter (is_fresh ps) ms"
  "map pc_member (snd (comparePins ps ms)) = filter (is_changed ps) ms"
  by (induction ms) (auto simp: is_fresh_def is_changed_def Let_def case_prod_beta split: option.splits)

lemma comparePins_pinned:
  "ch \<in> set (snd (comparePins ps ms)) \<Longrightarrow> map_of ps (userId (pc_member ch)) = Some (pc_pinned ch)"
  by (induction ms) (auto simp: Let_def case_prod_beta split: option.splits if_splits)

section \<open>Confirmations\<close>

lemma confirm_Inr:
  "confirmFingerprintChange ps m minted = (Inr c, minted') \<longleftrightarrow>
     (\<exists>i. m_identity m = Some i \<and> validKey (idn_key i) \<and> idn_key i \<noteq> [] \<and> minted' = c # minted \<and>
       c = \<lparr>pf_serial = length minted, pf_userId = userId m, pf_key = idn_key i,
            pf_pins = AList.update (userId m) (idn_key i) ps\<rparr>)"
  by (auto simp: confirmFingerprintChange_def mintConfirmation_def Let_def split: option.splits)

lemma empty_key_invalid: "\<not> validKey []"
  by (simp add: validKey_iff publicKeyBytes_def fromBase64_def strip_pad_def Let_def)

lemma retrustTarget_Some:
  "retrustTarget u shown fresh = Some m \<Longrightarrow>
     userId m = u \<and> username m = u \<and> (\<exists>i. m_identity m = Some i \<and> sameKey shown (idn_key i))"
  by (auto simp: retrustTarget_def split: option.splits if_splits)

section \<open>Properties\<close>

text \<open>Comparing the members a server shows with the pins reports as fresh exactly the members with a valid key and
  no pin, and as changed exactly those whose key is not byte for byte the pinned one; an unchanged key is never reported.\<close>

lemma comparePins_exact:
  "fst (comparePins ps members) =
     filter (\<lambda>m. \<exists>i. m_identity m = Some i \<and> validKey (idn_key i) \<and> map_of ps (userId m) = None) members \<and>
   map pc_member (snd (comparePins ps members)) =
     filter (\<lambda>m. \<exists>i p. m_identity m = Some i \<and> idn_key i \<noteq> [] \<and> map_of ps (userId m) = Some p \<and>
       \<not> (\<exists>raw. length raw = 32 \<and> fromBase64 p = Inr raw \<and> fromBase64 (idn_key i) = Inr raw)) members"
proof -
  have same: "sameKey a b \<longleftrightarrow> (\<exists>raw. length raw = 32 \<and> fromBase64 a = Inr raw \<and> fromBase64 b = Inr raw)" for a b
    by (auto simp: sameKey_iff publicKeyBytes_def rbind_eq_Inr split: if_splits)
  have "is_fresh ps = (\<lambda>m. \<exists>i. m_identity m = Some i \<and> validKey (idn_key i) \<and> map_of ps (userId m) = None)"
    using empty_key_invalid by (auto simp: is_fresh_def fun_eq_iff)
  then show ?thesis unfolding comparePins_spec is_changed_def same by simp
qed

end
