(* ===== verification/Keyring.thy ===== *)
theory Keyring
  imports Pins Json
begin

text \<open>
  Container keys (\<open>web/src/keyring.ts\<close>): the sharing floor that only rises, the one guard every
  server-reported container passes, opening of key envelopes from trusted senders, the key new
  content is written with and the key a row is read with, the sweep that hands keys to members, and
  sealing for one member. A \<open>Keyring\<close> is an association list from generation to key.
  The lemmas: no field of a floor ever falls and merging is a join, a rollback is reported exactly
  when the server shows less than was seen, every opened key comes from a trusted sender and agrees
  with the digest remembered for its generation, pins and digests are only added to, and the sweep
  grants exactly the missing generations this browser holds to approved members.
\<close>

record envelope_row =
  e_device :: string
  e_generation :: int
  e_alg :: string
  e_envelope :: string

record keyed_container =
  c_id :: string
  keyGeneration :: int
  sharedGeneration :: int

record reported_container = keyed_container +
  c_kind :: string
  c_teamId :: "string option"

type_synonym keyring = "(int, bytes) dict"

record write_key =
  w_key :: bytes
  w_generation :: int

record key_floor =
  shared :: "int option"
  generation :: "int option"

record key_state = key_floor +
  mark :: int
  digests :: "(int, string) dict"
  objects2 :: bool

record me = held_identity +
  me_userId :: string

definition NO_FLOOR :: key_floor where
  "NO_FLOOR = \<lparr>shared = None, generation = None\<rparr>"

section \<open>The floor\<close>

definition raiseFloor :: "'a key_floor_scheme \<Rightarrow> 'b keyed_container_scheme \<Rightarrow> 'a key_floor_scheme" where
  "raiseFloor floor container =
     floor\<lparr>shared := Some (max (or0 (shared floor)) (sharedGeneration container)),
           generation := Some (max (or0 (generation floor)) (keyGeneration container))\<rparr>"

definition mergeFloor :: "key_floor option \<Rightarrow> 'a key_floor_scheme \<Rightarrow> key_floor" where
  "mergeFloor floor next =
     \<lparr>shared = Some (max (case floor of None \<Rightarrow> 0 | Some f \<Rightarrow> or0 (shared f)) (or0 (shared next))),
      generation = Some (max (case floor of None \<Rightarrow> 0 | Some f \<Rightarrow> or0 (generation f)) (or0 (generation next)))\<rparr>"

definition guardContainer ::
  "'a keyed_container_scheme \<Rightarrow> 'b key_floor_scheme \<Rightarrow> 'a keyed_container_scheme \<times> bool" where
  "guardContainer container floor =
     (let sh = or0 (shared floor); gen = or0 (generation floor) in
      (container\<lparr>sharedGeneration := max (sharedGeneration container) sh,
                 keyGeneration := max (keyGeneration container) gen\<rparr>,
       sharedGeneration container < sh \<or> keyGeneration container < gen))"

definition keysAllowed :: "'a keyed_container_scheme \<Rightarrow> 'b key_floor_scheme \<Rightarrow> bool" where
  "keysAllowed container floor = (\<not> snd (guardContainer container floor))"

section \<open>Opening a keyring\<close>

definition isSteward :: "string \<Rightarrow> bool" where
  "isSteward r = (r = ''owner'' \<or> r = ''admin'')"

record opened_keyring =
  ok_ring :: keyring
  ok_pins :: pins
  ok_fresh :: "member_key list"
  ok_changed :: "pin_change list"
  ok_conflicts :: "int list"
  ok_known :: key_state

definition key_digest :: "lib \<Rightarrow> bytes \<Rightarrow> string" where
  "key_digest L key = bytesToHex (sha256 L key)"

text \<open>First key per generation wins, also across reloads through the stored digest.\<close>

definition accept :: "lib \<Rightarrow> int \<Rightarrow> bytes \<Rightarrow> opened_keyring \<Rightarrow> bool \<times> opened_keyring" where
  "accept L g key st =
     (let digest = key_digest L key;
          matches = (case map_of (ok_ring st) g of
             Some prior \<Rightarrow> key_digest L prior = digest
           | None \<Rightarrow> (case map_of (digests (ok_known st)) g of None \<Rightarrow> True | Some d \<Rightarrow> d = digest))
      in if \<not> matches then
           (False, st\<lparr>ok_conflicts := ok_conflicts st @ (if g \<in> set (ok_conflicts st) then [] else [g])\<rparr>)
         else
           (True, st\<lparr>ok_ring := AList.update g (case map_of (ok_ring st) g of Some prior \<Rightarrow> prior | None \<Rightarrow> key) (ok_ring st),
                     ok_known := (ok_known st)\<lparr>digests :=
                       (case map_of (digests (ok_known st)) g of
                          None \<Rightarrow> AList.update g digest (digests (ok_known st))
                        | Some _ \<Rightarrow> digests (ok_known st))\<rparr>\<rparr>))"

definition open_as :: "lib \<Rightarrow> me \<Rightarrow> string \<Rightarrow> string \<Rightarrow> bytes \<Rightarrow> int \<Rightarrow> bytes \<Rightarrow> bytes option" where
  "open_as L me containerID alg envelope g sender =
     to_option (rbind (unwrapEnvelope L alg envelope (privateKey me) containerID g (deviceId me) sender) asContentKey)"

text \<open>What pass 1 decides about a row's sender before it opens anything.\<close>

datatype sender_view =
    OwnRow                       \<comment> \<open>another of this user's identities: skipped\<close>
  | Self
  | Steward member_key public_identity "string option"
  | Stranger

definition sender_of :: "me \<Rightarrow> member_key list \<Rightarrow> pins \<Rightarrow> string \<Rightarrow> sender_view" where
  "sender_of me members ps sender =
     (if sender = deviceId me then Self
      else case find (\<lambda>entry. map_option idn_device (m_identity entry) = Some sender) members of
        None \<Rightarrow> Stranger
      | Some member \<Rightarrow>
          if userId member = me_userId me then OwnRow
          else case m_identity member of
            None \<Rightarrow> Stranger
          | Some i \<Rightarrow> if isSteward (role member) then Steward member i (map_of ps (userId member)) else Stranger)"

definition note_changed :: "member_key \<Rightarrow> string \<Rightarrow> opened_keyring \<Rightarrow> opened_keyring" where
  "note_changed steward pinned st =
     (if \<exists>change \<in> set (ok_changed st). userId (pc_member change) = userId steward then st
      else st\<lparr>ok_changed := ok_changed st @ [\<lparr>pc_member = steward, pc_pinned = pinned\<rparr>]\<rparr>)"

definition accept_current ::
  "lib \<Rightarrow> int \<Rightarrow> bytes \<Rightarrow> (member_key \<times> public_identity) option \<Rightarrow> opened_keyring \<Rightarrow> opened_keyring" where
  "accept_current L g key first st =
     (case accept L g key st of
        (False, st') \<Rightarrow> st'
      | (True, st') \<Rightarrow>
          let st'' = st'\<lparr>ok_known := (ok_known st')\<lparr>mark := max (mark (ok_known st')) g\<rparr>\<rparr> in
          (case first of
             None \<Rightarrow> st''
           | Some (steward, i) \<Rightarrow>
               st''\<lparr>ok_pins := AList.update (userId steward) (idn_key i) (ok_pins st''),
                    ok_fresh := ok_fresh st'' @ [steward]\<rparr>))"

type_synonym deferred = "(string \<times> bytes \<times> int) list"

text \<open>One row of pass 1. A row that throws leaves everything as it was.\<close>

definition judged_row ::
  "lib \<Rightarrow> me \<Rightarrow> string \<Rightarrow> envelope_row \<Rightarrow> bytes \<Rightarrow> sender_view \<Rightarrow> opened_keyring \<Rightarrow> deferred \<Rightarrow> opened_keyring \<times> deferred" where
  "judged_row L me containerID row envelope view st later =
     (let g = e_generation row; defer = later @ [(e_alg row, envelope, g)];
          try_key = open_as L me containerID (e_alg row) envelope g in
      case view of
        OwnRow \<Rightarrow> (st, later)
      | Stranger \<Rightarrow> (st, defer)
      | Self \<Rightarrow>
          (case try_key (publicKey me) of
             None \<Rightarrow> (st, defer)
           | Some key \<Rightarrow> (accept_current L g key None st, later))
      | Steward steward i pinned \<Rightarrow>
          (if pinned \<noteq> None \<and> \<not> sameKey (the pinned) (idn_key i)
           then (note_changed steward (the pinned) st, defer)
           else case publicKeyBytes (idn_key i) of
             Inl _ \<Rightarrow> (st, later)
           | Inr spk \<Rightarrow>
               (case try_key spk of
                  None \<Rightarrow> (st, defer)
                | Some key \<Rightarrow>
                    (accept_current L g key (if pinned = None then Some (steward, i) else None) st, later))))"

definition current_row ::
  "lib \<Rightarrow> me \<Rightarrow> string \<Rightarrow> member_key list \<Rightarrow> envelope_row \<Rightarrow> opened_keyring \<times> deferred \<Rightarrow> opened_keyring \<times> deferred" where
  "current_row L me containerID members row acc =
     (let (st, later) = acc in
      if e_device row \<noteq> deviceId me \<or> (e_alg row \<noteq> ENVELOPE_ALG \<and> e_alg row \<noteq> LEGACY_ENVELOPE_ALG) then (st, later)
      else case fromBase64 (e_envelope row) of
        Inl _ \<Rightarrow> (st, later)
      | Inr envelope \<Rightarrow>
          (case envelopeSender (e_alg row) envelope of
             Inl _ \<Rightarrow> (st, later)
           | Inr sender \<Rightarrow>
               judged_row L me containerID row envelope (sender_of me members (ok_pins st) sender) st later))"

text \<open>One deferred row of pass 2, under the first pinned key that opens it.\<close>

definition history_row ::
  "lib \<Rightarrow> me \<Rightarrow> string \<Rightarrow> bytes list \<Rightarrow> string \<times> bytes \<times> int \<Rightarrow> opened_keyring \<Rightarrow> opened_keyring" where
  "history_row L me containerID pinnedKeys d st =
     (case d of (alg, envelope, g) \<Rightarrow>
        if g \<ge> mark (ok_known st) then st
        else case List.map_filter (open_as L me containerID alg envelope g) pinnedKeys of
          [] \<Rightarrow> st
        | key # _ \<Rightarrow> snd (accept L g key st))"

definition pinned_keys :: "pins \<Rightarrow> bytes list" where
  "pinned_keys ps = List.map_filter (\<lambda>(u, key). to_option (publicKeyBytes key)) ps"

record open_input =
  i_containerID :: string
  i_envelopes :: "envelope_row list"
  i_me :: "me option"
  i_members :: "member_key list"
  i_pins :: pins
  i_known :: key_state
  i_held :: keyring

definition opened_start :: "open_input \<Rightarrow> opened_keyring" where
  "opened_start input = \<lparr>ok_ring = [], ok_pins = i_pins input, ok_fresh = [], ok_changed = [], ok_conflicts = [],
     ok_known = (i_known input)\<lparr>mark := max 0 (mark (i_known input))\<rparr>\<rparr>"

definition openKeyring :: "lib \<Rightarrow> open_input \<Rightarrow> opened_keyring" where
  "openKeyring L input =
     (let st = fold (\<lambda>(g, key) st. snd (accept L g key st)) (i_held input) (opened_start input) in
      case i_me input of
        None \<Rightarrow> st
      | Some me \<Rightarrow>
          let (st1, later) = fold (current_row L me (i_containerID input) (i_members input)) (i_envelopes input) (st, []) in
          fold (history_row L me (i_containerID input) (pinned_keys (i_pins input))) later st1)"

section \<open>Reading and writing\<close>

definition writeKey :: "'a keyed_container_scheme \<Rightarrow> keyring \<Rightarrow> 'b key_floor_scheme \<Rightarrow> write_key option" where
  "writeKey reported ring floor =
     (let (container, rollback) = guardContainer reported floor in
      if rollback \<or> sharedGeneration container = 0 then None
      else map_option (\<lambda>key. \<lparr>w_key = key, w_generation = keyGeneration container\<rparr>) (map_of ring (keyGeneration container)))"

definition WAITING_GENERATION :: int where "WAITING_GENERATION = 0"

definition waitingKey :: "lib \<Rightarrow> bytes \<Rightarrow> bytes result" where
  "waitingKey L sk = asContentKey (hkdf_sha256 L sk 32 [] (encode ''kynotes/waiting/v1''))"

definition reminderIDKey :: "lib \<Rightarrow> bytes \<Rightarrow> bytes" where
  "reminderIDKey L sk = hkdf_sha256 L sk 32 [] (encode ''kynotes/reminder-id/v1'')"

definition readKeys :: "int \<Rightarrow> keyring \<Rightarrow> int option \<Rightarrow> 'b key_floor_scheme \<Rightarrow> bytes list" where
  "readKeys containerShared ring gen floor =
     (let sh = max containerShared (or0 (shared floor)) in
      if sh = 0 then []
      else case gen of
        None \<Rightarrow> []
      | Some g \<Rightarrow> if g < sh then [] else (case map_of ring g of None \<Rightarrow> [] | Some key \<Rightarrow> [key]))"

definition ownCopyKeys :: "int \<Rightarrow> keyring \<Rightarrow> int option \<Rightarrow> 'b key_floor_scheme \<Rightarrow> bytes option \<Rightarrow> bytes list" where
  "ownCopyKeys containerShared ring gen floor waiting =
     (if gen = Some WAITING_GENERATION then (case waiting of None \<Rightarrow> [] | Some w \<Rightarrow> [w])
      else readKeys containerShared ring gen floor)"

fun open_from :: "js_error \<Rightarrow> bytes list \<Rightarrow> (bytes \<Rightarrow> 'a result) \<Rightarrow> 'a result" where
  "open_from err [] f = Inl err"
| "open_from err (key # keys) f = (case f key of Inr x \<Rightarrow> Inr x | Inl e \<Rightarrow> open_from e keys f)"

definition openFirst :: "bytes list \<Rightarrow> (bytes \<Rightarrow> 'a result) \<Rightarrow> 'a result" where
  "openFirst keys f = open_from (Error ''no content key'') keys f"

section \<open>Handing out keys\<close>

datatype sweep_plan =
    SweepIdle
  | SweepUnrecoverable
  | SweepMint "member_key list"
  | SweepWrap "(member_key \<times> int) list"

definition held_name :: "string \<Rightarrow> int \<Rightarrow> string" where
  "held_name device g = device @ CHR '':'' # int_text g"

definition missing_generations :: "'a keyed_container_scheme \<Rightarrow> string set \<Rightarrow> keyring \<Rightarrow> member_key \<Rightarrow> (member_key \<times> int) list" where
  "missing_generations container held ring member =
     (case m_identity member of
        None \<Rightarrow> []
      | Some i \<Rightarrow>
          map (Pair member)
            (filter (\<lambda>g. held_name (idn_device i) g \<notin> held)
              (filter (\<lambda>g. g \<ge> sharedGeneration container \<and> g \<le> keyGeneration container) (keys_of ring))))"

definition planSweep ::
  "'a keyed_container_scheme \<Rightarrow> string \<Rightarrow> member_key list \<Rightarrow> envelope_row list \<Rightarrow> keyring \<Rightarrow> bool \<Rightarrow> sweep_plan" where
  "planSweep container myId members envelopes ring recoverable =
     (case find (\<lambda>member. userId member = myId) members of
        None \<Rightarrow> SweepIdle
      | Some self \<Rightarrow>
          if m_identity self = None \<or> \<not> isSteward (role self) then SweepIdle
          else
            let keyed = filter (\<lambda>member. m_identity member \<noteq> None \<and> approved member \<noteq> Some False) members in
            if sharedGeneration container = 0 then (if recoverable then SweepMint keyed else SweepUnrecoverable)
            else if \<not> (\<exists>row \<in> set envelopes. e_generation row = keyGeneration container) then SweepMint keyed
            else
              let held = set (map (\<lambda>row. held_name (e_device row) (e_generation row)) envelopes);
                  grants = concat (map (missing_generations container held ring) keyed) in
              if grants \<noteq> [] then SweepWrap grants else SweepIdle)"

definition sealFor ::
  "lib \<Rightarrow> bytes \<Rightarrow> member_key \<Rightarrow> string \<Rightarrow> int \<Rightarrow> bytes \<Rightarrow> me \<Rightarrow> pins \<Rightarrow> (envelope_row \<times> pins \<times> member_key list) result" where
  "sealFor L seed member containerID g key me ps =
     (case m_identity member of
        None \<Rightarrow> Inl TypeError
      | Some identity \<Rightarrow>
          rbind (publicKeyBytes (idn_key identity)) (\<lambda>recipient.
          rbind
            (if userId member = me_userId me then
               (if idn_device identity \<noteq> deviceId me \<or> \<not> sameKey (idn_key identity) (base64 (publicKey me))
                then Inl (Error ''own identity mismatch'') else Inr (ps, []))
             else case map_of ps (userId member) of
               None \<Rightarrow> Inr (AList.update (userId member) (idn_key identity) ps, [member])
             | Some pinned \<Rightarrow>
                 if \<not> sameKey pinned (idn_key identity) then Inl (FingerprintChangedError member) else Inr (ps, []))
            (\<lambda>(next, fresh).
              rbind (wrapEnvelope L seed key recipient containerID g (idn_device identity) me) (\<lambda>bs.
                Inr (\<lparr>e_device = idn_device identity, e_generation = g, e_alg = ENVELOPE_ALG, e_envelope = base64 bs\<rparr>,
                     next, fresh)))))"

definition newContainerKey :: "bytes \<Rightarrow> bytes result" where
  "newContainerKey random32 = asContentKey random32"

datatype member_key_status = HasKey | Waiting | NoIdentity | Unapproved

definition memberKeyStatus ::
  "'a keyed_container_scheme \<Rightarrow> member_key list \<Rightarrow> envelope_row list \<Rightarrow> (string, member_key_status) dict" where
  "memberKeyStatus container members envelopes =
     (let held = set (map e_device (filter (\<lambda>row. e_generation row = keyGeneration container) envelopes)) in
      spread [] (concat (map (\<lambda>member.
        if approved member = Some False then [(userId member, Unapproved)]
        else case m_identity member of
          None \<Rightarrow> [(userId member, NoIdentity)]
        | Some i \<Rightarrow>
            if sharedGeneration container = 0 then []
            else [(userId member, if idn_device i \<in> held then HasKey else Waiting)]) members)))"


section \<open>Floors only rise\<close>

definition floor_le :: "'a key_floor_scheme \<Rightarrow> 'b key_floor_scheme \<Rightarrow> bool" where
  "floor_le f g \<longleftrightarrow> or0 (shared f) \<le> or0 (shared g) \<and> or0 (generation f) \<le> or0 (generation g)"

lemma floor_le_refl [simp]: "floor_le f f"
  by (simp add: floor_le_def)

lemma floor_le_trans: "floor_le f g \<Longrightarrow> floor_le g h \<Longrightarrow> floor_le f h"
  by (auto simp: floor_le_def)

interpretation floors: rising floor_le "\<lambda>container floor. raiseFloor floor container"
  by unfold_locales (auto simp: floor_le_def raiseFloor_def)

lemma mergeFloor_up:
  "floor_le next (mergeFloor floor next)" "floor = Some f \<Longrightarrow> floor_le f (mergeFloor floor next)"
  by (auto simp: floor_le_def mergeFloor_def)

lemma mergeFloor_least:
  assumes "floor_le f h" "floor_le next h" "0 \<le> or0 (shared h)" "0 \<le> or0 (generation h)"
  shows "floor_le (mergeFloor (Some f) next) h" "floor_le (mergeFloor None next) h"
  using assms by (auto simp: floor_le_def mergeFloor_def)

interpretation merged: rising floor_le "\<lambda>next floor. mergeFloor (Some floor) (next :: key_floor)"
  by unfold_locales (auto simp: floor_le_def mergeFloor_def)

lemma mergeFloor_laws:
  "mergeFloor (Some (mergeFloor (Some f) g)) h = mergeFloor (Some f) (mergeFloor (Some g) h)"
  "mergeFloor (Some f) g = mergeFloor (Some g) f"
  "mergeFloor (Some (mergeFloor (Some f) g)) g = mergeFloor (Some f) g"
  by (auto simp: mergeFloor_def)

lemma rollback_iff:
  "snd (guardContainer c f) \<longleftrightarrow> sharedGeneration c < or0 (shared f) \<or> keyGeneration c < or0 (generation f)"
  by (simp add: guardContainer_def Let_def)

lemma rollback_mono: "floor_le f g \<Longrightarrow> snd (guardContainer c f) \<Longrightarrow> snd (guardContainer c g)"
  by (auto simp: rollback_iff floor_le_def)

lemma guard_after_raise: "floor_le (raiseFloor f c) g \<Longrightarrow> snd (guardContainer c g) \<or>
    (or0 (shared g) = sharedGeneration c \<and> or0 (generation g) = keyGeneration c)"
  by (auto simp: rollback_iff floor_le_def raiseFloor_def)

section \<open>Every opened key has a trusted origin\<close>

definition opened_le :: "opened_keyring \<Rightarrow> opened_keyring \<Rightarrow> bool" where
  "opened_le s t \<longleftrightarrow>
     map_of (ok_ring s) \<subseteq>\<^sub>m map_of (ok_ring t) \<and> map_of (ok_pins s) \<subseteq>\<^sub>m map_of (ok_pins t) \<and>
     map_of (digests (ok_known s)) \<subseteq>\<^sub>m map_of (digests (ok_known t)) \<and> mark (ok_known s) \<le> mark (ok_known t) \<and>
     shared (ok_known t) = shared (ok_known s) \<and> generation (ok_known t) = generation (ok_known s) \<and>
     objects2 (ok_known t) = objects2 (ok_known s)"

lemma opened_le_refl [simp]: "opened_le s s"
  by (simp add: opened_le_def)

lemma opened_le_trans: "opened_le s t \<Longrightarrow> opened_le t u \<Longrightarrow> opened_le s u"
  unfolding opened_le_def by (auto intro: map_le_trans)

lemma accept_up: "opened_le s (snd (accept L g key s))"
  by (auto simp: accept_def Let_def opened_le_def split: option.splits)

lemma accept_other:
  "ok_pins (snd (accept L g key s)) = ok_pins s" "mark (ok_known (snd (accept L g key s))) = mark (ok_known s)"
  by (simp_all add: accept_def Let_def)

lemma accept_ring:
  "map_of (ok_ring (snd (accept L g key s))) h =
     (if h = g \<and> fst (accept L g key s) \<and> map_of (ok_ring s) g = None then Some key else map_of (ok_ring s) h)"
  by (auto simp: accept_def Let_def split: option.splits)

definition digests_hold :: "lib \<Rightarrow> opened_keyring \<Rightarrow> bool" where
  "digests_hold L s \<longleftrightarrow> (\<forall>g key. map_of (ok_ring s) g = Some key \<longrightarrow>
     map_of (digests (ok_known s)) g = Some (key_digest L key))"

lemma accept_digests: "digests_hold L s \<Longrightarrow> digests_hold L (snd (accept L g key s))"
  by (auto simp: accept_def Let_def digests_hold_def split: option.splits)


text \<open>
  A key of the ring was held already, or it was unwrapped from an envelope addressed to this device
  whose sender is this identity, a current steward whose key equals its pin, or, strictly below the
  mark, an identity pinned before the call.
\<close>

definition steward_sender :: "open_input \<Rightarrow> me \<Rightarrow> pins \<Rightarrow> string \<Rightarrow> bytes \<Rightarrow> bool" where
  "steward_sender input me ps sender spk \<longleftrightarrow>
     (\<exists>m \<in> set (i_members input). \<exists>i p. m_identity m = Some i \<and> idn_device i = sender \<and> isSteward (role m) \<and>
        userId m \<noteq> me_userId me \<and> publicKeyBytes (idn_key i) = Inr spk \<and>
        map_of ps (userId m) = Some p \<and> sameKey p (idn_key i))"

definition row_for :: "open_input \<Rightarrow> me \<Rightarrow> string \<times> bytes \<times> int \<Rightarrow> bool" where
  "row_for input me d \<longleftrightarrow> (case d of (alg, envelope, g) \<Rightarrow>
     \<exists>row \<in> set (i_envelopes input). e_device row = deviceId me \<and> e_alg row = alg \<and> e_generation row = g \<and>
       fromBase64 (e_envelope row) = Inr envelope)"

definition sender_trusted :: "open_input \<Rightarrow> me \<Rightarrow> pins \<Rightarrow> int \<Rightarrow> int \<Rightarrow> string \<Rightarrow> bytes \<Rightarrow> bool" where
  "sender_trusted input me ps mk g sender spk \<longleftrightarrow>
     sender = deviceId me \<and> spk = publicKey me \<or> steward_sender input me ps sender spk \<or>
     g < mk \<and> spk \<in> set (pinned_keys (i_pins input))"

definition from_envelope :: "lib \<Rightarrow> open_input \<Rightarrow> me \<Rightarrow> pins \<Rightarrow> int \<Rightarrow> int \<Rightarrow> bytes \<Rightarrow> bool" where
  "from_envelope L input me ps mk g key \<longleftrightarrow>
     (\<exists>alg envelope spk sender. row_for input me (alg, envelope, g) \<and>
        envelopeSender alg envelope = Inr sender \<and>
        unwrapEnvelope L alg envelope (privateKey me) (i_containerID input) g (deviceId me) spk = Inr key \<and>
        length key = 32 \<and> sender_trusted input me ps mk g sender spk)"

definition origin :: "lib \<Rightarrow> open_input \<Rightarrow> pins \<Rightarrow> int \<Rightarrow> int \<Rightarrow> bytes \<Rightarrow> bool" where
  "origin L input ps mk g key \<longleftrightarrow>
     (g, key) \<in> set (i_held input) \<or> (\<exists>me. i_me input = Some me \<and> from_envelope L input me ps mk g key)"

definition keys_trusted :: "lib \<Rightarrow> open_input \<Rightarrow> opened_keyring \<Rightarrow> bool" where
  "keys_trusted L input s \<longleftrightarrow> (\<forall>g key. map_of (ok_ring s) g = Some key \<longrightarrow>
     origin L input (ok_pins s) (mark (ok_known s)) g key)"

lemma steward_sender_mono:
  "map_of ps \<subseteq>\<^sub>m map_of qs \<Longrightarrow> steward_sender input me ps sender spk \<Longrightarrow> steward_sender input me qs sender spk"
  unfolding steward_sender_def by (meson map_leD)

lemma sender_trusted_mono:
  assumes "map_of ps \<subseteq>\<^sub>m map_of qs" "mk \<le> mk'" "sender_trusted input me ps mk g sender spk"
  shows "sender_trusted input me qs mk' g sender spk"
  using assms steward_sender_mono [OF assms(1)] unfolding sender_trusted_def by auto

lemma from_envelope_mono:
  assumes "map_of ps \<subseteq>\<^sub>m map_of qs" "mk \<le> mk'" "from_envelope L input me ps mk g key"
  shows "from_envelope L input me qs mk' g key"
  using assms(3) sender_trusted_mono [OF assms(1,2)] unfolding from_envelope_def by blast

lemma origin_mono:
  assumes "opened_le s t" "origin L input (ok_pins s) (mark (ok_known s)) g key"
  shows "origin L input (ok_pins t) (mark (ok_known t)) g key"
  using assms from_envelope_mono unfolding origin_def opened_le_def by blast

lemma keys_trusted_step:
  assumes "keys_trusted L input s" "opened_le s t"
    and "\<And>h key. map_of (ok_ring t) h = Some key \<Longrightarrow> map_of (ok_ring s) h = Some key \<or>
           origin L input (ok_pins t) (mark (ok_known t)) h key"
  shows "keys_trusted L input t"
  using assms origin_mono unfolding keys_trusted_def by blast

lemma accept_trusted:
  assumes "keys_trusted L input s" "origin L input (ok_pins s) (mark (ok_known s)) g key"
  shows "keys_trusted L input (snd (accept L g key s))"
  using assms
  by (intro keys_trusted_step [OF assms(1) accept_up]) (auto simp: accept_ring accept_other split: if_splits)

lemma open_as_Some:
  "open_as L me c alg envelope g spk = Some key \<longleftrightarrow>
     unwrapEnvelope L alg envelope (privateKey me) c g (deviceId me) spk = Inr key \<and> length key = 32"
  by (auto simp: open_as_def rbind_eq_Inr)

subsection \<open>Pass 1\<close>

lemma accept_current_facts:
  "map_of (ok_ring (accept_current L g key first s)) = map_of (ok_ring (snd (accept L g key s)))"
  "digests (ok_known (accept_current L g key first s)) = digests (ok_known (snd (accept L g key s)))"
  "first = None \<Longrightarrow> ok_pins (accept_current L g key first s) = ok_pins s"
  "\<not> fst (accept L g key s) \<Longrightarrow> accept_current L g key first s = snd (accept L g key s)"
  using accept_other(1) [of L g key s]
  by (auto simp: accept_current_def Let_def split: prod.splits option.splits bool.splits)

lemma accept_current_up:
  assumes "\<And>m i. first = Some (m, i) \<Longrightarrow> map_of (ok_pins s) (userId m) = None"
  shows "opened_le s (accept_current L g key first s)"
proof -
  obtain b t where a: "accept L g key s = (b, t)" by (cases "accept L g key s")
  have st: "opened_le s t" "ok_pins t = ok_pins s" using accept_up [of s L g key] accept_other(1) [of L g key s] a by simp_all
  have "opened_le t (accept_current L g key first s)"
    using assms st(2) by (auto simp: accept_current_def Let_def a opened_le_def split: option.splits bool.splits)
  with st(1) show ?thesis by (rule opened_le_trans)
qed

lemma accept_current_trusted:
  assumes "keys_trusted L input s" "\<And>m i. first = Some (m, i) \<Longrightarrow> map_of (ok_pins s) (userId m) = None"
    and "fst (accept L g key s) \<Longrightarrow> origin L input (ok_pins (accept_current L g key first s)) (mark (ok_known (accept_current L g key first s))) g key"
  shows "keys_trusted L input (accept_current L g key first s)"
proof (rule keys_trusted_step [OF assms(1) accept_current_up])
  show "first = Some (m, i) \<Longrightarrow> map_of (ok_pins s) (userId m) = None" for m i by (rule assms(2))
  show "map_of (ok_ring s) h = Some k \<or> origin L input (ok_pins (accept_current L g key first s)) (mark (ok_known (accept_current L g key first s))) h k"
    if "map_of (ok_ring (accept_current L g key first s)) h = Some k" for h k
    using that assms(3) by (auto simp: accept_current_facts(1) accept_ring split: if_splits)
qed


text \<open>The key a sender view lets a row be opened with, and the pin it adds.\<close>

fun view_key :: "me \<Rightarrow> sender_view \<Rightarrow> (bytes \<times> (member_key \<times> public_identity) option) option" where
  "view_key me Self = Some (publicKey me, None)"
| "view_key me (Steward m i None) = map_option (\<lambda>spk. (spk, Some (m, i))) (to_option (publicKeyBytes (idn_key i)))"
| "view_key me (Steward m i (Some p)) =
     (if sameKey p (idn_key i) then map_option (\<lambda>spk. (spk, None)) (to_option (publicKeyBytes (idn_key i))) else None)"
| "view_key me _ = None"

lemma judged_row_cases:
  "judged_row L me c row envelope view st later = (st, later) \<or>
   (\<exists>st'. (st' = st \<or> (\<exists>m p. st' = note_changed m p st)) \<and>
      judged_row L me c row envelope view st later = (st', later @ [(e_alg row, envelope, e_generation row)])) \<or>
   (\<exists>spk key first. view_key me view = Some (spk, first) \<and>
      open_as L me c (e_alg row) envelope (e_generation row) spk = Some key \<and>
      judged_row L me c row envelope view st later = (accept_current L (e_generation row) key first st, later))"
proof (cases view)
  case (Steward m i pinned)
  show ?thesis
  proof (cases "pinned \<noteq> None \<and> \<not> sameKey (the pinned) (idn_key i)")
    case True
    then show ?thesis by (auto simp: Steward judged_row_def)
  next
    case False
    then show ?thesis
      by (cases pinned; cases "publicKeyBytes (idn_key i)";
          cases "open_as L me c (e_alg row) envelope (e_generation row) (projr (publicKeyBytes (idn_key i)))")
        (simp_all add: Steward judged_row_def)
  qed
next
  case Self
  then show ?thesis
    by (cases "open_as L me c (e_alg row) envelope (e_generation row) (publicKey me)") (simp_all add: judged_row_def)
qed (simp_all add: judged_row_def)

lemma view_key_trusted:
  assumes "view_key me (sender_of me (i_members input) ps sender) = Some (spk, first)"
  shows "case first of
      None \<Rightarrow> sender_trusted input me ps mk g sender spk
    | Some (m, i) \<Rightarrow> map_of ps (userId m) = None \<and>
        (map_of qs (userId m) = Some (idn_key i) \<longrightarrow> sender_trusted input me qs mk g sender spk)"
proof -
  consider "sender = deviceId me" "spk = publicKey me" "first = None"
    | m i pinned where "m \<in> set (i_members input)" "m_identity m = Some i" "idn_device i = sender"
        "isSteward (role m)" "userId m \<noteq> me_userId me" "pinned = map_of ps (userId m)"
        "view_key me (Steward m i pinned) = Some (spk, first)"
    using assms by (auto simp: sender_of_def dest!: find_SomeD split: if_splits option.splits)
  then show ?thesis
  proof cases
    case 1
    then show ?thesis by (simp add: sender_trusted_def)
  next
    case (2 m i pinned)
    have steward: "sender_trusted input me rs mk g sender spk"
      if "map_of rs (userId m) = Some p" "sameKey p (idn_key i)" "publicKeyBytes (idn_key i) = Inr spk" for rs p
      unfolding sender_trusted_def steward_sender_def using 2(1-5) that by blast
    show ?thesis
    proof (cases pinned)
      case None
      with 2 have k: "publicKeyBytes (idn_key i) = Inr spk" "first = Some (m, i)" by auto
      then have "sameKey (idn_key i) (idn_key i)" by (auto simp: sameKey_iff)
      with steward k None 2(6) show ?thesis by simp
    next
      case (Some p)
      with 2(7) have "sameKey p (idn_key i)" "publicKeyBytes (idn_key i) = Inr spk" "first = None"
        by (auto split: if_splits)
      with steward Some 2(6) show ?thesis by simp
    qed
  qed
qed


text \<open>The invariant of both passes.\<close>

definition opened_ok :: "lib \<Rightarrow> open_input \<Rightarrow> opened_keyring \<Rightarrow> bool" where
  "opened_ok L input s \<longleftrightarrow> keys_trusted L input s \<and> digests_hold L s"

lemma note_changed_same:
  "ok_ring (note_changed m p s) = ok_ring s" "ok_pins (note_changed m p s) = ok_pins s"
  "ok_known (note_changed m p s) = ok_known s"
  by (simp_all add: note_changed_def)

lemma opened_ok_note: "opened_ok L input (note_changed m p s) = opened_ok L input s"
  by (simp add: opened_ok_def keys_trusted_def digests_hold_def note_changed_same)

lemma accept_current_pinned:
  "fst (accept L g key s) \<Longrightarrow> first = Some (m, i) \<Longrightarrow>
     map_of (ok_pins (accept_current L g key first s)) (userId m) = Some (idn_key i)"
  by (auto simp: accept_current_def Let_def split: prod.splits bool.splits)

lemma accept_current_ok:
  assumes ok: "opened_ok L input s" and me: "i_me input = Some me"
    and row: "row_for input me (alg, envelope, g)" "envelopeSender alg envelope = Inr sender"
    and view: "view_key me (sender_of me (i_members input) (ok_pins s) sender) = Some (spk, first)"
    and key: "open_as L me (i_containerID input) alg envelope g spk = Some key"
  shows "opened_le s (accept_current L g key first s) \<and> opened_ok L input (accept_current L g key first s)"
proof
  let ?t = "accept_current L g key first s"
  note trust = view_key_trusted [OF view]
  have new: "map_of (ok_pins s) (userId m) = None" if "first = Some (m, i)" for m i
    using trust that by (auto split: option.splits)
  then show le: "opened_le s ?t" by (rule accept_current_up)
  have "sender_trusted input me (ok_pins ?t) (mark (ok_known ?t)) g sender spk" if "fst (accept L g key s)"
  proof (cases first)
    case None
    then have "sender_trusted input me (ok_pins s) (mark (ok_known ?t)) g sender spk" using trust by simp
    then show ?thesis using None accept_current_facts(3) by simp
  next
    case (Some q)
    then obtain m i where q: "first = Some (m, i)" by (cases q) simp
    with trust accept_current_pinned [OF that q] show ?thesis by simp
  qed
  then have "from_envelope L input me (ok_pins ?t) (mark (ok_known ?t)) g key" if "fst (accept L g key s)"
    using that key row unfolding from_envelope_def open_as_Some by blast
  then have "keys_trusted L input ?t"
    using ok new me by (intro accept_current_trusted) (auto simp: opened_ok_def origin_def)
  moreover have "digests_hold L ?t"
    using ok accept_digests [of L s g key] by (simp add: opened_ok_def digests_hold_def accept_current_facts)
  ultimately show "opened_ok L input ?t" by (simp add: opened_ok_def)
qed

lemma current_row_ok:
  assumes ok: "opened_ok L input s" and me: "i_me input = Some me" and row: "row \<in> set (i_envelopes input)"
    and step: "current_row L me (i_containerID input) (i_members input) row (s, later) = (s', later')"
    and later: "\<forall>d \<in> set later. row_for input me d \<and> (\<exists>sender. envelopeSender (fst d) (fst (snd d)) = Inr sender)"
  shows "opened_le s s' \<and> opened_ok L input s' \<and>
    (\<forall>d \<in> set later'. row_for input me d \<and> (\<exists>sender. envelopeSender (fst d) (fst (snd d)) = Inr sender))"
proof -
  consider "s' = s" "later' = later"
    | envelope sender where "e_device row = deviceId me" "fromBase64 (e_envelope row) = Inr envelope"
        "envelopeSender (e_alg row) envelope = Inr sender"
        "judged_row L me (i_containerID input) row envelope (sender_of me (i_members input) (ok_pins s) sender) s later = (s', later')"
    using step by (auto simp: current_row_def split: if_splits sum.splits)
  then show ?thesis
  proof cases
    case 1
    with ok later show ?thesis by simp
  next
    case (2 envelope sender)
    let ?d = "(e_alg row, envelope, e_generation row)"
    have d: "row_for input me ?d" using 2 row by (auto simp: row_for_def)
    note cases = judged_row_cases [of L me "i_containerID input" row envelope
        "sender_of me (i_members input) (ok_pins s) sender" s later]
    have "s' = s \<and> later' = later \<or>
      (s' = s \<or> (\<exists>m p. s' = note_changed m p s)) \<and> later' = later @ [?d] \<or>
      (opened_le s s' \<and> opened_ok L input s') \<and> later' = later"
      using cases 2(4) accept_current_ok [OF ok me d 2(3)] by auto
    then show ?thesis
      using ok later d 2(3) by (auto simp: opened_ok_note opened_le_def note_changed_same)
  qed
qed


lemma pass1_ok:
  assumes "opened_ok L input s" "i_me input = Some me" "set rows \<subseteq> set (i_envelopes input)"
    and "fold (current_row L me (i_containerID input) (i_members input)) rows (s, later) = (s', later')"
    and "\<forall>d \<in> set later. row_for input me d \<and> (\<exists>sender. envelopeSender (fst d) (fst (snd d)) = Inr sender)"
  shows "opened_le s s' \<and> opened_ok L input s' \<and>
    (\<forall>d \<in> set later'. row_for input me d \<and> (\<exists>sender. envelopeSender (fst d) (fst (snd d)) = Inr sender))"
  using assms
proof (induction rows arbitrary: s later)
  case (Cons row rows)
  obtain t mid where step: "current_row L me (i_containerID input) (i_members input) row (s, later) = (t, mid)"
    by (cases "current_row L me (i_containerID input) (i_members input) row (s, later)")
  have "row \<in> set (i_envelopes input)" using Cons.prems(3) by simp
  note one = current_row_ok [OF Cons.prems(1,2) this step Cons.prems(5)]
  have "opened_le t s' \<and> opened_ok L input s' \<and>
    (\<forall>d \<in> set later'. row_for input me d \<and> (\<exists>sender. envelopeSender (fst d) (fst (snd d)) = Inr sender))"
    using Cons.prems(3,4) step one by (intro Cons.IH [of t mid] Cons.prems(2)) simp_all
  with one show ?case using opened_le_trans by blast
qed simp

subsection \<open>Pass 2\<close>

lemma map_filter_head: "List.map_filter f xs = y # ys \<Longrightarrow> \<exists>x \<in> set xs. f x = Some y"
  by (induction xs) (auto simp: List.map_filter_simps split: option.splits)

lemma history_row_ok:
  assumes ok: "opened_ok L input s" and me: "i_me input = Some me"
    and d: "row_for input me d" "envelopeSender (fst d) (fst (snd d)) = Inr sender"
  shows "opened_le s (history_row L me (i_containerID input) (pinned_keys (i_pins input)) d s) \<and>
     opened_ok L input (history_row L me (i_containerID input) (pinned_keys (i_pins input)) d s)"
proof -
  obtain alg envelope g where q: "d = (alg, envelope, g)" by (cases d)
  let ?keys = "List.map_filter (open_as L me (i_containerID input) alg envelope g) (pinned_keys (i_pins input))"
  show ?thesis
  proof (cases "mark (ok_known s) \<le> g \<or> ?keys = []")
    case True
    with ok show ?thesis by (auto simp: history_row_def q)
  next
    case False
    then obtain key more where keys: "?keys = key # more" by (cases ?keys) auto
    obtain spk where "spk \<in> set (pinned_keys (i_pins input))"
      "open_as L me (i_containerID input) alg envelope g spk = Some key"
      using map_filter_head [OF keys] by (elim bexE)
    with False d have "from_envelope L input me (ok_pins s) (mark (ok_known s)) g key"
      unfolding from_envelope_def open_as_Some sender_trusted_def q by auto
    then have "keys_trusted L input (snd (accept L g key s))"
      using ok me by (intro accept_trusted) (auto simp: opened_ok_def origin_def)
    with ok False keys accept_up [of s L g key] accept_digests [of L s g key] show ?thesis
      by (simp add: history_row_def q opened_ok_def)
  qed
qed

lemma pass2_ok:
  assumes "opened_ok L input s" "i_me input = Some me"
    and "\<forall>d \<in> set ds. row_for input me d \<and> (\<exists>sender. envelopeSender (fst d) (fst (snd d)) = Inr sender)"
  shows "opened_le s (fold (history_row L me (i_containerID input) (pinned_keys (i_pins input))) ds s) \<and>
     opened_ok L input (fold (history_row L me (i_containerID input) (pinned_keys (i_pins input))) ds s)"
  using assms
proof (induction ds arbitrary: s)
  case (Cons d ds)
  from Cons.prems(3) obtain sender where d: "row_for input me d" "envelopeSender (fst d) (fst (snd d)) = Inr sender"
    by auto
  note one = history_row_ok [OF Cons.prems(1,2) d]
  with Cons show ?case by (auto intro: opened_le_trans)
qed simp

lemma held_ok:
  assumes "opened_ok L input s" "set held \<subseteq> set (i_held input)"
  shows "opened_le s (fold (\<lambda>(g, key) st. snd (accept L g key st)) held s) \<and>
     opened_ok L input (fold (\<lambda>(g, key) st. snd (accept L g key st)) held s)"
  using assms
proof (induction held arbitrary: s)
  case (Cons p held)
  obtain g key where p: "p = (g, key)" by (cases p)
  let ?t = "snd (accept L g key s)"
  have "opened_ok L input ?t"
    using Cons.prems p accept_digests by (auto simp: opened_ok_def origin_def intro!: accept_trusted)
  with Cons.IH [of ?t] Cons.prems(2) have "opened_le ?t (fold (\<lambda>(g, key) st. snd (accept L g key st)) held ?t) \<and>
     opened_ok L input (fold (\<lambda>(g, key) st. snd (accept L g key st)) held ?t)" by simp
  then show ?case using accept_up [of s L g key] by (auto simp: p intro: opened_le_trans)
qed simp

lemma openKeyring_sound:
  "opened_le (opened_start input) (openKeyring L input) \<and> opened_ok L input (openKeyring L input)"
proof -
  let ?held = "fold (\<lambda>(g, key) st. snd (accept L g key st)) (i_held input) (opened_start input)"
  have start: "opened_ok L input (opened_start input)"
    by (simp add: opened_ok_def opened_start_def keys_trusted_def digests_hold_def)
  have held: "opened_le (opened_start input) ?held \<and> opened_ok L input ?held"
    using held_ok [OF start] by simp
  show ?thesis
  proof (cases "i_me input")
    case None
    with held show ?thesis by (simp add: openKeyring_def)
  next
    case (Some me)
    obtain s1 later where p1: "fold (current_row L me (i_containerID input) (i_members input)) (i_envelopes input) (?held, []) = (s1, later)"
      by (cases "fold (current_row L me (i_containerID input) (i_members input)) (i_envelopes input) (?held, [])")
    have one: "opened_le ?held s1 \<and> opened_ok L input s1 \<and>
      (\<forall>d \<in> set later. row_for input me d \<and> (\<exists>sender. envelopeSender (fst d) (fst (snd d)) = Inr sender))"
      using held Some p1 by (intro pass1_ok [of L input ?held me]) auto
    with pass2_ok [of L input s1 me later] Some held p1 show ?thesis
      by (auto simp: openKeyring_def intro: opened_le_trans)
  qed
qed


section \<open>Reading and writing\<close>

lemma guard_unchanged:
  "\<not> snd (guardContainer c f) \<Longrightarrow> fst (guardContainer c f) = c"
  by (auto simp: guardContainer_def Let_def max_def)

lemma writeKey_Some:
  "writeKey c ring f = Some w \<longleftrightarrow>
     \<not> snd (guardContainer c f) \<and> sharedGeneration c \<noteq> 0 \<and>
     (\<exists>key. map_of ring (keyGeneration c) = Some key \<and> w = \<lparr>w_key = key, w_generation = keyGeneration c\<rparr>)"
proof (cases "snd (guardContainer c f)")
  case True
  then show ?thesis by (simp add: writeKey_def case_prod_beta)
next
  case False
  note guard_unchanged [OF False]
  with False show ?thesis by (auto simp: writeKey_def case_prod_beta)
qed

lemma readKeys_member:
  "key \<in> set (readKeys sh ring gen f) \<longleftrightarrow>
     (\<exists>g. gen = Some g \<and> max sh (or0 (shared f)) \<noteq> 0 \<and> sh \<le> g \<and> or0 (shared f) \<le> g \<and> map_of ring g = Some key)"
proof (cases gen)
  case (Some g)
  then show ?thesis by (cases "map_of ring g") (auto simp: readKeys_def Let_def not_less)
qed (simp add: readKeys_def Let_def)

lemma readKeys_antimono: "floor_le f g \<Longrightarrow> 0 < or0 (shared f) \<Longrightarrow> set (readKeys sh ring gen g) \<subseteq> set (readKeys sh ring gen f)"
  by (auto simp: readKeys_member floor_le_def)

lemma openFirst_Inr: "openFirst keys f = Inr x \<Longrightarrow> \<exists>key \<in> set keys. f key = Inr x"
proof -
  have "open_from e keys f = Inr x \<Longrightarrow> \<exists>key \<in> set keys. f key = Inr x" for e
    by (induction keys arbitrary: e) (auto split: sum.splits)
  then show "openFirst keys f = Inr x \<Longrightarrow> \<exists>key \<in> set keys. f key = Inr x" by (simp add: openFirst_def)
qed

lemma openFirst_single: "openFirst [key] f = f key"
  by (simp add: openFirst_def split: sum.splits)

section \<open>Sweeps\<close>

lemma colon_not_digit: "\<not> is_digit (CHR '':'')"
  by (simp add: is_digit_def)

lemma int_text_no_colon: "CHR '':'' \<notin> set (int_text g)"
proof -
  have "CHR '':'' \<notin> set (nat_text n)" for n
    using nat_text_digits [of n] colon_not_digit unfolding list_all_iff by blast
  then show ?thesis by (simp add: int_text_def)
qed

lemma split_last_colon:
  assumes eq: "a @ c # s = b @ c # t" and s: "c \<notin> set s" and t: "c \<notin> set t"
  shows "a = b \<and> s = t"
proof -
  have tail: "takeWhile (\<lambda>x. x \<noteq> c) (rev (u @ c # v)) = rev v" if "c \<notin> set v" for u v
    using that by (simp add: takeWhile_append takeWhile_eq_all_conv)
  have "rev s = rev t" using tail [OF s, of a] tail [OF t, of b] unfolding eq by (rule trans [OF sym])
  then show ?thesis using eq by simp
qed

lemma int_text_inj [simp]: "int_text g = int_text h \<longleftrightarrow> g = h"
proof
  assume "int_text g = int_text h"
  then have "Some (g, []) = Some (h, [] :: string)"
    using num_lit_int [of "[]" g] num_lit_int [of "[]" h] by (simp only: append_Nil2 ends_number_after)
  then show "g = h" by simp
qed simp

lemma held_name_inj [simp]: "held_name a g = held_name b h \<longleftrightarrow> a = b \<and> g = h"
  using split_last_colon [of a "CHR '':''" "int_text g" b "int_text h"] int_text_no_colon
  by (auto simp: held_name_def)

definition holds_key :: "envelope_row list \<Rightarrow> string \<Rightarrow> int \<Rightarrow> bool" where
  "holds_key envelopes device g \<longleftrightarrow> (\<exists>row \<in> set envelopes. e_device row = device \<and> e_generation row = g)"

definition eligible :: "member_key \<Rightarrow> bool" where
  "eligible m \<longleftrightarrow> m_identity m \<noteq> None \<and> approved m \<noteq> Some False"

lemma not_held: "held_name d g \<in> set (map (\<lambda>row. held_name (e_device row) (e_generation row)) envelopes) \<longleftrightarrow> holds_key envelopes d g"
  by (auto simp: holds_key_def)

lemma missing_generations_set:
  "(m, g) \<in> set (missing_generations c (set (map (\<lambda>row. held_name (e_device row) (e_generation row)) envelopes)) ring m') \<longleftrightarrow>
     m = m' \<and> (\<exists>i. m_identity m = Some i \<and> g \<in> set (keys_of ring) \<and> sharedGeneration c \<le> g \<and> g \<le> keyGeneration c \<and>
       \<not> holds_key envelopes (idn_device i) g)"
  unfolding missing_generations_def not_held
  by (cases "m_identity m'") auto

lemma planSweep_wrap:
  assumes "planSweep c myId members envelopes ring rec = SweepWrap grants"
  shows "(m, g) \<in> set grants \<longleftrightarrow>
     m \<in> set members \<and> approved m \<noteq> Some False \<and>
     (\<exists>i. m_identity m = Some i \<and> g \<in> set (keys_of ring) \<and> sharedGeneration c \<le> g \<and> g \<le> keyGeneration c \<and>
        \<not> holds_key envelopes (idn_device i) g)"
proof -
  let ?held = "set (map (\<lambda>row. held_name (e_device row) (e_generation row)) envelopes)"
  from assms have "grants = concat (map (missing_generations c ?held ring)
      (filter (\<lambda>member. m_identity member \<noteq> None \<and> approved member \<noteq> Some False) members))"
    by (auto simp: planSweep_def Let_def split: option.splits if_splits)
  then have "(m, g) \<in> set grants \<longleftrightarrow> (\<exists>m' \<in> set members. eligible m' \<and> (m, g) \<in> set (missing_generations c ?held ring m'))"
    by (auto simp: eligible_def)
  then show ?thesis unfolding missing_generations_set by (auto simp: eligible_def)
qed

lemma planSweep_mint:
  assumes "planSweep c myId members envelopes ring rec = SweepMint ms"
  shows "ms = filter eligible members" "sharedGeneration c = 0 \<longrightarrow> rec"
    "sharedGeneration c \<noteq> 0 \<longrightarrow> \<not> (\<exists>row \<in> set envelopes. e_generation row = keyGeneration c)"
  using assms by (auto simp: planSweep_def Let_def eligible_def [abs_def] split: option.splits if_splits)

lemma planSweep_steward:
  assumes "planSweep c myId members envelopes ring rec \<noteq> SweepIdle"
  shows "\<exists>self \<in> set members. userId self = myId \<and> isSteward (role self) \<and> m_identity self \<noteq> None"
  using assms by (auto simp: planSweep_def dest!: find_SomeD split: option.splits if_splits)

section \<open>Sealing for one member\<close>

lemma sealFor_Inr:
  assumes "sealFor L seed m c g key me ps = Inr (e, qs, fresh)"
  obtains i recipient bs where "m_identity m = Some i" "publicKeyBytes (idn_key i) = Inr recipient"
    "wrapEnvelope L seed key recipient c g (idn_device i) me = Inr bs"
    "e = \<lparr>e_device = idn_device i, e_generation = g, e_alg = ENVELOPE_ALG, e_envelope = base64 bs\<rparr>"
    "userId m = me_userId me \<and> idn_device i = deviceId me \<and> sameKey (idn_key i) (base64 (publicKey me)) \<and> qs = ps \<and> fresh = [] \<or>
     userId m \<noteq> me_userId me \<and> map_of ps (userId m) = None \<and> qs = AList.update (userId m) (idn_key i) ps \<and> fresh = [m] \<or>
     userId m \<noteq> me_userId me \<and> (\<exists>p. map_of ps (userId m) = Some p \<and> sameKey p (idn_key i)) \<and> qs = ps \<and> fresh = []"
  using assms unfolding sealFor_def
  by (auto simp: rbind_eq_Inr split: option.splits if_splits)

lemma sealFor_pins:
  assumes "sealFor L seed m c g key me ps = Inr (e, qs, fresh)"
  shows "map_of ps \<subseteq>\<^sub>m map_of qs" "userId m \<noteq> me_userId me \<Longrightarrow>
    \<exists>i p. m_identity m = Some i \<and> map_of qs (userId m) = Some p \<and> sameKey p (idn_key i)"
proof -
  obtain i recipient bs where i: "m_identity m = Some i" "publicKeyBytes (idn_key i) = Inr recipient"
    and "wrapEnvelope L seed key recipient c g (idn_device i) me = Inr bs"
      "e = \<lparr>e_device = idn_device i, e_generation = g, e_alg = ENVELOPE_ALG, e_envelope = base64 bs\<rparr>"
    and alt: "userId m = me_userId me \<and> idn_device i = deviceId me \<and> sameKey (idn_key i) (base64 (publicKey me)) \<and> qs = ps \<and> fresh = [] \<or>
     userId m \<noteq> me_userId me \<and> map_of ps (userId m) = None \<and> qs = AList.update (userId m) (idn_key i) ps \<and> fresh = [m] \<or>
     userId m \<noteq> me_userId me \<and> (\<exists>p. map_of ps (userId m) = Some p \<and> sameKey p (idn_key i)) \<and> qs = ps \<and> fresh = []"
    by (rule sealFor_Inr [OF assms])
  from alt show "map_of ps \<subseteq>\<^sub>m map_of qs" by auto
  have "sameKey (idn_key i) (idn_key i)" using i(2) by (auto simp: sameKey_iff)
  then show "userId m \<noteq> me_userId me \<Longrightarrow> \<exists>i p. m_identity m = Some i \<and> map_of qs (userId m) = Some p \<and> sameKey p (idn_key i)"
    using i(1) alt by auto
qed

section \<open>Properties\<close>

text \<open>C1: every key \<open>openKeyring\<close> returns was held before, or was unwrapped from an envelope addressed to this
  device whose sender is this identity itself, a current owner or admin whose key equals its pin, or, strictly below
  this device's own mark, an identity pinned before the call.\<close>

theorem openKeyring_authentic:
  "{(g, key). map_of (ok_ring (openKeyring L input)) g = Some key} \<subseteq>
     {(g, key). origin L input (ok_pins (openKeyring L input)) (mark (ok_known (openKeyring L input))) g key}"
  using openKeyring_sound [of input L] by (auto simp: opened_ok_def keys_trusted_def)

text \<open>C2: a key is never returned for a generation for which this device remembers the digest of another key, and
  the digest of every returned key is remembered.\<close>

theorem openKeyring_first_key_wins:
  "{(g, key_digest L key) | g key. map_of (ok_ring (openKeyring L input)) g = Some key} \<subseteq>
     {(g, d). map_of (digests (ok_known (openKeyring L input))) g = Some d \<and>
        (case map_of (digests (i_known input)) g of None \<Rightarrow> True | Some d' \<Rightarrow> d' = d)}"
proof -
  note sound = openKeyring_sound [of input L]
  have old: "map_of (digests (i_known input)) \<subseteq>\<^sub>m map_of (digests (ok_known (openKeyring L input)))"
    using sound by (simp add: opened_le_def opened_start_def)
  have new: "map_of (digests (ok_known (openKeyring L input))) g = Some (key_digest L key)"
    if "map_of (ok_ring (openKeyring L input)) g = Some key" for g key
    using sound that by (simp add: opened_ok_def digests_hold_def)
  show ?thesis
    using new by (auto split: option.splits dest: map_leD [OF old])
qed

text \<open>C3: opening a keyring only adds to what the device remembers: pins and digests are kept as they were, the mark
  does not fall, and the floor and the migration marker are untouched.\<close>

theorem openKeyring_memory_grows:
  "map_of (i_pins input) \<subseteq>\<^sub>m map_of (ok_pins (openKeyring L input)) \<and>
   map_of (digests (i_known input)) \<subseteq>\<^sub>m map_of (digests (ok_known (openKeyring L input))) \<and>
   max 0 (mark (i_known input)) \<le> mark (ok_known (openKeyring L input)) \<and>
   shared (ok_known (openKeyring L input)) = shared (i_known input) \<and>
   generation (ok_known (openKeyring L input)) = generation (i_known input) \<and>
   objects2 (ok_known (openKeyring L input)) = objects2 (i_known input)"
  using openKeyring_sound [of input L] by (simp add: opened_le_def opened_start_def)

text \<open>C4: once a device has recorded what a container reported, any later report with a lower shared or current
  generation is a rollback for every floor reached since: no write key is handed out, no key may be given away,
  and no row below the recorded shared generation is given a read key.\<close>

theorem rollback_never_writes:
  assumes "floor_le (raiseFloor floor seen) later"
    and "sharedGeneration reported < sharedGeneration seen \<or> keyGeneration reported < keyGeneration seen"
  shows "writeKey reported ring later = None \<and> \<not> keysAllowed reported later \<and>
    set (readKeys (sharedGeneration reported) ring gen later) \<subseteq>
      {key. \<exists>g. gen = Some g \<and> sharedGeneration seen \<le> g \<and> map_of ring g = Some key}"
proof -
  have roll: "snd (guardContainer reported later)"
    using assms by (auto simp: rollback_iff floor_le_def raiseFloor_def)
  moreover have "sharedGeneration seen \<le> or0 (shared later)"
    using assms(1) by (auto simp: floor_le_def raiseFloor_def)
  ultimately show ?thesis
    by (auto simp: writeKey_def keysAllowed_def case_prod_beta readKeys_member)
qed

theorem rollback_never_writes_witness:
  "writeKey \<lparr>c_id = ''c'', keyGeneration = 1, sharedGeneration = 1\<rparr> [(1, [])] \<lparr>shared = Some 1, generation = Some 2\<rparr> = None \<and>
   \<not> keysAllowed \<lparr>c_id = ''c'', keyGeneration = 1, sharedGeneration = 1\<rparr> \<lparr>shared = Some 1, generation = Some 2\<rparr> \<and>
   set (readKeys (sharedGeneration \<lparr>c_id = ''c'', keyGeneration = 1, sharedGeneration = 1\<rparr>) [(1, [])] (Some 1) \<lparr>shared = Some 1, generation = Some 2\<rparr>)
     \<subseteq> {key. \<exists>g. Some 1 = Some g \<and> sharedGeneration \<lparr>c_id = ''c'', keyGeneration = 2, sharedGeneration = 1\<rparr> \<le> g \<and> map_of [(1, [])] g = Some key}"
  by (rule rollback_never_writes [of NO_FLOOR]) (simp_all add: floor_le_def raiseFloor_def NO_FLOOR_def)

text \<open>A write key is handed out exactly when the server's report is at or above the floor in both generations, the
  container was shared, and this browser holds the key of the reported current generation; it is that key.\<close>

lemma writeKey_exact:
  "writeKey reported ring floor = Some w \<longleftrightarrow>
     or0 (shared floor) \<le> sharedGeneration reported \<and> or0 (generation floor) \<le> keyGeneration reported \<and>
     sharedGeneration reported \<noteq> 0 \<and>
     (\<exists>key. map_of ring (keyGeneration reported) = Some key \<and> w = \<lparr>w_key = key, w_generation = keyGeneration reported\<rparr>)"
  by (auto simp: writeKey_Some rollback_iff not_less)

text \<open>C23: the sweep of a shared notebook whose current generation has envelopes grants exactly the generations this
  browser holds, within the shared range, that an approved member with an identity does not hold yet; nothing is granted
  to a member waiting for approval, and no generation outside this browser's ring is ever granted.\<close>

theorem planSweep_grants_exact:
  assumes "planSweep c myId members envelopes ring recoverable = SweepWrap grants"
  shows "set grants = {(m, g). m \<in> set members \<and> approved m \<noteq> Some False \<and>
     (\<exists>i. m_identity m = Some i \<and> g \<in> set (keys_of ring) \<and> sharedGeneration c \<le> g \<and> g \<le> keyGeneration c \<and>
        \<not> (\<exists>row \<in> set envelopes. e_device row = idn_device i \<and> e_generation row = g))}"
  using planSweep_wrap [OF assms] by (auto simp: holds_key_def)

definition demo_member :: "string \<Rightarrow> string \<Rightarrow> string \<Rightarrow> member_key" where
  "demo_member u r d = \<lparr>userId = u, username = u, role = r, keyResetAt = None, approved = None, pendingRole = None,
     m_identity = Some \<lparr>idn_device = d, idn_key = ''k''\<rparr>\<rparr>"

theorem planSweep_grants_exact_witness:
  "\<exists>grants. set grants = {(m, g). m \<in> set [demo_member ''a'' ''owner'' ''d1'', demo_member ''b'' ''editor'' ''d2''] \<and> approved m \<noteq> Some False \<and>
     (\<exists>i. m_identity m = Some i \<and> g \<in> set (keys_of [(1 :: int, [7 :: byte])]) \<and>
        sharedGeneration \<lparr>c_id = ''c'', keyGeneration = 1, sharedGeneration = 1\<rparr> \<le> g \<and> g \<le> keyGeneration \<lparr>c_id = ''c'', keyGeneration = 1, sharedGeneration = 1\<rparr> \<and>
        \<not> (\<exists>row \<in> set [\<lparr>e_device = ''d1'', e_generation = 1, e_alg = [], e_envelope = []\<rparr>]. e_device row = idn_device i \<and> e_generation row = g))}"
proof -
  have "planSweep \<lparr>c_id = ''c'', keyGeneration = 1, sharedGeneration = 1\<rparr> ''a''
      [demo_member ''a'' ''owner'' ''d1'', demo_member ''b'' ''editor'' ''d2'']
      [\<lparr>e_device = ''d1'', e_generation = 1, e_alg = [], e_envelope = []\<rparr>] [(1, [7])] True
    = SweepWrap [(demo_member ''b'' ''editor'' ''d2'', 1)]"
    by (simp add: planSweep_def demo_member_def isSteward_def missing_generations_def)
  from planSweep_grants_exact [OF this] show ?thesis by blast
qed

text \<open>Sealing a key for a colleague never changes a pin, pins a key seen for the first time, and refuses any key
  that is not byte for byte the pinned one; sealing for oneself only ever targets this browser's own identity.\<close>

lemma sealFor_trusts_pins:
  "case sealFor L seed member containerID g key me ps of
     Inl _ \<Rightarrow> True
   | Inr (row, ps', fresh) \<Rightarrow>
       map_of ps \<subseteq>\<^sub>m map_of ps' \<and> dom (map_of ps') \<subseteq> insert (userId member) (dom (map_of ps)) \<and>
       (\<exists>i. m_identity member = Some i \<and> e_device row = idn_device i \<and>
         (if userId member = me_userId me then idn_device i = deviceId me \<and> sameKey (idn_key i) (base64 (publicKey me))
          else \<exists>p. map_of ps' (userId member) = Some p \<and> sameKey p (idn_key i)))"
proof (cases "sealFor L seed member containerID g key me ps")
  case (Inr r)
  then obtain row ps' fresh where r: "sealFor L seed member containerID g key me ps = Inr (row, ps', fresh)"
    by (cases r) auto
  note pins = sealFor_pins [OF r]
  show ?thesis
    by (rule sealFor_Inr [OF r]) (use pins in \<open>auto simp: r split: if_splits\<close>)
qed simp

end
