(* ===== verification/NoteStore.thy ===== *)
theory NoteStore
  imports Keyring
begin

text \<open>
  The encrypted note cache, the queue of unsent edits and the pending uploads in IndexedDB
  (\<open>web/src/storage.ts\<close>, first half). Cache and queue are keyed by owner and object, so accounts that
  share a browser do not see each other's rows. Every operation is one transaction and therefore one
  atomic step, whichever tab runs it; \<open>store_event\<close> lists them, and \<open>transact\<close> fails them all when the
  database does not open. The optional \<open>true\<close> flags of a row are booleans; a cache row keeps the flags
  it was written with. The lemmas: rows stay under their own key, no operation of one account touches
  another account's rows, a queued edit leaves the queue only in the ways \<open>queued_edit_leaves\<close> lists,
  and recovering a draft never loses the newer text.
\<close>

record cached_note =
  n_id :: string
  n_containerID :: string
  n_version :: int
  n_payload :: bytes
  n_updatedAt :: string
  n_keyGeneration :: "int option"
  n_unsent :: bool

record pending_save = cached_note +
  p_owner :: string
  p_previousKey :: bool
  p_gone :: bool
  p_conflicted :: bool

record pending_upload =
  u_uploadId :: string
  u_owner :: string
  u_containerID :: string
  u_objectID :: string
  u_objectVersion :: int
  u_keyGeneration :: int
  u_chunkBytes :: int
  u_nextChunk :: int
  u_payload :: bytes
  u_metadataCiphertext :: string
  u_name :: string
  u_type :: string
  u_size :: int

type_synonym store_key = "string \<times> string"

record note_db =
  db_ok :: bool
  cache :: "(store_key, pending_save) dict"
  pending :: "(store_key, pending_save) dict"
  uploads :: "(string, pending_upload) dict"

definition row_key :: "pending_save \<Rightarrow> store_key" where
  "row_key r = (p_owner r, n_id r)"

text \<open>\<open>openDatabase\<close>, \<open>committed\<close>, \<open>guarded\<close> and \<open>write\<close>: the work is done completely or, when the store
  does not open, not at all.\<close>

definition transact ::
  "('a note_db_scheme \<Rightarrow> 'r \<times> 'a note_db_scheme) \<Rightarrow> ('a note_db_scheme, 'r) io" where
  "transact work db =
     (if db_ok db then (let (r, db') = work db in (Inr r, db'))
      else (Inl (Error ''Unable to open local note store''), db))"

section \<open>Cache and queue\<close>

text \<open>The plain note of \<open>putNote\<close> carries no queue flags.\<close>

definition cache_row :: "string \<Rightarrow> cached_note \<Rightarrow> pending_save" where
  "cache_row owner note =
     \<lparr>n_id = n_id note, n_containerID = n_containerID note, n_version = n_version note, n_payload = n_payload note,
      n_updatedAt = n_updatedAt note, n_keyGeneration = n_keyGeneration note, n_unsent = n_unsent note,
      p_owner = owner, p_previousKey = False, p_gone = False, p_conflicted = False\<rparr>"

definition put_note :: "pending_save \<Rightarrow> 'a note_db_scheme \<Rightarrow> 'a note_db_scheme" where
  "put_note r db = db\<lparr>cache := AList.update (row_key r) r (cache db)\<rparr>"

definition put_pending :: "pending_save \<Rightarrow> 'a note_db_scheme \<Rightarrow> 'a note_db_scheme" where
  "put_pending r db = db\<lparr>pending := AList.update (row_key r) r (pending db)\<rparr>"

definition putNote :: "string \<Rightarrow> cached_note \<Rightarrow> ('a note_db_scheme, unit) io" where
  "putNote owner note = transact (\<lambda>db. ((), put_note (cache_row owner note) db))"

definition getNote :: "string \<Rightarrow> string \<Rightarrow> ('a note_db_scheme, pending_save option) io" where
  "getNote owner oid = transact (\<lambda>db. (map_of (cache db) (owner, oid), db))"

definition deleteNote :: "string \<Rightarrow> string \<Rightarrow> ('a note_db_scheme, unit) io" where
  "deleteNote owner oid = transact (\<lambda>db. ((), db\<lparr>cache := AList.delete (owner, oid) (cache db)\<rparr>))"

definition queueSave :: "pending_save \<Rightarrow> ('a note_db_scheme, unit) io" where
  "queueSave note = transact (\<lambda>db. ((), put_pending note db))"

definition putDraft :: "pending_save \<Rightarrow> ('a note_db_scheme, unit) io" where
  "putDraft note = transact (\<lambda>db. ((), put_pending note (put_note (note\<lparr>n_unsent := True\<rparr>) db)))"

definition getQueuedSave :: "string \<Rightarrow> string \<Rightarrow> ('a note_db_scheme, pending_save option) io" where
  "getQueuedSave owner oid = transact (\<lambda>db. (map_of (pending db) (owner, oid), db))"

definition sameDraft :: "'a cached_note_scheme option \<Rightarrow> 'b cached_note_scheme \<Rightarrow> bool" where
  "sameDraft current expected =
     (case current of None \<Rightarrow> False
      | Some c \<Rightarrow> n_updatedAt c = n_updatedAt expected \<and> n_version c = n_version expected \<and>
          n_keyGeneration c = n_keyGeneration expected \<and> sameBytes (n_payload c) (n_payload expected))"

definition retired :: "pending_save option \<Rightarrow> bool" where
  "retired r = (case r of None \<Rightarrow> False | Some q \<Rightarrow> p_gone q \<or> p_previousKey q)"

definition recover_work ::
  "string \<Rightarrow> string \<Rightarrow> pending_save option \<Rightarrow> 'a note_db_scheme \<Rightarrow> pending_save option \<times> 'a note_db_scheme" where
  "recover_work owner oid expectedLegacy db =
     (let result = map_of (pending db) (owner, oid); draft0 = map_of (cache db) (owner, oid);
          mark = (draft0 \<noteq> None \<and> \<not> retired result \<and>
                  (case expectedLegacy of None \<Rightarrow> False | Some e \<Rightarrow> sameDraft draft0 e));
          draft = (if mark then map_option (\<lambda>d. d\<lparr>n_unsent := True\<rparr>) draft0 else draft0);
          db1 = (if mark then put_note (the draft) db else db) in
      case draft of
        None \<Rightarrow> (result, db1)
      | Some d \<Rightarrow>
          if \<not> n_unsent d \<or> retired result then (result, db1)
          else if (case result of None \<Rightarrow> False | Some q \<Rightarrow> n_updatedAt q > n_updatedAt d \<or> sameBytes (n_payload q) (n_payload d))
          then (result, db1)
          else (Some (d\<lparr>p_owner := owner\<rparr>), put_pending (d\<lparr>p_owner := owner\<rparr>) db1))"

definition recoverDraft ::
  "string \<Rightarrow> string \<Rightarrow> pending_save option \<Rightarrow> ('a note_db_scheme, pending_save option) io" where
  "recoverDraft owner oid expectedLegacy = transact (recover_work owner oid expectedLegacy)"

definition settle_work :: "pending_save \<Rightarrow> int option \<Rightarrow> 'a note_db_scheme \<Rightarrow> 'a note_db_scheme" where
  "settle_work expected version db =
     (let key = row_key expected;
          db1 = (if sameDraft (map_of (pending db) key) expected then db\<lparr>pending := AList.delete key (pending db)\<rparr> else db) in
      case map_of (cache db) key of
        None \<Rightarrow> db1
      | Some current \<Rightarrow>
          if \<not> sameDraft (Some current) expected then db1
          else case version of
            None \<Rightarrow> db1\<lparr>cache := AList.delete key (cache db1)\<rparr>
          | Some v \<Rightarrow> db1\<lparr>cache := AList.update key (current\<lparr>n_unsent := False, n_version := v\<rparr>) (cache db1)\<rparr>)"

definition settleDraft :: "pending_save \<Rightarrow> int option \<Rightarrow> ('a note_db_scheme, unit) io" where
  "settleDraft expected version = transact (\<lambda>db. ((), settle_work expected version db))"

definition pendingSaves :: "('a note_db_scheme, pending_save list) io" where
  "pendingSaves = transact (\<lambda>db. (map snd (pending db), db))"

definition clear_queued_work :: "string \<Rightarrow> string \<Rightarrow> string \<Rightarrow> 'a note_db_scheme \<Rightarrow> 'a note_db_scheme" where
  "clear_queued_work owner oid updatedAt db =
     (if map_option n_updatedAt (map_of (pending db) (owner, oid)) = Some updatedAt
      then db\<lparr>pending := AList.delete (owner, oid) (pending db)\<rparr> else db)"

definition clearQueuedSave :: "string \<Rightarrow> string \<Rightarrow> string \<Rightarrow> ('a note_db_scheme, unit) io" where
  "clearQueuedSave owner oid updatedAt = transact (\<lambda>db. ((), clear_queued_work owner oid updatedAt db))"

definition replace_work ::
  "pending_save \<Rightarrow> pending_save option \<Rightarrow> 'a note_db_scheme \<Rightarrow> bool \<times> 'a note_db_scheme" where
  "replace_work expected next db =
     (let key = row_key expected in
      if \<not> sameDraft (map_of (pending db) key) expected then (False, db)
      else case next of
        None \<Rightarrow> (True, db\<lparr>pending := AList.delete key (pending db)\<rparr>)
      | Some n \<Rightarrow>
          let replacement = n\<lparr>p_owner := p_owner expected, n_id := n_id expected\<rparr>;
              db1 = put_pending replacement db in
          (True, case map_of (cache db) key of
             None \<Rightarrow> db1
           | Some current \<Rightarrow> if sameDraft (Some current) expected
               then put_note (replacement\<lparr>n_unsent := n_unsent current\<rparr>) db1 else db1))"

definition replaceQueuedSave :: "pending_save \<Rightarrow> pending_save option \<Rightarrow> ('a note_db_scheme, bool) io" where
  "replaceQueuedSave expected next = transact (replace_work expected next)"

section \<open>Uploads\<close>

definition putUpload :: "pending_upload \<Rightarrow> ('a note_db_scheme, unit) io" where
  "putUpload u = transact (\<lambda>db. ((), db\<lparr>uploads := AList.update (u_uploadId u) u (uploads db)\<rparr>))"

definition pendingUploads :: "string \<Rightarrow> ('a note_db_scheme, pending_upload list) io" where
  "pendingUploads owner = transact (\<lambda>db.
     (if owner \<noteq> [] then filter (\<lambda>u. u_owner u = owner) (map snd (uploads db)) else [], db))"

definition clearUpload :: "string \<Rightarrow> string \<Rightarrow> ('a note_db_scheme, unit) io" where
  "clearUpload owner uploadId = transact (\<lambda>db.
     ((), if map_option u_owner (map_of (uploads db) uploadId) = Some owner
          then db\<lparr>uploads := AList.delete uploadId (uploads db)\<rparr> else db))"

section \<open>All writes to cache and queue\<close>

datatype store_event =
    PutNote string cached_note
  | DeleteNote string string
  | QueueSave pending_save
  | PutDraft pending_save
  | RecoverDraft string string "pending_save option"
  | SettleDraft pending_save "int option"
  | ClearQueued string string string
  | ReplaceQueued pending_save "pending_save option"

fun store_step :: "store_event \<Rightarrow> note_db \<Rightarrow> note_db" where
  "store_step (PutNote owner note) db = snd (putNote owner note db)"
| "store_step (DeleteNote owner oid) db = snd (deleteNote owner oid db)"
| "store_step (QueueSave r) db = snd (queueSave r db)"
| "store_step (PutDraft r) db = snd (putDraft r db)"
| "store_step (RecoverDraft owner oid e) db = snd (recoverDraft owner oid e db)"
| "store_step (SettleDraft e v) db = snd (settleDraft e v db)"
| "store_step (ClearQueued owner oid at) db = snd (clearQueuedSave owner oid at db)"
| "store_step (ReplaceQueued e n) db = snd (replaceQueuedSave e n db)"

fun event_key :: "store_event \<Rightarrow> store_key" where
  "event_key (PutNote owner note) = (owner, n_id note)"
| "event_key (DeleteNote owner oid) = (owner, oid)"
| "event_key (QueueSave r) = row_key r"
| "event_key (PutDraft r) = row_key r"
| "event_key (RecoverDraft owner oid _) = (owner, oid)"
| "event_key (SettleDraft e _) = row_key e"
| "event_key (ClearQueued owner oid _) = (owner, oid)"
| "event_key (ReplaceQueued e _) = row_key e"

definition rows_ok :: "note_db \<Rightarrow> bool" where
  "rows_ok db \<longleftrightarrow> (\<forall>k r. map_of (cache db) k = Some r \<longrightarrow> row_key r = k) \<and>
     (\<forall>k r. map_of (pending db) k = Some r \<longrightarrow> row_key r = k)"

lemma AList_delete_map [simp]: "map_of (AList.delete k d) = (map_of d)(k := None)"
  by (rule AList.delete_conv')

lemma row_key_simps [simp]:
  "row_key (r\<lparr>n_unsent := b\<rparr>) = row_key r" "row_key (r\<lparr>n_version := v\<rparr>) = row_key r"
  "row_key (r\<lparr>p_owner := o1, n_id := i\<rparr>) = (o1, i)" "row_key (cache_row owner note) = (owner, n_id note)"
  by (simp_all add: row_key_def cache_row_def)

lemma snd_transact: "snd (transact f db) = (if db_ok db then snd (f db) else db)"
  by (simp add: transact_def case_prod_beta Let_def)

lemmas store_ops = putNote_def deleteNote_def queueSave_def putDraft_def recoverDraft_def settleDraft_def
  clearQueuedSave_def replaceQueuedSave_def snd_transact put_note_def put_pending_def

lemma rows_okD:
  assumes "rows_ok db"
  shows "map_of (cache db) k = Some r \<Longrightarrow> row_key r = k" "map_of (pending db) k = Some r \<Longrightarrow> row_key r = k"
  using assms unfolding rows_ok_def by blast+

lemma rows_okI:
  assumes "\<And>k r. map_of (cache db) k = Some r \<Longrightarrow> row_key r = k" "\<And>k r. map_of (pending db) k = Some r \<Longrightarrow> row_key r = k"
  shows "rows_ok db"
  using assms unfolding rows_ok_def by blast

definition recover_post :: "store_key \<Rightarrow> note_db \<Rightarrow> pending_save option \<Rightarrow> note_db \<Rightarrow> bool" where
  "recover_post key db res db' \<longleftrightarrow>
     (\<forall>k. k \<noteq> key \<longrightarrow> map_of (pending db') k = map_of (pending db) k \<and> map_of (cache db') k = map_of (cache db) k) \<and>
     map_of (pending db') key = res \<and>
     (\<forall>r. res = Some r \<longrightarrow> row_key r = key) \<and>
     (\<forall>r. map_of (cache db') key = Some r \<longrightarrow> row_key r = key)"

lemma recover_postD:
  assumes "recover_post key db res db'"
  shows "k \<noteq> key \<Longrightarrow> map_of (pending db') k = map_of (pending db) k" "k \<noteq> key \<Longrightarrow> map_of (cache db') k = map_of (cache db) k"
    "map_of (pending db') key = res" "res = Some r \<Longrightarrow> row_key r = key" "map_of (cache db') key = Some r \<Longrightarrow> row_key r = key"
  using assms unfolding recover_post_def by blast+

lemma recover_cases:
  assumes "recover_work owner oid legacy db = (res, db')" "rows_ok (db :: note_db)"
  shows "recover_post (owner, oid) db res db'"
proof -
  let ?q = "map_of (pending db) (owner, oid)" and ?d = "map_of (cache db) (owner, oid)"
  have q: "\<And>r. ?q = Some r \<Longrightarrow> row_key r = (owner, oid)" and d: "\<And>r. ?d = Some r \<Longrightarrow> row_key r = (owner, oid)"
    using rows_okD [OF assms(2)] by blast+
  show ?thesis
  proof (cases ?d)
    case None
    with assms(1) q show ?thesis by (auto simp: recover_work_def Let_def recover_post_def)
  next
    case (Some c)
    then have c: "row_key c = (owner, oid)" by (rule d)
    then have c': "p_owner c = owner" "n_id c = oid" by (simp_all add: row_key_def)
    then have own: "c\<lparr>p_owner := owner\<rparr> = c" "c\<lparr>n_unsent := True, p_owner := owner\<rparr> = c\<lparr>n_unsent := True\<rparr>"
      by (cases c; simp)+
    show ?thesis
      using assms(1) Some c q own
      by (auto simp: recover_work_def Let_def put_note_def put_pending_def row_key_def recover_post_def split: if_splits option.splits)
  qed
qed

lemma store_step_other:
  assumes "rows_ok db" "k \<noteq> event_key e"
  shows "map_of (pending (store_step e db)) k = map_of (pending db) k" (is ?P)
    and "map_of (cache (store_step e db)) k = map_of (cache db) k" (is ?C)
proof -
  have "?P \<and> ?C"
  proof (cases e)
    case (RecoverDraft owner oid legacy)
    obtain res db' where r: "recover_work owner oid legacy db = (res, db')" by (cases "recover_work owner oid legacy db")
    note post = recover_postD [OF recover_cases [OF r assms(1)]]
    from post(1,2) [of k] assms(2) RecoverDraft r show ?thesis by (simp add: store_ops)
  next
    case (SettleDraft x v)
    with assms(2) show ?thesis
      by (cases "map_of (cache db) (row_key x)"; cases v) (simp_all add: store_ops settle_work_def Let_def)
  next
    case (ReplaceQueued x n)
    with assms(2) show ?thesis
      by (cases "map_of (cache db) (row_key x)"; cases n) (simp_all add: store_ops replace_work_def Let_def row_key_def)
  next
    case (ClearQueued owner oid at)
    with assms(2) show ?thesis by (simp add: store_ops clear_queued_work_def)
  qed (use assms(2) in \<open>auto simp: store_ops\<close>)
  then show ?P ?C by simp_all
qed

lemma store_step_own_key:
  assumes "rows_ok db" "map_of (pending (store_step e db)) (event_key e) = Some r"
  shows "row_key r = event_key e"
proof (cases e)
  case (RecoverDraft owner oid legacy)
  obtain res db' where r: "recover_work owner oid legacy db = (res, db')" by (cases "recover_work owner oid legacy db")
  note post = recover_postD [OF recover_cases [OF r assms(1)]]
  from post(3-5) assms rows_okD [OF assms(1)] RecoverDraft r show ?thesis by (auto simp: store_ops split: if_splits)
next
  case (SettleDraft x v)
  with assms show ?thesis
    by (cases "map_of (cache db) (row_key x)"; cases v) (auto simp: store_ops settle_work_def Let_def split: if_splits dest: rows_okD [OF assms(1)])
next
  case (ReplaceQueued x n)
  have rep: "row_key (m\<lparr>p_owner := p_owner x, n_id := n_id x\<rparr>) = row_key x" for m by (simp add: row_key_def)
  from ReplaceQueued assms rep show ?thesis
    by (cases "map_of (cache db) (row_key x)"; cases n) (auto simp: store_ops replace_work_def Let_def split: if_splits dest: rows_okD [OF assms(1)])
next
  case (ClearQueued owner oid at)
  with assms show ?thesis by (auto simp: store_ops clear_queued_work_def split: if_splits dest: rows_okD [OF assms(1)])
qed (use assms in \<open>auto simp: store_ops split: if_splits dest: rows_okD [OF assms(1)]\<close>)

lemma store_step_own_cache:
  assumes "rows_ok db" "map_of (cache (store_step e db)) (event_key e) = Some r"
  shows "row_key r = event_key e"
proof (cases e)
  case (RecoverDraft owner oid legacy)
  obtain res db' where r: "recover_work owner oid legacy db = (res, db')" by (cases "recover_work owner oid legacy db")
  note post = recover_postD [OF recover_cases [OF r assms(1)]]
  from post(3-5) assms rows_okD [OF assms(1)] RecoverDraft r show ?thesis by (auto simp: store_ops split: if_splits)
next
  case (SettleDraft x v)
  with assms show ?thesis
    by (cases "map_of (cache db) (row_key x)"; cases v) (auto simp: store_ops settle_work_def Let_def split: if_splits dest: rows_okD [OF assms(1)])
next
  case (ReplaceQueued x n)
  have rep: "row_key (m\<lparr>p_owner := p_owner x, n_id := n_id x\<rparr>) = row_key x" for m by (simp add: row_key_def)
  from ReplaceQueued assms rep show ?thesis
    by (cases "map_of (cache db) (row_key x)"; cases n) (auto simp: store_ops replace_work_def Let_def split: if_splits dest: rows_okD [OF assms(1)])
next
  case (ClearQueued owner oid at)
  with assms show ?thesis by (auto simp: store_ops clear_queued_work_def split: if_splits dest: rows_okD [OF assms(1)])
qed (use assms in \<open>auto simp: store_ops split: if_splits dest: rows_okD [OF assms(1)]\<close>)

lemma store_step_ok:
  assumes "rows_ok db"
  shows "rows_ok (store_step e db)"
proof (rule rows_okI)
  show "row_key r = k" if "map_of (cache (store_step e db)) k = Some r" for k r
    using that store_step_own_cache [OF assms] store_step_other(2) [OF assms, of k e] rows_okD(1) [OF assms]
    by (cases "k = event_key e") simp_all
  show "row_key r = k" if "map_of (pending (store_step e db)) k = Some r" for k r
    using that store_step_own_key [OF assms] store_step_other(1) [OF assms, of k e] rows_okD(2) [OF assms]
    by (cases "k = event_key e") simp_all
qed

section \<open>How an edit leaves the queue\<close>

text \<open>The events that may change what is queued for a key, given what is queued there now.\<close>

fun may_replace :: "pending_save \<Rightarrow> store_event \<Rightarrow> note_db \<Rightarrow> bool" where
  "may_replace r (QueueSave n) db = (row_key n = row_key r)"
| "may_replace r (PutDraft n) db = (row_key n = row_key r)"
| "may_replace r (RecoverDraft owner oid e) db =
     ((owner, oid) = row_key r \<and> \<not> p_gone r \<and> \<not> p_previousKey r \<and>
      (\<exists>d. map_of (cache db) (row_key r) = Some d \<and> n_updatedAt r \<le> n_updatedAt d \<and> n_payload d \<noteq> n_payload r))"
| "may_replace r (SettleDraft e v) db = (row_key e = row_key r \<and> sameDraft (Some r) e)"
| "may_replace r (ClearQueued owner oid at) db = ((owner, oid) = row_key r \<and> at = n_updatedAt r)"
| "may_replace r (ReplaceQueued e n) db = (row_key e = row_key r \<and> sameDraft (Some r) e)"
| "may_replace r _ db = False"

lemma recover_changes:
  assumes "map_of (pending db) (owner, oid) = Some r" "fst (recover_work owner oid e db) \<noteq> Some r"
  shows "\<not> p_gone r \<and> \<not> p_previousKey r \<and>
      (\<exists>d. map_of (cache db) (owner, oid) = Some d \<and> n_updatedAt r \<le> n_updatedAt d \<and> n_payload d \<noteq> n_payload r)"
proof (cases "map_of (cache db) (owner, oid)")
  case None
  with assms show ?thesis by (simp add: recover_work_def Let_def)
next
  case (Some d)
  with assms show ?thesis
    by (auto simp: recover_work_def Let_def retired_def not_less split: if_splits option.splits)
qed

lemma settle_pending:
  "map_of (pending (settle_work e v db)) =
     (if sameDraft (map_of (pending db) (row_key e)) e then (map_of (pending db))(row_key e := None) else map_of (pending db))"
  by (auto simp: settle_work_def Let_def split: option.splits)

lemma leaves_queue:
  assumes ok: "rows_ok db" and r: "map_of (pending db) k = Some r" and gone: "map_of (pending (store_step e db)) k \<noteq> Some r"
  shows "may_replace r e db"
proof -
  have key: "row_key r = k" using rows_okD(2) [OF ok r] .
  have same: "k = event_key e" using store_step_other(1) [OF ok, of k e] r gone by auto
  show ?thesis
  proof (cases e)
    case (RecoverDraft owner oid legacy)
    obtain res db' where w: "recover_work owner oid legacy db = (res, db')" by (cases "recover_work owner oid legacy db")
    from recover_postD(3) [OF recover_cases [OF w ok]] w gone r same RecoverDraft
    have "fst (recover_work owner oid legacy db) \<noteq> Some r" by (auto simp: store_ops split: if_splits)
    with recover_changes [of db owner oid r legacy] r same key RecoverDraft show ?thesis by simp
  next
    case (SettleDraft x v)
    with gone r same key show ?thesis
      by (auto simp: store_ops settle_pending split: if_splits)
  next
    case (ReplaceQueued x n)
    with gone r same key show ?thesis
      by (cases "db_ok db"; cases "sameDraft (Some r) x") (simp_all add: store_ops replace_work_def Let_def)
  next
    case (ClearQueued owner oid at)
    with gone r same key show ?thesis by (auto simp: store_ops clear_queued_work_def split: if_splits)
  qed (use gone r same key in \<open>auto simp: store_ops split: if_splits\<close>)
qed

section \<open>Properties\<close>

definition empty_db :: note_db where
  "empty_db = \<lparr>db_ok = True, cache = [], pending = [], uploads = []\<rparr>"

lemma reachable_ok: "rows_ok (fold store_step es empty_db)"
  by (rule fold_invariant [where Q = "\<lambda>_. True"]) (simp_all add: store_step_ok, simp add: rows_ok_def empty_db_def)

definition demo_row :: "string \<Rightarrow> string \<Rightarrow> pending_save" where
  "demo_row owner at = \<lparr>n_id = ''obj_1'', n_containerID = ''cnt_1'', n_version = 1, n_payload = [1], n_updatedAt = at,
     n_keyGeneration = Some 1, n_unsent = False, p_owner = owner, p_previousKey = False, p_gone = False, p_conflicted = False\<rparr>"

text \<open>C33: in any interleaving of the tabs' transactions, an edit leaves the queue only by a new save for the same page and
  account, by recovery of an unsent draft that is not older and has other bytes, by being settled or replaced by a
  caller that read exactly this edit, or by a clear that names its save time.\<close>

theorem queued_edit_leaves:
  assumes "map_of (pending (fold store_step es empty_db)) k = Some r"
    and "map_of (pending (store_step e (fold store_step es empty_db))) k \<noteq> Some r"
  shows "may_replace r e (fold store_step es empty_db)"
  using reachable_ok assms by (rule leaves_queue)

theorem queued_edit_leaves_witness:
  "may_replace (demo_row ''u'' ''2026'') (ClearQueued ''u'' ''obj_1'' ''2026'') (fold store_step [QueueSave (demo_row ''u'' ''2026'')] empty_db)"
  by (rule queued_edit_leaves [of _ "(''u'', ''obj_1'')"])
    (simp_all add: store_ops transact_def clear_queued_work_def demo_row_def empty_db_def row_key_def)

text \<open>C34: whatever one account queues, drafts, recovers, settles, clears or replaces, the cached notes and queued edits of
  every other account in the same browser stay exactly as they were.\<close>

theorem accounts_isolated:
  assumes "\<forall>e \<in> set others. fst (event_key e) \<noteq> owner"
  shows "map_of (pending (fold store_step (es @ others) empty_db)) (owner, oid) = map_of (pending (fold store_step es empty_db)) (owner, oid) \<and>
    map_of (cache (fold store_step (es @ others) empty_db)) (owner, oid) = map_of (cache (fold store_step es empty_db)) (owner, oid)"
  using assms
proof (induction others rule: rev_induct)
  case (snoc e others)
  have "(owner, oid) \<noteq> event_key e" using snoc.prems by (metis fst_conv in_set_conv_decomp)
  with store_step_other [OF reachable_ok [of "es @ others"] this] snoc show ?case by simp
qed simp

theorem accounts_isolated_witness:
  "map_of (pending (fold store_step ([QueueSave (demo_row ''a'' ''1'')] @ [QueueSave (demo_row ''b'' ''2'')]) empty_db)) (''a'', ''obj_1'')
     = map_of (pending (fold store_step [QueueSave (demo_row ''a'' ''1'')] empty_db)) (''a'', ''obj_1'') \<and>
   map_of (cache (fold store_step ([QueueSave (demo_row ''a'' ''1'')] @ [QueueSave (demo_row ''b'' ''2'')]) empty_db)) (''a'', ''obj_1'')
     = map_of (cache (fold store_step [QueueSave (demo_row ''a'' ''1'')] empty_db)) (''a'', ''obj_1'')"
  by (rule accounts_isolated) (simp add: row_key_def demo_row_def)

text \<open>After recovering a page, an unsent cached draft of it is not lost: either its bytes are what is queued, or what is queued
  was saved later, or the queue holds an entry that is kept only for export.\<close>

lemma recovered_draft_is_queued:
  assumes "map_of (cache (fold store_step es empty_db)) (owner, oid) = Some d" "n_unsent d" "db_ok (fold store_step es empty_db)"
  shows "\<exists>r. map_of (pending (store_step (RecoverDraft owner oid None) (fold store_step es empty_db))) (owner, oid) = Some r \<and>
    (n_payload r = n_payload d \<or> n_updatedAt d < n_updatedAt r \<or> p_gone r \<or> p_previousKey r)"
proof -
  let ?db = "fold store_step es empty_db"
  obtain res db' where w: "recover_work owner oid None ?db = (res, db')" by (cases "recover_work owner oid None ?db")
  have "map_of (pending (store_step (RecoverDraft owner oid None) ?db)) (owner, oid) = res"
    using recover_postD(3) [OF recover_cases [OF w reachable_ok]] w assms(3) by (simp add: store_ops)
  moreover have "\<exists>r. res = Some r \<and> (n_payload r = n_payload d \<or> n_updatedAt d < n_updatedAt r \<or> p_gone r \<or> p_previousKey r)"
    using w assms(1,2) by (auto simp: recover_work_def Let_def retired_def split: if_splits option.splits)
  ultimately show ?thesis by auto
qed

end
