(* ===== verification/Vault.thy ===== *)
theory Vault
  imports NoteStore
begin

text \<open>
  The vault record of an account in this browser (\<open>web/src/storage.ts\<close>, second half): the identity
  key, the pins of colleagues, the key memory per container and the public key of a reset in flight.
  Each operation is one IndexedDB transaction. The private key is kept sealed under a device key in a
  secure context and raw otherwise; the device key, the nonce and the clock are arguments.
  The lemmas: pins are only added or replaced under a confirmation, key memory only rises, an
  identity stored with an expectation never overwrites another tab's key, and what is stored is what
  is loaded again. \<open>pin_memory\<close> and \<open>state_memory\<close> are the contracts the key service relies on.
\<close>

datatype vault_identity =
    SealedIdentity (vi_userID: string) (vi_deviceId: string) (vi_publicKey: bytes) (vi_sealed: bytes) (vi_deviceKey: bytes)
  | RawIdentity (vi_userID: string) (vi_deviceId: string) (vi_publicKey: bytes) (vi_privateKey: bytes)

text \<open>\<open>v_authSecret\<close> is the login secret builds before version 7 kept.\<close>

record vault_record =
  v_username :: string
  v_updatedAt :: string
  v_authSecret :: "string option"
  v_identity :: "vault_identity option"
  v_pins :: "(string \<times> pins) option"
  v_keyStates :: "(string \<times> (string, key_state) dict) option"
  v_resetSent :: "(string \<times> bytes) option"

record idb = note_db +
  vault_keys :: "(string, vault_record) dict"

text \<open>The migration \<open>openDatabase\<close> runs once when it opens a store of an older version.\<close>

definition upgrade :: "nat \<Rightarrow> idb \<Rightarrow> idb" where
  "upgrade oldVersion db =
     (let db1 = (if oldVersion < 6 then db\<lparr>cache := [], pending := [], uploads := []\<rparr> else db) in
      if oldVersion < 7 then db1\<lparr>vault_keys := map (\<lambda>(u, r). (u, r\<lparr>v_authSecret := None\<rparr>)) (vault_keys db1)\<rparr> else db1)"

section \<open>The record\<close>

definition new_record :: "string \<Rightarrow> string \<Rightarrow> vault_record" where
  "new_record account now = \<lparr>v_username = account, v_updatedAt = now, v_authSecret = None, v_identity = None,
     v_pins = None, v_keyStates = None, v_resetSent = None\<rparr>"

definition openVault :: "string \<Rightarrow> string \<Rightarrow> (idb, unit) io" where
  "openVault now account = transact (\<lambda>db.
     ((), db\<lparr>vault_keys := AList.update account
        (case map_of (vault_keys db) account of
           None \<Rightarrow> new_record account now
         | Some r \<Rightarrow> r\<lparr>v_username := account, v_updatedAt := now\<rparr>) (vault_keys db)\<rparr>))"

definition readRecord :: "string \<Rightarrow> (idb, vault_record option) io" where
  "readRecord account = transact (\<lambda>db. (map_of (vault_keys db) account, db))"

definition update_work :: "string \<Rightarrow> (vault_record \<Rightarrow> vault_record option) \<Rightarrow> idb \<Rightarrow> bool \<times> idb" where
  "update_work account change db =
     (case map_of (vault_keys db) account of
        None \<Rightarrow> (False, db)
      | Some record \<Rightarrow>
          (case change record of
             None \<Rightarrow> (False, db)
           | Some next \<Rightarrow> (True, db\<lparr>vault_keys := AList.update account next (vault_keys db)\<rparr>)))"

definition updateRecord :: "string \<Rightarrow> (vault_record \<Rightarrow> vault_record option) \<Rightarrow> idb \<Rightarrow> bool \<times> idb" where
  "updateRecord account change db =
     (case transact (update_work account change) db of (Inr found, db') \<Rightarrow> (found, db') | (Inl _, db') \<Rightarrow> (False, db'))"

definition vaultReady :: "string \<Rightarrow> idb \<Rightarrow> bool" where
  "vaultReady account db = (case fst (readRecord account db) of Inr (Some _) \<Rightarrow> True | _ \<Rightarrow> False)"

definition clearDeviceKey :: "string \<Rightarrow> (idb, unit) io" where
  "clearDeviceKey account = transact (\<lambda>db. ((), db\<lparr>vault_keys := AList.delete account (vault_keys db)\<rparr>))"

definition clearAllDeviceKeys :: "(idb, unit) io" where
  "clearAllDeviceKeys = transact (\<lambda>db. ((), db\<lparr>vault_keys := []\<rparr>))"

section \<open>The identity key\<close>

datatype identity_storage = Wrapped | Plain

definition identityStorage :: "lib \<Rightarrow> identity_storage" where
  "identityStorage L = (if web_crypto L then Wrapped else Plain)"

definition deviceAAD :: "string \<Rightarrow> string \<Rightarrow> bytes" where
  "deviceAAD userID device = encode (''kynotes/device-identity/v1|'' @ userID @ ''|'' @ device)"

text \<open>\<open>fresh\<close> is the device key and nonce the browser generated, absent when it refused.\<close>

definition sealForDevice :: "lib \<Rightarrow> (bytes \<times> bytes) option \<Rightarrow> string \<Rightarrow> held_identity \<Rightarrow> vault_identity result" where
  "sealForDevice L fresh userID i =
     (case identityStorage L of
        Plain \<Rightarrow> Inr (RawIdentity userID (deviceId i) (publicKey i) (privateKey i))
      | Wrapped \<Rightarrow>
          (case fresh of
             None \<Rightarrow> Inl (Error ''generateKey'')
           | Some (deviceKey, iv) \<Rightarrow>
               Inr (SealedIdentity userID (deviceId i) (publicKey i)
                 (iv @ gcm_seal L deviceKey iv (Some (deviceAAD userID (deviceId i))) (privateKey i)) deviceKey)))"

definition openForDevice :: "lib \<Rightarrow> vault_identity \<Rightarrow> held_identity option" where
  "openForDevice L stored =
     (let sk = (case stored of
           RawIdentity _ _ _ k \<Rightarrow> Some k
         | SealedIdentity u d pk sealed deviceKey \<Rightarrow>
             gcm_open L deviceKey (take 12 sealed) (Some (deviceAAD u d)) (drop 12 sealed))
      in case sk of
           None \<Rightarrow> None
         | Some k \<Rightarrow>
             if length k \<noteq> 32 then None
             else if sameBytes (x25519_public L k) (vi_publicKey stored)
             then Some \<lparr>publicKey = vi_publicKey stored, privateKey = k, deviceId = vi_deviceId stored\<rparr> else None)"

text \<open>\<open>expected\<close>: \<open>None\<close> when the caller passes none, \<open>Some None\<close> for \<open>null\<close> (the record holds no identity).\<close>

definition holds :: "vault_record \<Rightarrow> string \<Rightarrow> held_identity option \<Rightarrow> bool" where
  "holds record userID expected =
     (let current = (case v_identity record of Some i \<Rightarrow> if vi_userID i = userID then Some i else None | None \<Rightarrow> None) in
      case expected of
        None \<Rightarrow> current = None
      | Some e \<Rightarrow> (case current of None \<Rightarrow> False | Some c \<Rightarrow> sameBytes (vi_publicKey c) (publicKey e)))"

definition keep_identity ::
  "string \<Rightarrow> held_identity \<Rightarrow> held_identity option option \<Rightarrow> vault_identity \<Rightarrow> vault_record \<Rightarrow> vault_record option" where
  "keep_identity userID i expected stored record =
     (if (case expected of None \<Rightarrow> False | Some e \<Rightarrow> \<not> holds record userID e) then None
      else Some (case v_resetSent record of
          Some (u, pk) \<Rightarrow>
            (if u = userID \<and> sameBytes pk (publicKey i)
             then record\<lparr>v_resetSent := None, v_identity := Some stored\<rparr> else record\<lparr>v_identity := Some stored\<rparr>)
        | None \<Rightarrow> record\<lparr>v_identity := Some stored\<rparr>))"

definition storeIdentityKey ::
  "lib \<Rightarrow> (bytes \<times> bytes) option \<Rightarrow> string \<Rightarrow> string \<Rightarrow> held_identity \<Rightarrow> held_identity option option \<Rightarrow> idb \<Rightarrow> bool \<times> idb" where
  "storeIdentityKey L fresh account userID i expected db =
     (case sealForDevice L fresh userID i of
        Inl _ \<Rightarrow> (False, db)
      | Inr stored \<Rightarrow> updateRecord account (keep_identity userID i expected stored) db)"

definition rememberAfter ::
  "lib \<Rightarrow> (bytes \<times> bytes) option \<Rightarrow> string \<Rightarrow> (idb, 'a) io \<Rightarrow> string \<Rightarrow> (string \<times> held_identity) option \<Rightarrow> (idb, 'a) io" where
  "rememberAfter L fresh now call account held = bind_io call (\<lambda>result db.
     (Inr result,
      case openVault now account db of
        (Inl _, db1) \<Rightarrow> db1
      | (Inr _, db1) \<Rightarrow>
          (case held of None \<Rightarrow> db1 | Some (userID, i) \<Rightarrow> snd (storeIdentityKey L fresh account userID i None db1))))"

definition noteResetSent :: "string \<Rightarrow> string \<Rightarrow> bytes \<Rightarrow> idb \<Rightarrow> idb" where
  "noteResetSent account userID pk db = snd (updateRecord account (\<lambda>record. Some (record\<lparr>v_resetSent := Some (userID, pk)\<rparr>)) db)"

definition resetSentKey :: "string \<Rightarrow> string \<Rightarrow> idb \<Rightarrow> bytes option" where
  "resetSentKey account userID db =
     (case fst (readRecord account db) of
        Inr (Some record) \<Rightarrow>
          (case v_resetSent record of Some (u, pk) \<Rightarrow> if u = userID then Some pk else None | None \<Rightarrow> None)
      | _ \<Rightarrow> None)"

definition upgrade_raw :: "vault_identity \<Rightarrow> bytes \<Rightarrow> vault_record \<Rightarrow> vault_record option" where
  "upgrade_raw upgraded sk record =
     (case v_identity record of
        Some (RawIdentity _ _ _ k) \<Rightarrow> if sameBytes k sk then Some (record\<lparr>v_identity := Some upgraded\<rparr>) else None
      | _ \<Rightarrow> None)"

definition loadIdentityRecord ::
  "lib \<Rightarrow> (bytes \<times> bytes) option \<Rightarrow> string \<Rightarrow> string \<Rightarrow> (idb, held_identity option) io" where
  "loadIdentityRecord L fresh account userID = bind_io (readRecord account) (\<lambda>record db.
     case record of
       None \<Rightarrow> (Inr None, db)
     | Some r \<Rightarrow>
         (case v_identity r of
            None \<Rightarrow> (Inr None, db)
          | Some stored \<Rightarrow>
              if vi_userID stored \<noteq> userID then (Inr None, db)
              else
                let held = openForDevice L stored in
                (Inr held,
                 case (held, stored, identityStorage L) of
                   (Some h, RawIdentity _ _ _ sk, Wrapped) \<Rightarrow>
                     (case sealForDevice L fresh userID h of
                        Inl _ \<Rightarrow> db
                      | Inr upgraded \<Rightarrow> snd (updateRecord account (upgrade_raw upgraded sk) db))
                 | _ \<Rightarrow> db)))"

definition getIdentityKey ::
  "lib \<Rightarrow> (bytes \<times> bytes) option \<Rightarrow> string \<Rightarrow> string \<Rightarrow> (idb, held_identity option) io" where
  "getIdentityKey L fresh account userID = bind_io (loadIdentityRecord L fresh account userID) (\<lambda>held.
     ret (case held of Some h \<Rightarrow> if deviceId h \<noteq> [] then Some h else None | None \<Rightarrow> None))"

section \<open>Pins and key memory\<close>

definition pinsOf :: "vault_record \<Rightarrow> string \<Rightarrow> pins" where
  "pinsOf record userID = (case v_pins record of Some (u, keys) \<Rightarrow> if u = userID then keys else [] | None \<Rightarrow> [])"

definition getPins :: "string \<Rightarrow> string \<Rightarrow> (idb, pins) io" where
  "getPins account userID = bind_io (readRecord account) (\<lambda>record.
     ret (case record of Some r \<Rightarrow> pinsOf r userID | None \<Rightarrow> []))"

datatype pins_stored = PinsOk | PinsRefused "string list"

definition pin_conflict :: "pins \<Rightarrow> pins \<Rightarrow> string \<Rightarrow> bool" where
  "pin_conflict stored keys member =
     (case (map_of stored member, map_of keys member) of
        (Some s, Some k) \<Rightarrow> s \<noteq> k \<and> \<not> sameKey s k
      | _ \<Rightarrow> False)"

definition store_pins_work :: "string \<Rightarrow> string \<Rightarrow> pins \<Rightarrow> idb \<Rightarrow> pins_stored \<times> idb" where
  "store_pins_work account userID keys db =
     (case map_of (vault_keys db) account of
        None \<Rightarrow> (PinsRefused [], db)
      | Some record \<Rightarrow>
          let stored = pinsOf record userID; conflicts = filter (pin_conflict stored keys) (keys_of keys) in
          if conflicts \<noteq> [] then (PinsRefused conflicts, db)
          else (PinsOk, db\<lparr>vault_keys := AList.update account
                 (record\<lparr>v_pins := Some (userID, spread keys stored)\<rparr>) (vault_keys db)\<rparr>))"

definition storePins :: "string \<Rightarrow> string \<Rightarrow> pins \<Rightarrow> idb \<Rightarrow> pins_stored \<times> idb" where
  "storePins account userID keys db =
     (case transact (store_pins_work account userID keys) db of
        (Inr outcome, db') \<Rightarrow> (outcome, db') | (Inl _, db') \<Rightarrow> (PinsRefused [], db'))"

definition replace_pin :: "string \<Rightarrow> pin_confirmation \<Rightarrow> string option \<Rightarrow> vault_record \<Rightarrow> vault_record option" where
  "replace_pin userID c expected record =
     (let keys = pinsOf record userID; stored = map_of keys (pf_userId c) in
      if (case expected of None \<Rightarrow> False | Some e \<Rightarrow> (case stored of None \<Rightarrow> True | Some s \<Rightarrow> \<not> sameKey s e)) then None
      else Some (record\<lparr>v_pins := Some (userID, AList.update (pf_userId c) (pf_key c) keys)\<rparr>))"

definition storeConfirmedPin ::
  "confirmations \<Rightarrow> string \<Rightarrow> string \<Rightarrow> pin_confirmation \<Rightarrow> string option \<Rightarrow> idb \<Rightarrow> bool \<times> idb" where
  "storeConfirmedPin minted account userID c expected db =
     (if \<not> isPinConfirmation minted c then (False, db)
      else updateRecord account (replace_pin userID c expected) db)"

definition statesOf :: "vault_record \<Rightarrow> string \<Rightarrow> (string, key_state) dict" where
  "statesOf record userID =
     (case v_keyStates record of Some (u, byContainer) \<Rightarrow> if u = userID then byContainer else [] | None \<Rightarrow> [])"

definition no_state :: key_state where
  "no_state = \<lparr>shared = None, generation = None, mark = 0, digests = [], objects2 = False\<rparr>"

definition getKeyState :: "string \<Rightarrow> string \<Rightarrow> string \<Rightarrow> (idb, key_state) io" where
  "getKeyState account userID containerID = bind_io (readRecord account) (\<lambda>record.
     ret (case record of
        None \<Rightarrow> no_state
      | Some r \<Rightarrow> (case map_of (statesOf r userID) containerID of None \<Rightarrow> no_state | Some s \<Rightarrow> s)))"

definition merge_state :: "key_state \<Rightarrow> key_state \<Rightarrow> key_state" where
  "merge_state prior state =
     \<lparr>shared = Some (max (or0 (shared prior)) (or0 (shared state))),
      generation = Some (max (or0 (generation prior)) (or0 (generation state))),
      mark = max (mark prior) (mark state),
      digests = spread (digests state) (digests prior),
      objects2 = (objects2 prior \<or> objects2 state)\<rparr>"

definition put_state :: "string \<Rightarrow> string \<Rightarrow> key_state \<Rightarrow> vault_record \<Rightarrow> vault_record" where
  "put_state userID containerID state record =
     (let byContainer = statesOf record userID;
          prior = (case map_of byContainer containerID of None \<Rightarrow> no_state | Some s \<Rightarrow> s) in
      record\<lparr>v_keyStates := Some (userID, AList.update containerID (merge_state prior state) byContainer)\<rparr>)"

definition storeKeyState :: "string \<Rightarrow> string \<Rightarrow> string \<Rightarrow> key_state \<Rightarrow> idb \<Rightarrow> bool \<times> idb" where
  "storeKeyState account userID containerID state db =
     updateRecord account (\<lambda>record. Some (put_state userID containerID state record)) db"

section \<open>What the vault shows\<close>

definition pins_in :: "string \<Rightarrow> string \<Rightarrow> idb \<Rightarrow> pins" where
  "pins_in account userID db = (case map_of (vault_keys db) account of None \<Rightarrow> [] | Some r \<Rightarrow> pinsOf r userID)"

definition state_in :: "string \<Rightarrow> string \<Rightarrow> string \<Rightarrow> idb \<Rightarrow> key_state" where
  "state_in account userID c db = (case map_of (vault_keys db) account of
     None \<Rightarrow> no_state
   | Some r \<Rightarrow> (case map_of (statesOf r userID) c of None \<Rightarrow> no_state | Some s \<Rightarrow> s))"

lemma getPins_reads: "getPins account userID db = (if db_ok db then (Inr (pins_in account userID db), db) else (Inl (Error ''Unable to open local note store''), db))"
  by (simp add: getPins_def readRecord_def transact_def bind_io_def ret_def pins_in_def)

lemma getKeyState_reads: "getKeyState account userID c db = (if db_ok db then (Inr (state_in account userID c db), db) else (Inl (Error ''Unable to open local note store''), db))"
  by (auto simp: getKeyState_def readRecord_def transact_def bind_io_def ret_def state_in_def split: option.splits)

definition state_le :: "key_state \<Rightarrow> key_state \<Rightarrow> bool" where
  "state_le s t \<longleftrightarrow> floor_le s t \<and> mark s \<le> mark t \<and> map_of (digests s) \<subseteq>\<^sub>m map_of (digests t) \<and> (objects2 s \<longrightarrow> objects2 t)"

lemma state_le_refl [simp]: "state_le s s"
  by (simp add: state_le_def)

lemma state_le_trans: "state_le s t \<Longrightarrow> state_le t u \<Longrightarrow> state_le s u"
  unfolding state_le_def by (auto intro: floor_le_trans map_le_trans)

text \<open>Property names of an object are distinct; the vault keeps it so.\<close>

definition state_ok :: "key_state \<Rightarrow> bool" where
  "state_ok s \<longleftrightarrow> distinct (keys_of (digests s)) \<and> 0 \<le> mark s"

definition record_ok :: "vault_record \<Rightarrow> bool" where
  "record_ok r \<longleftrightarrow> (\<forall>u ps. v_pins r = Some (u, ps) \<longrightarrow> distinct (keys_of ps)) \<and>
     (\<forall>u d c s. v_keyStates r = Some (u, d) \<longrightarrow> map_of d c = Some s \<longrightarrow> state_ok s)"

definition vault_ok :: "idb \<Rightarrow> bool" where
  "vault_ok db \<longleftrightarrow> (\<forall>account r. map_of (vault_keys db) account = Some r \<longrightarrow> record_ok r)"

lemma merge_state_up:
  assumes "state_ok prior"
  shows "state_le prior (merge_state prior s)"
  using assms by (auto simp: state_le_def merge_state_def floor_le_def map_of_spread state_ok_def map_le_def map_add_def)

lemma merge_state_covers:
  assumes "state_ok prior"
  shows "floor_le s (merge_state prior s)" "mark s \<le> mark (merge_state prior s)" "objects2 s \<Longrightarrow> objects2 (merge_state prior s)"
    "dom (map_of (digests s)) \<subseteq> dom (map_of (digests (merge_state prior s)))"
  using assms by (auto simp: merge_state_def floor_le_def state_ok_def map_of_spread)

lemma merge_state_ok: "state_ok prior \<Longrightarrow> state_ok s \<Longrightarrow> state_ok (merge_state prior s)"
  by (auto simp: state_ok_def merge_state_def)

lemma state_ok_no_state [simp]: "state_ok no_state"
  by (simp add: state_ok_def no_state_def)

lemma vault_okD: "vault_ok db \<Longrightarrow> map_of (vault_keys db) account = Some r \<Longrightarrow> record_ok r"
  by (auto simp: vault_ok_def)

lemma statesOf_ok: "record_ok r \<Longrightarrow> map_of (statesOf r u) c = Some s \<Longrightarrow> state_ok s"
  by (auto simp: record_ok_def statesOf_def split: option.splits if_splits)

lemma pinsOf_ok: "record_ok r \<Longrightarrow> distinct (keys_of (pinsOf r u))"
  by (auto simp: record_ok_def pinsOf_def split: option.splits)

lemma state_in_ok: "vault_ok db \<Longrightarrow> state_ok (state_in account u c db)"
  by (auto simp: state_in_def split: option.splits dest: vault_okD statesOf_ok)

lemma put_state_ok:
  assumes "record_ok r" "state_ok s"
  shows "record_ok (put_state u c s r)"
proof -
  let ?prior = "case map_of (statesOf r u) c of None \<Rightarrow> no_state | Some s \<Rightarrow> s"
  have "state_ok ?prior" using statesOf_ok [OF assms(1)] by (auto split: option.splits)
  then have "state_ok (merge_state ?prior s)" using assms(2) by (rule merge_state_ok)
  with assms(1) statesOf_ok [OF assms(1)] show ?thesis
    by (auto simp: record_ok_def put_state_def Let_def split: if_splits)
qed

section \<open>Updates\<close>

lemma updateRecord_unfold:
  "updateRecord account change db =
     (case map_of (vault_keys db) account of
        None \<Rightarrow> (False, db)
      | Some r \<Rightarrow> (case change r of
          None \<Rightarrow> (False, db)
        | Some n \<Rightarrow> if db_ok db then (True, db\<lparr>vault_keys := AList.update account n (vault_keys db)\<rparr>) else (False, db)))"
  by (auto simp: updateRecord_def transact_def update_work_def split: option.splits)

lemma updateRecord_cases:
  assumes "updateRecord account change db = (b, db')"
  obtains (Kept) "\<not> b" "db' = db"
  | (Changed) r n where "b" "db_ok db" "map_of (vault_keys db) account = Some r" "change r = Some n"
      "db' = db\<lparr>vault_keys := AList.update account n (vault_keys db)\<rparr>"
proof (cases "db_ok db \<and> (\<exists>r. map_of (vault_keys db) account = Some r \<and> change r \<noteq> None)")
  case True
  then obtain r n where "map_of (vault_keys db) account = Some r" "change r = Some n" "db_ok db" by blast
  with assms show thesis by (intro Changed) (auto simp: updateRecord_unfold)
next
  case False
  with assms show thesis
    by (intro Kept; cases "map_of (vault_keys db) account"; cases "change (the (map_of (vault_keys db) account))")
      (simp_all add: updateRecord_unfold split: if_splits)
qed

lemma vault_ok_update:
  "vault_ok db \<Longrightarrow> record_ok n \<Longrightarrow> vault_ok (db\<lparr>vault_keys := AList.update account n (vault_keys db)\<rparr>)"
  by (simp add: vault_ok_def)

lemma in_update:
  "pins_in account u (db\<lparr>vault_keys := AList.update account n (vault_keys db)\<rparr>) = pinsOf n u"
  "state_in account u c (db\<lparr>vault_keys := AList.update account n (vault_keys db)\<rparr>) =
     (case map_of (statesOf n u) c of None \<Rightarrow> no_state | Some s \<Rightarrow> s)"
  by (simp_all add: pins_in_def state_in_def)

lemma updateRecord_ok:
  assumes "vault_ok db" "updateRecord account change db = (b, db')"
    and "\<And>r n. record_ok r \<Longrightarrow> change r = Some n \<Longrightarrow> record_ok n"
  shows "vault_ok db'"
  using assms(2)
proof (cases rule: updateRecord_cases)
  case (Changed r n)
  have "record_ok n" using assms(3) vault_okD [OF assms(1) Changed(3)] Changed(4) .
  with assms(1) Changed(5) show ?thesis by (simp add: vault_ok_update)
qed (use assms(1) in simp)

lemma storePins_cases:
  assumes "storePins account userID keys db = (outcome, db')"
  obtains (Refused) cs where "outcome = PinsRefused cs" "db' = db"
  | (Stored) r where "outcome = PinsOk" "db_ok db" "map_of (vault_keys db) account = Some r"
      "filter (pin_conflict (pinsOf r userID) keys) (keys_of keys) = []"
      "db' = db\<lparr>vault_keys := AList.update account (r\<lparr>v_pins := Some (userID, spread keys (pinsOf r userID))\<rparr>) (vault_keys db)\<rparr>"
  using assms by (auto simp: storePins_def transact_def store_pins_work_def Let_def split: option.splits if_splits)

lemma storePins_spec:
  assumes ok: "vault_ok db" and keys: "distinct (keys_of keys)" and stored: "storePins account userID keys db = (PinsOk, db')"
  shows "vault_ok db'" "map_of (pins_in account userID db) \<subseteq>\<^sub>m map_of (pins_in account userID db')"
    "map_of keys u = Some k \<Longrightarrow> \<exists>p. map_of (pins_in account userID db') u = Some p \<and> (p = k \<or> sameKey p k)"
    "\<And>c. state_in account userID c db' = state_in account userID c db"
proof -
  from stored obtain r where r: "map_of (vault_keys db) account = Some r"
    and none: "filter (pin_conflict (pinsOf r userID) keys) (keys_of keys) = []"
    and db': "db' = db\<lparr>vault_keys := AList.update account (r\<lparr>v_pins := Some (userID, spread keys (pinsOf r userID))\<rparr>) (vault_keys db)\<rparr>"
    by (cases rule: storePins_cases) auto
  have rok: "record_ok r" using ok r by (rule vault_okD)
  have after: "map_of (pins_in account userID db') = map_of keys ++ map_of (pinsOf r userID)"
    using pinsOf_ok [OF rok] by (simp add: pins_in_def db' pinsOf_def map_of_spread)
  show "map_of (pins_in account userID db) \<subseteq>\<^sub>m map_of (pins_in account userID db')"
    unfolding after by (simp add: pins_in_def r)
  show "\<exists>p. map_of (pins_in account userID db') u = Some p \<and> (p = k \<or> sameKey p k)" if "map_of keys u = Some k"
  proof (cases "map_of (pinsOf r userID) u")
    case None
    with that show ?thesis by (simp add: after map_add_def)
  next
    case (Some p)
    have "u \<in> set (keys_of keys)" using that by (metis domI dom_map_of_conv_image_fst set_map)
    then have "\<not> pin_conflict (pinsOf r userID) keys u" using none by (auto simp: filter_empty_conv)
    with Some that show ?thesis by (auto simp: after pin_conflict_def)
  qed
  show "vault_ok db'"
    unfolding db' using rok keys by (intro vault_ok_update ok) (auto simp: record_ok_def)
  show "state_in account userID c db' = state_in account userID c db" for c
    by (simp add: state_in_def db' r statesOf_def)
qed

lemma put_state_views:
  "pinsOf (put_state u c s r) v = pinsOf r v"
  "statesOf (put_state u c s r) u =
     AList.update c (merge_state (case map_of (statesOf r u) c of None \<Rightarrow> no_state | Some t \<Rightarrow> t) s) (statesOf r u)"
  by (simp_all add: put_state_def Let_def pinsOf_def statesOf_def)

lemma storeKeyState_spec:
  assumes ok: "vault_ok db" and s: "state_ok s" and stored: "storeKeyState account userID c s db = (b, db')"
  shows "vault_ok db'" "pins_in account userID db' = pins_in account userID db"
    "state_le (state_in account userID d db) (state_in account userID d db')"
    "b \<Longrightarrow> floor_le s (state_in account userID c db') \<and> mark s \<le> mark (state_in account userID c db')"
    "\<not> b \<Longrightarrow> db' = db"
proof -
  have call: "updateRecord account (\<lambda>record. Some (put_state userID c s record)) db = (b, db')"
    using stored by (simp add: storeKeyState_def)
  then have "vault_ok db' \<and> pins_in account userID db' = pins_in account userID db \<and>
    state_le (state_in account userID d db) (state_in account userID d db') \<and>
    (b \<longrightarrow> floor_le s (state_in account userID c db') \<and> mark s \<le> mark (state_in account userID c db')) \<and>
    (\<not> b \<longrightarrow> db' = db)"
  proof (cases rule: updateRecord_cases)
    case Kept
    with ok show ?thesis by simp
  next
    case (Changed r n)
    then have n: "n = put_state userID c s r" by simp
    have prior: "state_in account userID e db = (case map_of (statesOf r userID) e of None \<Rightarrow> no_state | Some t \<Rightarrow> t)" for e
      using Changed(3) by (simp add: state_in_def)
    have upd: "state_in account userID e db' = (if e = c then merge_state (state_in account userID c db) s else state_in account userID e db)" for e
      unfolding Changed(5) in_update n put_state_views prior by simp
    have "record_ok n" unfolding n using vault_okD [OF ok Changed(3)] s by (rule put_state_ok)
    then have "vault_ok db'" unfolding Changed(5) using ok by (intro vault_ok_update)
    moreover have "pins_in account userID db' = pins_in account userID db"
      unfolding Changed(5) in_update n put_state_views using Changed(3) by (simp add: pins_in_def)
    ultimately show ?thesis
      using Changed(1) upd merge_state_up [OF state_in_ok [OF ok]] merge_state_covers [OF state_in_ok [OF ok]] by simp
  qed
  then show "vault_ok db'" "pins_in account userID db' = pins_in account userID db"
    "state_le (state_in account userID d db) (state_in account userID d db')"
    "b \<Longrightarrow> floor_le s (state_in account userID c db') \<and> mark s \<le> mark (state_in account userID c db')"
    "\<not> b \<Longrightarrow> db' = db" by blast+
qed

section \<open>The contracts the key service relies on\<close>

text \<open>
  A memory of pins that first-contact writes only add to, and a key memory that only rises. \<open>well\<close> is the
  well-formedness of the store, \<open>names\<close> that the proposed pins have distinct property names.
\<close>

locale pin_memory =
  fixes well :: "'w \<Rightarrow> bool"
    and pins :: "'w \<Rightarrow> pins"
    and add_fresh :: "pins \<Rightarrow> 'w \<Rightarrow> pins_stored \<times> 'w"
  assumes add_keeps: "well w \<Longrightarrow> distinct (keys_of ps) \<Longrightarrow> add_fresh ps w = (outcome, w') \<Longrightarrow>
      well w' \<and> map_of (pins w) \<subseteq>\<^sub>m map_of (pins w')"
    and add_stores: "well w \<Longrightarrow> distinct (keys_of ps) \<Longrightarrow> add_fresh ps w = (PinsOk, w') \<Longrightarrow> map_of ps u = Some k \<Longrightarrow>
      \<exists>p. map_of (pins w') u = Some p \<and> (p = k \<or> sameKey p k)"
begin

text \<open>A key that equals its pin in an accepted proposal equals the stored pin.\<close>

lemma stored_pin_matches:
  assumes "well w" "distinct (keys_of ps)" "add_fresh ps w = (PinsOk, w')" "map_of ps u = Some q" "sameKey q key"
  shows "\<exists>p. map_of (pins w') u = Some p \<and> sameKey p key"
  using add_stores [OF assms(1-4)] assms(5) by (auto intro: sameKey_trans)

end

locale state_memory =
  fixes well :: "'w \<Rightarrow> bool"
    and state :: "string \<Rightarrow> 'w \<Rightarrow> key_state"
    and save :: "string \<Rightarrow> key_state \<Rightarrow> 'w \<Rightarrow> bool \<times> 'w"
  assumes save_rises: "well w \<Longrightarrow> state_ok s \<Longrightarrow> save c s w = (b, w') \<Longrightarrow> well w' \<and> state_le (state d w) (state d w')"
    and save_covers: "well w \<Longrightarrow> state_ok s \<Longrightarrow> save c s w = (True, w') \<Longrightarrow> floor_le s (state c w') \<and> mark s \<le> mark (state c w')"
begin

lemma saves_rise:
  assumes "well w" "\<forall>(c, s) \<in> set saves. state_ok s"
  shows "well (fold (\<lambda>(c, s) w. snd (save c s w)) saves w) \<and>
    state_le (state d w) (state d (fold (\<lambda>(c, s) w. snd (save c s w)) saves w))"
  using assms
proof (induction saves arbitrary: w)
  case (Cons p saves)
  obtain c s where p: "p = (c, s)" by (cases p)
  with Cons.prems save_rises [of w s c "fst (save c s w)" "snd (save c s w)" d]
  have "well (snd (save c s w))" "state_le (state d w) (state d (snd (save c s w)))" by simp_all
  with Cons.IH [of "snd (save c s w)"] Cons.prems p show ?case by (auto intro: state_le_trans)
qed simp

end

interpretation vault_pins: pin_memory vault_ok "pins_in account userID" "storePins account userID" for account userID
proof unfold_locales
  show "vault_ok w' \<and> map_of (pins_in account userID w) \<subseteq>\<^sub>m map_of (pins_in account userID w')"
    if "vault_ok w" "distinct (keys_of ps)" "storePins account userID ps w = (outcome, w')" for w ps outcome w'
    using that(3) storePins_spec(1,2) [OF that(1,2), of account userID w'] that(1)
    by (cases rule: storePins_cases) (simp_all add: that)
  show "\<exists>p. map_of (pins_in account userID w') u = Some p \<and> (p = k \<or> sameKey p k)"
    if "vault_ok w" "distinct (keys_of ps)" "storePins account userID ps w = (PinsOk, w')" "map_of ps u = Some k" for w ps w' u k
    using storePins_spec(3) [OF that(1-4)] .
qed

interpretation vault_states: state_memory vault_ok "state_in account userID" "storeKeyState account userID" for account userID
proof unfold_locales
  show "vault_ok w' \<and> state_le (state_in account userID d w) (state_in account userID d w')"
    if "vault_ok w" "state_ok s" "storeKeyState account userID c s w = (b, w')" for w s c b w' d
    using storeKeyState_spec(1,3) [OF that] by simp
  show "floor_le s (state_in account userID c w') \<and> mark s \<le> mark (state_in account userID c w')"
    if "vault_ok w" "state_ok s" "storeKeyState account userID c s w = (True, w')" for w s c w'
    using storeKeyState_spec(4) [OF that] by simp
qed

section \<open>Every write to one account's record\<close>

datatype vault_event =
    OpenVault string
  | StoreIdentity "(bytes \<times> bytes) option" held_identity "held_identity option option"
  | LoadIdentity "(bytes \<times> bytes) option"
  | NoteReset bytes
  | StorePins pins
  | ConfirmPin confirmations pin_confirmation "string option"
  | StoreState string key_state

fun vault_step :: "lib \<Rightarrow> string \<Rightarrow> string \<Rightarrow> vault_event \<Rightarrow> idb \<Rightarrow> idb" where
  "vault_step L account u (OpenVault now) db = snd (openVault now account db)"
| "vault_step L account u (StoreIdentity fresh i expected) db = snd (storeIdentityKey L fresh account u i expected db)"
| "vault_step L account u (LoadIdentity fresh) db = snd (loadIdentityRecord L fresh account u db)"
| "vault_step L account u (NoteReset pk) db = noteResetSent account u pk db"
| "vault_step L account u (StorePins ps) db = snd (storePins account u ps db)"
| "vault_step L account u (ConfirmPin minted c expected) db = snd (storeConfirmedPin minted account u c expected db)"
| "vault_step L account u (StoreState c s) db = snd (storeKeyState account u c s db)"

fun vault_event_ok :: "vault_event \<Rightarrow> bool" where
  "vault_event_ok (StorePins ps) = distinct (keys_of ps)"
| "vault_event_ok (StoreState c s) = state_ok s"
| "vault_event_ok _ = True"

text \<open>An update that leaves pins and key memory of the record alone.\<close>

definition same_memory :: "(vault_record \<Rightarrow> vault_record option) \<Rightarrow> bool" where
  "same_memory change \<longleftrightarrow> (\<forall>r n. change r = Some n \<longrightarrow> v_pins n = v_pins r \<and> v_keyStates n = v_keyStates r)"

lemma same_memory_update:
  assumes "same_memory change" "vault_ok db"
  shows "vault_ok (snd (updateRecord account change db))"
    "pins_in account u (snd (updateRecord account change db)) = pins_in account u db"
    "state_in account u c (snd (updateRecord account change db)) = state_in account u c db"
proof -
  obtain b db' where call: "updateRecord account change db = (b, db')" by (cases "updateRecord account change db")
  have ok: "record_ok n" if "record_ok r" "change r = Some n" for r n
    using that assms(1) by (auto simp: same_memory_def record_ok_def)
  then show "vault_ok (snd (updateRecord account change db))" using updateRecord_ok [OF assms(2) call] call by simp
  have "pins_in account u db' = pins_in account u db \<and> state_in account u c db' = state_in account u c db"
    using call
  proof (cases rule: updateRecord_cases)
    case (Changed r n)
    with assms(1) have "v_pins n = v_pins r" "v_keyStates n = v_keyStates r" by (auto simp: same_memory_def)
    then show ?thesis unfolding Changed(5) in_update using Changed(3)
      by (simp add: pins_in_def state_in_def pinsOf_def statesOf_def)
  qed simp
  then show "pins_in account u (snd (updateRecord account change db)) = pins_in account u db"
    "state_in account u c (snd (updateRecord account change db)) = state_in account u c db" using call by simp_all
qed

lemma same_memory_changes:
  "same_memory (keep_identity u i expected stored)" "same_memory (upgrade_raw upgraded sk)"
  "same_memory (\<lambda>r. Some (r\<lparr>v_resetSent := x\<rparr>))"
  by (auto simp: same_memory_def keep_identity_def upgrade_raw_def split: if_splits option.splits vault_identity.splits)

lemma openVault_views:
  assumes "vault_ok db"
  shows "vault_ok (snd (openVault now account db))" "pins_in account u (snd (openVault now account db)) = pins_in account u db"
    "state_in account u c (snd (openVault now account db)) = state_in account u c db"
proof -
  let ?n = "case map_of (vault_keys db) account of None \<Rightarrow> new_record account now
    | Some r \<Rightarrow> r\<lparr>v_username := account, v_updatedAt := now\<rparr>"
  have n: "record_ok ?n" using vault_okD [OF assms]
    by (auto simp: record_ok_def new_record_def split: option.splits)
  have db': "snd (openVault now account db) = (if db_ok db then db\<lparr>vault_keys := AList.update account ?n (vault_keys db)\<rparr> else db)"
    by (simp add: openVault_def transact_def)
  show "vault_ok (snd (openVault now account db))" unfolding db' using assms n by (simp add: vault_ok_update)
  show "pins_in account u (snd (openVault now account db)) = pins_in account u db"
    by (simp add: db' in_update) (simp add: pins_in_def pinsOf_def new_record_def split: option.splits)
  show "state_in account u c (snd (openVault now account db)) = state_in account u c db"
    by (simp add: db' in_update) (simp add: state_in_def statesOf_def new_record_def split: option.splits)
qed

lemma confirm_views:
  assumes "vault_ok db"
  shows "vault_ok (snd (storeConfirmedPin minted account u c expected db))"
    "state_in account u d (snd (storeConfirmedPin minted account u c expected db)) = state_in account u d db"
proof -
  obtain b db' where call: "storeConfirmedPin minted account u c expected db = (b, db')"
    by (cases "storeConfirmedPin minted account u c expected db")
  have "vault_ok db' \<and> state_in account u d db' = state_in account u d db"
  proof (cases "isPinConfirmation minted c")
    case True
    with call have "updateRecord account (replace_pin u c expected) db = (b, db')" by (simp add: storeConfirmedPin_def)
    then show ?thesis
    proof (cases rule: updateRecord_cases)
      case (Changed r n)
      then have n: "n = r\<lparr>v_pins := Some (u, AList.update (pf_userId c) (pf_key c) (pinsOf r u))\<rparr>"
        by (auto simp: replace_pin_def Let_def split: if_splits)
      have "record_ok r" using vault_okD [OF assms Changed(3)] .
      then have "record_ok n" using pinsOf_ok [OF \<open>record_ok r\<close>] by (auto simp: n record_ok_def)
      then show ?thesis unfolding Changed(5) in_update using assms Changed(3)
        by (simp add: vault_ok_update n state_in_def statesOf_def)
    qed (use assms in simp)
  next
    case False
    with call assms show ?thesis by (simp add: storeConfirmedPin_def)
  qed
  with call show "vault_ok (snd (storeConfirmedPin minted account u c expected db))"
    "state_in account u d (snd (storeConfirmedPin minted account u c expected db)) = state_in account u d db" by simp_all
qed

lemma loadIdentity_state:
  "snd (loadIdentityRecord L fresh account u db) = db \<or>
     (\<exists>upgraded sk. snd (loadIdentityRecord L fresh account u db) = snd (updateRecord account (upgrade_raw upgraded sk) db))"
  by (auto simp: loadIdentityRecord_def bind_io_def readRecord_def transact_def Let_def
      split: option.splits vault_identity.splits identity_storage.splits sum.splits if_splits)

lemma storeIdentity_state:
  "snd (storeIdentityKey L fresh account u i expected db) = db \<or>
     (\<exists>stored. snd (storeIdentityKey L fresh account u i expected db) = snd (updateRecord account (keep_identity u i expected stored) db))"
  by (auto simp: storeIdentityKey_def split: sum.splits)

lemma identity_events_views:
  assumes "vault_ok db" "e = StoreIdentity fresh i expected \<or> e = LoadIdentity fresh \<or> e = NoteReset pk"
  shows "vault_ok (vault_step L account u e db) \<and> pins_in account u (vault_step L account u e db) = pins_in account u db \<and>
    state_in account u c (vault_step L account u e db) = state_in account u c db"
proof -
  have "vault_step L account u e db = db \<or> (\<exists>change. same_memory change \<and> vault_step L account u e db = snd (updateRecord account change db))"
    using assms(2)
  proof (elim disjE)
    assume "e = StoreIdentity fresh i expected"
    then show ?thesis using storeIdentity_state [of L fresh account u i expected db] same_memory_changes(1) by (metis vault_step.simps(2))
  next
    assume "e = LoadIdentity fresh"
    then show ?thesis using loadIdentity_state [of L fresh account u db] same_memory_changes(2) by (metis vault_step.simps(3))
  next
    assume e: "e = NoteReset pk"
    show ?thesis by (rule disjI2, rule exI, rule conjI, rule same_memory_changes(3)) (simp add: e noteResetSent_def)
  qed
  then show ?thesis
  proof
    assume "\<exists>change. same_memory change \<and> vault_step L account u e db = snd (updateRecord account change db)"
    then obtain change where "same_memory change" "vault_step L account u e db = snd (updateRecord account change db)" by blast
    with same_memory_update [OF this(1) assms(1)] show ?thesis by simp
  qed (simp add: assms(1))
qed

lemma vault_step_rises:
  assumes "vault_ok db" "vault_event_ok e"
  shows "vault_ok (vault_step L account u e db) \<and> state_le (state_in account u c db) (state_in account u c (vault_step L account u e db)) \<and>
    ((\<exists>minted p expected. e = ConfirmPin minted p expected) \<or>
      map_of (pins_in account u db) \<subseteq>\<^sub>m map_of (pins_in account u (vault_step L account u e db)))"
proof (cases e)
  case (StorePins ps)
  obtain outcome db' where call: "storePins account u ps db = (outcome, db')" by (cases "storePins account u ps db")
  have "vault_ok db' \<and> map_of (pins_in account u db) \<subseteq>\<^sub>m map_of (pins_in account u db')"
    using assms StorePins call by (intro vault_pins.add_keeps) auto
  moreover have "state_in account u c db' = state_in account u c db"
    using call storePins_spec(4) [OF assms(1), of ps account u db' c] assms(2) StorePins
    by (cases rule: storePins_cases) (auto simp: call)
  ultimately show ?thesis using call StorePins by simp
next
  case (StoreState d s)
  obtain b db' where call: "storeKeyState account u d s db = (b, db')" by (cases "storeKeyState account u d s db")
  from assms(2) StoreState have "state_ok s" by simp
  note spec = storeKeyState_spec [OF assms(1) this call]
  with StoreState call show ?thesis by simp
next
  case (OpenVault now)
  with openVault_views [OF assms(1)] show ?thesis by simp
next
  case (ConfirmPin minted p expected)
  with confirm_views [OF assms(1)] show ?thesis by simp
next
  case (StoreIdentity fresh i expected)
  with identity_events_views [OF assms(1), of e fresh i expected _ L account u c] show ?thesis by simp
next
  case (LoadIdentity fresh)
  with identity_events_views [OF assms(1), of e fresh _ _ _ L account u c] show ?thesis by simp
next
  case (NoteReset pk)
  with identity_events_views [OF assms(1), of e _ _ _ pk L account u c] show ?thesis by simp
qed

lemma vault_run_ok:
  "vault_ok db \<Longrightarrow> list_all vault_event_ok es \<Longrightarrow> vault_ok (fold (vault_step L account u) es db)"
  by (induction es arbitrary: db) (simp_all add: vault_step_rises)

lemma vault_run_rises:
  assumes "vault_ok db" "list_all vault_event_ok es"
  shows "state_le (state_in account u c db) (state_in account u c (fold (vault_step L account u) es db))"
  using assms
proof (induction es arbitrary: db)
  case (Cons e es)
  then have one: "vault_ok (vault_step L account u e db)"
    "state_le (state_in account u c db) (state_in account u c (vault_step L account u e db))"
    using vault_step_rises [of db e L account u c] by simp_all
  with Cons show ?case by (auto intro: state_le_trans)
qed simp

section \<open>The stored identity\<close>

lemma openForDevice_seal:
  assumes rt: "gcm_roundtrip L" and i: "length (privateKey i) = 32" "publicKey i = x25519_public L (privateKey i)"
    and sealed: "sealForDevice L fresh userID i = Inr stored" and iv: "case fresh of None \<Rightarrow> True | Some (k, iv) \<Rightarrow> length iv = 12"
  shows "openForDevice L stored = Some i \<and> vi_userID stored = userID"
proof -
  have same: "\<lparr>publicKey = publicKey i, privateKey = privateKey i, deviceId = deviceId i\<rparr> = i" by simp
  show ?thesis
  proof (cases "identityStorage L")
    case Plain
    with sealed have "stored = RawIdentity userID (deviceId i) (publicKey i) (privateKey i)" by (simp add: sealForDevice_def)
    with i same show ?thesis by (simp add: openForDevice_def)
  next
    case Wrapped
    with sealed obtain k n where "fresh = Some (k, n)"
      and st: "stored = SealedIdentity userID (deviceId i) (publicKey i) (n @ gcm_seal L k n (Some (deviceAAD userID (deviceId i))) (privateKey i)) k"
      by (auto simp: sealForDevice_def split: option.splits)
    with iv have "length n = 12" by simp
    with rt i same show ?thesis by (simp add: openForDevice_def st gcm_roundtrip_def)
  qed
qed

lemma keep_identity_Some:
  assumes "keep_identity userID i expected stored r = Some n"
  shows "v_identity n = Some stored \<and> (case expected of None \<Rightarrow> True | Some e \<Rightarrow> holds r userID e)"
proof
  show "v_identity n = Some stored"
    using assms by (auto simp: keep_identity_def split: if_splits option.splits)
  show "case expected of None \<Rightarrow> True | Some e \<Rightarrow> holds r userID e"
    using assms by (cases expected) (simp_all add: keep_identity_def split: if_splits)
qed

lemma storeIdentityKey_True:
  assumes "storeIdentityKey L fresh account userID i expected db = (True, db')"
  obtains r n stored where "map_of (vault_keys db) account = Some r" "db_ok db" "sealForDevice L fresh userID i = Inr stored"
    "keep_identity userID i expected stored r = Some n" "db' = db\<lparr>vault_keys := AList.update account n (vault_keys db)\<rparr>"
proof -
  from assms obtain stored where s: "sealForDevice L fresh userID i = Inr stored"
    and call: "updateRecord account (keep_identity userID i expected stored) db = (True, db')"
    by (auto simp: storeIdentityKey_def split: sum.splits)
  from call show thesis
  proof (cases rule: updateRecord_cases)
    case (Changed r n)
    show thesis by (rule that [OF Changed(3,2) s Changed(4,5)])
  qed simp
qed

section \<open>Properties\<close>


definition empty_idb :: idb where
  "empty_idb = \<lparr>db_ok = True, cache = [], pending = [], uploads = [], vault_keys = []\<rparr>"



definition demo_vault :: idb where
  "demo_vault = empty_idb\<lparr>vault_keys := [(''a'', (new_record ''a'' ''0'')\<lparr>v_pins := Some (''u'', [(''m'', ''k1'')])\<rparr>)]\<rparr>"

definition demo_confirmation :: pin_confirmation where
  "demo_confirmation = \<lparr>pf_serial = 0, pf_userId = ''m'', pf_key = ''k2'', pf_pins = []\<rparr>"


text \<open>Keeping an identity under an expectation succeeds only when the record still held exactly that identity (or none), so a
  key another tab stored meanwhile is never overwritten; and an identity that was kept is the one that loads again.\<close>

lemma identity_compare_and_swap:
  assumes "gcm_roundtrip L" "length (privateKey i) = 32" "publicKey i = x25519_public L (privateKey i)"
    and "case fresh of None \<Rightarrow> True | Some (k, iv) \<Rightarrow> length iv = 12"
    and "storeIdentityKey L fresh account userID i (Some expected) db = (kept, db')"
  shows "if kept then (\<exists>r. map_of (vault_keys db) account = Some r \<and> holds r userID expected) \<and>
      fst (loadIdentityRecord L fresh' account userID db') = Inr (Some i)
    else db' = db"
proof (cases kept)
  case True
  with assms(5) obtain r n stored where r: "map_of (vault_keys db) account = Some r" and ok: "db_ok db"
    and sealed: "sealForDevice L fresh userID i = Inr stored" and n: "keep_identity userID i (Some expected) stored r = Some n"
    and db': "db' = db\<lparr>vault_keys := AList.update account n (vault_keys db)\<rparr>"
    by (metis storeIdentityKey_True)
  note opened = openForDevice_seal [OF assms(1-3) sealed assms(4)]
  have "fst (loadIdentityRecord L fresh' account userID db') = Inr (Some i)"
    using keep_identity_Some [OF n] opened ok
    by (simp add: loadIdentityRecord_def readRecord_def transact_def bind_io_def db' Let_def)
  with True keep_identity_Some [OF n] r show ?thesis by simp
next
  case False
  with assms(5) show ?thesis
    by (auto simp: storeIdentityKey_def updateRecord_unfold split: sum.splits option.splits if_splits)
qed

definition demo_identity :: held_identity where
  "demo_identity = \<lparr>publicKey = replicate 32 4, privateKey = replicate 32 4, deviceId = ''d''\<rparr>"

text \<open>Opening a store of a build before version 7 leaves no login secret in any vault record, and before version 6 no note,
  queued edit or upload sealed with the login key.\<close>

lemma upgrade_drops_login_secrets:
  assumes "oldVersion < 7"
  shows "(\<forall>r \<in> snd ` set (vault_keys (upgrade oldVersion db)). v_authSecret r = None) \<and>
    (oldVersion < 6 \<longrightarrow> cache (upgrade oldVersion db) = [] \<and> pending (upgrade oldVersion db) = [] \<and> uploads (upgrade oldVersion db) = [])"
  using assms by (auto simp: upgrade_def Let_def)

end
