(* ===== verification/Identity.thy ===== *)
theory Identity
  imports Vault Trace
begin

text \<open>
  The account's identity on this browser (\<open>web/src/identity.ts\<close>): opening the password copy, creating an
  identity at the first password sign-in, re-wrapping it at a password change, and creating or finishing a
  device-only identity for single sign-on. The server and the vault are arguments; what they are asked is
  noted in the log of the world. The lemmas: a device-only key is kept in the vault before the server learns
  it, every write to the vault is a compare-and-swap against a value this run read or kept itself, another key
  is replaced only on the user's choice while the server lists none, and a re-wrapped copy opens under the new
  password to the listed key.
\<close>

section \<open>Records and calls\<close>

definition DEVICE_ONLY_WRAP :: string where "DEVICE_ONLY_WRAP = ''none''"

record identity_record =
  ir_deviceId :: string
  ir_publicKey :: string
  ir_wrapAlg :: string
  ir_wrappedPrivateKey :: string

text \<open>\<open>fingerprint\<close> and \<open>recoverySetAt\<close> are only shown, never read by this code.\<close>

record live_identity = public_identity +
  li_wrapAlg :: "string option"
  li_recoveryId :: "string option"
  li_passwordCopy :: "string option"

record identity_upload =
  iu_publicKey :: string
  iu_wrapAlg :: string
  iu_wrappedPrivateKey :: string

record 'o identity_api =
  da_myIdentity :: "('o, live_identity option) io"
  da_putMyIdentity :: "identity_upload \<Rightarrow> ('o, string) io"
  da_stepUp :: "string \<Rightarrow> ('o, identity_record option) io"
  da_putDeviceOnlyIdentity :: "string \<Rightarrow> ('o, string) io"

text \<open>\<open>save\<close>: no expectation is \<^const>\<open>None\<close>, \<open>null\<close> is \<open>Some None\<close>.\<close>

record 'o identity_store =
  is_load :: "('o, held_identity option) io"
  is_save :: "held_identity \<Rightarrow> held_identity option option \<Rightarrow> ('o, bool) io"
  is_noteReset :: "(bytes \<Rightarrow> ('o, unit) io) option"

datatype id_event =
    IdLoaded "held_identity option"
  | IdSaving held_identity "held_identity option option"
  | IdKept held_identity
  | Listed "live_identity option"
  | SteppedUp "identity_record option"
  | Uploading identity_upload
  | Registering string

type_synonym 'o id_world = "('o, id_event) traced"

definition load_identity :: "'o identity_store \<Rightarrow> ('o id_world, held_identity option) io" where
  "load_identity store = noting (\<lambda>i. [IdLoaded i]) (call (is_load store))"

definition save_identity :: "'o identity_store \<Rightarrow> held_identity \<Rightarrow> held_identity option option \<Rightarrow> ('o id_world, bool) io" where
  "save_identity store i expected =
     bind_io (log_event (IdSaving i expected)) (\<lambda>_. noting (\<lambda>ok. if ok then [IdKept i] else []) (call (is_save store i expected)))"

definition my_identity :: "'o identity_api \<Rightarrow> ('o id_world, live_identity option) io" where
  "my_identity api = noting (\<lambda>l. [Listed l]) (call (da_myIdentity api))"

definition step_up :: "'o identity_api \<Rightarrow> string \<Rightarrow> ('o id_world, identity_record option) io" where
  "step_up api secret = noting (\<lambda>r. [SteppedUp r]) (call (da_stepUp api secret))"

section \<open>The password copy\<close>

definition with_device :: "identity \<Rightarrow> string \<Rightarrow> held_identity" where
  "with_device i d = \<lparr>publicKey = publicKey i, privateKey = privateKey i, deviceId = d\<rparr>"

definition openIdentity :: "lib \<Rightarrow> identity_record \<Rightarrow> bytes \<Rightarrow> string \<Rightarrow> held_identity result" where
  "openIdentity L r kek userID =
     (if ir_wrapAlg r \<noteq> IDENTITY_WRAP_ALG then Inl (Error ''unsupported identity wrap'')
      else
        rbind (fromBase64 (ir_wrappedPrivateKey r)) (\<lambda>wrapped.
        rbind (unwrapIdentity L kek wrapped userID) (\<lambda>i.
        rbind (fromBase64 (ir_publicKey r)) (\<lambda>pk.
          if \<not> sameBytes (publicKey i) pk then Inl (Error ''identity public key mismatch'')
          else Inr (with_device i (ir_deviceId r))))))"

datatype no_identity = AdminPassword | DeviceOnly
datatype ensured = NoIdentity no_identity | Ensured held_identity

definition unlock :: "lib \<Rightarrow> identity_record \<Rightarrow> login_keys \<Rightarrow> string \<Rightarrow> ensured result" where
  "unlock L r keys userID =
     (if ir_wrapAlg r = DEVICE_ONLY_WRAP then Inr (NoIdentity DeviceOnly)
      else rbind (openIdentity L r (userKEK keys) userID) (\<lambda>i. Inr (Ensured i)))"

definition make_upload :: "lib \<Rightarrow> bytes \<Rightarrow> identity \<Rightarrow> login_keys \<Rightarrow> string \<Rightarrow> identity_upload result" where
  "make_upload L nonce i keys userID =
     rbind (wrapIdentity L nonce (userKEK keys) (privateKey i) userID) (\<lambda>wrapped.
       Inr \<lparr>iu_publicKey = base64 (publicKey i), iu_wrapAlg = IDENTITY_WRAP_ALG, iu_wrappedPrivateKey = base64 wrapped\<rparr>)"

definition create_identity :: "lib \<Rightarrow> 'o identity_api \<Rightarrow> string \<Rightarrow> login_keys \<Rightarrow> ('o id_world, ensured) io" where
  "create_identity L api userID keys =
     bind_io (draw 32) (\<lambda>sk. bind_io (draw 12) (\<lambda>nonce.
       let i = generateIdentity L sk in
       bind_io (lift_result (make_upload L nonce i keys userID)) (\<lambda>upload.
         catch_io
           (bind_io (log_event (Uploading upload)) (\<lambda>_.
            bind_io (call (da_putMyIdentity api upload)) (\<lambda>d. ret (Ensured (with_device i d)))))
           (\<lambda>e.
             if err_code e = Some ''password_change_required'' then ret (NoIdentity AdminPassword)
             else bind_io (if err_code e = Some ''identity_exists'' then step_up api (authSecret keys) else ret None) (\<lambda>winner.
               case winner of None \<Rightarrow> throw e | Some r \<Rightarrow> lift_result (unlock L r keys userID))))))"

definition ensureIdentity ::
  "lib \<Rightarrow> 'o identity_api \<Rightarrow> string \<Rightarrow> login_keys \<Rightarrow> identity_record option \<Rightarrow> ('o id_world, ensured) io" where
  "ensureIdentity L api userID keys fromLogin =
     (case fromLogin of
        Some r \<Rightarrow> lift_result (unlock L r keys userID)
      | None \<Rightarrow> bind_io (step_up api (authSecret keys)) (\<lambda>existing.
          case existing of
            Some r \<Rightarrow> lift_result (unlock L r keys userID)
          | None \<Rightarrow> create_identity L api userID keys))"

section \<open>The password change\<close>

definition lists_key :: "'a live_identity_scheme \<Rightarrow> held_identity \<Rightarrow> bool result" where
  "lists_key live i = rbind (fromBase64 (idn_key live)) (\<lambda>pk. Inr (sameBytes (publicKey i) pk))"

text \<open>\<open>rewrapIdentity\<close>'s own \<open>holdsLive\<close> also compares the device.\<close>

definition holds_device :: "live_identity \<Rightarrow> held_identity option \<Rightarrow> held_identity option result" where
  "holds_device live held =
     (case held of
        None \<Rightarrow> Inr None
      | Some i \<Rightarrow> if deviceId i \<noteq> idn_device live then Inr None
                 else rbind (lists_key live i) (\<lambda>yes. Inr (if yes then Some i else None)))"

record rewrapped =
  rw_identity :: held_identity
  rw_deviceId :: string
  rw_wrappedKey :: string

definition DAMAGED :: string where
  "DAMAGED = ''This browser'' @ [CHR 0x27] @ ''s copy of your key is damaged. Use Forget this device, then sign in again.''"

definition rewrap_copy :: "lib \<Rightarrow> live_identity \<Rightarrow> string \<Rightarrow> login_keys \<Rightarrow> held_identity \<Rightarrow> ('o id_world, rewrapped option) io" where
  "rewrap_copy L live userID next i =
     bind_io (draw 12) (\<lambda>nonce.
     bind_io (lift_result (wrapIdentity L nonce (userKEK next) (privateKey i) userID)) (\<lambda>wrapped.
     bind_io (lift_result (rbind (unwrapIdentity L (userKEK next) wrapped userID) (\<lambda>again.
       rbind (fromBase64 (idn_key live)) (\<lambda>pk. Inr (sameBytes (publicKey again) pk))))) (\<lambda>fits.
       if \<not> fits then throw (Error DAMAGED)
       else ret (Some \<lparr>rw_identity = i, rw_deviceId = deviceId i, rw_wrappedKey = base64 wrapped\<rparr>))))"

definition rewrapIdentity ::
  "lib \<Rightarrow> 'o identity_api \<Rightarrow> string \<Rightarrow> login_keys \<Rightarrow> login_keys \<Rightarrow> held_identity option \<Rightarrow> ('o id_world, rewrapped option) io" where
  "rewrapIdentity L api userID current next cached =
     bind_io (my_identity api) (\<lambda>listed.
       case listed of
         None \<Rightarrow> ret None
       | Some live \<Rightarrow>
           if li_wrapAlg live = Some DEVICE_ONLY_WRAP then
             (if li_passwordCopy live \<noteq> Some ''addable'' then ret None
              else bind_io (lift_result (holds_device live cached)) (\<lambda>held.
                case held of None \<Rightarrow> ret None | Some i \<Rightarrow> rewrap_copy L live userID next i))
           else bind_io (step_up api (authSecret current)) (\<lambda>r.
             bind_io (lift_result (case r of
                 Some copy \<Rightarrow> rbind (openIdentity L copy (userKEK current) userID) (\<lambda>i. Inr (Some i))
               | None \<Rightarrow> holds_device live cached)) (\<lambda>held.
               case held of
                 None \<Rightarrow> throw (Error ''Sign in with your password on this device before changing it'')
               | Some i \<Rightarrow> rewrap_copy L live userID next i)))"

section \<open>Single sign-on\<close>

datatype sso_settled = SHeld held_identity | SLink | SOrphaned | SUnsaved

definition holdsLive :: "held_identity option \<Rightarrow> 'a live_identity_scheme \<Rightarrow> bool result" where
  "holdsLive local live = (case local of None \<Rightarrow> Inr False | Some i \<Rightarrow> lists_key live i)"

definition finish_identity :: "'o identity_store \<Rightarrow> held_identity \<Rightarrow> string \<Rightarrow> ('o id_world, sso_settled) io" where
  "finish_identity store local d =
     (let i = local\<lparr>deviceId := d\<rparr> in
      bind_io (if deviceId local = d then ret True else save_identity store i (Some (Some local))) (\<lambda>kept.
        if kept then ret (SHeld i)
        else bind_io (load_identity store) (\<lambda>now.
          ret (case now of
             Some n \<Rightarrow> if deviceId n = d \<and> sameBytes (publicKey n) (publicKey local) then SHeld n else SUnsaved
           | None \<Rightarrow> SUnsaved))))"

text \<open>\<open>retried\<close> is \<open>left = 0\<close>: one more run is allowed, never more.\<close>

definition register_taken ::
  "'o identity_api \<Rightarrow> 'o identity_store \<Rightarrow> ('o id_world, sso_settled) io option \<Rightarrow> held_identity \<Rightarrow> js_error \<Rightarrow> ('o id_world, sso_settled) io" where
  "register_taken api store again waiting e =
     (if err_code e \<noteq> Some ''identity_exists'' then throw e
      else bind_io (my_identity api) (\<lambda>now.
        bind_io (lift_result (case now of None \<Rightarrow> Inr False | Some l \<Rightarrow> holdsLive (Some waiting) l)) (\<lambda>ours.
          if ours then finish_identity store waiting (idn_device (the now))
          else case again of Some m \<Rightarrow> m | None \<Rightarrow> throw e)))"

definition register_pending ::
  "'o identity_api \<Rightarrow> 'o identity_store \<Rightarrow> ('o id_world, sso_settled) io option \<Rightarrow> held_identity \<Rightarrow> ('o id_world, sso_settled) io" where
  "register_pending api store again waiting =
     catch_io
       (bind_io (log_event (Registering (base64 (publicKey waiting)))) (\<lambda>_.
        bind_io (call (da_putDeviceOnlyIdentity api (base64 (publicKey waiting)))) (\<lambda>d. finish_identity store waiting d)))
       (register_taken api store again waiting)"

definition settle_listed :: "'o identity_store \<Rightarrow> held_identity option \<Rightarrow> live_identity \<Rightarrow> ('o id_world, sso_settled) io" where
  "settle_listed store local live =
     bind_io (lift_result (holdsLive local live)) (\<lambda>ours.
     bind_io (if ours then ret local else load_identity store) (\<lambda>local'.
     bind_io (lift_result (holdsLive local' live)) (\<lambda>ours'.
       case local' of Some i \<Rightarrow> (if ours' then finish_identity store i (idn_device live) else ret SLink) | None \<Rightarrow> ret SLink)))"

fun settleSSOIdentity :: "lib \<Rightarrow> 'o identity_api \<Rightarrow> 'o identity_store \<Rightarrow> bool \<Rightarrow> nat \<Rightarrow> ('o id_world, sso_settled) io" where
  "settleSSOIdentity L api store replace left =
     bind_io (load_identity store) (\<lambda>local.
     bind_io (my_identity api) (\<lambda>live.
       let again = (case left of 0 \<Rightarrow> None | Suc n \<Rightarrow> Some (settleSSOIdentity L api store False n)) in
       case live of
         Some l \<Rightarrow> settle_listed store local l
       | None \<Rightarrow>
           (case local of
              Some i \<Rightarrow>
                if deviceId i = [] then register_pending api store again i
                else if \<not> replace then ret SOrphaned
                else bind_io (draw 32) (\<lambda>sk.
                  let waiting = with_device (generateIdentity L sk) [] in
                  bind_io (save_identity store waiting (Some (Some i))) (\<lambda>ok.
                    if ok then register_pending api store again waiting
                    else case again of None \<Rightarrow> ret SUnsaved | Some m \<Rightarrow> m))
            | None \<Rightarrow>
                bind_io (draw 32) (\<lambda>sk.
                  let waiting = with_device (generateIdentity L sk) [] in
                  bind_io (save_identity store waiting (Some None)) (\<lambda>ok.
                    if ok then register_pending api store again waiting
                    else case again of None \<Rightarrow> ret SUnsaved | Some m \<Rightarrow> m)))))"

declare settleSSOIdentity.simps [simp del]

definition settlePasswordIdentity ::
  "lib \<Rightarrow> 'o identity_api \<Rightarrow> 'o identity_store \<Rightarrow> string \<Rightarrow> login_keys \<Rightarrow> identity_record option \<Rightarrow> ('o id_world, no_identity + bool) io" where
  "settlePasswordIdentity L api store userID keys fromLogin =
     bind_io (load_identity store) (\<lambda>before.
     bind_io (ensureIdentity L api userID keys fromLogin) (\<lambda>found.
       case found of
         NoIdentity why \<Rightarrow> ret (Inl why)
       | Ensured i \<Rightarrow> bind_io (save_identity store i (Some before)) (\<lambda>ok. ret (Inr ok))))"

section \<open>What the account and this browser hold\<close>

definition unfinishedReset :: "held_identity option \<Rightarrow> live_identity option \<Rightarrow> bytes option \<Rightarrow> bool result" where
  "unfinishedReset local live sent =
     (case (local, live, sent) of
        (Some i, Some l, Some k) \<Rightarrow> rbind (fromBase64 (idn_key l)) (\<lambda>pk. Inr (sameBytes k pk \<and> \<not> sameBytes (publicKey i) k))
      | _ \<Rightarrow> Inr False)"

definition recoverable :: "live_identity option \<Rightarrow> bool" where
  "recoverable live =
     (case live of None \<Rightarrow> False
      | Some l \<Rightarrow> li_wrapAlg l = Some IDENTITY_WRAP_ALG \<or> (li_recoveryId l \<noteq> None \<and> li_recoveryId l \<noteq> Some []))"

datatype identity_status = IHeld | ILink | ICreate | IOrphaned

definition identityStatus :: "held_identity option \<Rightarrow> live_identity option \<Rightarrow> identity_status result" where
  "identityStatus local live =
     (case live of
        None \<Rightarrow> Inr (case local of None \<Rightarrow> ICreate | Some i \<Rightarrow> if deviceId i \<noteq> [] then IOrphaned else ICreate)
      | Some l \<Rightarrow>
          (case local of
             None \<Rightarrow> Inr ILink
           | Some i \<Rightarrow> rbind (lists_key l i) (\<lambda>same.
               Inr (if \<not> same then ILink else if deviceId i = idn_device l then IHeld else ICreate))))"

datatype seen_live = Unreachable | Seen "live_identity option"

definition currentCopy :: "held_identity option \<Rightarrow> seen_live \<Rightarrow> held_identity option result" where
  "currentCopy local live =
     (case local of
        None \<Rightarrow> Inr None
      | Some i \<Rightarrow>
          if deviceId i = [] then Inr None
          else case live of
            Unreachable \<Rightarrow> Inr (Some i)
          | Seen l \<Rightarrow> rbind (identityStatus (Some i) l) (\<lambda>s. Inr (if s = IHeld then Some i else None)))"

section \<open>The single sign-on run\<close>

text \<open>A value of the vault this run has read or kept.\<close>

definition known_copy :: "id_event list \<Rightarrow> held_identity \<Rightarrow> bool" where
  "known_copy es i \<longleftrightarrow> IdLoaded (Some i) \<in> set es \<or> IdKept i \<in> set es"

fun sso_allowed :: "bool \<Rightarrow> id_event list \<Rightarrow> id_event \<Rightarrow> bool" where
  "sso_allowed replace es (Registering pk) \<longleftrightarrow> (\<exists>i. pk = base64 (publicKey i) \<and> deviceId i = [] \<and> known_copy es i)"
| "sso_allowed replace es (IdSaving i (Some None)) \<longleftrightarrow> IdLoaded None \<in> set es"
| "sso_allowed replace es (IdSaving i (Some (Some j))) \<longleftrightarrow>
     known_copy es j \<and> (publicKey i = publicKey j \<or> replace \<and> deviceId j \<noteq> [] \<and> Listed None \<in> set es)"
| "sso_allowed replace es (IdSaving i None) \<longleftrightarrow> False"
| "sso_allowed replace es _ \<longleftrightarrow> True"

abbreviation sso_safe :: "bool \<Rightarrow> 'o id_world \<Rightarrow> bool" where
  "sso_safe rep w \<equiv> every_event (sso_allowed rep) (t_log w)"

lemma known_copy_simps [simp]:
  "known_copy (es @ fs) i \<longleftrightarrow> known_copy es i \<or> known_copy fs i"
  "known_copy (e # es) i \<longleftrightarrow> e = IdLoaded (Some i) \<or> e = IdKept i \<or> known_copy es i"
  "\<not> known_copy [] i"
  by (auto simp: known_copy_def)

lemmas id_calls = load_identity_def save_identity_def my_identity_def step_up_def

abbreviation sso_at :: "bool \<Rightarrow> held_identity \<Rightarrow> 'o id_world \<Rightarrow> bool" where
  "sso_at rep i w \<equiv> sso_safe rep w \<and> known_copy (t_log w) i"

lemma finish_identity_safe:
  "sso_at rep i w \<Longrightarrow> wp (finish_identity store i d) (\<lambda>_. sso_at rep i) (\<lambda>_. sso_at rep i) w"
  by (auto simp: finish_identity_def id_calls wps Let_def split: sum.split)

abbreviation again_safe :: "bool \<Rightarrow> ('o id_world, sso_settled) io option \<Rightarrow> bool" where
  "again_safe rep again \<equiv> (\<forall>m w. again = Some m \<longrightarrow> sso_safe rep w \<longrightarrow> wp m (\<lambda>_. sso_safe rep) (\<lambda>_. sso_safe rep) w)"

lemma register_taken_safe:
  assumes "sso_at rep i w" "again_safe rep again"
  shows "wp (register_taken api store again i e) (\<lambda>_. sso_safe rep) (\<lambda>_. sso_safe rep) w"
proof -
  have finish: "sso_at rep i v \<Longrightarrow> wp (finish_identity store i d) (\<lambda>_. sso_safe rep) (\<lambda>_. sso_safe rep) v" for v d
    by (rule wp_mono [OF finish_identity_safe]) auto
  from assms show ?thesis
    by (auto simp: register_taken_def id_calls wps finish split: sum.split option.split)
qed

lemma register_pending_safe:
  assumes "sso_at rep i w" "deviceId i = []" "again_safe rep again"
  shows "wp (register_pending api store again i) (\<lambda>_. sso_safe rep) (\<lambda>_. sso_safe rep) w"
proof -
  have finish: "wp (finish_identity store i d) (\<lambda>_. sso_safe rep) (\<lambda>e. wp (register_taken api store again i e) (\<lambda>_. sso_safe rep) (\<lambda>_. sso_safe rep)) v"
    if "sso_at rep i v" for v d
    by (rule wp_mono [OF finish_identity_safe [OF that]]) (auto intro: register_taken_safe [OF _ assms(3)])
  from assms(1,2) show ?thesis
    unfolding register_pending_def by (auto simp: wps intro!: finish register_taken_safe [OF _ assms(3)] split: sum.split)
qed

lemma settle_listed_safe:
  assumes "sso_safe rep w" "\<And>i. local = Some i \<Longrightarrow> known_copy (t_log w) i"
  shows "wp (settle_listed store local live) (\<lambda>_. sso_safe rep) (\<lambda>_. sso_safe rep) w"
proof -
  have finish: "sso_at rep i v \<Longrightarrow> wp (finish_identity store i d) (\<lambda>_. sso_safe rep) (\<lambda>_. sso_safe rep) v" for i v d
    by (rule wp_mono [OF finish_identity_safe]) auto
  from assms show ?thesis
    by (auto simp: settle_listed_def id_calls wps finish split: sum.split option.split)
qed

lemma settleSSO_safe:
  "sso_safe rep w \<Longrightarrow> (replace \<longrightarrow> rep) \<Longrightarrow> wp (settleSSOIdentity L api store replace left) (\<lambda>_. sso_safe rep) (\<lambda>_. sso_safe rep) w"
proof (induction left arbitrary: rep replace w)
  case 0
  then show ?case
    by (subst settleSSOIdentity.simps)
      (auto simp: id_calls wps Let_def settle_listed_safe register_pending_safe with_device_def split: sum.split option.split)
next
  case (Suc n)
  have again: "again_safe r (Some (settleSSOIdentity L api store False n))" for r by (simp add: Suc.IH)
  from Suc.prems show ?case
    by (subst settleSSOIdentity.simps)
      (auto simp: id_calls wps Let_def settle_listed_safe register_pending_safe [OF _ _ again] Suc.IH with_device_def split: sum.split option.split)
qed

section \<open>Password copies\<close>

lemma unwrap_public: "unwrapIdentity L kek wrapped userID = Inr i \<Longrightarrow> publicKey i = x25519_public L (privateKey i)"
  by (auto simp: unwrapIdentity_def rbind_eq_Inr generateIdentity_def split: if_splits option.splits)

text \<open>A copy that opens under the new password's key to the key the server listed.\<close>

definition rewrap_good :: "lib \<Rightarrow> string \<Rightarrow> login_keys \<Rightarrow> id_event list \<Rightarrow> rewrapped option \<Rightarrow> bool" where
  "rewrap_good L userID next es r \<longleftrightarrow> (\<forall>rw. r = Some rw \<longrightarrow> (\<exists>live wrapped again. Listed (Some live) \<in> set es \<and> rw_wrappedKey rw = base64 wrapped \<and>
     unwrapIdentity L (userKEK next) wrapped userID = Inr again \<and> fromBase64 (idn_key live) = Inr (publicKey again) \<and> rw_deviceId rw = deviceId (rw_identity rw)))"

lemma rewrap_good_None [simp]: "rewrap_good L userID next es None"
  by (simp add: rewrap_good_def)

lemma rewrap_copy_good:
  "Listed (Some live) \<in> set (t_log w) \<Longrightarrow>
     wp (rewrap_copy L live userID next i) (\<lambda>r w. rewrap_good L userID next (t_log w) r) (\<lambda>_ _. True) w"
  by (auto simp: rewrap_copy_def wps rbind_eq_Inr rewrap_good_def split: sum.split)

lemma rewrapIdentity_good:
  "wp (rewrapIdentity L api userID current next cached) (\<lambda>r w. rewrap_good L userID next (t_log w) r) (\<lambda>_ _. True) w"
  by (auto simp: rewrapIdentity_def id_calls wps rewrap_copy_good split: sum.split option.split)

lemma currentCopy_held:
  "currentCopy local (Seen live) = Inr (Some i) \<Longrightarrow>
     local = Some i \<and> deviceId i \<noteq> [] \<and> (\<exists>l. live = Some l \<and> idn_device l = deviceId i \<and> fromBase64 (idn_key l) = Inr (publicKey i))"
  by (auto simp: currentCopy_def identityStatus_def lists_key_def rbind_eq_Inr split: option.splits if_splits)

section \<open>Properties\<close>

text \<open>C24: creating or finishing a device-only identity, whatever the server answers and other tabs do: the server learns a key only
  after this browser's vault held it, pending; every write to the vault is a compare-and-swap against a value this run
  read or kept; and a different key is replaced only on the user's explicit choice while the server lists no identity.\<close>

theorem sso_identity_safe:
  assumes "t_log w = []" "settleSSOIdentity L api store replace left w = (r, w')" "t_log w' = xs @ e # ys"
  shows "sso_allowed replace xs e"
proof -
  have "wp (settleSSOIdentity L api store replace left) (\<lambda>_. sso_safe replace) (\<lambda>_. sso_safe replace) w"
    by (rule settleSSO_safe) (simp_all add: assms(1))
  from wp_run [OF this assms(2)] show ?thesis using assms(3) by (rule every_eventD)
qed

definition demo_store :: "unit identity_store" where
  "demo_store = \<lparr>is_load = (\<lambda>w. (Inr None, w)), is_save = (\<lambda>_ _ w. (Inr True, w)), is_noteReset = None\<rparr>"

definition demo_id_api :: "unit identity_api" where
  "demo_id_api = \<lparr>da_myIdentity = (\<lambda>w. (Inr None, w)), da_putMyIdentity = (\<lambda>_ w. (Inr ''d'', w)), da_stepUp = (\<lambda>_ w. (Inr None, w)),
     da_putDeviceOnlyIdentity = (\<lambda>_ w. (Inr ''d'', w))\<rparr>"

definition demo_id_world :: "unit id_world" where
  "demo_id_world = \<lparr>t_outside = (), t_random = (\<lambda>_. 7), t_drawn = 0, t_log = []\<rparr>"

lemma demo_sso_log:
  "\<exists>k. t_log (snd (settleSSOIdentity L demo_id_api demo_store False 1 demo_id_world)) =
    [IdLoaded None, Listed None, IdSaving (with_device k []) (Some None), IdKept (with_device k [])] @ Registering (base64 (publicKey k)) #
    [IdSaving (with_device k ''d'') (Some (Some (with_device k []))), IdKept (with_device k ''d'')]"
  by (rule exI [of _ "generateIdentity L (map (t_random demo_id_world) [0..<32])"])
    (subst settleSSOIdentity.simps, simp add: id_calls register_pending_def finish_identity_def noting_def call_def log_event_def bind_io_def
      catch_io_def draw_def demo_id_api_def demo_store_def demo_id_world_def with_device_def Let_def)

theorem sso_identity_safe_witness:
  "\<exists>xs pk ys i. t_log (snd (settleSSOIdentity demo_lib demo_id_api demo_store False 1 demo_id_world)) = xs @ Registering pk # ys \<and>
     known_copy xs i \<and> pk = base64 (publicKey i)"
proof -
  have "t_log demo_id_world = []" by (simp add: demo_id_world_def)
  moreover obtain xs pk ys where log: "t_log (snd (settleSSOIdentity demo_lib demo_id_api demo_store False 1 demo_id_world)) = xs @ Registering pk # ys"
    using demo_sso_log by blast
  ultimately have "sso_allowed False xs (Registering pk)"
    using sso_identity_safe [OF _ prod.collapse [symmetric]] by blast
  with log show ?thesis by auto
qed

text \<open>A password change re-wraps this account's key: when it sends a copy, that copy opens under the new password's key, and only for
  this user, to the public key the server lists, and it is bound to the device of the copy it was made from.\<close>

lemma rewrap_opens_to_listed:
  assumes "gcm_exact L" "gcm_overhead L" "rewrapIdentity L api userID current next cached w = (Inr (Some rw), w')"
  shows "\<exists>live wrapped again nonce. Listed (Some live) \<in> set (t_log w') \<and> rw_wrappedKey rw = base64 wrapped \<and>
    unwrapIdentity L (userKEK next) wrapped userID = Inr again \<and> fromBase64 (idn_key live) = Inr (publicKey again) \<and>
    sealIdentity L (userKEK next) (privateKey again) userID nonce = Inr wrapped \<and> rw_deviceId rw = deviceId (rw_identity rw)"
proof -
  from wpD(1) [OF rewrapIdentity_good assms(3)] obtain live wrapped again where r: "Listed (Some live) \<in> set (t_log w')" "rw_wrappedKey rw = base64 wrapped"
    "unwrapIdentity L (userKEK next) wrapped userID = Inr again" "fromBase64 (idn_key live) = Inr (publicKey again)" "rw_deviceId rw = deviceId (rw_identity rw)"
    unfolding rewrap_good_def by blast
  with unwrapIdentity_exact [OF assms(1,2) r(3)] show ?thesis by blast
qed

definition demo_held :: held_identity where
  "demo_held = with_device (generateIdentity demo_lib (replicate 32 3)) ''d''"

definition demo_live :: live_identity where
  "demo_live = \<lparr>idn_device = ''d'', idn_key = base64 (publicKey demo_held), li_wrapAlg = Some DEVICE_ONLY_WRAP, li_recoveryId = None,
     li_passwordCopy = Some ''addable''\<rparr>"

lemma demo_rewrap:
  "\<exists>rw w'. rewrapIdentity demo_lib (demo_id_api\<lparr>da_myIdentity := \<lambda>w. (Inr (Some demo_live), w)\<rparr>) (demo_usr (CHR ''1''))
     \<lparr>authSecret = [], userKEK = replicate 32 1\<rparr> \<lparr>authSecret = [], userKEK = replicate 32 2\<rparr> (Some demo_held) demo_id_world = (Inr (Some rw), w')"
proof -
  have "prefixed_id ''usr'' (demo_usr (CHR ''1''))" by (simp add: demo_ids crockford_def)
  then obtain w where w: "sealIdentity demo_lib (replicate 32 2) (replicate 32 3) (demo_usr (CHR ''1'')) (replicate 12 7) = Inr w"
    by (simp add: sealIdentity_def identityAAD_def idBytes_def)
  then have "unwrapIdentity demo_lib (replicate 32 2) w (demo_usr (CHR ''1'')) = Inr (generateIdentity demo_lib (replicate 32 3))"
    by (rule unwrapIdentity_sealIdentity(2) [OF demo_lib_laws(1,3)])
  moreover have "map (\<lambda>_. 7 :: byte) [0..<12] = replicate 12 7" by (simp add: numeral_eq_Suc)
  ultimately show ?thesis using w
    by (simp add: rewrapIdentity_def id_calls noting_def call_def bind_io_def demo_live_def holds_device_def demo_held_def with_device_def lists_key_def
        rewrap_copy_def draw_def demo_id_world_def wrapIdentity_def generateIdentity_def del: upt.simps)
qed

end
