(* ===== verification/Session.thy ===== *)
theory Session
  imports Identity
begin

text \<open>
  Signing in and what surrounds it: the first-run and password forms (\<open>web/src/setup.ts\<close>, \<open>passwordChange.ts\<close>), the
  iteration floor this browser remembers per account and the upgrade of an older account
  (\<open>web/src/loginUpgrade.ts\<close>), proving the password again (\<open>web/src/stepup.ts\<close>), the gate for
  notebook loads (\<open>web/src/loadGate.ts\<close>) and invitation links (\<open>web/src/invitations.ts\<close>). The properties: once an
  account is pinned no secret is derived for it at fewer iterations, whatever the server asks for; an upgrade
  leaves the identity openable under the new keys; a pending invitation is always a well-formed link.
\<close>

section \<open>Forms\<close>

definition normal :: "string \<Rightarrow> string" where
  "normal user = js_lower (js_trim user)"

record setup_form =
  sf_admin :: string
  sf_adminPassword :: string
  sf_adminConfirm :: string
  sf_everyday :: string
  sf_everydayPassword :: string
  sf_everydayConfirm :: string

definition setupProblem :: "setup_form \<Rightarrow> string option" where
  "setupProblem f =
     (let admin = js_lower (js_trim (sf_admin f)); everyday = js_lower (js_trim (sf_everyday f)) in
      if admin = [] \<or> everyday = [] then Some ''Both usernames are required.''
      else if admin = everyday then Some ''Use a different user for each account.''
      else if sf_adminPassword f \<noteq> sf_adminConfirm f \<or> sf_everydayPassword f \<noteq> sf_everydayConfirm f then Some ''Passwords do not match.''
      else if length (sf_adminPassword f) < 8 \<or> length (sf_everydayPassword f) < 8 then Some ''Passwords must be at least 8 characters.''
      else if sf_adminPassword f = sf_everydayPassword f then Some ''Use a different password for each account.''
      else None)"

definition passwordChangeProblem :: "string \<Rightarrow> string \<Rightarrow> string option" where
  "passwordChangeProblem new confirmation =
     (if new = [] \<or> new \<noteq> confirmation then Some ''New passwords do not match.'' else None)"

text \<open>A form that may be sent makes two accounts that the server's normalised names and the passwords both tell apart.\<close>

lemma setup_accounts_differ:
  "setupProblem f = None \<longleftrightarrow>
     normal (sf_admin f) \<noteq> [] \<and> normal (sf_everyday f) \<noteq> [] \<and> normal (sf_admin f) \<noteq> normal (sf_everyday f) \<and>
     sf_adminConfirm f = sf_adminPassword f \<and> sf_everydayConfirm f = sf_everydayPassword f \<and>
     8 \<le> length (sf_adminPassword f) \<and> 8 \<le> length (sf_everydayPassword f) \<and> sf_adminPassword f \<noteq> sf_everydayPassword f"
  by (auto simp: setupProblem_def normal_def Let_def)

section \<open>Iteration floors\<close>

text \<open>\<open>localStorage\<close>, or what a browser that refuses it gives: reading then throws, and a write may be refused at any time.\<close>

record login_store =
  ps_readable :: bool
  ps_item :: "string option"

definition pinned :: "login_store \<Rightarrow> string list" where
  "pinned s =
     (if \<not> ps_readable s then []
      else case parse (case ps_item s of None \<Rightarrow> ''[]'' | Some t \<Rightarrow> t) of
        Inr (JArr xs) \<Rightarrow> List.map_filter (\<lambda>v. str_of (Some v)) xs
      | _ \<Rightarrow> [])"

definition loginFloor :: "login_store \<Rightarrow> string \<Rightarrow> int" where
  "loginFloor s user = (if normal user \<in> set (pinned s) then LOGIN_ITERATIONS else LEGACY_LOGIN_ITERATIONS)"

text \<open>The first component of the argument says whether the browser accepts the write.\<close>

definition pinLogin :: "bool \<times> string \<Rightarrow> login_store \<Rightarrow> login_store" where
  "pinLogin attempt s =
     (let (accepted, user) = attempt; list = pinned s in
      if normal user \<in> set list then s
      else if accepted then s\<lparr>ps_item := Some (stringify (JArr (map JStr (list @ [normal user]))))\<rparr>
      else s)"

lemma map_filter_strings [simp]: "List.map_filter (\<lambda>v. str_of (Some v)) (map JStr xs) = xs"
  by (induction xs) (simp_all add: List.map_filter_simps)

lemma wf_strings [simp]: "wf_json (JArr (map JStr xs))"
  by (simp add: list_all_iff)

lemma pinned_after:
  "ps_readable s \<Longrightarrow> pinned (s\<lparr>ps_item := Some (stringify (JArr (map JStr xs)))\<rparr>) = xs"
  by (simp add: pinned_def del: wf_json.simps stringify.simps map_map)

definition pins_le :: "login_store \<Rightarrow> login_store \<Rightarrow> bool" where
  "pins_le s t \<longleftrightarrow> ps_readable t = ps_readable s \<and> set (pinned s) \<subseteq> set (pinned t)"

lemma pinLogin_up: "pins_le s (pinLogin c s)"
proof (cases "ps_readable s")
  case True
  then show ?thesis
    by (auto simp: pins_le_def pinLogin_def Let_def pinned_after split: prod.split simp del: map_append stringify.simps)
next
  case False
  then show ?thesis by (auto simp: pins_le_def pinLogin_def pinned_def Let_def split: prod.split)
qed

interpretation login_pins: rising pins_le pinLogin
proof unfold_locales
  show "pins_le s s" for s by (simp add: pins_le_def)
  show "pins_le s u" if "pins_le s t" "pins_le t u" for s t u using that by (auto simp: pins_le_def)
  show "pins_le s (pinLogin c s)" for s c by (rule pinLogin_up)
qed

lemma pinLogin_pins: "ps_readable s \<Longrightarrow> normal user \<in> set (pinned (pinLogin (True, user) s))"
  by (auto simp: pinLogin_def Let_def pinned_after simp del: map_append stringify.simps)

lemma floor_stays:
  assumes "ps_readable s" "normal other = normal user"
  shows "loginFloor (fold pinLogin later (pinLogin (True, user) s)) other = LOGIN_ITERATIONS"
  using pinLogin_pins [OF assms(1), of user] login_pins.fold_up [of "pinLogin (True, user) s" later] assms(2)
  by (auto simp: loginFloor_def pins_le_def)

section \<open>Proving the password again\<close>

record login_upgrade =
  lu_currentAuthSecret :: string
  lu_newAuthSecret :: string
  lu_newLoginSalt :: string
  lu_iterations :: int
  lu_rewrap :: "(string \<times> string) option"

datatype session_event =
    Proving string string
  | Upgrading login_upgrade

type_synonym 'o session_world = "('o, session_event) traced"

text \<open>\<open>loginParams\<close> and \<open>stepUp\<close> are requests to the server, which may answer anything.\<close>

record 'o session_api =
  sa_loginParams :: "string \<Rightarrow> ('o, string \<times> int) io"
  sa_stepUp :: "string \<Rightarrow> ('o, unit) io"

definition stepUpWithPassword ::
  "lib \<Rightarrow> 'o session_api \<Rightarrow> login_store \<Rightarrow> string \<Rightarrow> string \<Rightarrow> ('o session_world, string) io" where
  "stepUpWithPassword L api s user password =
     bind_io (call (sa_loginParams api user)) (\<lambda>(loginSalt, iterations).
     bind_io (lift_result (deriveAuthSecret L password loginSalt iterations (loginFloor s user))) (\<lambda>secret.
     bind_io (log_event (Proving user secret)) (\<lambda>_.
     bind_io (call (sa_stepUp api secret)) (\<lambda>_. ret secret))))"

definition isStepUpRequired :: "js_error \<Rightarrow> bool" where
  "isStepUpRequired e = (err_code e = Some ''step_up_required'')"

definition withStepUp :: "string \<Rightarrow> ('w, 'a) io \<Rightarrow> (string \<Rightarrow> ('w, 'b) io) \<Rightarrow> ('w, 'a) io" where
  "withStepUp user action ask =
     catch_io action (\<lambda>error.
       if \<not> isStepUpRequired error then throw error
       else bind_io (ask user) (\<lambda>_. action))"

section \<open>Upgrading an older account\<close>

definition rewrap_for ::
  "lib \<Rightarrow> string \<Rightarrow> login_keys \<Rightarrow> login_keys \<Rightarrow> identity_record option \<Rightarrow> ('o session_world, (string \<times> string) option) io" where
  "rewrap_for L userID current keys identity =
     (case identity of
        Some r \<Rightarrow>
          if ir_wrapAlg r = IDENTITY_WRAP_ALG then
            bind_io (lift_result (openIdentity L r (userKEK current) userID)) (\<lambda>held.
            bind_io (draw 12) (\<lambda>nonce.
            bind_io (lift_result (wrapIdentity L nonce (userKEK keys) (privateKey held) userID)) (\<lambda>wrapped.
              ret (Some (deviceId held, base64 wrapped)))))
          else ret None
      | None \<Rightarrow> ret None)"

definition upgraded_identity :: "identity_record option \<Rightarrow> (string \<times> string) option \<Rightarrow> identity_record option" where
  "upgraded_identity identity rewrap =
     (case (identity, rewrap) of
        (Some r, Some (_, wrapped)) \<Rightarrow> Some (r\<lparr>ir_wrappedPrivateKey := wrapped\<rparr>)
      | _ \<Rightarrow> identity)"

definition upgradeLogin ::
  "lib \<Rightarrow> (login_upgrade \<Rightarrow> ('o, unit) io) \<Rightarrow> string \<Rightarrow> string \<Rightarrow> login_keys \<Rightarrow> identity_record option \<Rightarrow>
     ('o session_world, login_keys \<times> identity_record option) io" where
  "upgradeLogin L send userID password current identity =
     bind_io (draw 16) (\<lambda>random.
     bind_io (lift_result (randomLoginSalt L random)) (\<lambda>newLoginSalt.
     bind_io (lift_result (deriveLoginKeys L password newLoginSalt LOGIN_ITERATIONS LOGIN_ITERATIONS)) (\<lambda>keys.
     bind_io (rewrap_for L userID current keys identity) (\<lambda>rewrap.
       let input = \<lparr>lu_currentAuthSecret = authSecret current, lu_newAuthSecret = authSecret keys, lu_newLoginSalt = newLoginSalt,
         lu_iterations = LOGIN_ITERATIONS, lu_rewrap = rewrap\<rparr> in
       bind_io (log_event (Upgrading input)) (\<lambda>_.
       bind_io (call (send input)) (\<lambda>_. ret (keys, upgraded_identity identity rewrap)))))))"

section \<open>Properties of signing in\<close>

lemma derived_above_floor:
  "deriveAuthSecret L password salt iterations floor = Inr secret \<Longrightarrow> floor \<le> iterations"
  by (auto simp: deriveAuthSecret_def deriveLoginKeys_def rbind_eq_Inr split: if_splits)

lemma step_up_secret:
  "wp (stepUpWithPassword L api s user password)
     (\<lambda>_ w'. \<exists>salt n secret. t_log w' = t_log w @ [Proving user secret] \<and> loginFloor s user \<le> n \<and>
        deriveAuthSecret L password salt n (loginFloor s user) = Inr secret)
     (\<lambda>_ w'. t_log w' = t_log w \<or> (\<exists>salt n secret. t_log w' = t_log w @ [Proving user secret] \<and> loginFloor s user \<le> n \<and>
        deriveAuthSecret L password salt n (loginFloor s user) = Inr secret)) w"
  by (auto simp: stepUpWithPassword_def wps dest: derived_above_floor split: sum.split)

text \<open>C21: once this browser has pinned an account, and whatever names it pins afterwards, a step-up for any spelling of that account sends the
  server at most one secret, and only one derived from the typed password with at least \<open>LOGIN_ITERATIONS\<close> iterations: a server that
  answers with fewer gets nothing.\<close>

theorem pinned_account_floor:
  assumes "ps_readable s" "normal other = normal user"
    and "stepUpWithPassword L api (fold pinLogin later (pinLogin (True, user) s)) other password w = (r, w')"
  shows "t_log w' = t_log w \<and> (\<exists>e. r = Inl e) \<or>
    (\<exists>salt n secret. t_log w' = t_log w @ [Proving other secret] \<and> LOGIN_ITERATIONS \<le> n \<and>
       deriveAuthSecret L password salt n LOGIN_ITERATIONS = Inr secret)"
proof (cases r)
  case (Inl e)
  from wpD(2) [OF step_up_secret assms(3) [unfolded Inl]] show ?thesis
    using Inl by (simp add: floor_stays [OF assms(1,2)])
next
  case (Inr x)
  from wpD(1) [OF step_up_secret assms(3) [unfolded Inr]] show ?thesis
    using Inr by (simp add: floor_stays [OF assms(1,2)])
qed

definition demo_session_api :: "int \<Rightarrow> unit session_api" where
  "demo_session_api n = \<lparr>sa_loginParams = (\<lambda>_ w. (Inr (base64 [1], n), w)), sa_stepUp = (\<lambda>_ w. (Inr (), w))\<rparr>"

definition demo_session_world :: "unit session_world" where
  "demo_session_world = \<lparr>t_outside = (), t_random = (\<lambda>_. 7), t_drawn = 0, t_log = []\<rparr>"

definition demo_pins :: login_store where
  "demo_pins = \<lparr>ps_readable = True, ps_item = Some ''[''\<rparr>"

theorem pinned_account_floor_witness:
  "t_log (snd (stepUpWithPassword demo_lib (demo_session_api 100000) (fold pinLogin [(True, ''eve'')] (pinLogin (True, ''Ann '') demo_pins))
     ''ann'' ''secret'' demo_session_world)) = []"
proof -
  let ?s = "fold pinLogin [(True, ''eve'')] (pinLogin (True, ''Ann '') demo_pins)"
  let ?run = "stepUpWithPassword demo_lib (demo_session_api 100000) ?s ''ann'' ''secret'' demo_session_world"
  have same: "normal ''ann'' = normal ''Ann ''" by code_simp
  have r: "ps_readable demo_pins" by (simp add: demo_pins_def)
  have "deriveAuthSecret demo_lib ''secret'' (base64 [1]) 100000 LOGIN_ITERATIONS \<noteq> Inr x" for x
    by (auto dest: derived_above_floor simp: LOGIN_ITERATIONS_def)
  then obtain e where e: "deriveAuthSecret demo_lib ''secret'' (base64 [1]) 100000 LOGIN_ITERATIONS = Inl e" by (cases "deriveAuthSecret demo_lib ''secret'' (base64 [1]) 100000 LOGIN_ITERATIONS") auto
  from pinned_account_floor [OF r same prod.collapse [symmetric], of demo_lib "demo_session_api 100000" "[(True, ''eve'')]" "''secret''" demo_session_world]
  show ?thesis
    by (simp add: stepUpWithPassword_def demo_session_api_def call_def bind_io_def floor_stays [OF r same] e demo_session_world_def del: fold.simps fold_simps)
qed

lemma open_after_rewrap:
  assumes "gcm_roundtrip L" "gcm_overhead L" "openIdentity L r kek u = Inr held" "wrapIdentity L nonce kek' (privateKey held) u = Inr wrapped"
  shows "openIdentity L (r\<lparr>ir_wrappedPrivateKey := base64 wrapped\<rparr>) kek' u = Inr held"
proof -
  from assms(3) obtain w i where "ir_wrapAlg r = IDENTITY_WRAP_ALG" "unwrapIdentity L kek w u = Inr i" "fromBase64 (ir_publicKey r) = Inr (publicKey i)"
    "held = with_device i (ir_deviceId r)" by (auto simp: openIdentity_def rbind_eq_Inr split: if_splits)
  moreover from this have "publicKey i = x25519_public L (privateKey i)" by (simp add: unwrap_public)
  ultimately show ?thesis
    using unwrapIdentity_sealIdentity(2) [OF assms(1,2) assms(4) [unfolded wrapIdentity_def]]
    by (simp add: openIdentity_def with_device_def generateIdentity_def)
qed

text \<open>What the rewrapping gives: nothing for an account without a password copy, else the copy's own device and a copy under the new key.\<close>

definition rewrap_ok :: "lib \<Rightarrow> string \<Rightarrow> login_keys \<Rightarrow> login_keys \<Rightarrow> identity_record option \<Rightarrow> (string \<times> string) option \<Rightarrow> bool" where
  "rewrap_ok L userID current keys identity rw \<longleftrightarrow>
     (if \<exists>r. identity = Some r \<and> ir_wrapAlg r = IDENTITY_WRAP_ALG
      then \<exists>r held wrapped. identity = Some r \<and> rw = Some (ir_deviceId r, wrapped) \<and>
        openIdentity L r (userKEK current) userID = Inr held \<and>
        openIdentity L (r\<lparr>ir_wrappedPrivateKey := wrapped\<rparr>) (userKEK keys) userID = Inr held
      else rw = None)"

lemma openIdentity_device: "openIdentity L r kek u = Inr held \<Longrightarrow> deviceId held = ir_deviceId r"
  by (auto simp: openIdentity_def rbind_eq_Inr with_device_def split: if_splits)

lemma rewrap_for_ok:
  assumes "gcm_roundtrip L" "gcm_overhead L"
  shows "wp (rewrap_for L userID current keys identity)
    (\<lambda>rw w'. t_log w' = t_log w \<and> rewrap_ok L userID current keys identity rw) (\<lambda>_ w'. t_log w' = t_log w) w"
  by (auto simp: rewrap_for_def wps rewrap_ok_def openIdentity_device open_after_rewrap [OF assms] split: option.split sum.split)

definition upgrade_sent :: "lib \<Rightarrow> string \<Rightarrow> string \<Rightarrow> login_keys \<Rightarrow> identity_record option \<Rightarrow> login_keys \<Rightarrow> login_upgrade \<Rightarrow> bool" where
  "upgrade_sent L userID password current identity keys u \<longleftrightarrow>
     lu_currentAuthSecret u = authSecret current \<and> lu_newAuthSecret u = authSecret keys \<and> lu_iterations u = LOGIN_ITERATIONS \<and>
     deriveLoginKeys L password (lu_newLoginSalt u) (lu_iterations u) LOGIN_ITERATIONS = Inr keys \<and>
     rewrap_ok L userID current keys identity (lu_rewrap u)"

lemma upgrade_request:
  assumes "gcm_roundtrip L" "gcm_overhead L"
  shows "wp (upgradeLogin L send userID password current identity)
    (\<lambda>(keys, after) w'. \<exists>u. t_log w' = t_log w @ [Upgrading u] \<and> upgrade_sent L userID password current identity keys u \<and>
       after = upgraded_identity identity (lu_rewrap u))
    (\<lambda>_ w'. t_log w' = t_log w \<or> (\<exists>u keys. t_log w' = t_log w @ [Upgrading u] \<and> upgrade_sent L userID password current identity keys u)) w"
  unfolding upgradeLogin_def wp_bind wp_lift wp_draw
  by (auto simp: wps Let_def upgrade_sent_def split: sum.split intro!: wp_mono [OF rewrap_for_ok [OF assms]])

text \<open>C22: an account upgrade that succeeds sent the server exactly one request: the new verifier and salt belong to the typed password at
  \<open>LOGIN_ITERATIONS\<close>, the old secret proves the old password, and, when the account has a password copy of its identity, the request names that
  copy's device and the identity record returned opens with the new keys to the very identity the old record opened to with the old ones.\<close>

theorem upgrade_keeps_identity:
  assumes "gcm_roundtrip L" "gcm_overhead L"
    and "upgradeLogin L send userID password current (Some r) w = (Inr (keys, after), w')"
  shows "\<exists>u. t_log w' = t_log w @ [Upgrading u] \<and> lu_currentAuthSecret u = authSecret current \<and> lu_newAuthSecret u = authSecret keys \<and>
    lu_iterations u = LOGIN_ITERATIONS \<and> deriveLoginKeys L password (lu_newLoginSalt u) LOGIN_ITERATIONS LOGIN_ITERATIONS = Inr keys \<and>
    (if ir_wrapAlg r = IDENTITY_WRAP_ALG
     then \<exists>held r'. openIdentity L r (userKEK current) userID = Inr held \<and> after = Some r' \<and>
       openIdentity L r' (userKEK keys) userID = Inr held \<and> lu_rewrap u = Some (ir_deviceId r', ir_wrappedPrivateKey r')
     else after = Some r \<and> lu_rewrap u = None)"
proof -
  from wpD(1) [OF upgrade_request [OF assms(1,2)] assms(3)] obtain u where
    "t_log w' = t_log w @ [Upgrading u]" "upgrade_sent L userID password current (Some r) keys u" "after = upgraded_identity (Some r) (lu_rewrap u)"
    by auto
  then show ?thesis by (intro exI [of _ u]) (auto simp: upgrade_sent_def rewrap_ok_def upgraded_identity_def split: if_splits)
qed

lemma demo_login_keys:
  "\<exists>keys. deriveLoginKeys demo_lib password (base64 bs) LOGIN_ITERATIONS LOGIN_ITERATIONS = Inr keys \<and> length (userKEK keys) = 32"
  using demo_lib_laws(4) [unfolded hkdf_length_def]
  by (simp add: deriveLoginKeys_def stretchPassword_def pbkdf2Bits_def subtle_def demo_lib_def LOGIN_ITERATIONS_def safe_integer_def Let_def)

lemma demo_seal:
  "length kek = 32 \<Longrightarrow> length nonce = 12 \<Longrightarrow> \<exists>w. sealIdentity demo_lib kek (replicate 32 3) (demo_usr (CHR ''1'')) nonce = Inr w"
  by (simp add: sealIdentity_def identityAAD_def idBytes_def demo_ids crockford_def)

text \<open>An older account with a password copy under the key of 32 ones.\<close>

definition demo_old_record :: "bytes \<Rightarrow> identity_record" where
  "demo_old_record w = \<lparr>ir_deviceId = ''d'', ir_publicKey = base64 (publicKey (generateIdentity demo_lib (replicate 32 3))),
     ir_wrapAlg = IDENTITY_WRAP_ALG, ir_wrappedPrivateKey = base64 w\<rparr>"

definition demo_upgrade :: "identity_record \<Rightarrow> (login_keys \<times> identity_record option) result \<times> unit session_world" where
  "demo_upgrade r = upgradeLogin demo_lib (\<lambda>_ w. (Inr (), w)) (demo_usr (CHR ''1'')) ''pw'' \<lparr>authSecret = [], userKEK = replicate 32 1\<rparr> (Some r) demo_session_world"

lemma demo_upgrade_runs:
  assumes "sealIdentity demo_lib (replicate 32 1) (replicate 32 3) (demo_usr (CHR ''1'')) (replicate 12 2) = Inr w"
  shows "\<exists>keys after. fst (demo_upgrade (demo_old_record w)) = Inr (keys, after)"
proof -
  obtain keys where keys: "deriveLoginKeys demo_lib ''pw'' (base64 (map (\<lambda>_. 7) [0..<16])) LOGIN_ITERATIONS LOGIN_ITERATIONS = Inr keys" "length (userKEK keys) = 32"
    using demo_login_keys by blast
  have op: "openIdentity demo_lib (demo_old_record w) (replicate 32 1) (demo_usr (CHR ''1'')) = Inr (with_device (generateIdentity demo_lib (replicate 32 3)) ''d'')"
    by (simp add: openIdentity_def demo_old_record_def unwrapIdentity_sealIdentity(2) [OF demo_lib_laws(1,3) assms])
  obtain w' where "sealIdentity demo_lib (userKEK keys) (replicate 32 3) (demo_usr (CHR ''1'')) (map (\<lambda>_. 7) [16..<28]) = Inr w'"
    using demo_seal [OF keys(2), of "map (\<lambda>_. 7) [16..<28]"] by (auto simp del: upt.simps)
  then show ?thesis using keys op
    by (simp add: demo_upgrade_def upgradeLogin_def bind_io_def draw_def demo_session_world_def rewrap_for_def demo_old_record_def randomLoginSalt_def subtle_def
        call_def log_event_def Let_def wrapIdentity_def with_device_def generateIdentity_def del: upt.simps) (simp add: demo_lib_def)
qed

theorem upgrade_keeps_identity_witness:
  "\<exists>w held r' keys. fst (demo_upgrade (demo_old_record w)) = Inr (keys, Some r') \<and>
     openIdentity demo_lib (demo_old_record w) (replicate 32 1) (demo_usr (CHR ''1'')) = Inr held \<and>
     openIdentity demo_lib r' (userKEK keys) (demo_usr (CHR ''1'')) = Inr held"
proof -
  obtain w where w: "sealIdentity demo_lib (replicate 32 1) (replicate 32 3) (demo_usr (CHR ''1'')) (replicate 12 2) = Inr w"
    using demo_seal [of "replicate 32 1" "replicate 12 2"] by auto
  from demo_upgrade_runs [OF w] obtain keys after where run: "fst (demo_upgrade (demo_old_record w)) = Inr (keys, after)" by blast
  then have "demo_upgrade (demo_old_record w) = (Inr (keys, after), snd (demo_upgrade (demo_old_record w)))" by (metis prod.collapse)
  from upgrade_keeps_identity [OF demo_lib_laws(1,3) this [unfolded demo_upgrade_def]] run show ?thesis
    by (intro exI [of _ w]) (auto simp: demo_old_record_def)
qed

section \<open>Notebook loads\<close>

text \<open>The closure's counter is the state; a ticket or a mark is the count it was taken at.\<close>

datatype gate_call = BeginLoad | MarkLoad

fun gate_call_step :: "gate_call \<Rightarrow> nat \<Rightarrow> nat \<times> nat" where
  "gate_call_step BeginLoad latest = (Suc latest, Suc latest)"
| "gate_call_step MarkLoad latest = (latest, latest)"

definition superseded :: "nat \<Rightarrow> nat \<Rightarrow> bool" where
  "superseded latest ticket = (latest \<noteq> ticket)"

fun loadGate :: "gate_call list \<Rightarrow> nat \<Rightarrow> nat list \<times> nat" where
  "loadGate [] latest = ([], latest)"
| "loadGate (c # cs) latest =
     (let (handle, now) = gate_call_step c latest; (handles, final) = loadGate cs now in (handle # handles, final))"

lemma loadGate_counts: "snd (loadGate cs n) = n + length (filter (\<lambda>c. c = BeginLoad) cs)"
  by (induction cs arbitrary: n) (auto simp: split_def elim: gate_call_step.elims intro: gate_call.exhaust)

text \<open>Whatever calls came, a ticket is superseded, and a mark reports a load, exactly when a load began after it.\<close>

lemma newest_load_only:
  "i < length cs \<Longrightarrow> superseded (snd (loadGate cs n)) (fst (loadGate cs n) ! i) \<longleftrightarrow> BeginLoad \<in> set (drop (Suc i) cs)"
proof (induction cs arbitrary: n i)
  case (Cons c cs)
  show ?case
  proof (cases i)
    case 0
    have "filter (\<lambda>c. c = BeginLoad) cs = [] \<longleftrightarrow> BeginLoad \<notin> set cs" by (auto simp: filter_empty_conv)
    with 0 show ?thesis by (cases c) (auto simp: split_def superseded_def loadGate_counts)
  next
    case (Suc j)
    with Cons show ?thesis by (simp add: split_def Let_def)
  qed
qed simp

section \<open>Invitation links\<close>

record invite_link =
  iv_id :: string
  iv_token :: string

definition token_char :: "char \<Rightarrow> bool" where
  "token_char c = (c \<in> set ''ABCDEFGHIJKLMNOPQRSTUVWXYZabcdefghijklmnopqrstuvwxyz0123456789_-'')"

definition wf_link :: "invite_link \<Rightarrow> bool" where
  "wf_link l \<longleftrightarrow> prefixed_id ''inv'' (iv_id l) \<and> length (iv_token l) = 43 \<and> list_all token_char (iv_token l)"

definition link_hash :: "string \<Rightarrow> string \<Rightarrow> string" where
  "link_hash i token = ''#/invite/'' @ i @ ''/'' @ token"

definition inviteLink :: "string \<Rightarrow> invite_link \<Rightarrow> string" where
  "inviteLink site l = site @ ''/'' @ link_hash (iv_id l) (iv_token l)"

definition parseInviteLink :: "string \<Rightarrow> invite_link option" where
  "parseInviteLink hash =
     (case strip_prefix ''#/invite/'' hash of
        None \<Rightarrow> None
      | Some rest \<Rightarrow>
          let l = \<lparr>iv_id = take 30 rest, iv_token = drop 31 rest\<rparr> in
          if wf_link l \<and> take 1 (drop 30 rest) = ''/'' then Some l else None)"

text \<open>The page's state: the link taken since it loaded, the item of session storage and the hash in the address bar.\<close>

record invite_state =
  iv_page :: "invite_link option"
  iv_stash :: "string option"
  iv_hash :: string

definition link_json :: "invite_link \<Rightarrow> json" where
  "link_json l = JObj [(''id'', JStr (iv_id l)), (''token'', JStr (iv_token l))]"

text \<open>\<open>accepted\<close>: the tab has a session storage and it takes the write; likewise \<open>readable\<close> and \<open>removable\<close> below.\<close>

definition takeInviteLink :: "bool \<Rightarrow> invite_state \<Rightarrow> invite_link option \<times> invite_state" where
  "takeInviteLink accepted st =
     (case parseInviteLink (iv_hash st) of
        None \<Rightarrow> (None, st)
      | Some l \<Rightarrow>
          (Some l, st\<lparr>iv_page := Some l, iv_stash := (if accepted then Some (stringify (link_json l)) else iv_stash st), iv_hash := []\<rparr>))"

definition field_text :: "string \<Rightarrow> json \<Rightarrow> string" where
  "field_text k v = (case field k v of None \<Rightarrow> ''undefined'' | Some x \<Rightarrow> js_text x)"

definition pendingInvite :: "bool \<Rightarrow> invite_state \<Rightarrow> invite_link option" where
  "pendingInvite readable st =
     (if \<not> readable then iv_page st
      else case parse (case iv_stash st of None \<Rightarrow> ''null'' | Some t \<Rightarrow> t) of
        Inl _ \<Rightarrow> iv_page st
      | Inr value \<Rightarrow>
          let stashed = (if truthy (Some value) then parseInviteLink (link_hash (field_text ''id'' value) (field_text ''token'' value)) else None) in
          if stashed \<noteq> None then stashed else iv_page st)"

definition dropInvite :: "bool \<Rightarrow> invite_state \<Rightarrow> invite_state" where
  "dropInvite removable st = st\<lparr>iv_page := None, iv_stash := (if removable then None else iv_stash st)\<rparr>"

definition finalRefusal :: "nat option \<Rightarrow> string option \<Rightarrow> bool" where
  "finalRefusal status code =
     (status = Some 404 \<and> code = Some ''not_found'' \<or> status = Some 409 \<and> code = Some ''already_exists'' \<or> status = Some 410)"

definition keyRequestText :: "string \<Rightarrow> string list \<Rightarrow> string \<Rightarrow> string \<Rightarrow> string" where
  "keyRequestText notebook stewards printed link =
     (let who = (if stewards \<noteq> [] then foldl (\<lambda>a s. a @ '' or '' @ s) (hd stewards) (tl stewards) else ''a team owner'');
          key = (if printed \<noteq> [] then '' My encryption key fingerprint is '' @ printed @ ''; please check it matches what your browser shows for me.'' else []) in
      ''Hi '' @ who @ '': please open the team notebook '' @ [quote_char] @ notebook @ [quote_char] @
        '' in KyNotes so your browser shares its key with me.'' @ key @ '' '' @ link)"

text \<open>A link parses to itself; and whatever parses is well-formed and prints as the hash it was read from.\<close>

lemma parse_link_hash: "wf_link l \<Longrightarrow> parseInviteLink (link_hash (iv_id l) (iv_token l)) = Some l"
  by (auto simp: parseInviteLink_def link_hash_def strip_prefix_def wf_link_def prefixed_id_length)

lemma strip_prefix_eq: "strip_prefix p s = Some r \<longleftrightarrow> s = p @ r"
  by (auto simp: strip_prefix_def) (metis append_take_drop_id)

lemma parsed_link: "parseInviteLink hash = Some l \<Longrightarrow> wf_link l \<and> hash = link_hash (iv_id l) (iv_token l)"
proof -
  assume "parseInviteLink hash = Some l"
  then obtain rest where rest: "hash = ''#/invite/'' @ rest" "wf_link l" "take 1 (drop 30 rest) = ''/''"
    "l = \<lparr>iv_id = take 30 rest, iv_token = drop 31 rest\<rparr>"
    by (auto simp: parseInviteLink_def strip_prefix_eq Let_def split: if_splits option.splits)
  have "drop 30 rest = take 1 (drop 30 rest) @ drop 1 (drop 30 rest)" by (rule append_take_drop_id [symmetric])
  then have "drop 30 rest = ''/'' @ drop 31 rest" unfolding rest(3) by simp
  then have "rest = take 30 rest @ ''/'' @ drop 31 rest" by (metis append_take_drop_id)
  with rest show ?thesis by (simp add: link_hash_def)
qed

text \<open>What can happen to a page's invitation: a new hash in the address bar, the calls of this module, any value another script
  or an earlier page left in storage, and the page loading anew.\<close>

datatype invite_op =
    NewHash string
  | Take bool
  | Drop bool
  | Stashed "string option"
  | Reload

fun invite_step :: "invite_op \<Rightarrow> invite_state \<Rightarrow> invite_state" where
  "invite_step (NewHash h) st = st\<lparr>iv_hash := h\<rparr>"
| "invite_step (Take accepted) st = snd (takeInviteLink accepted st)"
| "invite_step (Drop removable) st = dropInvite removable st"
| "invite_step (Stashed item) st = st\<lparr>iv_stash := item\<rparr>"
| "invite_step Reload st = st\<lparr>iv_page := None\<rparr>"

definition page_link_ok :: "invite_state \<Rightarrow> bool" where
  "page_link_ok st \<longleftrightarrow> (\<forall>l. iv_page st = Some l \<longrightarrow> wf_link l)"

lemma invite_step_ok: "page_link_ok st \<Longrightarrow> page_link_ok (invite_step op st)"
  by (cases op) (auto simp: page_link_ok_def takeInviteLink_def dropInvite_def dest: parsed_link split: option.splits)

lemma invite_steps_ok: "page_link_ok st \<Longrightarrow> page_link_ok (fold invite_step ops st)"
  by (induction ops arbitrary: st) (simp_all add: invite_step_ok)

lemma pending_ok: "page_link_ok st \<Longrightarrow> pendingInvite readable st = Some l \<Longrightarrow> wf_link l"
  by (auto simp: pendingInvite_def page_link_ok_def Let_def dest: parsed_link split: if_splits sum.splits)

lemma stashed_link:
  "wf_link l \<Longrightarrow> iv_stash st = Some (stringify (link_json l)) \<Longrightarrow> pendingInvite True st = Some l"
  by (simp add: pendingInvite_def link_json_def field_text_def field_def parse_link_hash Let_def del: stringify.simps)

text \<open>From a fresh page and through any sequence of new hashes, taken and dropped links, reloads and whatever values other code puts into
  session storage, the pending invitation is none or a well-formed one; and once a well-formed link is taken into an accepting
  storage it is the pending one, on this page and after a reload, while the address bar no longer holds its token.\<close>

lemma pending_invitation:
  assumes "iv_page st = None" "wf_link l"
  shows "(pendingInvite readable (fold invite_step ops st) = Some p \<longrightarrow> wf_link p) \<and>
    pendingInvite True (fold invite_step (ops @ [NewHash (link_hash (iv_id l) (iv_token l)), Take True]) st) = Some l \<and>
    pendingInvite True (fold invite_step (ops @ [NewHash (link_hash (iv_id l) (iv_token l)), Take True, Reload]) st) = Some l \<and>
    iv_hash (fold invite_step (ops @ [NewHash (link_hash (iv_id l) (iv_token l)), Take accepted]) st) = []"
  using assms pending_ok [OF invite_steps_ok, of st readable ops]
  by (auto simp: page_link_ok_def takeInviteLink_def parse_link_hash stashed_link simp del: stringify.simps)

definition demo_link :: invite_link where
  "demo_link = \<lparr>iv_id = ''inv_00000000000000000000000000'', iv_token = replicate 43 (CHR ''x'')\<rparr>"

definition demo_invite_state :: invite_state where
  "demo_invite_state = \<lparr>iv_page = None, iv_stash = Some ''[]'', iv_hash = []\<rparr>"

lemma demo_link_wf: "wf_link demo_link"
  by code_simp

text \<open>When storage refuses the new link but still holds an older well-formed one, the older one stays pending.\<close>

lemma refused_stash_keeps_older:
  "wf_link old \<Longrightarrow> iv_stash st = Some (stringify (link_json old)) \<Longrightarrow> iv_hash st = link_hash (iv_id l) (iv_token l) \<Longrightarrow> wf_link l \<Longrightarrow>
     fst (takeInviteLink False st) = Some l \<and> pendingInvite True (snd (takeInviteLink False st)) = Some old"
  by (simp add: takeInviteLink_def parse_link_hash stashed_link del: stringify.simps)

end
