(* ===== verification/Document.thy ===== *)
theory Document
  imports Json Complex_Main
begin

text \<open>
  Page bodies (\<open>web/src/document.ts\<close>): the canvas format with its text boxes and ink strokes, the older block and Tiptap
  formats, and the plain text of a page. A body is whatever another member's client saved, so every
  reader takes any text: what it cannot use it drops or bounds, and a reader that the code lets throw returns an error here.
  Blocks are the JSON values they are; numbers are JSON numbers read by \<open>num_val\<close>. Stack overflow on very
  deep pages is not modelled. The properties: every body opens to a well-formed page, and saving what was opened loses nothing.
\<close>

section \<open>Numbers\<close>

fun is_num :: "json \<Rightarrow> bool" where
  "is_num (JNum _) = True"
| "is_num (JDec _ _) = True"
| "is_num _ = False"

fun num_val :: "json \<Rightarrow> rat" where
  "num_val (JNum i) = of_int i"
| "num_val (JDec m k) = of_int m / 10 ^ k"
| "num_val _ = 0"

definition js_max :: "json \<Rightarrow> json \<Rightarrow> json" where
  "js_max a b = (if num_val a \<le> num_val b then b else a)"

definition js_min :: "json \<Rightarrow> json \<Rightarrow> json" where
  "js_min a b = (if num_val b \<le> num_val a then b else a)"

section \<open>Older formats\<close>

definition NOTE_DOCUMENT_FORMAT :: string where "NOTE_DOCUMENT_FORMAT = ''kynotes.blocknote.v1''"
definition CANVAS_FORMAT :: string where "CANVAS_FORMAT = ''kynotes.canvas.v1''"
definition LEGACY_BOX :: string where "LEGACY_BOX = ''legacy''"

definition has_type :: "string \<Rightarrow> json \<Rightarrow> bool" where
  "has_type t node = (field ''type'' node = Some (JStr t))"

text \<open>The marks of a text node: the styles they set, and the last link among them. The link's text shares the style object.\<close>

definition style_mark :: "json \<Rightarrow> (string, json) dict \<Rightarrow> (string, json) dict" where
  "style_mark mark styles =
     (case str_of (field ''type'' mark) of
        Some t \<Rightarrow> if t \<in> {''bold'', ''italic'', ''strike'', ''code'', ''underline''} then AList.update t (JBool True) styles else styles
      | None \<Rightarrow> styles)"

definition link_mark :: "json \<Rightarrow> string option \<Rightarrow> string option" where
  "link_mark mark link =
     (if has_type ''link'' mark then
        (case field ''attrs'' mark of
           Some attrs \<Rightarrow> (case str_of (field ''href'' attrs) of Some href \<Rightarrow> Some href | None \<Rightarrow> link)
         | None \<Rightarrow> link)
      else link)"

definition read_marks :: "json option \<Rightarrow> ((string, json) dict \<times> string option) result" where
  "read_marks marks =
     (case marks of
        None \<Rightarrow> Inr ([], None)
      | Some JNull \<Rightarrow> Inr ([], None)
      | Some (JStr _) \<Rightarrow> Inr ([], None)
      | Some (JArr ms) \<Rightarrow> if JNull \<in> set ms then Inl TypeError else Inr (fold style_mark ms [], fold link_mark ms None)
      | Some _ \<Rightarrow> Inl TypeError)"

definition text_node :: "string \<Rightarrow> (string, json) dict \<Rightarrow> json" where
  "text_node t styles = JObj [(''type'', JStr ''text''), (''text'', JStr t), (''styles'', JObj styles)]"

definition legacy_text :: "json \<Rightarrow> string \<Rightarrow> json list result" where
  "legacy_text node t =
     rbind (read_marks (field ''marks'' node)) (\<lambda>(styles, link).
       Inr [case link of
              Some href \<Rightarrow> JObj [(''type'', JStr ''link''), (''href'', JStr href), (''content'', JArr [text_node t styles])]
            | None \<Rightarrow> text_node t styles])"

lemma field_smaller: "field k j = Some v \<Longrightarrow> size v < size j"
proof -
  assume "field k j = Some v"
  then obtain ms where "j = JObj ms" "map_of ms k = Some v" by (auto simp: field_def split: json.splits)
  then show ?thesis using size_list_estimation' [OF map_of_SomeD, of ms k v "size v" "size_prod (\<lambda>_. 0) size"] by simp
qed

text \<open>The content of a node that a loop runs over; an absent one is empty, what is no array throws.\<close>

definition node_list :: "json option \<Rightarrow> json list result" where
  "node_list content = (case content of None \<Rightarrow> Inr [] | Some (JArr xs) \<Rightarrow> Inr xs | Some _ \<Rightarrow> Inl TypeError)"

lemma node_list_smaller: "node_list (field k j) = Inr xs \<Longrightarrow> size_list size xs \<le> size j"
  by (cases "field k j") (auto simp: node_list_def dest!: field_smaller split: json.splits)

function legacyInline :: "json list \<Rightarrow> json list result" where
  "legacyInline [] = Inr []"
| "legacyInline (node # nodes) =
     rbind
       (if node = JNull then Inl TypeError
        else if has_type ''hardBreak'' node then Inr [JObj [(''type'', JStr ''text''), (''text'', JStr [CHR 0x0A])]]
        else case (if has_type ''text'' node then str_of (field ''text'' node) else None) of
          Some t \<Rightarrow> legacy_text node t
        | None \<Rightarrow> (case node_list (field ''content'' node) of Inr xs \<Rightarrow> legacyInline xs | Inl e \<Rightarrow> Inl e))
       (\<lambda>first. rbind (legacyInline nodes) (\<lambda>others. Inr (first @ others)))"
  by pat_completeness auto
termination
  by (relation "measure (size_list size)") (auto dest: node_list_smaller)

text \<open>\<open>Number(level) || 1\<close>. Of the texts that read as a number the model has plain decimals, as in JSON itself.\<close>

definition text_number :: "string \<Rightarrow> json option" where
  "text_number s =
     (let t = js_trim s; neg = (t \<noteq> [] \<and> hd t = CHR ''-''); u = (if t \<noteq> [] \<and> hd t \<in> set ''+-'' then tl t else t);
          ds = takeWhile is_digit u; r = dropWhile is_digit u;
          fs = (if r \<noteq> [] \<and> hd r = CHR ''.'' then takeWhile is_digit (tl r) else []);
          rest = (if r \<noteq> [] \<and> hd r = CHR ''.'' then dropWhile is_digit (tl r) else r) in
      if t = [] then Some (JNum 0)
      else if ds @ fs = [] \<or> rest \<noteq> [] then None
      else Some (dec_norm (if neg then - int (read_nat (ds @ fs)) else int (read_nat (ds @ fs))) (length fs)))"

definition legacy_level :: "json option \<Rightarrow> json" where
  "legacy_level level =
     (let n = (case level of
          None \<Rightarrow> None
        | Some JNull \<Rightarrow> Some (JNum 0)
        | Some (JBool b) \<Rightarrow> Some (JNum (if b then 1 else 0))
        | Some (JStr s) \<Rightarrow> text_number s
        | Some (JArr xs) \<Rightarrow> text_number (js_text (JArr xs))
        | Some (JObj _) \<Rightarrow> None
        | Some v \<Rightarrow> Some v) in
      if truthy n then the n else JNum 1)"

definition attr :: "string \<Rightarrow> json \<Rightarrow> json option" where
  "attr k node = (case field ''attrs'' node of Some attrs \<Rightarrow> field k attrs | None \<Rightarrow> None)"

definition text_or_empty :: "json option \<Rightarrow> json" where
  "text_or_empty v = JStr (case str_of v of Some s \<Rightarrow> s | None \<Rightarrow> [])"

definition code_text :: "json list \<Rightarrow> string" where
  "code_text children = concat (map (\<lambda>child. case field ''text'' child of None \<Rightarrow> [] | Some JNull \<Rightarrow> [] | Some v \<Rightarrow> js_text v) children)"

definition leaf_block :: "json \<Rightarrow> json list \<Rightarrow> json list \<Rightarrow> json option" where
  "leaf_block node children content =
     (if has_type ''paragraph'' node then Some (JObj [(''type'', JStr ''paragraph''), (''content'', JArr content)])
      else if has_type ''heading'' node then
        Some (JObj [(''type'', JStr ''heading''), (''props'', JObj [(''level'', legacy_level (attr ''level'' node))]), (''content'', JArr content)])
      else if has_type ''codeBlock'' node then
        Some (JObj [(''type'', JStr ''codeBlock''), (''props'', JObj [(''language'', text_or_empty (attr ''language'' node))]), (''content'', JStr (code_text children))])
      else if has_type ''image'' node then
        Some (JObj [(''type'', JStr ''image''), (''props'', JObj [(''url'', text_or_empty (attr ''src'' node)), (''name'', text_or_empty (attr ''alt'' node))])])
      else if has_type ''horizontalRule'' node then Some (JObj [(''type'', JStr ''divider'')])
      else None)"

definition empty_paragraph :: json where
  "empty_paragraph = JObj [(''type'', JStr ''paragraph''), (''content'', JStr [])]"

definition list_item :: "string \<Rightarrow> json list \<Rightarrow> json" where
  "list_item ty blocks =
     (let first = (case blocks of [] \<Rightarrow> empty_paragraph | b # _ \<Rightarrow> b) in
      JObj (spread (case first of JObj ms \<Rightarrow> ms | _ \<Rightarrow> []) [(''type'', JStr ty), (''children'', JArr (tl blocks))]))"

function legacyBlocks :: "json list \<Rightarrow> json list result"
and legacyList :: "string \<Rightarrow> json list \<Rightarrow> json list result" where
  "legacyBlocks [] = Inr []"
| "legacyBlocks (node # nodes) =
     rbind
       (if node = JNull then Inl TypeError
        else case node_list (field ''content'' node) of
          Inl e \<Rightarrow> Inl e
        | Inr xs \<Rightarrow>
            (case legacyInline xs of
               Inl e \<Rightarrow> Inl e
             | Inr content \<Rightarrow>
                 if has_type ''bulletList'' node then legacyList ''bulletListItem'' xs
                 else if has_type ''orderedList'' node then legacyList ''numberedListItem'' xs
                 else if has_type ''blockquote'' node then
                   rbind (legacyBlocks xs) (\<lambda>children. Inr [JObj [(''type'', JStr ''quote''), (''children'', JArr children)]])
                 else case leaf_block node xs content of Some b \<Rightarrow> Inr [b] | None \<Rightarrow> legacyBlocks xs))
       (\<lambda>first. rbind (legacyBlocks nodes) (\<lambda>others. Inr (first @ others)))"
| "legacyList ty [] = Inr []"
| "legacyList ty (node # nodes) =
     rbind
       (if node = JNull then Inl TypeError
        else if \<not> has_type ''listItem'' node then Inr []
        else case node_list (field ''content'' node) of
          Inl e \<Rightarrow> Inl e
        | Inr xs \<Rightarrow> rbind (legacyBlocks xs) (\<lambda>blocks. Inr [list_item ty blocks]))
       (\<lambda>first. rbind (legacyList ty nodes) (\<lambda>others. Inr (first @ others)))"
  by pat_completeness auto
termination
  by (relation "measure (\<lambda>x. case x of Inl nodes \<Rightarrow> size_list size nodes | Inr (_, nodes) \<Rightarrow> size_list size nodes)")
    (auto dest: node_list_smaller)

definition legacyTiptap :: "json \<Rightarrow> json list option result" where
  "legacyTiptap value =
     (let document = (if field ''format'' value = Some (JStr ''kynotes.tiptap.v1'') then field ''document'' value else Some value) in
      case document of
        None \<Rightarrow> Inr None
      | Some d \<Rightarrow>
          if \<not> has_type ''doc'' d then Inr None
          else rbind (node_list (field ''content'' d)) (\<lambda>nodes. rbind (legacyBlocks nodes) (\<lambda>blocks. Inr (Some blocks))))"

definition legacyTiptapDocument :: "string \<Rightarrow> json list option" where
  "legacyTiptapDocument body = (case rbind (parse body) legacyTiptap of Inr r \<Rightarrow> r | Inl _ \<Rightarrow> None)"

definition has_document :: "json \<Rightarrow> json list option" where
  "has_document value =
     (case (field ''format'' value, field ''document'' value) of
        (Some (JStr f), Some (JArr d)) \<Rightarrow> if f = NOTE_DOCUMENT_FORMAT then Some d else None
      | _ \<Rightarrow> None)"

definition parseNoteDocument :: "string \<Rightarrow> json list" where
  "parseNoteDocument body =
     (case (case parse body of Inr value \<Rightarrow> has_document value | Inl _ \<Rightarrow> None) of
        Some d \<Rightarrow> d
      | None \<Rightarrow>
          (case legacyTiptapDocument body of
             Some legacy \<Rightarrow> if legacy = [] then [empty_paragraph] else legacy
           | None \<Rightarrow>
               if body = [] then [empty_paragraph]
               else [JObj [(''type'', JStr ''paragraph''), (''content'', JStr body)]]))"

definition stringifyNoteDocument :: "json list \<Rightarrow> string" where
  "stringifyNoteDocument document = stringify (JObj [(''format'', JStr NOTE_DOCUMENT_FORMAT), (''document'', JArr document)])"

definition isStructuredNoteBody :: "string \<Rightarrow> bool" where
  "isStructuredNoteBody body =
     ((case parse body of
         Inr value \<Rightarrow> has_document value \<noteq> None \<or> field ''format'' value = Some (JStr CANVAS_FORMAT)
       | Inl _ \<Rightarrow> False) \<or> legacyTiptapDocument body \<noteq> None)"

section \<open>Canvas pages\<close>

definition MAX_COORD :: json where "MAX_COORD = JNum 100000"
definition MAX_BOXES :: nat where "MAX_BOXES = 500"
definition MAX_STROKES :: nat where "MAX_STROKES = 5000"
definition MAX_STROKE_POINTS :: nat where "MAX_STROKE_POINTS = 10000"
definition BOX_MIN_WIDTH :: json where "BOX_MIN_WIDTH = JNum 160"
definition BOX_MAX_WIDTH :: json where "BOX_MAX_WIDTH = JNum 2000"
definition DEFAULT_BOX_WIDTH :: json where "DEFAULT_BOX_WIDTH = JNum 640"
definition INK_COLORS :: "string list" where "INK_COLORS = [''ink'', ''blue'', ''red'', ''green'', ''orange'', ''yellow'']"

record canvas_box =
  bx_id :: string
  bx_x :: json
  bx_y :: json
  bx_width :: json
  bx_blocks :: "json list"

record canvas_stroke =
  sk_id :: string
  sk_tool :: string
  sk_color :: string
  sk_size :: json
  sk_points :: "json list"

record canvas_page =
  cp_boxes :: "canvas_box list"
  cp_strokes :: "canvas_stroke list"

definition item_char :: "char \<Rightarrow> bool" where
  "item_char c = (c \<in> set ''ABCDEFGHIJKLMNOPQRSTUVWXYZabcdefghijklmnopqrstuvwxyz0123456789-'')"

definition ITEM_ID :: "string \<Rightarrow> bool" where
  "ITEM_ID s = (s \<noteq> [] \<and> length s \<le> 64 \<and> list_all item_char s)"

fun isRecord :: "json \<Rightarrow> bool" where
  "isRecord (JObj _) = True"
| "isRecord _ = False"

definition clamp :: "json option \<Rightarrow> json \<Rightarrow> json \<Rightarrow> json \<Rightarrow> json" where
  "clamp value low high fallback =
     (case value of Some v \<Rightarrow> if is_num v then js_min high (js_max low v) else fallback | None \<Rightarrow> fallback)"

definition item_id :: "json \<Rightarrow> string option" where
  "item_id value = (case str_of (field ''id'' value) of Some i \<Rightarrow> if ITEM_ID i then Some i else None | None \<Rightarrow> None)"

definition box_blocks :: "json option \<Rightarrow> json list" where
  "box_blocks value =
     (let blocks = (case value of Some (JArr xs) \<Rightarrow> filter isRecord xs | _ \<Rightarrow> []) in
      if blocks \<noteq> [] then blocks else [empty_paragraph])"

definition parseBox :: "json \<Rightarrow> canvas_box option" where
  "parseBox value =
     (case item_id value of
        None \<Rightarrow> None
      | Some i \<Rightarrow>
          Some \<lparr>bx_id = i, bx_x = clamp (field ''x'' value) (JNum 0) MAX_COORD (JNum 0), bx_y = clamp (field ''y'' value) (JNum 0) MAX_COORD (JNum 0),
            bx_width = clamp (field ''width'' value) BOX_MIN_WIDTH BOX_MAX_WIDTH DEFAULT_BOX_WIDTH, bx_blocks = box_blocks (field ''blocks'' value)\<rparr>)"

fun stroke_points :: "json list \<Rightarrow> json list" where
  "stroke_points (x # y # p # r) =
     (if is_num x \<and> is_num y \<and> is_num p
      then [clamp (Some x) (JNum 0) MAX_COORD (JNum 0), clamp (Some y) (JNum 0) MAX_COORD (JNum 0), clamp (Some p) (JNum 0) (JNum 1) (JDec 5 1)]
      else []) @ stroke_points r"
| "stroke_points _ = []"

definition parseStroke :: "json \<Rightarrow> canvas_stroke option" where
  "parseStroke value =
     (case (item_id value, field ''points'' value) of
        (Some i, Some (JArr raw)) \<Rightarrow>
          let points = stroke_points (take (MAX_STROKE_POINTS * 3) raw) in
          if points = [] then None
          else Some \<lparr>sk_id = i, sk_tool = (if field ''tool'' value = Some (JStr ''highlighter'') then ''highlighter'' else ''pen''),
            sk_color = (case str_of (field ''color'' value) of Some c \<Rightarrow> if c \<in> set INK_COLORS then c else ''ink'' | None \<Rightarrow> ''ink''),
            sk_size = clamp (field ''size'' value) (JNum 1) (JNum 64) (JNum 4), sk_points = points\<rparr>
      | _ \<Rightarrow> None)"

fun parse_unseen :: "(json \<Rightarrow> 'a option) \<Rightarrow> ('a \<Rightarrow> string) \<Rightarrow> string list \<Rightarrow> json list \<Rightarrow> 'a list" where
  "parse_unseen f ident seen [] = []"
| "parse_unseen f ident seen (entry # rest) =
     (case f entry of
        Some item \<Rightarrow>
          if ident item \<notin> set seen then item # parse_unseen f ident (ident item # seen) rest else parse_unseen f ident seen rest
      | None \<Rightarrow> parse_unseen f ident seen rest)"

definition parseItems :: "json option \<Rightarrow> nat \<Rightarrow> (json \<Rightarrow> 'a option) \<Rightarrow> ('a \<Rightarrow> string) \<Rightarrow> 'a list" where
  "parseItems list limit f ident = parse_unseen f ident [] (take limit (case list of Some (JArr xs) \<Rightarrow> xs | _ \<Rightarrow> []))"

definition is_canvas :: "json \<Rightarrow> bool" where
  "is_canvas value = (field ''format'' value = Some (JStr CANVAS_FORMAT))"

definition canvas_of :: "json \<Rightarrow> canvas_page" where
  "canvas_of value =
     \<lparr>cp_boxes = parseItems (field ''boxes'' value) MAX_BOXES parseBox bx_id, cp_strokes = parseItems (field ''strokes'' value) MAX_STROKES parseStroke sk_id\<rparr>"

definition legacy_box :: "string \<Rightarrow> canvas_box" where
  "legacy_box body = \<lparr>bx_id = LEGACY_BOX, bx_x = JNum 0, bx_y = JNum 0, bx_width = DEFAULT_BOX_WIDTH, bx_blocks = parseNoteDocument body\<rparr>"

text \<open>The second component is \<open>legacyMarkdown\<close>.\<close>

definition openPage :: "string \<Rightarrow> canvas_page \<times> string option" where
  "openPage body =
     (case (case parse body of Inr value \<Rightarrow> if is_canvas value then Some value else None | Inl _ \<Rightarrow> None) of
        Some value \<Rightarrow> (canvas_of value, None)
      | None \<Rightarrow> (\<lparr>cp_boxes = [legacy_box body], cp_strokes = []\<rparr>, if body \<noteq> [] \<and> \<not> isStructuredNoteBody body then Some body else None))"

definition box_json :: "canvas_box \<Rightarrow> json" where
  "box_json b = JObj [(''id'', JStr (bx_id b)), (''x'', bx_x b), (''y'', bx_y b), (''width'', bx_width b), (''blocks'', JArr (bx_blocks b))]"

definition stroke_json :: "canvas_stroke \<Rightarrow> json" where
  "stroke_json s = JObj [(''id'', JStr (sk_id s)), (''tool'', JStr (sk_tool s)), (''color'', JStr (sk_color s)), (''size'', sk_size s), (''points'', JArr (sk_points s))]"

definition canvas_json :: "canvas_page \<Rightarrow> json" where
  "canvas_json p = JObj [(''format'', JStr CANVAS_FORMAT), (''boxes'', JArr (map box_json (cp_boxes p))), (''strokes'', JArr (map stroke_json (cp_strokes p)))]"

definition stringifyCanvasPage :: "canvas_page \<Rightarrow> string" where
  "stringifyCanvasPage p = stringify (canvas_json p)"

section \<open>The text of a page\<close>

definition box_above :: "canvas_box \<Rightarrow> canvas_box \<Rightarrow> bool" where
  "box_above a b = (num_val (bx_y a) < num_val (bx_y b) \<or> num_val (bx_y a) = num_val (bx_y b) \<and> num_val (bx_x a) \<le> num_val (bx_x b))"

definition boxes_in_order :: "canvas_box list \<Rightarrow> json list" where
  "boxes_in_order boxes = concat (map bx_blocks (sort_by box_above boxes))"

definition structuredBlocks :: "string \<Rightarrow> json list option result" where
  "structuredBlocks body =
     (case parse body of
        Inl _ \<Rightarrow> Inr None
      | Inr value \<Rightarrow>
          if is_canvas value then Inr (Some (boxes_in_order (parseItems (field ''boxes'' value) MAX_BOXES parseBox bx_id)))
          else case has_document value of
            Some d \<Rightarrow> Inr (Some d)
          | None \<Rightarrow> legacyTiptap value)"

definition pageBlocks :: "string \<Rightarrow> json list result" where
  "pageBlocks body = rbind (structuredBlocks body) (\<lambda>b. case b of Some blocks \<Rightarrow> Inr blocks | None \<Rightarrow> Inr (parseNoteDocument body))"

function inline_texts :: "json list \<Rightarrow> string list" where
  "inline_texts [] = []"
| "inline_texts (item # items) =
     (case str_of (field ''text'' item) of Some t \<Rightarrow> [t] | None \<Rightarrow> []) @
     (case field ''content'' item of Some (JArr xs) \<Rightarrow> inline_texts xs | _ \<Rightarrow> []) @ inline_texts items"
  by pat_completeness auto
termination
  by (relation "measure (size_list size)") (auto dest!: field_smaller)

definition own_texts :: "json \<Rightarrow> string list" where
  "own_texts node =
     (case field ''content'' node of Some (JStr s) \<Rightarrow> [s] | Some (JArr xs) \<Rightarrow> inline_texts xs | _ \<Rightarrow> []) @
     (if has_type ''image'' node then
        (case field ''props'' node of
           Some props \<Rightarrow> (case str_of (field ''name'' props) of Some n \<Rightarrow> [''['' @ n @ '']''] | None \<Rightarrow> [])
         | None \<Rightarrow> [])
      else [])"

definition child_list :: "json \<Rightarrow> json list result" where
  "child_list node = (if field ''children'' node = Some JNull then Inr [] else node_list (field ''children'' node))"

lemma child_list_smaller: "child_list j = Inr xs \<Longrightarrow> size_list size xs \<le> size j"
  by (auto simp: child_list_def node_list_smaller split: if_splits)

function visit_texts :: "json list \<Rightarrow> string list result" where
  "visit_texts [] = Inr []"
| "visit_texts (node # nodes) =
     rbind
       (if node = JNull then Inl TypeError
        else case child_list node of
          Inl e \<Rightarrow> Inl e
        | Inr xs \<Rightarrow> rbind (visit_texts xs) (\<lambda>children. Inr (own_texts node @ children)))
       (\<lambda>first. rbind (visit_texts nodes) (\<lambda>others. Inr (first @ others)))"
  by pat_completeness auto
termination
  by (relation "measure (size_list size)") (auto dest: child_list_smaller)

definition join_space :: "string list \<Rightarrow> string" where
  "join_space ts = (case ts of [] \<Rightarrow> [] | t # r \<Rightarrow> foldl (\<lambda>a s. a @ '' '' @ s) t r)"

definition documentText :: "string \<Rightarrow> string" where
  "documentText body = (case rbind (pageBlocks body) visit_texts of Inr ts \<Rightarrow> join_space ts | Inl _ \<Rightarrow> [])"

definition hasInk :: "string \<Rightarrow> bool" where
  "hasInk body = (cp_strokes (fst (openPage body)) \<noteq> [])"

definition withoutInk :: "string \<Rightarrow> string" where
  "withoutInk body = (if hasInk body then stringifyCanvasPage ((fst (openPage body))\<lparr>cp_strokes := []\<rparr>) else body)"

definition inkOnly :: "string \<Rightarrow> bool" where
  "inkOnly body = (hasInk body \<and> js_trim (documentText body) = [])"

section \<open>Opened pages are well-formed\<close>

definition in_range :: "json \<Rightarrow> json \<Rightarrow> json \<Rightarrow> bool" where
  "in_range low high v \<longleftrightarrow> is_num v \<and> wf_json v \<and> num_val low \<le> num_val v \<and> num_val v \<le> num_val high"

definition box_ok :: "canvas_box \<Rightarrow> bool" where
  "box_ok b \<longleftrightarrow> ITEM_ID (bx_id b) \<and> in_range (JNum 0) MAX_COORD (bx_x b) \<and> in_range (JNum 0) MAX_COORD (bx_y b) \<and>
     in_range BOX_MIN_WIDTH BOX_MAX_WIDTH (bx_width b) \<and> list_all wf_json (bx_blocks b)"

fun points_ok :: "json list \<Rightarrow> bool" where
  "points_ok [] = True"
| "points_ok (x # y # p # r) = (in_range (JNum 0) MAX_COORD x \<and> in_range (JNum 0) MAX_COORD y \<and> in_range (JNum 0) (JNum 1) p \<and> points_ok r)"
| "points_ok _ = False"

definition stroke_ok :: "canvas_stroke \<Rightarrow> bool" where
  "stroke_ok s \<longleftrightarrow> ITEM_ID (sk_id s) \<and> sk_tool s \<in> {''pen'', ''highlighter''} \<and> sk_color s \<in> set INK_COLORS \<and> in_range (JNum 1) (JNum 64) (sk_size s) \<and>
     sk_points s \<noteq> [] \<and> points_ok (sk_points s) \<and> length (sk_points s) \<le> MAX_STROKE_POINTS * 3"

definition page_ok :: "canvas_page \<Rightarrow> bool" where
  "page_ok p \<longleftrightarrow> length (cp_boxes p) \<le> MAX_BOXES \<and> length (cp_strokes p) \<le> MAX_STROKES \<and> distinct (map bx_id (cp_boxes p)) \<and>
     distinct (map sk_id (cp_strokes p)) \<and> list_all box_ok (cp_boxes p) \<and> list_all stroke_ok (cp_strokes p)"

text \<open>What the editor needs of a box: at least one block, and nothing that is not a block.\<close>

definition editable :: "canvas_box \<Rightarrow> bool" where
  "editable b \<longleftrightarrow> bx_blocks b \<noteq> [] \<and> list_all isRecord (bx_blocks b)"

lemma wf_field: "wf_json j \<Longrightarrow> field k j = Some v \<Longrightarrow> wf_json v"
  by (auto simp: field_def list_all_iff dest!: map_of_SomeD split: json.splits)

lemma clamp_in_range:
  assumes "\<And>v. value = Some v \<Longrightarrow> wf_json v" "is_num low" "wf_json low" "is_num high" "wf_json high" "num_val low \<le> num_val high" "in_range low high fallback"
  shows "in_range low high (clamp value low high fallback)"
  using assms by (auto simp: clamp_def in_range_def js_min_def js_max_def split: option.split)

lemma clamp_id: "in_range low high v \<Longrightarrow> clamp (Some v) low high fallback = v"
  by (simp add: clamp_def in_range_def js_min_def js_max_def)

lemmas bounds = MAX_COORD_def BOX_MIN_WIDTH_def BOX_MAX_WIDTH_def DEFAULT_BOX_WIDTH_def

lemma item_id_ok: "item_id v = Some i \<Longrightarrow> ITEM_ID i"
  by (auto simp: item_id_def split: option.splits if_splits)

lemma wf_box_blocks: "(\<And>v. value = Some v \<Longrightarrow> wf_json v) \<Longrightarrow> list_all wf_json (box_blocks value)"
  by (auto simp: box_blocks_def empty_paragraph_def list_all_iff Let_def split: option.splits json.splits)

lemma box_blocks_editable: "box_blocks value \<noteq> [] \<and> list_all isRecord (box_blocks value)"
  by (auto simp: box_blocks_def empty_paragraph_def list_all_iff Let_def)

lemma parseBox_ok: "wf_json v \<Longrightarrow> parseBox v = Some b \<Longrightarrow> box_ok b \<and> editable b"
  by (auto simp: parseBox_def box_ok_def editable_def box_blocks_editable in_range_def [of _ _ "JNum _"] bounds
      intro!: clamp_in_range wf_box_blocks item_id_ok dest: wf_field split: option.splits)

lemma stroke_points_ok: "list_all wf_json raw \<Longrightarrow> points_ok (stroke_points raw) \<and> length (stroke_points raw) \<le> length raw"
  by (induction raw rule: stroke_points.induct)
    (auto simp: in_range_def [of _ _ "JNum _"] in_range_def [of _ _ "JDec _ _"] MAX_COORD_def intro!: clamp_in_range)

lemma parseStroke_ok: "wf_json v \<Longrightarrow> parseStroke v = Some s \<Longrightarrow> stroke_ok s"
proof -
  assume v: "wf_json v" and s: "parseStroke v = Some s"
  from s obtain i raw where raw: "item_id v = Some i" "field ''points'' v = Some (JArr raw)"
    by (auto simp: parseStroke_def split: option.splits json.splits)
  let ?take = "take (MAX_STROKE_POINTS * 3) raw"
  from wf_field [OF v raw(2)] have "list_all wf_json ?take" by (auto simp: list_all_iff dest: in_set_takeD)
  from stroke_points_ok [OF this] have "points_ok (stroke_points ?take)" "length (stroke_points ?take) \<le> MAX_STROKE_POINTS * 3" by auto
  moreover have "in_range (JNum 1) (JNum 64) (clamp (field ''size'' v) (JNum 1) (JNum 64) (JNum 4))"
    by (rule clamp_in_range) (auto simp: in_range_def dest: wf_field [OF v])
  moreover have "(case str_of (field ''color'' v) of Some c \<Rightarrow> if c \<in> set INK_COLORS then c else ''ink'' | None \<Rightarrow> ''ink'') \<in> set INK_COLORS"
    by (simp add: INK_COLORS_def split: option.split)
  moreover from s raw have "stroke_points ?take \<noteq> []" by (auto simp: parseStroke_def Let_def split: if_splits)
  ultimately show ?thesis using s raw item_id_ok [OF raw(1)] by (auto simp: parseStroke_def stroke_ok_def Let_def)
qed

lemma parse_unseen_facts:
  "list_all (\<lambda>item. (\<exists>e \<in> set es. f e = Some item) \<and> ident item \<notin> set seen) (parse_unseen f ident seen es) \<and>
   distinct (map ident (parse_unseen f ident seen es)) \<and> length (parse_unseen f ident seen es) \<le> length es"
proof (induction es arbitrary: seen)
  case (Cons e es)
  show ?case
  proof (cases "f e")
    case (Some item)
    with Cons [of "ident item # seen"] Cons [of seen] show ?thesis by (auto simp: list_all_iff)
  next
    case None
    with Cons [of seen] show ?thesis by (auto simp: list_all_iff)
  qed
qed simp

lemma parseItems_facts:
  assumes "\<And>v. list = Some v \<Longrightarrow> wf_json v" "\<And>v item. wf_json v \<Longrightarrow> f v = Some item \<Longrightarrow> P item"
  shows "list_all P (parseItems list limit f ident) \<and> distinct (map ident (parseItems list limit f ident)) \<and> length (parseItems list limit f ident) \<le> limit"
proof -
  define es where "es = take limit (case list of Some (JArr xs) \<Rightarrow> xs | _ \<Rightarrow> [])"
  have "wf_json e" if "e \<in> set es" for e
    using that assms(1) by (auto simp: es_def list_all_iff dest!: in_set_takeD split: option.splits json.splits)
  moreover have "length es \<le> limit" by (simp add: es_def)
  ultimately show ?thesis
    using parse_unseen_facts [of es f ident "[]"] assms(2) unfolding parseItems_def es_def [symmetric] by (fastforce simp: list_all_iff)
qed

lemma canvas_of_ok: "wf_json v \<Longrightarrow> page_ok (canvas_of v) \<and> list_all editable (cp_boxes (canvas_of v))"
proof -
  assume v: "wf_json v"
  have "list_all (\<lambda>b. box_ok b \<and> editable b) (cp_boxes (canvas_of v)) \<and> distinct (map bx_id (cp_boxes (canvas_of v))) \<and> length (cp_boxes (canvas_of v)) \<le> MAX_BOXES"
    unfolding canvas_of_def canvas_page.select_convs by (rule parseItems_facts) (auto dest: wf_field [OF v] parseBox_ok)
  moreover have "list_all stroke_ok (cp_strokes (canvas_of v)) \<and> distinct (map sk_id (cp_strokes (canvas_of v))) \<and> length (cp_strokes (canvas_of v)) \<le> MAX_STROKES"
    unfolding canvas_of_def canvas_page.select_convs by (rule parseItems_facts) (auto dest: wf_field [OF v] parseStroke_ok)
  ultimately show ?thesis by (auto simp: page_ok_def list_all_iff)
qed

text \<open>The blocks made of an older format.\<close>

lemma read_marks_wf: "read_marks m = Inr (styles, link) \<Longrightarrow> wf_json (JObj styles)"
proof -
  have "wf_json (JObj (style_mark mark st))" if "wf_json (JObj st)" for mark st
    using that set_update_dict by (fastforce simp: style_mark_def list_all_iff split: option.splits)
  then have "wf_json (JObj (fold style_mark ms st))" if "wf_json (JObj st)" for ms st
    using that by (induction ms arbitrary: st) auto
  then show "read_marks m = Inr (styles, link) \<Longrightarrow> wf_json (JObj styles)"
    by (auto simp: read_marks_def split: option.splits json.splits if_splits)
qed

lemma legacyInline_wf: "legacyInline nodes = Inr out \<Longrightarrow> list_all wf_json out"
proof (induction nodes arbitrary: out rule: legacyInline.induct)
  case (2 node nodes)
  have "list_all wf_json out'" if "legacy_text node t = Inr out'" for t out'
    using that read_marks_wf by (fastforce simp: legacy_text_def rbind_eq_Inr text_node_def split: option.splits)
  with 2 show ?case by (fastforce simp: rbind_eq_Inr split: if_splits option.splits sum.splits)
qed simp

lemma text_number_wf: "text_number s = Some v \<Longrightarrow> wf_json v"
  unfolding text_number_def Let_def using wf_dec_norm by (metis option.distinct(1) option.inject wf_json.simps(6))

lemma truthy_number_wf: "truthy (text_number s) \<Longrightarrow> wf_json (the (text_number s))"
  by (cases "text_number s") (auto dest: text_number_wf)

lemma legacy_level_wf: "(\<And>v. level = Some v \<Longrightarrow> wf_json v) \<Longrightarrow> wf_json (legacy_level level)"
  using truthy_number_wf by (cases level; cases "the level") (auto simp: legacy_level_def Let_def)

lemma attr_wf: "wf_json node \<Longrightarrow> attr k node = Some v \<Longrightarrow> wf_json v"
  by (auto simp: attr_def split: option.splits dest: wf_field)

lemma leaf_block_wf:
  "wf_json node \<Longrightarrow> list_all wf_json content \<Longrightarrow> leaf_block node xs content = Some b \<Longrightarrow> wf_json b \<and> isRecord b"
  using legacy_level_wf [of "attr ''level'' node"] attr_wf [of node "''level''"]
  by (simp add: leaf_block_def text_or_empty_def split: if_splits) auto

lemma list_item_wf: "list_all wf_json blocks \<Longrightarrow> wf_json (list_item ty blocks) \<and> isRecord (list_item ty blocks)"
proof -
  assume blocks: "list_all wf_json blocks"
  define first where "first = (case (case blocks of [] \<Rightarrow> empty_paragraph | b # _ \<Rightarrow> b) of JObj ms \<Rightarrow> ms | _ \<Rightarrow> [])"
  have "wf_json (JObj first)" using blocks by (auto simp: first_def empty_paragraph_def split: list.splits json.splits)
  moreover have "list_all wf_json (tl blocks)" using blocks by (cases blocks) auto
  ultimately show ?thesis using set_spread [of first "[(''type'', JStr ty), (''children'', JArr (tl blocks))]"]
    by (auto simp: list_item_def first_def [symmetric] list_all_iff Let_def)
qed

lemma node_list_wf: "wf_json node \<Longrightarrow> node_list (field k node) = Inr xs \<Longrightarrow> list_all wf_json xs"
  by (auto simp: node_list_def split: option.splits json.splits dest: wf_field)

lemma legacyBlocks_Cons:
  assumes "legacyBlocks (node # nodes) = Inr out"
  shows "\<exists>first others xs content. out = first @ others \<and> legacyBlocks nodes = Inr others \<and> node \<noteq> JNull \<and>
    node_list (field ''content'' node) = Inr xs \<and> legacyInline xs = Inr content \<and>
    (if has_type ''bulletList'' node then legacyList ''bulletListItem'' xs
     else if has_type ''orderedList'' node then legacyList ''numberedListItem'' xs
     else if has_type ''blockquote'' node then rbind (legacyBlocks xs) (\<lambda>children. Inr [JObj [(''type'', JStr ''quote''), (''children'', JArr children)]])
     else case leaf_block node xs content of Some b \<Rightarrow> Inr [b] | None \<Rightarrow> legacyBlocks xs) = Inr first"
proof -
  from assms have "node \<noteq> JNull" by (auto simp: rbind_eq_Inr)
  moreover from this assms obtain xs where xs: "node_list (field ''content'' node) = Inr xs" by (cases "node_list (field ''content'' node)") auto
  moreover from calculation assms obtain content where "legacyInline xs = Inr content" by (cases "legacyInline xs") auto
  ultimately show ?thesis using assms unfolding legacyBlocks.simps(2) rbind_eq_Inr by auto
qed

lemma legacyList_Cons:
  assumes "legacyList ty (node # nodes) = Inr out"
  shows "\<exists>first others. out = first @ others \<and> legacyList ty nodes = Inr others \<and> node \<noteq> JNull \<and>
    (first = [] \<or> (\<exists>xs blocks. has_type ''listItem'' node \<and> node_list (field ''content'' node) = Inr xs \<and> legacyBlocks xs = Inr blocks \<and> first = [list_item ty blocks]))"
  using assms unfolding legacyList.simps(2) rbind_eq_Inr by (auto simp: rbind_eq_Inr split: if_splits sum.splits)

lemma legacyBlocks_wf:
  "list_all wf_json nodes \<Longrightarrow> legacyBlocks nodes = Inr out \<Longrightarrow> list_all (\<lambda>b. wf_json b \<and> isRecord b) out"
  "list_all wf_json nodes \<Longrightarrow> legacyList ty nodes = Inr out \<Longrightarrow> list_all (\<lambda>b. wf_json b \<and> isRecord b) out"
proof (induction nodes and ty nodes arbitrary: out and out rule: legacyBlocks_legacyList.induct)
  case (2 node nodes)
  from "2.prems" have wf: "wf_json node" "list_all wf_json nodes" by simp_all
  from legacyBlocks_Cons [OF "2.prems"(2)] obtain first others xs content where split: "out = first @ others" "legacyBlocks nodes = Inr others" "node \<noteq> JNull"
    and xs: "node_list (field ''content'' node) = Inr xs" "legacyInline xs = Inr content"
    and f: "(if has_type ''bulletList'' node then legacyList ''bulletListItem'' xs
       else if has_type ''orderedList'' node then legacyList ''numberedListItem'' xs
       else if has_type ''blockquote'' node then rbind (legacyBlocks xs) (\<lambda>children. Inr [JObj [(''type'', JStr ''quote''), (''children'', JArr children)]])
       else case leaf_block node xs content of Some b \<Rightarrow> Inr [b] | None \<Rightarrow> legacyBlocks xs) = Inr first"
    by blast
  note wfs = node_list_wf [OF wf(1) xs(1)] legacyInline_wf [OF xs(2)]
  have "list_all (\<lambda>b. wf_json b \<and> isRecord b) first"
    using f xs wfs(1) split(3) "2.IH"(1-4) leaf_block_wf [OF wf(1) wfs(2)]
    by (auto simp: rbind_eq_Inr list_all_iff split: if_splits option.splits)
  with "2.IH"(5) [OF wf(2) split(2)] show ?case by (simp add: split(1))
next
  case (4 ty node nodes)
  from "4.prems" have wf: "wf_json node" "list_all wf_json nodes" by simp_all
  from legacyList_Cons [OF "4.prems"(2)] obtain first others where split: "out = first @ others" "legacyList ty nodes = Inr others" "node \<noteq> JNull"
    and f: "first = [] \<or> (\<exists>xs blocks. has_type ''listItem'' node \<and> node_list (field ''content'' node) = Inr xs \<and> legacyBlocks xs = Inr blocks \<and> first = [list_item ty blocks])"
    by blast
  from f have "list_all (\<lambda>b. wf_json b \<and> isRecord b) first"
    using "4.IH"(1) [OF split(3) _ _ node_list_wf [OF wf(1)]] list_item_wf by (auto simp: list_all_iff)
  with "4.IH"(2) [OF wf(2) split(2)] show ?case by (simp add: split(1))
qed simp_all

lemma legacyTiptap_wf: "wf_json v \<Longrightarrow> legacyTiptap v = Inr (Some blocks) \<Longrightarrow> list_all (\<lambda>b. wf_json b \<and> isRecord b) blocks"
proof -
  assume v: "wf_json v" and blocks: "legacyTiptap v = Inr (Some blocks)"
  from blocks obtain d nodes where d: "d = v \<or> field ''document'' v = Some d" "node_list (field ''content'' d) = Inr nodes" "legacyBlocks nodes = Inr blocks"
    by (auto simp: legacyTiptap_def Let_def rbind_eq_Inr split: if_splits option.splits)
  from d(1) v wf_field have "wf_json d" by blast
  from legacyBlocks_wf(1) [OF node_list_wf [OF this d(2)] d(3)] show ?thesis .
qed

lemma legacyTiptapDocument_wf: "legacyTiptapDocument body = Some blocks \<Longrightarrow> list_all (\<lambda>b. wf_json b \<and> isRecord b) blocks"
  by (auto simp: legacyTiptapDocument_def rbind_eq_Inr rbind_def split: sum.splits dest!: parse_wf dest: legacyTiptap_wf)

lemma has_document_field: "has_document v = Some d \<Longrightarrow> field ''document'' v = Some (JArr d)"
  by (cases "field ''format'' v"; cases "field ''document'' v"; cases "the (field ''format'' v)"; cases "the (field ''document'' v)")
    (simp_all add: has_document_def split: if_splits)

lemma has_document_wf: "wf_json v \<Longrightarrow> has_document v = Some d \<Longrightarrow> list_all wf_json d"
  using wf_field [OF _ has_document_field] by fastforce

definition block_document :: "string \<Rightarrow> json list option" where
  "block_document body = (case parse body of Inr value \<Rightarrow> has_document value | Inl _ \<Rightarrow> None)"

lemma parseNoteDocument_alt:
  "parseNoteDocument body =
     (case block_document body of Some d \<Rightarrow> d
      | None \<Rightarrow> (case legacyTiptapDocument body of Some legacy \<Rightarrow> if legacy = [] then [empty_paragraph] else legacy
         | None \<Rightarrow> if body = [] then [empty_paragraph] else [JObj [(''type'', JStr ''paragraph''), (''content'', JStr body)]]))"
  by (simp add: parseNoteDocument_def block_document_def)

lemma block_document_wf: "block_document body = Some d \<Longrightarrow> list_all wf_json d"
  by (auto simp: block_document_def split: sum.splits dest: parse_wf has_document_wf)

lemma wf_empty_paragraph [simp]: "wf_json empty_paragraph" "isRecord empty_paragraph"
  by (simp_all add: empty_paragraph_def)

lemma older_blocks:
  assumes "block_document body = None"
  shows "parseNoteDocument body \<noteq> [] \<and> list_all (\<lambda>b. wf_json b \<and> isRecord b) (parseNoteDocument body)"
  using legacyTiptapDocument_wf [of body] by (cases "legacyTiptapDocument body") (auto simp: parseNoteDocument_alt assms)

lemma parseNoteDocument_wf: "list_all wf_json (parseNoteDocument body)"
proof (cases "block_document body")
  case None
  from older_blocks [OF this] show ?thesis by (simp add: list_all_iff)
next
  case (Some d)
  then show ?thesis using block_document_wf by (simp add: parseNoteDocument_alt)
qed

text \<open>Every body but one: a block document whose list is empty, or holds something that is not a block, is opened as it is.\<close>

lemma legacy_box_editable: "block_document body = None \<Longrightarrow> editable (legacy_box body)"
  using older_blocks [of body] by (simp add: editable_def legacy_box_def list_all_iff)

lemma empty_document_not_editable: "block_document body = Some [] \<Longrightarrow> \<not> editable (legacy_box body)"
  by (simp add: editable_def legacy_box_def parseNoteDocument_alt)

lemma legacy_box_ok: "box_ok (legacy_box body)"
  by (simp add: box_ok_def legacy_box_def parseNoteDocument_wf in_range_def bounds LEGACY_BOX_def ITEM_ID_def item_char_def)

lemma openPage_ok: "page_ok (fst (openPage body))"
  using canvas_of_ok parse_wf [of body] legacy_box_ok [of body]
  by (auto simp: openPage_def page_ok_def MAX_BOXES_def split: sum.splits option.splits)

lemma openPage_canvas: "parse body = Inr v \<Longrightarrow> is_canvas v \<Longrightarrow> openPage body = (canvas_of v, None)"
  by (simp add: openPage_def)

section \<open>Saving and opening again\<close>

lemma parse_unseen_map:
  "\<forall>item \<in> set items. f (g item) = Some (h item) \<and> ident (h item) = ident item \<and> ident item \<notin> set seen \<Longrightarrow> distinct (map ident items) \<Longrightarrow>
     parse_unseen f ident seen (map g items) = map h items"
proof (induction items arbitrary: seen)
  case (Cons a items)
  from Cons.prems(2) have "ident item \<noteq> ident a" if "item \<in> set items" for item using that by (metis distinct.simps(2) image_eqI list.set_map list.simps(9))
  with Cons.prems Cons.IH [of "ident a # seen"] show ?case by simp
qed simp

lemma parseItems_map:
  assumes "\<And>item. item \<in> set items \<Longrightarrow> f (g item) = Some (h item) \<and> ident (h item) = ident item" "distinct (map ident items)" "length items \<le> limit"
  shows "parseItems (Some (JArr (map g items))) limit f ident = map h items"
  using assms parse_unseen_map [of items f g h ident "[]"] by (simp add: parseItems_def)

definition kept_blocks :: "canvas_box \<Rightarrow> canvas_box" where
  "kept_blocks b = b\<lparr>bx_blocks := box_blocks (Some (JArr (bx_blocks b)))\<rparr>"

lemma kept_blocks_id: "editable b \<Longrightarrow> kept_blocks b = b"
  by (simp add: kept_blocks_def box_blocks_def editable_def list_all_iff Let_def)

lemma stroke_points_id: "points_ok ps \<Longrightarrow> stroke_points ps = ps"
  by (induction ps rule: points_ok.induct) (auto simp: clamp_id, simp_all add: in_range_def)

lemma parseBox_json: "box_ok b \<Longrightarrow> parseBox (box_json b) = Some (kept_blocks b)"
  by (simp add: box_ok_def parseBox_def box_json_def item_id_def field_def clamp_id kept_blocks_def)

lemma parseStroke_json: "stroke_ok s \<Longrightarrow> parseStroke (stroke_json s) = Some s"
  by (auto simp: stroke_ok_def parseStroke_def stroke_json_def item_id_def field_def clamp_id stroke_points_id Let_def)

lemma canvas_json_wf: "page_ok p \<Longrightarrow> wf_json (canvas_json p)"
proof -
  have box: "box_ok b \<Longrightarrow> wf_json (box_json b)" for b by (simp add: box_ok_def in_range_def box_json_def)
  have "points_ok ps \<Longrightarrow> list_all wf_json ps" for ps by (induction ps rule: points_ok.induct) (auto simp: in_range_def)
  then have stroke: "stroke_ok s \<Longrightarrow> wf_json (stroke_json s)" for s by (auto simp: stroke_ok_def in_range_def stroke_json_def)
  show "page_ok p \<Longrightarrow> wf_json (canvas_json p)"
    using box stroke by (auto simp: page_ok_def canvas_json_def list_all_iff)
qed

lemma parsed_page: "page_ok p \<Longrightarrow> parse (stringifyCanvasPage p) = Inr (canvas_json p)" "is_canvas (canvas_json p)"
  using canvas_json_wf [of p] by (simp add: stringifyCanvasPage_def) (simp add: is_canvas_def canvas_json_def field_def)

lemma reopened:
  assumes "page_ok p"
  shows "openPage (stringifyCanvasPage p) = (p\<lparr>cp_boxes := map kept_blocks (cp_boxes p)\<rparr>, None)"
proof -
  have "parseItems (Some (JArr (map box_json (cp_boxes p)))) MAX_BOXES parseBox bx_id = map kept_blocks (cp_boxes p)"
    using assms by (intro parseItems_map) (auto simp: page_ok_def list_all_iff parseBox_json kept_blocks_def)
  moreover have "parseItems (Some (JArr (map stroke_json (cp_strokes p)))) MAX_STROKES parseStroke sk_id = map (\<lambda>s. s) (cp_strokes p)"
    using assms by (intro parseItems_map) (auto simp: page_ok_def list_all_iff parseStroke_json)
  ultimately show ?thesis unfolding openPage_canvas [OF parsed_page(1) [OF assms] parsed_page(2)]
    by (simp add: canvas_of_def canvas_json_def field_def)
qed


text \<open>A body in the canvas format that was opened and saved opens to the very same page, and every box of it holds at least one block and nothing but blocks.\<close>

lemma canvas_saved_as_opened:
  assumes "parse body = Inr v" "is_canvas v"
  shows "openPage (stringifyCanvasPage (fst (openPage body))) = openPage body \<and> list_all editable (cp_boxes (fst (openPage body)))"
proof -
  have ok: "page_ok (canvas_of v)" "list_all editable (cp_boxes (canvas_of v))" using canvas_of_ok [OF parse_wf [OF assms(1)]] by auto
  then have "map kept_blocks (cp_boxes (canvas_of v)) = cp_boxes (canvas_of v)" by (intro map_idI) (auto simp: list_all_iff kept_blocks_id)
  then show ?thesis using reopened [OF ok(1)] ok(2) by (simp add: openPage_canvas [OF assms])
qed

definition demo_value :: json where
  "demo_value = JObj [(''format'', JStr CANVAS_FORMAT), (''boxes'', JArr [JObj [(''id'', JStr ''a''), (''x'', JDec (-5) 1), (''width'', JNum 9)], JNull]),
     (''strokes'', JArr [JObj [(''id'', JStr ''s''), (''points'', JArr [JNum 1, JNum 2, JDec 25 2, JNum 3])]])]"

section \<open>Sharing a page without its ink\<close>

lemma canvas_text_blocks: "parse body = Inr v \<Longrightarrow> is_canvas v \<Longrightarrow> pageBlocks body = Inr (boxes_in_order (cp_boxes (canvas_of v)))"
  by (simp add: pageBlocks_def structuredBlocks_def canvas_of_def)

text \<open>C16: the body a share link carries has no ink and exactly the text of the page.\<close>

theorem shared_body_same_text: "\<not> hasInk (withoutInk body) \<and> documentText (withoutInk body) = documentText body"
proof (cases "hasInk body")
  case False
  then show ?thesis by (simp add: withoutInk_def)
next
  case True
  then obtain v where v: "parse body = Inr v" "is_canvas v" by (auto simp: hasInk_def openPage_def split: sum.splits if_splits)
  let ?p = "(canvas_of v)\<lparr>cp_strokes := []\<rparr>"
  have ok: "page_ok (canvas_of v)" "list_all editable (cp_boxes (canvas_of v))" using canvas_of_ok [OF parse_wf [OF v(1)]] by auto
  then have p: "page_ok ?p" by (simp add: page_ok_def)
  have same: "map kept_blocks (cp_boxes ?p) = cp_boxes ?p" using ok(2) by (intro map_idI) (auto simp: list_all_iff kept_blocks_id)
  have body: "withoutInk body = stringifyCanvasPage ?p" using True by (simp add: withoutInk_def openPage_canvas [OF v])
  note parsed = parsed_page(1) [OF p] parsed_page(2) [of ?p]
  have "canvas_of (canvas_json ?p) = ?p" using reopened [OF p] same by (simp add: openPage_canvas [OF parsed])
  then show ?thesis using canvas_text_blocks [OF parsed] canvas_text_blocks [OF v]
    by (simp add: body hasInk_def openPage_canvas [OF parsed] documentText_def)
qed

end
