(* ===== verification/Canvas.thy ===== *)
theory Canvas
  imports Document
begin

text \<open>
  Editing a canvas page (\<open>web/src/canvas.ts\<close>): adding, moving and pruning boxes, erasing ink, finding room, and the undo
  history. Positions from the pointer are exact rationals; what is stored is a JSON number. The properties: every sequence of
  edits keeps a page within the bounds of the format, so that what is saved opens to exactly the page that was edited; an
  erased stroke is one the eraser reached; free room lies below everything; undoing and redoing go back and forth exactly.
\<close>

section \<open>Boxes\<close>

definition MAX_PAGE_BYTES :: nat where "MAX_PAGE_BYTES = 9 * 1024 * 1024"

definition pageFits :: "string \<Rightarrow> bool" where
  "pageFits body = (length (encode body) \<le> MAX_PAGE_BYTES)"

definition GAP :: rat where "GAP = 24"
definition DEFAULT_HEIGHT :: rat where "DEFAULT_HEIGHT = 120"

text \<open>\<open>Math.round\<close> rounds halves up.\<close>

definition js_round :: "rat \<Rightarrow> int" where
  "js_round x = \<lfloor>x + 1 / 2\<rfloor>"

definition coord :: "rat \<Rightarrow> json" where
  "coord value = JNum (min 100000 (max 0 (js_round value)))"

text \<open>\<open>new\<close> is what \<open>crypto.randomUUID()\<close> gives.\<close>

definition addBox :: "string \<Rightarrow> canvas_page \<Rightarrow> rat \<Rightarrow> rat \<Rightarrow> json list \<Rightarrow> json \<Rightarrow> canvas_page option" where
  "addBox new page x y blocks width =
     (if length (cp_boxes page) \<ge> MAX_BOXES then None
      else Some (page\<lparr>cp_boxes := cp_boxes page @ [\<lparr>bx_id = new, bx_x = coord x, bx_y = coord y, bx_width = width, bx_blocks = blocks\<rparr>]\<rparr>))"

text \<open>A number in a change: not there, there but not finite, or a number.\<close>

datatype num_change = Same | NotFinite | To rat

record box_change =
  ch_x :: num_change
  ch_y :: num_change
  ch_width :: num_change
  ch_blocks :: "json list option"

definition keep_number :: "num_change \<Rightarrow> json \<Rightarrow> rat" where
  "keep_number change old = (case change of To v \<Rightarrow> v | _ \<Rightarrow> num_val old)"

definition changed_box :: "box_change \<Rightarrow> canvas_box \<Rightarrow> canvas_box" where
  "changed_box ch b =
     b\<lparr>bx_x := coord (keep_number (ch_x ch) (bx_x b)), bx_y := coord (keep_number (ch_y ch) (bx_y b)),
       bx_width := JNum (min 2000 (max 160 (js_round (keep_number (ch_width ch) (bx_width b))))),
       bx_blocks := (case ch_blocks ch of Some bs \<Rightarrow> bs | None \<Rightarrow> bx_blocks b)\<rparr>"

definition updateBox :: "canvas_page \<Rightarrow> string \<Rightarrow> box_change \<Rightarrow> canvas_page" where
  "updateBox page i ch = page\<lparr>cp_boxes := map (\<lambda>b. if bx_id b \<noteq> i then b else changed_box ch b) (cp_boxes page)\<rparr>"

definition has_length :: "json option \<Rightarrow> bool" where
  "has_length v = (case v of Some (JArr xs) \<Rightarrow> xs \<noteq> [] | Some (JStr s) \<Rightarrow> s \<noteq> [] | Some (JObj ms) \<Rightarrow> truthy (map_of ms ''length'') | _ \<Rightarrow> False)"

definition empty_block :: "json \<Rightarrow> bool" where
  "empty_block block =
     ((case field ''type'' block of None \<Rightarrow> True | Some JNull \<Rightarrow> True | Some t \<Rightarrow> t = JStr ''paragraph'') \<and>
      \<not> has_length (field ''children'' block) \<and>
      (case field ''content'' block of
         None \<Rightarrow> True
       | Some (JStr s) \<Rightarrow> s = []
       | Some (JArr items) \<Rightarrow> list_all (\<lambda>item. field ''text'' item = Some (JStr [])) items
       | Some _ \<Rightarrow> False))"

fun every_empty :: "json list \<Rightarrow> bool result" where
  "every_empty [] = Inr True"
| "every_empty (b # bs) = (if b = JNull then Inl TypeError else if \<not> empty_block b then Inr False else every_empty bs)"

definition isEmptyBox :: "canvas_box \<Rightarrow> bool result" where
  "isEmptyBox b = every_empty (bx_blocks b)"

fun keep_filled :: "canvas_box list \<Rightarrow> canvas_box list result" where
  "keep_filled [] = Inr []"
| "keep_filled (b # bs) =
     rbind (isEmptyBox b) (\<lambda>e. rbind (keep_filled bs) (\<lambda>others. Inr (if e then others else b # others)))"

definition pruneEmpty :: "canvas_page \<Rightarrow> canvas_page result" where
  "pruneEmpty page = rbind (keep_filled (cp_boxes page)) (\<lambda>boxes. Inr (page\<lparr>cp_boxes := boxes\<rparr>))"

section \<open>Ink and room\<close>

fun point_pairs :: "json list \<Rightarrow> (rat \<times> rat) list" where
  "point_pairs (x # y # p # r) = (num_val x, num_val y) # point_pairs r"
| "point_pairs _ = []"

definition reached :: "rat \<Rightarrow> rat \<Rightarrow> rat \<Rightarrow> canvas_stroke \<Rightarrow> bool" where
  "reached x y radius s =
     (let reach = (radius + num_val (sk_size s) / 2)\<^sup>2 in
      list_ex (\<lambda>(px, py). (px - x) * (px - x) + (py - y) * (py - y) \<le> reach) (point_pairs (sk_points s)))"

definition eraseAt :: "canvas_stroke list \<Rightarrow> rat \<Rightarrow> rat \<Rightarrow> rat \<Rightarrow> canvas_stroke list" where
  "eraseAt strokes x y radius = filter (\<lambda>s. \<not> reached x y radius s) strokes"

definition box_height :: "(string, rat) dict \<Rightarrow> canvas_box \<Rightarrow> rat" where
  "box_height heights b = (case map_of heights (bx_id b) of Some h \<Rightarrow> h | None \<Rightarrow> DEFAULT_HEIGHT)"

definition box_extent :: "(string, rat) dict \<Rightarrow> canvas_box \<Rightarrow> rat \<times> rat \<Rightarrow> rat \<times> rat" where
  "box_extent heights b = (\<lambda>(w, h). (max w (num_val (bx_x b) + num_val (bx_width b)), max h (num_val (bx_y b) + box_height heights b)))"

definition point_extent :: "rat \<times> rat \<Rightarrow> rat \<times> rat \<Rightarrow> rat \<times> rat" where
  "point_extent p = (\<lambda>(w, h). (max w (fst p), max h (snd p)))"

definition contentExtent :: "canvas_page \<Rightarrow> (string, rat) dict \<Rightarrow> rat \<times> rat" where
  "contentExtent page heights =
     fold point_extent (concat (map (\<lambda>s. point_pairs (sk_points s)) (cp_strokes page)))
       (fold (box_extent heights) (cp_boxes page) (0, 0))"

definition freeSpot :: "canvas_page \<Rightarrow> (string, rat) dict \<Rightarrow> rat \<times> rat" where
  "freeSpot page heights =
     (if cp_boxes page = [] \<and> cp_strokes page = [] then (0, 0) else (0, snd (contentExtent page heights) + GAP))"

text \<open>\<open>view\<close> is the scroll offset and the width of the visible window; the result is the box's left edge and width.\<close>

definition fitBox :: "rat \<Rightarrow> rat \<Rightarrow> (rat \<times> rat) option \<Rightarrow> rat \<times> rat" where
  "fitBox x wanted view =
     (case view of
        None \<Rightarrow> (x, wanted)
      | Some (left, across) \<Rightarrow>
          if across \<le> 0 then (x, wanted)
          else let right = left + across - GAP; width = max 160 (min wanted (right - x)) in
            (max 0 (max (min x left) (min x (right - width))), width))"

definition readingOrder :: "canvas_box list \<Rightarrow> (string, nat) dict" where
  "readingOrder boxes = (let sorted = sort_by box_above boxes in fold (\<lambda>(b, i). AList.update (bx_id b) i) (zip sorted [0..<length sorted]) [])"

text \<open>\<open>/^[a-z]$/i\<close> without the Unicode flag matches exactly the ASCII letters.\<close>

definition isUndoKey :: "string \<Rightarrow> string \<Rightarrow> bool" where
  "isUndoKey key code =
     (if length key = 1 \<and> js_lower_char (hd key) \<in> set ''abcdefghijklmnopqrstuvwxyz'' then js_lower key = ''z'' else code = ''KeyZ'')"

section \<open>History\<close>

record 'a history =
  past :: "'a list"
  future :: "'a list"

text \<open>The last element of a list is the one \<open>pop\<close> takes.\<close>

definition push_state :: "'a \<Rightarrow> 'a history \<Rightarrow> 'a history" where
  "push_state s h = (let p = past h @ [s] in h\<lparr>past := (if length p > 100 then tl p else p), future := []\<rparr>)"

definition undo :: "'a \<Rightarrow> 'a history \<Rightarrow> 'a option \<times> 'a history" where
  "undo current h =
     (if past h = [] then (None, h)
      else (Some (last (past h)), h\<lparr>past := butlast (past h), future := future h @ [current]\<rparr>))"

definition redo :: "'a \<Rightarrow> 'a history \<Rightarrow> 'a option \<times> 'a history" where
  "redo current h =
     (if future h = [] then (None, h)
      else (Some (last (future h)), h\<lparr>future := butlast (future h), past := past h @ [current]\<rparr>))"

section \<open>Edits keep a page well-formed\<close>

lemma coord_ok: "in_range (JNum 0) MAX_COORD (coord v)"
  by (simp add: in_range_def coord_def MAX_COORD_def of_int_min of_int_max)

lemma width_ok: "in_range BOX_MIN_WIDTH BOX_MAX_WIDTH (JNum (min 2000 (max 160 n)))"
  by (simp add: in_range_def bounds of_int_min of_int_max)

lemma changed_box_ok:
  "box_ok b \<Longrightarrow> (\<And>bs. ch_blocks ch = Some bs \<Longrightarrow> list_all wf_json bs) \<Longrightarrow> box_ok (changed_box ch b)"
  by (auto simp: box_ok_def changed_box_def coord_ok width_ok split: option.split)

lemma keep_filled_sub: "keep_filled bs = Inr kept \<Longrightarrow> set kept \<subseteq> set bs \<and> length kept \<le> length bs \<and> (distinct (map bx_id bs) \<longrightarrow> distinct (map bx_id kept))"
proof (induction bs arbitrary: kept)
  case (Cons b bs)
  then obtain e others where "keep_filled bs = Inr others" "kept = (if e then others else b # others)" by (auto simp: rbind_eq_Inr)
  with Cons.IH show ?case by (auto simp: image_iff)
qed simp

text \<open>The edits the page component makes.\<close>

datatype canvas_edit =
    AddBox string rat rat "json list" json
  | UpdateBox string box_change
  | PruneEmpty
  | EraseAt rat rat rat

fun canvas_step :: "canvas_edit \<Rightarrow> canvas_page \<Rightarrow> canvas_page" where
  "canvas_step (AddBox new x y blocks width) p = (case addBox new p x y blocks width of Some q \<Rightarrow> q | None \<Rightarrow> p)"
| "canvas_step (UpdateBox i ch) p = updateBox p i ch"
| "canvas_step PruneEmpty p = (case pruneEmpty p of Inr q \<Rightarrow> q | Inl _ \<Rightarrow> p)"
| "canvas_step (EraseAt x y radius) p = p\<lparr>cp_strokes := eraseAt (cp_strokes p) x y radius\<rparr>"

definition blocks_ok :: "json list \<Rightarrow> bool" where
  "blocks_ok bs \<longleftrightarrow> bs \<noteq> [] \<and> list_all (\<lambda>b. isRecord b \<and> wf_json b) bs"

text \<open>What the editor and the browser promise: blocks that are blocks, a width in range, and an identifier that is new.\<close>

fun edit_ok :: "canvas_edit \<Rightarrow> canvas_page \<Rightarrow> bool" where
  "edit_ok (AddBox new x y blocks width) p = (ITEM_ID new \<and> new \<notin> bx_id ` set (cp_boxes p) \<and> blocks_ok blocks \<and> in_range BOX_MIN_WIDTH BOX_MAX_WIDTH width)"
| "edit_ok (UpdateBox i ch) p = (case ch_blocks ch of Some bs \<Rightarrow> blocks_ok bs | None \<Rightarrow> True)"
| "edit_ok _ p = True"

fun edits_ok :: "canvas_edit list \<Rightarrow> canvas_page \<Rightarrow> bool" where
  "edits_ok [] p = True"
| "edits_ok (e # es) p = (edit_ok e p \<and> edits_ok es (canvas_step e p))"

definition saveable :: "canvas_page \<Rightarrow> bool" where
  "saveable p \<longleftrightarrow> page_ok p \<and> list_all editable (cp_boxes p)"

lemma blocks_ok_simps: "blocks_ok bs \<Longrightarrow> bs \<noteq> [] \<and> list_all isRecord bs \<and> list_all wf_json bs"
  by (simp add: blocks_ok_def list_all_iff)

lemma add_saveable:
  assumes "saveable p" "edit_ok (AddBox new x y blocks width) p"
  shows "saveable (canvas_step (AddBox new x y blocks width) p)"
  using assms blocks_ok_simps [of blocks]
  by (auto simp: saveable_def page_ok_def addBox_def box_ok_def editable_def coord_ok)

lemma update_saveable:
  assumes "saveable p" "edit_ok (UpdateBox i ch) p"
  shows "saveable (canvas_step (UpdateBox i ch) p)"
proof -
  have ids: "map (bx_id \<circ> (\<lambda>b. if bx_id b \<noteq> i then b else changed_box ch b)) bs = map bx_id bs" for bs
    by (simp add: changed_box_def)
  have blocks: "blocks_ok bs" if "ch_blocks ch = Some bs" for bs using assms(2) that by simp
  then have "box_ok (changed_box ch b)" "editable (changed_box ch b)" if "box_ok b" "editable b" for b
    using that changed_box_ok [OF that(1), of ch] blocks_ok_simps by (auto simp: editable_def changed_box_def split: option.split)
  with assms(1) show ?thesis by (auto simp: saveable_def page_ok_def updateBox_def ids list_all_iff)
qed

lemma prune_saveable: "saveable p \<Longrightarrow> saveable (canvas_step PruneEmpty p)"
  using keep_filled_sub [of "cp_boxes p"]
  by (auto simp: saveable_def page_ok_def pruneEmpty_def rbind_def list_all_iff subset_iff split: sum.split)

lemma erase_saveable: "saveable p \<Longrightarrow> saveable (canvas_step (EraseAt x y radius) p)"
  by (auto simp: saveable_def page_ok_def eraseAt_def list_all_iff distinct_map_filter intro: le_trans [OF length_filter_le])

lemma step_saveable: "saveable p \<Longrightarrow> edit_ok e p \<Longrightarrow> saveable (canvas_step e p)"
  by (cases e) (simp_all only: add_saveable update_saveable prune_saveable erase_saveable)

lemma edits_saveable: "saveable p \<Longrightarrow> edits_ok es p \<Longrightarrow> saveable (fold canvas_step es p)"
  by (induction es arbitrary: p) (simp_all add: step_saveable)

lemma saveable_reopens: "saveable p \<Longrightarrow> openPage (stringifyCanvasPage p) = (p, None)"
proof -
  assume p: "saveable p"
  then have "map kept_blocks (cp_boxes p) = cp_boxes p" by (intro map_idI) (auto simp: saveable_def list_all_iff kept_blocks_id)
  with p show ?thesis by (simp add: saveable_def reopened)
qed



section \<open>Room\<close>

text \<open>The extent only grows along the loop, so it covers everything the loop has seen.\<close>

definition extent_le :: "rat \<times> rat \<Rightarrow> rat \<times> rat \<Rightarrow> bool" where
  "extent_le a b \<longleftrightarrow> fst a \<le> fst b \<and> snd a \<le> snd b"

lemma extent_steps: "extent_le a (box_extent heights b a)" "extent_le a (point_extent p a)"
  by (auto simp: extent_le_def box_extent_def point_extent_def split: prod.split)

interpretation boxes_extent: rising extent_le "box_extent heights"
  by unfold_locales (auto simp: extent_le_def box_extent_def split: prod.split)

interpretation points_extent: rising extent_le point_extent
  by unfold_locales (auto simp: extent_le_def point_extent_def split: prod.split)

lemma extent_covers_box:
  assumes "b \<in> set (cp_boxes page)"
  shows "num_val (bx_y b) + box_height heights b \<le> snd (contentExtent page heights)" "num_val (bx_x b) + num_val (bx_width b) \<le> fst (contentExtent page heights)"
proof -
  from boxes_extent.fold_above_each [OF assms, of "(0, 0)" heights] obtain t where
    "extent_le (box_extent heights b t) (fold (box_extent heights) (cp_boxes page) (0, 0))" by blast
  moreover have "extent_le \<dots> (contentExtent page heights)" unfolding contentExtent_def by (rule points_extent.fold_up)
  ultimately show "num_val (bx_y b) + box_height heights b \<le> snd (contentExtent page heights)" "num_val (bx_x b) + num_val (bx_width b) \<le> fst (contentExtent page heights)"
    by (auto simp: extent_le_def box_extent_def split: prod.splits)
qed

lemma extent_covers_point:
  assumes "s \<in> set (cp_strokes page)" "pt \<in> set (point_pairs (sk_points s))"
  shows "snd pt \<le> snd (contentExtent page heights)" "fst pt \<le> fst (contentExtent page heights)"
proof -
  from assms have "pt \<in> set (concat (map (\<lambda>s. point_pairs (sk_points s)) (cp_strokes page)))" by auto
  from points_extent.fold_above_each [OF this, of "fold (box_extent heights) (cp_boxes page) (0, 0)"]
  show "snd pt \<le> snd (contentExtent page heights)" "fst pt \<le> fst (contentExtent page heights)"
    by (auto simp: contentExtent_def extent_le_def point_extent_def split: prod.splits)
qed

text \<open>A free spot lies a gap below every box, measured by its drawn height, and below every point of every stroke.\<close>

lemma free_spot_below_all:
  "list_all (\<lambda>b. num_val (bx_y b) + box_height heights b + GAP \<le> snd (freeSpot page heights)) (cp_boxes page) \<and>
   list_all (\<lambda>s. list_all (\<lambda>pt. snd pt + GAP \<le> snd (freeSpot page heights)) (point_pairs (sk_points s))) (cp_strokes page)"
proof -
  have spot: "snd (freeSpot page heights) = snd (contentExtent page heights) + GAP" if "cp_boxes page \<noteq> [] \<or> cp_strokes page \<noteq> []"
    using that by (auto simp: freeSpot_def)
  show ?thesis unfolding list_all_iff
  proof (intro conjI ballI)
    fix b assume b: "b \<in> set (cp_boxes page)"
    then have "cp_boxes page \<noteq> []" by auto
    with spot extent_covers_box(1) [OF b, of heights] show "num_val (bx_y b) + box_height heights b + GAP \<le> snd (freeSpot page heights)" by simp
  next
    fix s pt assume s: "s \<in> set (cp_strokes page)" and pt: "pt \<in> set (point_pairs (sk_points s))"
    then have "cp_strokes page \<noteq> []" by auto
    with spot extent_covers_point(1) [OF s pt, of heights] show "snd pt + GAP \<le> snd (freeSpot page heights)" by simp
  qed
qed

text \<open>In a window with room for the narrowest box, a box placed at a click keeps its resize edge inside, is never narrower than allowed, never
  moves right, and a click inside the window never moves it past the window's left edge.\<close>

lemma fitBox_inside:
  assumes "across > 0" "0 \<le> left" "160 + GAP \<le> across" "160 \<le> wanted" "0 \<le> x" "fitBox x wanted (Some (left, across)) = (x', width)"
  shows "x' + width \<le> left + across - GAP" "160 \<le> width" "width \<le> wanted" "0 \<le> x'" "x' \<le> x" "left \<le> x \<longrightarrow> left \<le> x'"
  using assms by (auto simp: fitBox_def Let_def max_def min_def split: if_splits)

section \<open>Undo and redo\<close>

text \<open>One step of either, as the component uses it: the state shown changes only when there is one to show.\<close>

fun undo_step :: "'a \<times> 'a history \<Rightarrow> 'a \<times> 'a history" where
  "undo_step (current, h) = (case undo current h of (Some s, h') \<Rightarrow> (s, h') | (None, h') \<Rightarrow> (current, h'))"

fun redo_step :: "'a \<times> 'a history \<Rightarrow> 'a \<times> 'a history" where
  "redo_step (current, h) = (case redo current h of (Some s, h') \<Rightarrow> (s, h') | (None, h') \<Rightarrow> (current, h'))"

lemma redo_undo: "past h \<noteq> [] \<Longrightarrow> redo_step (undo_step (current, h)) = (current, h)"
  by (simp add: undo_def redo_def)

lemma undo_redo: "future h \<noteq> [] \<Longrightarrow> undo_step (redo_step (current, h)) = (current, h)"
  by (simp add: undo_def redo_def)

lemma undo_step_past: "length (past (snd (undo_step (current, h)))) = length (past h) - 1"
  by (simp add: undo_def)

text \<open>Undoing any number of remembered steps and redoing as many gives back the state shown and the history, exactly.\<close>

lemma undo_redo_exact: "n \<le> length (past h) \<Longrightarrow> (redo_step ^^ n) ((undo_step ^^ n) (current, h)) = (current, h)"
proof (induction n arbitrary: current h)
  case (Suc n)
  obtain s h' where s: "undo_step (current, h) = (s, h')" by (cases "undo_step (current, h)")
  have past: "past h \<noteq> []" "n \<le> length (past h')" using Suc.prems undo_step_past [of current h] s by auto
  have "(redo_step ^^ Suc n) ((undo_step ^^ Suc n) (current, h)) = redo_step ((redo_step ^^ n) ((undo_step ^^ n) (undo_step (current, h))))"
    by (simp add: funpow_swap1)
  also have "\<dots> = redo_step (undo_step (current, h))" using Suc.IH [OF past(2)] s by simp
  finally show ?case using redo_undo [OF past(1)] by simp
qed simp

datatype 'a history_call = Push 'a | Undo 'a | Redo 'a

fun history_step :: "'a history_call \<Rightarrow> 'a history \<Rightarrow> 'a history" where
  "history_step (Push s) h = push_state s h"
| "history_step (Undo s) h = snd (undo s h)"
| "history_step (Redo s) h = snd (redo s h)"

text \<open>Undoing and redoing only move states between the two stacks, so a history never holds more than the hundred a push leaves.\<close>

lemma history_bounded: "length (past h) + length (future h) \<le> 100 \<Longrightarrow>
    length (past (fold history_step cs h)) + length (future (fold history_step cs h)) \<le> 100"
proof (induction cs arbitrary: h)
  case (Cons c cs)
  have "length (past (history_step c h)) + length (future (history_step c h)) \<le> 100"
    using Cons.prems by (cases c) (auto simp: push_state_def undo_def redo_def Let_def simp flip: length_greater_0_conv)
  from Cons.IH [OF this] show ?case by simp
qed simp

text \<open>The eraser takes exactly the strokes with a point in its reach, and keeps the order of the others.\<close>

lemma eraseAt_exact:
  "s \<in> set (eraseAt strokes x y radius) \<longleftrightarrow>
     s \<in> set strokes \<and> (\<forall>(px, py) \<in> set (point_pairs (sk_points s)). (radius + num_val (sk_size s) / 2)\<^sup>2 < (px - x)\<^sup>2 + (py - y)\<^sup>2)"
  by (auto simp: eraseAt_def reached_def list_ex_iff power2_eq_square not_le Let_def)

interpretation reading: comparator box_above
  by unfold_locales (auto simp: box_above_def)

lemma reading_order_sorted: "sorted_wrt box_above (sort_by box_above boxes)"
  by (rule reading.sorted_sort)

end
