(* ===== verification/Floors.thy ===== *)
theory Floors
  imports Keyring
begin

text \<open>
  The sharing floors of the open tabs (\<open>web/src/floors.ts\<close>). A tab keeps one floor per container it
  has loaded and a minimum per container it has only heard of from other tabs; tabs tell each other
  of every raise over a broadcast channel whose messages are checked like any foreign data.
  \<open>tabs_step\<close> is the interleaving of several tabs and of forged messages. The lemmas: no loaded floor
  ever falls, a message never makes an unknown floor known, and a floor that loads later is at least
  every raise heard before.
\<close>

record tab =
  floors :: "(string, key_floor) dict"
  pending_floors :: "(string, key_floor) dict"

definition empty_tab :: tab where
  "empty_tab = \<lparr>floors = [], pending_floors = []\<rparr>"

definition merge :: "string \<Rightarrow> 'a key_floor_scheme \<Rightarrow> tab \<Rightarrow> tab" where
  "merge containerID floor t =
     (let minimum = map_of (pending_floors t) containerID in
      t\<lparr>floors := AList.update containerID
           (mergeFloor (Some (mergeFloor (map_of (floors t) containerID) floor))
              (case minimum of None \<Rightarrow> NO_FLOOR | Some m \<Rightarrow> m)) (floors t),
        pending_floors := (if minimum = None then pending_floors t else AList.delete containerID (pending_floors t))\<rparr>)"

definition container_pattern :: "string \<Rightarrow> bool" where
  "container_pattern s = prefixed_id ''cnt'' s"

definition count :: "json option \<Rightarrow> int option" where
  "count v = (case num_of v of Some n \<Rightarrow> if safe_integer n \<and> 0 \<le> n then Some n else None | None \<Rightarrow> None)"

text \<open>The data of a message is anything the sender put there; \<open>null\<close> and \<open>undefined\<close> read as no fields.\<close>

definition read_message :: "json \<Rightarrow> (string \<times> key_floor) option" where
  "read_message data =
     (case str_of (field ''containerID'' data) of
        None \<Rightarrow> None
      | Some containerID \<Rightarrow>
          if \<not> container_pattern containerID then None
          else case (count (field ''shared'' data), count (field ''generation'' data)) of
            (Some sh, Some g) \<Rightarrow> Some (containerID, \<lparr>shared = Some sh, generation = Some g\<rparr>)
          | _ \<Rightarrow> None)"

definition hear :: "string \<Rightarrow> key_floor \<Rightarrow> tab \<Rightarrow> tab" where
  "hear containerID floor t =
     (if map_of (floors t) containerID \<noteq> None then merge containerID floor t
      else t\<lparr>pending_floors := AList.update containerID
        (mergeFloor (map_of (pending_floors t) containerID) floor) (pending_floors t)\<rparr>)"

definition onmessage :: "json \<Rightarrow> tab \<Rightarrow> tab" where
  "onmessage data t = (case read_message data of None \<Rightarrow> t | Some (containerID, floor) \<Rightarrow> hear containerID floor t)"

definition floorOf :: "tab \<Rightarrow> string \<Rightarrow> key_floor option" where
  "floorOf t containerID = map_of (floors t) containerID"

definition floor_message :: "string \<Rightarrow> key_floor \<Rightarrow> json" where
  "floor_message containerID floor =
     JObj [(''containerID'', JStr containerID), (''shared'', JNum (or0 (shared floor))), (''generation'', JNum (or0 (generation floor)))]"

text \<open>The second component is the message posted to the other tabs.\<close>

definition raiseFloorIn :: "string \<Rightarrow> 'a key_floor_scheme \<Rightarrow> tab \<Rightarrow> tab \<times> json" where
  "raiseFloorIn containerID floor t =
     (let t' = merge containerID floor t in
      (t', floor_message containerID (the (map_of (floors t') containerID))))"

definition publishFloor :: "string \<Rightarrow> 'a key_floor_scheme \<Rightarrow> bool \<Rightarrow> tab \<Rightarrow> tab \<times> json option" where
  "publishFloor containerID floor loaded t =
     (if loaded \<or> map_of (floors t) containerID \<noteq> None
      then (let (t', m) = raiseFloorIn containerID floor t in (t', Some m)) else (t, None))"

definition clearFloors :: "tab \<Rightarrow> tab" where
  "clearFloors t = empty_tab"

section \<open>One tab\<close>

text \<open>Known stays known, and no field falls; the minimum heard so far is the floor once one is known.\<close>

definition lower_bound :: "tab \<Rightarrow> string \<Rightarrow> key_floor" where
  "lower_bound t c = (case map_of (floors t) c of Some f \<Rightarrow> f
     | None \<Rightarrow> (case map_of (pending_floors t) c of Some f \<Rightarrow> f | None \<Rightarrow> NO_FLOOR))"

definition tab_le :: "tab \<Rightarrow> tab \<Rightarrow> bool" where
  "tab_le s t \<longleftrightarrow> (\<forall>c. floor_le (lower_bound s c) (lower_bound t c) \<and> (floorOf s c \<noteq> None \<longrightarrow> floorOf t c \<noteq> None))"

lemma map_of_delete [simp]: "map_of (AList.delete k d) = (map_of d)(k := None)"
  by (rule AList.delete_conv')

lemma merge_floors:
  "map_of (floors (merge c floor t)) d =
     (if d = c then Some (mergeFloor (Some (mergeFloor (map_of (floors t) c) floor))
        (case map_of (pending_floors t) c of None \<Rightarrow> NO_FLOOR | Some m \<Rightarrow> m)) else map_of (floors t) d)"
  "map_of (pending_floors (merge c floor t)) d = (if d = c then None else map_of (pending_floors t) d)"
  by (auto simp: merge_def Let_def)

lemma mergeFloor_values:
  "or0 (shared (mergeFloor f g)) = max (case f of None \<Rightarrow> 0 | Some h \<Rightarrow> or0 (shared h)) (or0 (shared g))"
  "or0 (generation (mergeFloor f g)) = max (case f of None \<Rightarrow> 0 | Some h \<Rightarrow> or0 (generation h)) (or0 (generation g))"
  by (simp_all add: mergeFloor_def)

lemmas floor_bounds = floor_le_def lower_bound_def NO_FLOOR_def mergeFloor_values

lemma merge_up: "tab_le t (merge c floor t)"
  by (auto simp: tab_le_def floorOf_def merge_floors floor_bounds split: option.splits)

lemma hear_up: "tab_le t (hear c floor t)"
  using merge_up [of t c floor]
  by (auto simp: hear_def tab_le_def floorOf_def floor_bounds split: option.splits)

lemma merge_covers: "floor_le floor (lower_bound (merge c floor t) c)"
  by (auto simp: merge_floors floor_bounds split: option.splits)

lemma hear_covers: "floor_le floor (lower_bound (hear c floor t) c)"
  using merge_covers [of floor c t] by (auto simp: hear_def floor_bounds split: option.splits)

lemma hear_keeps_unknown: "floorOf (hear c floor t) d = None \<longleftrightarrow> floorOf t d = None"
  by (auto simp: hear_def floorOf_def merge_floors)

text \<open>What a tab does short of signing out.\<close>

datatype tab_event =
    Publish string key_floor bool
  | Hear json

fun tab_step :: "tab_event \<Rightarrow> tab \<Rightarrow> tab" where
  "tab_step (Publish c floor loaded) t = fst (publishFloor c floor loaded t)"
| "tab_step (Hear data) t = onmessage data t"

lemma tab_le_trans: "tab_le s t \<Longrightarrow> tab_le t u \<Longrightarrow> tab_le s u"
  by (meson floor_le_trans tab_le_def)

lemma tab_step_up: "tab_le t (tab_step e t)"
proof (cases e)
  case (Publish c floor loaded)
  then show ?thesis
    using merge_up [of t c floor] by (auto simp: publishFloor_def raiseFloorIn_def Let_def tab_le_def)
next
  case (Hear data)
  then show ?thesis
    using hear_up by (auto simp: onmessage_def tab_le_def split: option.splits)
qed

interpretation tab_rises: rising tab_le tab_step
proof unfold_locales
  show "tab_le s s" for s by (simp add: tab_le_def)
  show "tab_le s u" if "tab_le s t" "tab_le t u" for s t u using that by (rule tab_le_trans)
  show "tab_le s (tab_step e s)" for s e by (rule tab_step_up)
qed

section \<open>Several tabs\<close>

text \<open>
  The tabs of one origin and the messages in flight to each. A message leaves for all other tabs and arrives in any order;
  \<open>Forge\<close> puts any data in flight, which is what a foreign script of the origin could do.
\<close>

record tabs =
  tab_of :: "nat \<Rightarrow> tab"
  inflight :: "(nat \<times> json) set"

inductive tabs_step :: "tabs \<Rightarrow> tabs \<Rightarrow> bool" where
  Raise: "publishFloor c (floor :: key_floor) loaded (tab_of w i) = (t, m) \<Longrightarrow>
     tabs_step w \<lparr>tab_of = (tab_of w)(i := t), inflight = inflight w \<union> (case m of None \<Rightarrow> {} | Some d \<Rightarrow> {(j, d) | j. j \<noteq> i})\<rparr>"
| Deliver: "(i, d) \<in> inflight w \<Longrightarrow>
     tabs_step w \<lparr>tab_of = (tab_of w)(i := onmessage d (tab_of w i)), inflight = inflight w - {(i, d)}\<rparr>"
| Forge: "tabs_step w (w\<lparr>inflight := insert (i, d) (inflight w)\<rparr>)"

inductive_cases tabs_stepE: "tabs_step w w'"

lemma tabs_step_up:
  assumes "tabs_step w w'"
  shows "tab_le (tab_of w i) (tab_of w' i)"
  using assms
proof (induction rule: tabs_step.induct)
  case (Raise c floor loaded w j t m)
  then have "t = tab_step (Publish c floor loaded) (tab_of w j)" by simp
  with Raise tab_step_up [of "tab_of w j" "Publish c floor loaded"] show ?case
    by (auto simp: tab_rises.le_refl)
next
  case (Deliver j d w)
  with tab_step_up [of "tab_of w j" "Hear d"] show ?case by (auto simp: tab_rises.le_refl)
qed (simp_all add: tab_rises.le_refl)

lemma tabs_steps_up: "tabs_step\<^sup>*\<^sup>* w w' \<Longrightarrow> tab_le (tab_of w i) (tab_of w' i)"
  by (induction rule: rtranclp_induct) (auto intro: tab_rises.le_refl tab_le_trans tabs_step_up)

section \<open>Properties\<close>

text \<open>C31: whatever tabs of the browser do and hear, in any order and with any forged messages, a floor a tab has loaded
  stays loaded and never falls.\<close>

theorem floors_never_fall:
  assumes "tabs_step\<^sup>*\<^sup>* w w'" "floorOf (tab_of w i) c = Some f"
  shows "\<exists>f'. floorOf (tab_of w' i) c = Some f' \<and> or0 (shared f) \<le> or0 (shared f') \<and> or0 (generation f) \<le> or0 (generation f')"
proof -
  have "tab_le (tab_of w i) (tab_of w' i)" using assms(1) by (rule tabs_steps_up)
  then obtain f' where "floorOf (tab_of w' i) c = Some f'" "floor_le (lower_bound (tab_of w i) c) (lower_bound (tab_of w' i) c)"
    using assms(2) by (auto simp: tab_le_def)
  with assms(2) show ?thesis by (auto simp: floorOf_def lower_bound_def floor_le_def)
qed

theorem floors_never_fall_witness:
  "\<exists>f'. floorOf (tab_of (\<lparr>tab_of = (\<lambda>_. \<lparr>floors = [(''c'', \<lparr>shared = Some 1, generation = Some 2\<rparr>)], pending_floors = []\<rparr>), inflight = {(0, JNull)}\<rparr>) 0) ''c'' = Some f'
    \<and> or0 (shared \<lparr>shared = Some 1, generation = Some 2\<rparr>) \<le> or0 (shared f')
    \<and> or0 (generation \<lparr>shared = Some 1, generation = Some 2\<rparr>) \<le> or0 (generation f')"
proof (rule floors_never_fall [of "\<lparr>tab_of = (\<lambda>_. \<lparr>floors = [(''c'', \<lparr>shared = Some 1, generation = Some 2\<rparr>)], pending_floors = []\<rparr>), inflight = {}\<rparr>"])
  show "tabs_step\<^sup>*\<^sup>* \<lparr>tab_of = (\<lambda>_. \<lparr>floors = [(''c'', \<lparr>shared = Some 1, generation = Some 2\<rparr>)], pending_floors = []\<rparr>), inflight = {}\<rparr>
    \<lparr>tab_of = (\<lambda>_. \<lparr>floors = [(''c'', \<lparr>shared = Some 1, generation = Some 2\<rparr>)], pending_floors = []\<rparr>), inflight = {(0, JNull)}\<rparr>"
    using tabs_step.Forge [of "\<lparr>tab_of = (\<lambda>_. \<lparr>floors = [(''c'', \<lparr>shared = Some 1, generation = Some 2\<rparr>)], pending_floors = []\<rparr>), inflight = {}\<rparr>" 0 JNull]
    by auto
qed (simp add: floorOf_def)

text \<open>A message from another tab never makes an unknown floor known, and a floor that is loaded afterwards is at
  least as high as the message said.\<close>

lemma messages_only_raise:
  assumes "read_message data = Some (c, heard)"
  shows "(floorOf (onmessage data t) d = None \<longleftrightarrow> floorOf t d = None) \<and>
    floor_le heard (the (floorOf (fst (publishFloor c floor True (fold tab_step later (onmessage data t)))) c))"
proof
  show "floorOf (onmessage data t) d = None \<longleftrightarrow> floorOf t d = None"
    using assms by (simp add: onmessage_def hear_keeps_unknown)
  let ?s = "fold tab_step later (onmessage data t)"
  have "floor_le heard (lower_bound (onmessage data t) c)" using assms by (simp add: onmessage_def hear_covers)
  then have "floor_le heard (lower_bound ?s c)"
    using tab_rises.fold_up [of "onmessage data t" later] by (auto simp: tab_le_def intro: floor_le_trans)
  then have "floor_le heard (lower_bound (merge c floor ?s) c)"
    using merge_up [of ?s c floor] by (auto simp: tab_le_def intro: floor_le_trans)
  moreover have "floorOf (merge c floor ?s) c = Some (lower_bound (merge c floor ?s) c)"
    by (simp add: floorOf_def lower_bound_def merge_floors)
  ultimately show "floor_le heard (the (floorOf (fst (publishFloor c floor True ?s)) c))"
    by (simp add: publishFloor_def raiseFloorIn_def Let_def)
qed

end
