(* ===== verification/Observe.thy ===== *)
theory Observe
  imports Floors Trace
begin

text \<open>
  Observing what the server reports (\<open>web/src/observe.ts\<close>) and what a waiting notebook says about it (\<open>web/src/keyNotices.ts\<close>).
  Every container row passes \<open>observeContainer\<close> before it is used: its generations raise the floor of this tab and of the
  device. While it waits, other tabs may send messages; the outside says which have arrived. The property: whatever the store answers and
  other tabs send, the row is returned, no floor of the tab falls, and the tab's floor covers the report as soon as it is known.
\<close>

section \<open>The world\<close>

record reported =
  rp_id :: string
  rp_keyGeneration :: "int option"
  rp_sharedGeneration :: "int option"

datatype observe_event =
    Posted json
  | Saving string key_floor

record 'o observe_world = "('o, observe_event) traced" +
  ob_tab :: tab

text \<open>\<open>fs_heard\<close>: the messages of other tabs delivered during the last wait. A key state saved here has no mark and no digests.\<close>

record 'o floor_sink =
  fs_load :: "string \<Rightarrow> ('o, key_floor) io"
  fs_save :: "string \<Rightarrow> key_floor \<Rightarrow> ('o, bool) io"
  fs_heard :: "'o \<Rightarrow> json list"

definition await :: "'o floor_sink \<Rightarrow> ('o, 'a) io \<Rightarrow> ('o observe_world, 'a) io" where
  "await sink m w =
     (let (r, w1) = call m w in (r, w1\<lparr>ob_tab := fold (\<lambda>data. tab_step (Hear data)) (fs_heard sink (t_outside w1)) (ob_tab w1)\<rparr>))"

definition publish :: "string \<Rightarrow> key_floor \<Rightarrow> bool \<Rightarrow> ('o observe_world, unit) io" where
  "publish containerID floor loaded w =
     (let (t, message) = publishFloor containerID floor loaded (ob_tab w) in
      (Inr (), w\<lparr>ob_tab := t, t_log := t_log w @ (case message of Some m \<Rightarrow> [Posted m] | None \<Rightarrow> [])\<rparr>))"

section \<open>Observing\<close>

definition seen_floor :: "reported \<Rightarrow> key_floor" where
  "seen_floor c = \<lparr>shared = Some (or0 (rp_sharedGeneration c)), generation = Some (or0 (rp_keyGeneration c))\<rparr>"

definition load_stored :: "'o floor_sink \<Rightarrow> string \<Rightarrow> ('o observe_world, key_floor option) io" where
  "load_stored sink i = catch_io (bind_io (await sink (fs_load sink i)) (\<lambda>f. ret (Some f))) (\<lambda>_. ret None)"

definition needs_save :: "key_floor option \<Rightarrow> key_floor \<Rightarrow> bool" where
  "needs_save stored floor =
     (case stored of
        None \<Rightarrow> True
      | Some f \<Rightarrow> or0 (shared floor) \<noteq> or0 (shared f) \<or> or0 (generation floor) \<noteq> or0 (generation f))"

definition save_seen :: "'o floor_sink \<Rightarrow> string \<Rightarrow> key_floor \<Rightarrow> ('o observe_world, bool) io" where
  "save_seen sink i seen = catch_io (bind_io (log_event (Saving i seen)) (\<lambda>_. await sink (fs_save sink i seen))) (\<lambda>_. ret False)"

definition observeContainer :: "'o floor_sink \<Rightarrow> reported \<Rightarrow> ('o observe_world, reported) io" where
  "observeContainer sink container =
     bind_io (load_stored sink (rp_id container)) (\<lambda>stored.
       let floor = mergeFloor stored (seen_floor container) in
       bind_io (publish (rp_id container) floor (stored \<noteq> None)) (\<lambda>_.
       bind_io (if needs_save stored floor then save_seen sink (rp_id container) (seen_floor container) else ret True) (\<lambda>_.
         ret container)))"

definition newContainer :: "'o floor_sink \<Rightarrow> ('o, reported) io \<Rightarrow> ('o observe_world, reported) io" where
  "newContainer sink create = bind_io (await sink create) (observeContainer sink)"

definition NOT_CREATED :: js_error where
  "NOT_CREATED = Error ''The notebook could not get its own key, so it was not created. Try again.''"

definition createKeyed :: "('w, 'c) io \<Rightarrow> ('c \<Rightarrow> ('w, 'c) io) \<Rightarrow> ('c \<Rightarrow> string) \<Rightarrow> (string \<Rightarrow> ('w, unit) io) \<Rightarrow> ('w, 'c) io" where
  "createKeyed create setUp ident remove =
     bind_io create (\<lambda>created.
       catch_io (setUp created) (\<lambda>error.
         bind_io (catch_io (bind_io (remove (ident created)) (\<lambda>_. ret True)) (\<lambda>_. ret False)) (\<lambda>removed.
           throw (if removed then NOT_CREATED else error))))"

section \<open>Properties\<close>

lemma wp_await:
  "wp (await sink m) Q E w \<longleftrightarrow> (\<forall>r out. m (t_outside w) = (r, out) \<longrightarrow>
     (let w' = w\<lparr>t_outside := out, ob_tab := fold (\<lambda>data. tab_step (Hear data)) (fs_heard sink out) (ob_tab w)\<rparr> in
      case r of Inr x \<Rightarrow> Q x w' | Inl e \<Rightarrow> E e w'))"
  by (auto simp: wp_def await_def call_def Let_def split: prod.splits sum.splits)

lemma wp_publish: "wp (publish i f loaded) Q E w = Q () (snd (publish i f loaded w))"
  by (simp add: wp_def publish_def Let_def split: prod.split)

lemma heard_up: "tab_le t (fold (\<lambda>data. tab_step (Hear data)) ds t)"
  using tab_rises.fold_up [of t "map Hear ds"] by (simp add: fold_map comp_def)

lemma publish_tab: "ob_tab (snd (publish i f loaded w)) = tab_step (Publish i f loaded) (ob_tab w)"
  by (simp add: publish_def Let_def split: prod.split)

text \<open>What a tab knows of a container, once its floor is known, covers \<open>f\<close>.\<close>

definition covers :: "tab \<Rightarrow> string \<Rightarrow> key_floor \<Rightarrow> bool" where
  "covers t c f \<longleftrightarrow> (\<exists>g. floorOf t c = Some g \<and> floor_le f g)"

lemma covers_mono: "covers s c f \<Longrightarrow> tab_le s t \<Longrightarrow> covers t c f"
proof -
  assume "covers s c f" and le: "tab_le s t"
  then obtain g where g: "floorOf s c = Some g" "floor_le f g" by (auto simp: covers_def)
  from le g(1) obtain g' where g': "floorOf t c = Some g'" by (auto simp: tab_le_def)
  from le have "floor_le (lower_bound s c) (lower_bound t c)" by (simp add: tab_le_def)
  with g g' have "floor_le f g'" by (auto simp: floorOf_def lower_bound_def intro: floor_le_trans)
  with g' show ?thesis by (auto simp: covers_def)
qed

lemma publish_covers:
  assumes "loaded \<or> floorOf t c \<noteq> None" "floor_le f g"
  shows "covers (tab_step (Publish c g loaded) t) c f"
proof -
  have "tab_step (Publish c g loaded) t = merge c g t"
    using assms(1) by (auto simp: publishFloor_def raiseFloorIn_def floorOf_def Let_def)
  moreover have "floorOf (merge c g t) c = Some (lower_bound (merge c g t) c)" by (simp add: floorOf_def lower_bound_def merge_floors)
  ultimately show ?thesis using merge_covers [of g c t] assms(2) by (auto simp: covers_def intro: floor_le_trans)
qed

lemma load_stored_wp:
  "wp (load_stored sink i) (\<lambda>stored w'. tab_le (ob_tab w) (ob_tab w') \<and> t_log w' = t_log w) (\<lambda>_ _. False) w"
  by (auto simp: load_stored_def wps wp_await heard_up Let_def simp del: io_simps split: sum.split)

lemma save_seen_wp:
  "wp (save_seen sink i f) (\<lambda>_ w'. tab_le (ob_tab w) (ob_tab w') \<and> Saving i f \<in> set (t_log w')) (\<lambda>_ _. False) w"
  by (auto simp: save_seen_def wps wp_await heard_up Let_def simp del: io_simps split: sum.split)

definition observed :: "reported \<Rightarrow> 'o observe_world \<Rightarrow> 'o observe_world \<Rightarrow> bool" where
  "observed c w w' \<longleftrightarrow> tab_le (ob_tab w) (ob_tab w') \<and>
     (covers (ob_tab w') (rp_id c) (seen_floor c) \<or> (floorOf (ob_tab w) (rp_id c) = None \<and> Saving (rp_id c) (seen_floor c) \<in> set (t_log w')))"

lemma seen_below_merge: "floor_le (seen_floor c) (mergeFloor stored (seen_floor c))"
  by (rule mergeFloor_up(1))

lemma observe_rest:
  assumes "tab_le (ob_tab w0) (ob_tab w)"
  shows "wp (bind_io (publish (rp_id c) (mergeFloor stored (seen_floor c)) (stored \<noteq> None)) (\<lambda>_.
       bind_io (if needs_save stored (mergeFloor stored (seen_floor c)) then save_seen sink (rp_id c) (seen_floor c) else ret True) (\<lambda>_. ret c)))
     (\<lambda>r w'. r = c \<and> observed c w0 w') (\<lambda>_ _. False) w"
proof -
  let ?f = "mergeFloor stored (seen_floor c)"
  let ?w = "snd (publish (rp_id c) ?f (stored \<noteq> None) w)"
  have up: "tab_le (ob_tab w0) (ob_tab ?w)" using assms tab_step_up tab_le_trans unfolding publish_tab by blast
  have known: "covers (ob_tab ?w) (rp_id c) (seen_floor c)" if "stored \<noteq> None \<or> floorOf (ob_tab w0) (rp_id c) \<noteq> None"
  proof -
    have "stored \<noteq> None \<or> floorOf (ob_tab w) (rp_id c) \<noteq> None" using that assms by (auto simp: tab_le_def)
    then show ?thesis unfolding publish_tab by (intro publish_covers seen_below_merge)
  qed
  have saved: "wp (save_seen sink (rp_id c) (seen_floor c)) (\<lambda>_. observed c w0) (\<lambda>_ _. False) ?w"
    using up known covers_mono by (intro wp_mono [OF save_seen_wp]) (auto simp: observed_def intro: tab_le_trans)
  have unsaved: "observed c w0 ?w" if "\<not> needs_save stored ?f"
    using that up known by (auto simp: observed_def needs_save_def split: option.splits)
  show ?thesis using wp_mono [OF saved] unsaved by (simp add: wp_bind wp_publish wp_if wp_ret del: io_simps)
qed

text \<open>C32: whatever the store answers and other tabs send meanwhile, observing a container row returns that row; no floor of the tab falls; and afterwards the tab's floor covers the
  reported generations, unless it is not known, and then they were handed to the store.\<close>

theorem observe_raises_floor:
  "fst (observeContainer sink c w) = Inr c \<and> observed c w (snd (observeContainer sink c w))"
proof -
  have "wp (observeContainer sink c) (\<lambda>r w'. r = c \<and> observed c w w') (\<lambda>_ _. False) w"
    unfolding observeContainer_def wp_bind [of "load_stored sink (rp_id c)"] Let_def
    by (rule wp_mono [OF load_stored_wp]) (rule observe_rest, simp_all)
  then show ?thesis by (auto simp: wp_def split: prod.splits sum.splits)
qed

text \<open>A container whose set-up failed is never left behind silently: either its removal succeeded and the error says it was not created, or the
  set-up's own error stands.\<close>

lemma createKeyed_fails:
  assumes "create w = (Inr c, w1)" "setUp c w1 = (Inl e, w2)" "remove (ident c) w2 = (r, w3)"
  shows "createKeyed create setUp ident remove w = (Inl (case r of Inr _ \<Rightarrow> NOT_CREATED | Inl _ \<Rightarrow> e), w3)"
  using assms by (simp add: createKeyed_def bind_io_def catch_io_def split: sum.split)

section \<open>Notices\<close>

definition stewardOf :: "(string \<times> string) list option \<Rightarrow> string \<Rightarrow> bool option" where
  "stewardOf members me =
     map_option (\<lambda>ms. case find (\<lambda>m. fst m = me) ms of Some m \<Rightarrow> isSteward (snd m) | None \<Rightarrow> False) members"

datatype notice_action = Ask | Settings

definition WAITING :: string where "WAITING = ''This notebook is read-only until its keys reach this browser.''"
definition UNRECOVERABLE :: string where "UNRECOVERABLE = ''This notebook gets its own key once your encryption key can be recovered. Save a recovery code in Settings first.''"
definition STEWARD_NO_KEY :: string where "STEWARD_NO_KEY = ''This notebook is read-only here: this browser does not hold your encryption key. Link it, or restore your key with your recovery code, in Settings.''"
definition STEWARD_SHARED :: string where "STEWARD_SHARED = ''This notebook is read-only until another owner's browser shares its current key with you.''"
definition STEWARD_UNKEYED :: string where "STEWARD_UNKEYED = ''This notebook is read-only until its key is set up. Reopen it to try again.''"

definition waitingNotice :: "bool option \<Rightarrow> bool \<Rightarrow> bool \<Rightarrow> bool \<Rightarrow> string \<times> notice_action option" where
  "waitingNotice steward held recoverable is_shared =
     (if steward = None then (WAITING, None)
      else if steward = Some False then (WAITING, Some Ask)
      else if \<not> held then (STEWARD_NO_KEY, Some Settings)
      else if is_shared then (STEWARD_SHARED, Some Ask)
      else if recoverable then (STEWARD_UNKEYED, None) else (UNRECOVERABLE, Some Settings))"

text \<open>Only a member who cannot set keys up, or a steward whose key another steward holds, is told to ask; a steward without a key is sent to the settings.\<close>

lemma waitingNotice_asks:
  "snd (waitingNotice (stewardOf members me) held recoverable is_shared) = Some Ask \<longleftrightarrow>
     stewardOf members me = Some False \<or> stewardOf members me = Some True \<and> held \<and> is_shared"
  by (auto simp: waitingNotice_def)

end
