(* ===== verification/Order.thy ===== *)
theory Order
  imports Bytes
begin

text \<open>
  Fractional order keys (\<open>web/src/order.ts\<close>): base-36 fractions compared as plain strings.
  \<open>keyBetween\<close> is the digit loop of the source, its termination a proof; the main lemmas are
  that between two keys in order it returns a key strictly between them which again does not
  end in \<open>0\<close>, that the key is at most one digit longer than its neighbours, and that the two
  errors are exactly the neighbours being out of order and the 512-character limit.
  The locale \<open>key_supply\<close> is what the page and section lists rely on when they number a
  list with successive keys; it is interpreted on \<open>keyBetween\<close> at an open end and below a bound.
\<close>

section \<open>Digits\<close>

definition DIGITS :: string where
  "DIGITS = ''0123456789abcdefghijklmnopqrstuvwxyz''"

definition MAX_ORDER_KEY :: nat where
  "MAX_ORDER_KEY = 512"

text \<open>\<open>DIGITS.indexOf\<close>, -1 when absent (also for \<open>undefined\<close> past the end), and \<open>DIGITS[n]\<close>
  appended to a string, which is \<open>undefined\<close> out of range.\<close>

definition digit_index :: "char \<Rightarrow> int" where
  "digit_index c = (case index_from 0 c DIGITS of None \<Rightarrow> -1 | Some n \<Rightarrow> int n)"

definition digit_at :: "int \<Rightarrow> string" where
  "digit_at n = (if 0 \<le> n \<and> n < 36 then [DIGITS ! nat n] else ''undefined'')"

definition isOrderKey :: "string \<Rightarrow> bool" where
  "isOrderKey s = (length s \<le> MAX_ORDER_KEY \<and> s \<noteq> [] \<and> list_all (\<lambda>c. c \<in> set DIGITS) s \<and> last s \<noteq> CHR ''0'')"

definition low_digit :: "string \<Rightarrow> nat \<Rightarrow> int" where
  "low_digit a i = (if i < length a then digit_index (a ! i) else 0)"

definition high_digit :: "string option \<Rightarrow> nat \<Rightarrow> int" where
  "high_digit b i = (case b of None \<Rightarrow> 36 | Some s \<Rightarrow> if i < length s then digit_index (s ! i) else -1)"

definition pick_digit :: "string option \<Rightarrow> string option \<Rightarrow> int \<Rightarrow> int \<Rightarrow> int" where
  "pick_digit before after low high =
     (if before \<noteq> None \<and> after = None then low + 1
      else if before = None \<and> after \<noteq> None then high - 1
      else (low + high) div 2)"

lemma digit_index_less: "digit_index c < 36"
proof -
  have "index_from i c ds = Some n \<Longrightarrow> n < i + length ds" for i n ds
    by (induction ds arbitrary: i) (fastforce split: if_splits)+
  from this [of 0 DIGITS] show ?thesis
    by (auto simp: digit_index_def DIGITS_def split: option.splits)
qed

lemma low_digit_less: "low_digit a i < 36"
  by (simp add: low_digit_def digit_index_less)

definition limit_key :: "string \<Rightarrow> string result" where
  "limit_key key = (if MAX_ORDER_KEY < length key then Inl (Error ''order key limit reached'') else Inr key)"

text \<open>The loop ends: past both strings the digits differ, and past \<open>a\<close> with an open end a digit fits.\<close>

lemma loop_same_progress: "low_digit a i = high_digit b i \<Longrightarrow>
  i < max (length a) (case b of None \<Rightarrow> 0 | Some s \<Rightarrow> length s)"
  using low_digit_less [of a i]
  by (auto simp: low_digit_def high_digit_def max_def split: option.splits if_splits)

lemma pick_open_end: "low_digit a i < pick_digit before after (low_digit a i) 36 \<and>
    pick_digit before after (low_digit a i) 36 < 36 \<or> i < length a"
  by (auto simp: low_digit_def pick_digit_def)

function keyBetween_loop ::
  "string option \<Rightarrow> string option \<Rightarrow> string \<Rightarrow> string option \<Rightarrow> nat \<Rightarrow> string \<Rightarrow> string result" where
  "keyBetween_loop before after a b i out =
     (let low = low_digit a i; high = high_digit b i in
      if low = high then keyBetween_loop before after a b (Suc i) (out @ digit_at low)
      else let pick = pick_digit before after low high in
        if low < pick \<and> pick < high then
          limit_key (out @ digit_at pick)
        else keyBetween_loop before after a None (Suc i) (out @ digit_at low))"
  by pat_completeness auto

termination
proof (relation "measures [\<lambda>(_, _, a, b, _, _). if b = None then 0 else 1,
    \<lambda>(_, _, a, b, i, _). Suc (max (length a) (case b of None \<Rightarrow> 0 | Some s \<Rightarrow> length s)) - i]",
    goal_cases)
  case 1
  then show ?case by simp
next
  case (2 before after a b i out low high)
  then show ?case using loop_same_progress [of a i b] by (auto split: option.splits)
next
  case (3 before after a b i out low high pick)
  then show ?case using pick_open_end [of a i before after]
    by (cases b) (auto simp: high_digit_def)
qed

declare keyBetween_loop.simps [simp del]

definition keyBetween :: "string option \<Rightarrow> string option \<Rightarrow> string result" where
  "keyBetween before after =
     (let a = (case before of None \<Rightarrow> [] | Some s \<Rightarrow> s) in
      if (case after of None \<Rightarrow> False | Some b \<Rightarrow> b \<le> a) then Inl (Error ''order keys out of order'')
      else keyBetween_loop before after a after 0 [])"

section \<open>Digits and order\<close>

lemma length_DIGITS [simp]: "length DIGITS = 36"
  by (simp add: DIGITS_def)

lemma sorted_DIGITS: "sorted_wrt (<) DIGITS"
  unfolding DIGITS_def by code_simp

lemma distinct_DIGITS: "distinct DIGITS"
  using sorted_DIGITS by (simp add: strict_sorted_iff)

lemma digit_index_nth [simp]: "n < 36 \<Longrightarrow> digit_index (DIGITS ! n) = int n"
  by (simp add: digit_index_def index_from_nth [OF distinct_DIGITS])

lemma digit_index_range: "c \<in> set DIGITS \<Longrightarrow> 0 \<le> digit_index c \<and> digit_index c < 36"
  by (auto simp: in_set_conv_nth)

lemma digit_at_index [simp]: "c \<in> set DIGITS \<Longrightarrow> digit_at (digit_index c) = [c]"
  by (auto simp: in_set_conv_nth digit_at_def)

lemma digit_index_less_iff:
  "c \<in> set DIGITS \<Longrightarrow> d \<in> set DIGITS \<Longrightarrow> digit_index c < digit_index d \<longleftrightarrow> c < d"
  using sorted_wrt_nth_less [OF sorted_DIGITS]
  by (auto simp: in_set_conv_nth) (metis length_DIGITS less_asym' linorder_neqE_nat)

lemma digit_index_eq_iff:
  "c \<in> set DIGITS \<Longrightarrow> d \<in> set DIGITS \<Longrightarrow> digit_index c = digit_index d \<longleftrightarrow> c = d"
  by (metis digit_at_index list.inject)

lemma digit_at_in_range:
  assumes "0 \<le> n" "n < 36"
  obtains d where "digit_at n = [d]" "d \<in> set DIGITS" "digit_index d = n"
  using assms that [of "DIGITS ! nat n"] by (simp add: digit_at_def)

lemma digit_zero [simp]: "digit_index (CHR ''0'') = 0" "CHR ''0'' \<in> set DIGITS"
  by (simp_all add: DIGITS_def digit_index_def)

section \<open>What the loop returns\<close>

abbreviation digits :: "string \<Rightarrow> bool" where
  "digits s \<equiv> list_all (\<lambda>c. c \<in> set DIGITS) s"

text \<open>\<open>x\<close> lies strictly above \<open>a\<close> and strictly below \<open>b\<close> (no bound when \<open>b\<close> is absent).\<close>

definition strictly_between :: "string \<Rightarrow> string option \<Rightarrow> string \<Rightarrow> bool" where
  "strictly_between a b x \<longleftrightarrow> a < x \<and> (\<forall>s. b = Some s \<longrightarrow> x < s)"

definition open_interval :: "string \<Rightarrow> string option \<Rightarrow> bool" where
  "open_interval a b \<longleftrightarrow> digits a \<and>
     (\<forall>s. b = Some s \<longrightarrow> digits s \<and> a < s \<and> last s \<noteq> CHR ''0'')"

definition good_suffix :: "string \<Rightarrow> bool" where
  "good_suffix s \<longleftrightarrow> s \<noteq> [] \<and> digits s \<and> last s \<noteq> CHR ''0''"

lemma low_digit_drop: "low_digit a i = low_digit (drop i a) 0"
  by (simp add: low_digit_def)

lemma high_digit_drop: "high_digit b i = high_digit (map_option (drop i) b) 0"
  by (simp add: high_digit_def split: option.splits)

lemma good_suffix_single: "0 < n \<Longrightarrow> n < 36 \<Longrightarrow> good_suffix (digit_at n)"
  by (rule digit_at_in_range [of n]) (auto simp: good_suffix_def)

lemma good_suffix_Cons: "d \<in> set DIGITS \<Longrightarrow> good_suffix s \<Longrightarrow> good_suffix (d # s)"
  by (auto simp: good_suffix_def)

lemma low_digit_0: "low_digit [] 0 = 0" "low_digit (c # a) 0 = digit_index c"
  by (simp_all add: low_digit_def)

lemma high_digit_0: "high_digit None 0 = 36" "high_digit (Some (c # s)) 0 = digit_index c"
  by (simp_all add: high_digit_def)

text \<open>One digit of the loop: the digit kept, and the interval that is left.\<close>

lemma keep_digit:
  assumes "digits a"
  obtains d where "digit_at (low_digit a 0) = [d]" "d \<in> set DIGITS" "digit_index d = low_digit a 0"
    "\<And>s. tl a < s \<Longrightarrow> a < d # s"
proof (cases a)
  case Nil
  have "digit_at 0 = [CHR ''0'']" using digit_at_index [of "CHR ''0''"] by simp
  with Nil show ?thesis by (intro that [of "CHR ''0''"]) (simp_all add: low_digit_0)
next
  case (Cons c r)
  with assms show ?thesis by (intro that [of c]) (simp_all add: low_digit_0)
qed

lemma interval_low_le_high:
  assumes "open_interval a b"
  shows "low_digit a 0 \<le> high_digit b 0"
proof (cases b)
  case None
  then show ?thesis using low_digit_less [of a 0] by (simp add: high_digit_0)
next
  case (Some s)
  with assms obtain d r where s: "s = d # r" by (cases s) (auto simp: open_interval_def)
  with Some assms have d: "d \<in> set DIGITS" by (simp add: open_interval_def)
  show ?thesis
  proof (cases a)
    case Nil
    with Some s d digit_index_range show ?thesis by (simp add: low_digit_0 high_digit_0)
  next
    case (Cons c q)
    with Some s assms have "c \<in> set DIGITS" "c \<le> d" by (auto simp: open_interval_def)
    with Cons Some s d digit_index_less_iff [of d c] show ?thesis
      by (simp add: low_digit_0 high_digit_0 not_less [symmetric])
  qed
qed

lemma interval_same_digit:
  assumes "open_interval a b" "low_digit a 0 = high_digit b 0"
  shows "open_interval (tl a) (map_option tl b)"
    and "\<And>d s. digit_index d = low_digit a 0 \<Longrightarrow> d \<in> set DIGITS \<Longrightarrow>
      (\<forall>r. map_option tl b = Some r \<longrightarrow> s < r) \<Longrightarrow> (\<forall>r. b = Some r \<longrightarrow> d # s < r)"
proof -
  from assms(2) obtain t where b: "b = Some t"
    using low_digit_less [of a 0] by (cases b) (auto simp: high_digit_0)
  with assms(1) obtain e r where t: "t = e # r" by (cases t) (auto simp: open_interval_def)
  with b assms have e: "e \<in> set DIGITS" "digit_index e = low_digit a 0" "digits r" "digits a"
    "last t \<noteq> CHR ''0''" "a < t"
    by (simp_all add: open_interval_def high_digit_0)
  have "tl a < r \<and> r \<noteq> []"
  proof (cases a)
    case Nil
    with e have "e = CHR ''0''" using digit_index_eq_iff [of e "CHR ''0''"] by (simp add: low_digit_0)
    with e t Nil show ?thesis by (cases r) auto
  next
    case (Cons c q)
    with e have "c = e" using digit_index_eq_iff [of c e] by (simp add: low_digit_0)
    with e t Cons show ?thesis by (cases r) auto
  qed
  with b t e show "open_interval (tl a) (map_option tl b)"
    by (cases a) (auto simp: open_interval_def)
  show "\<And>d s. digit_index d = low_digit a 0 \<Longrightarrow> d \<in> set DIGITS \<Longrightarrow>
      (\<forall>r. map_option tl b = Some r \<longrightarrow> s < r) \<Longrightarrow> (\<forall>r. b = Some r \<longrightarrow> d # s < r)"
    using b t e by (auto simp: digit_index_eq_iff [of _ e, THEN iffD1])
qed

lemma below_high_digit:
  assumes "open_interval a b" "digit_index d < high_digit b 0" "d \<in> set DIGITS"
  shows "\<forall>r. b = Some r \<longrightarrow> d # s < r"
proof (intro allI impI)
  fix r assume b: "b = Some r"
  with assms(1) obtain e q where r: "r = e # q" by (cases r) (auto simp: open_interval_def)
  with b assms have "e \<in> set DIGITS" by (simp add: open_interval_def)
  with assms b r show "d # s < r" using digit_index_less_iff [of d e] by (simp add: high_digit_0)
qed

lemma drop_Suc_tl: "drop (Suc i) xs = tl (drop i xs)"
  by (simp add: drop_Suc tl_drop)

lemma between_same:
  assumes "open_interval a b" "low_digit a 0 = high_digit b 0"
    and "digit_at (low_digit a 0) = [d]" "strictly_between (tl a) (map_option tl b) s"
  shows "strictly_between a b (d # s)"
proof -
  from assms(1) obtain e where "digit_at (low_digit a 0) = [e]" "e \<in> set DIGITS"
    "digit_index e = low_digit a 0" "\<And>s. tl a < s \<Longrightarrow> a < e # s"
    by (auto simp: open_interval_def elim: keep_digit)
  with assms interval_same_digit(2) [OF assms(1,2), of d s] show ?thesis
    by (auto simp: strictly_between_def)
qed

lemma between_skip:
  assumes "open_interval a b" "low_digit a 0 < high_digit b 0"
    and "digit_at (low_digit a 0) = [d]" "tl a < s"
  shows "strictly_between a b (d # s)"
proof -
  from assms(1) obtain e where "digit_at (low_digit a 0) = [e]" "e \<in> set DIGITS"
    "digit_index e = low_digit a 0" "\<And>s. tl a < s \<Longrightarrow> a < e # s"
    by (auto simp: open_interval_def elim: keep_digit)
  with assms below_high_digit [OF assms(1), of d s] show ?thesis
    by (auto simp: strictly_between_def)
qed

lemma between_pick:
  assumes "open_interval a b" "low_digit a 0 < p" "p < high_digit b 0"
  shows "strictly_between a b (digit_at p)" "good_suffix (digit_at p)" "length (digit_at p) = 1"
proof -
  have "0 \<le> low_digit a 0"
    using assms(1) digit_index_range by (cases a) (auto simp: low_digit_0 open_interval_def)
  moreover have "high_digit b 0 \<le> 36"
    using digit_index_less by (auto simp: high_digit_def less_imp_le split: option.splits)
  ultimately have range: "0 < p" "p < 36" using assms by linarith+
  then show "good_suffix (digit_at p)" by (rule good_suffix_single)
  from range show "length (digit_at p) = 1" by (simp add: digit_at_def)
  obtain e where e: "digit_at p = [e]" "e \<in> set DIGITS" "digit_index e = p"
    using digit_at_in_range [of p] range by (metis less_imp_le)
  have "a < [e]"
    using assms(1,2) e digit_index_less_iff [of _ e]
    by (cases a) (auto simp: low_digit_0 open_interval_def)
  with e below_high_digit [OF assms(1), of e "[]"] assms(3)
  show "strictly_between a b (digit_at p)" by (simp add: strictly_between_def)
qed

definition room :: "string \<Rightarrow> string option \<Rightarrow> nat \<Rightarrow> nat" where
  "room a b i = Suc (max (length a) (case b of None \<Rightarrow> 0 | Some s \<Rightarrow> length s) - i)"

lemma room_same: "low_digit a i = high_digit b i \<Longrightarrow> Suc (room a b (Suc i)) \<le> room a b i"
  using loop_same_progress [of a i b] by (simp add: room_def)

lemma room_skip:
  assumes "open_interval (drop i a) (map_option (drop i) b)"
    and "\<not> (low_digit a i < p \<and> p < high_digit b i)" "p = pick_digit before after (low_digit a i) (high_digit b i)"
  shows "Suc (room a None (Suc i)) \<le> room a b i"
proof (cases b)
  case None
  with assms pick_open_end [of a i before after] show ?thesis by (auto simp: room_def high_digit_def)
next
  case (Some s)
  with assms(1) have "drop i s \<noteq> []" by (auto simp: open_interval_def)
  then have "i < length s" by simp
  with Some show ?thesis by (auto simp: room_def)
qed

text \<open>
  The loop invariant, on what is left of both strings: a key it returns extends \<open>out\<close> by a
  suffix strictly inside the remaining interval, of bounded length, and the only error is the limit.
\<close>

lemma keyBetween_loop_between:
  assumes "open_interval (drop i a) (map_option (drop i) b)"
  shows "\<exists>suf. good_suffix suf \<and> strictly_between (drop i a) (map_option (drop i) b) suf \<and>
    length suf \<le> room a b i \<and>
    keyBetween_loop before after a b i out = limit_key (out @ suf)"
  using assms
proof (induction before after a b i out rule: keyBetween_loop.induct)
  case (1 before after a b i out)
  let ?low = "low_digit a i" and ?high = "high_digit b i"
  let ?pick = "pick_digit before after ?low ?high"
  let ?a = "drop i a" and ?b = "map_option (drop i) b"
  note step = keyBetween_loop.simps [of before after a b i out]
  have low: "?low = low_digit ?a 0" and high: "?high = high_digit ?b 0"
    by (rule low_digit_drop, rule high_digit_drop)
  have opt: "map_option (drop (Suc i)) b = map_option tl ?b"
    by (cases b) (simp_all add: drop_Suc_tl)
  from "1.prems" have "digits ?a" by (simp add: open_interval_def)
  then obtain d where d: "digit_at ?low = [d]" "d \<in> set DIGITS"
    unfolding low by (auto elim: keep_digit)
  have le: "?low \<le> ?high" using interval_low_le_high [OF "1.prems"] by (simp add: low high)
  consider (same) "?low = ?high" | (fits) "?low \<noteq> ?high" "?low < ?pick" "?pick < ?high"
    | (skip) "?low < ?high" "\<not> (?low < ?pick \<and> ?pick < ?high)"
    using le by linarith
  then show ?case
  proof cases
    case same
    have "open_interval (drop (Suc i) a) (map_option (drop (Suc i)) b)"
      using interval_same_digit(1) [OF "1.prems"] same by (simp add: low high opt drop_Suc_tl)
    from "1.IH"(1) [OF refl refl same this] obtain suf where suf: "good_suffix suf"
      "strictly_between (tl ?a) (map_option tl ?b) suf" "length suf \<le> room a b (Suc i)" and eq: "keyBetween_loop before after a b (Suc i)
        (out @ digit_at ?low) = limit_key ((out @ digit_at ?low) @ suf)"
      unfolding opt unfolding drop_Suc_tl by blast
    have "strictly_between ?a ?b (d # suf)"
      using between_same [OF "1.prems"] suf(2) d(1) same by (simp add: low high)
    moreover have "keyBetween_loop before after a b i out =
        keyBetween_loop before after a b (Suc i) (out @ digit_at ?low)"
      unfolding step Let_def by (rule if_P) (rule same)
    ultimately show ?thesis
      using suf(1,3) room_same [OF same] d eq by (intro exI [of _ "d # suf"]) (simp add: good_suffix_Cons)
  next
    case fits
    have "keyBetween_loop before after a b i out = limit_key (out @ digit_at ?pick)"
      unfolding step Let_def using fits by (simp only: if_False if_True simp_thms)
    moreover have "length (digit_at ?pick) \<le> room a b i"
      using between_pick(3) [OF "1.prems", of ?pick] fits by (simp add: low high room_def)
    ultimately show ?thesis using fits between_pick [OF "1.prems", of ?pick]
      by (intro exI [of _ "digit_at ?pick"]) (simp only: low high simp_thms)
  next
    case skip
    have "open_interval (drop (Suc i) a) (map_option (drop (Suc i)) None)"
      using \<open>digits ?a\<close> by (cases ?a) (auto simp: drop_Suc_tl open_interval_def)
    from "1.IH"(2) [OF refl refl _ refl skip(2) this] skip(1) obtain suf where suf: "good_suffix suf"
      "tl ?a < suf" "length suf \<le> room a None (Suc i)" and eq: "keyBetween_loop before after a None (Suc i) (out @ digit_at ?low) =
        limit_key ((out @ digit_at ?low) @ suf)"
      by (auto simp: strictly_between_def drop_Suc_tl)
    have "strictly_between ?a ?b (d # suf)"
      using between_skip [OF "1.prems"] suf(2) d(1) skip(1) by (simp add: low high)
    moreover have "keyBetween_loop before after a b i out =
        keyBetween_loop before after a None (Suc i) (out @ digit_at ?low)"
      unfolding step Let_def using skip by (simp only: if_False less_imp_neq not_less if_not_P)
    ultimately show ?thesis
      using suf(1,3) room_skip [OF "1.prems" skip(2) refl] d eq by (intro exI [of _ "d # suf"]) (simp add: good_suffix_Cons)
  qed
qed

section \<open>The contract of \<open>keyBetween\<close>\<close>

definition key_arg :: "string option \<Rightarrow> bool" where
  "key_arg k \<longleftrightarrow> (\<forall>s. k = Some s \<longrightarrow> isOrderKey s)"

definition key_text :: "string option \<Rightarrow> string" where
  "key_text k = (case k of None \<Rightarrow> [] | Some s \<Rightarrow> s)"

definition in_order :: "string option \<Rightarrow> string option \<Rightarrow> bool" where
  "in_order before after \<longleftrightarrow> (\<forall>b. after = Some b \<longrightarrow> key_text before < b)"

lemma isOrderKey_iff: "isOrderKey s \<longleftrightarrow> length s \<le> MAX_ORDER_KEY \<and> good_suffix s"
  by (auto simp: isOrderKey_def good_suffix_def)

lemma key_args_interval:
  "key_arg before \<Longrightarrow> key_arg after \<Longrightarrow> in_order before after \<Longrightarrow>
   open_interval (key_text before) after"
  by (auto simp: key_arg_def key_text_def in_order_def open_interval_def isOrderKey_iff
      good_suffix_def split: option.splits)

lemma keyBetween_in_order:
  assumes "in_order before after"
  shows "keyBetween before after = keyBetween_loop before after (key_text before) after 0 []"
proof -
  have "(case after of None \<Rightarrow> False | Some b \<Rightarrow> b \<le> key_text before) = False"
    using assms by (auto simp: in_order_def not_le split: option.splits)
  then show ?thesis by (simp add: keyBetween_def key_text_def [symmetric])
qed

lemma keyBetween_cases:
  assumes "key_arg before" "key_arg after" "in_order before after"
  obtains key where "keyBetween before after = limit_key key" "good_suffix key"
    "strictly_between (key_text before) after key"
    "length key \<le> Suc (max (length (key_text before)) (length (key_text after)))"
proof -
  have "open_interval (drop 0 (key_text before)) (map_option (drop 0) after)"
    using key_args_interval [OF assms] by (simp add: option.map_id0 [unfolded id_def])
  from keyBetween_loop_between [OF this, of before after "[]"] obtain suf where
    "good_suffix suf" "strictly_between (key_text before) after suf"
    "length suf \<le> room (key_text before) after 0"
    "keyBetween_loop before after (key_text before) after 0 [] = limit_key suf"
    by (auto simp: option.map_id0 [unfolded id_def])
  then show ?thesis
    using that [of suf] keyBetween_in_order [OF assms(3)]
    by (cases after) (simp_all add: room_def key_text_def)
qed

lemma keyBetween_strict:
  assumes "key_arg before" "key_arg after" "in_order before after" "keyBetween before after = Inr k"
  shows "isOrderKey k" "key_text before < k" "\<And>b. after = Some b \<Longrightarrow> k < b"
proof -
  from assms(1-3) obtain key where "keyBetween before after = limit_key key" "good_suffix key"
    "strictly_between (key_text before) after key" by (rule keyBetween_cases)
  with assms(4) show "isOrderKey k" "key_text before < k" "\<And>b. after = Some b \<Longrightarrow> k < b"
    by (auto simp: limit_key_def isOrderKey_iff strictly_between_def split: if_splits)
qed

lemma keyBetween_returns:
  assumes "key_arg before" "key_arg after" "in_order before after"
    and "length (key_text before) < MAX_ORDER_KEY" "length (key_text after) < MAX_ORDER_KEY"
  shows "\<exists>k. keyBetween before after = Inr k"
proof -
  from assms(1-3) obtain key where "keyBetween before after = limit_key key"
    "length key \<le> Suc (max (length (key_text before)) (length (key_text after)))"
    by (rule keyBetween_cases)
  with assms(4,5) show ?thesis by (auto simp: limit_key_def)
qed

lemma keyBetween_errors:
  assumes "key_arg before" "key_arg after" "keyBetween before after = Inl e"
  shows "(\<not> in_order before after \<and> e = Error ''order keys out of order'') \<or>
    (in_order before after \<and> e = Error ''order key limit reached'')"
proof (cases "in_order before after")
  case True
  with assms(1,2) obtain key where "keyBetween before after = limit_key key"
    by (rule keyBetween_cases)
  with assms(3) True show ?thesis by (auto simp: limit_key_def split: if_splits)
next
  case False
  with assms(3) show ?thesis
    by (auto simp: keyBetween_def in_order_def key_text_def not_less split: option.splits if_splits)
qed

section \<open>Numbering a list\<close>

text \<open>
  \<open>let order = null; list.map(item => order = keyBetween(order, bound))\<close>: each key is drawn
  after the one before, and the first error stops the numbering.
\<close>

fun draw_keys :: "('k option \<Rightarrow> 'k result) \<Rightarrow> 'k option \<Rightarrow> nat \<Rightarrow> 'k list result" where
  "draw_keys gen start 0 = Inr []"
| "draw_keys gen start (Suc n) =
     rbind (gen start) (\<lambda>k. rbind (draw_keys gen (Some k) n) (\<lambda>ks. Inr (k # ks)))"

locale key_supply =
  fixes gen :: "'k::linorder option \<Rightarrow> 'k result"
    and admissible :: "'k option \<Rightarrow> bool"
    and fits :: "'k \<Rightarrow> bool"
  assumes gen_admissible: "admissible start \<Longrightarrow> gen start = Inr k \<Longrightarrow> admissible (Some k)"
    and gen_fits: "admissible start \<Longrightarrow> gen start = Inr k \<Longrightarrow> fits k"
    and gen_above: "admissible (Some p) \<Longrightarrow> gen (Some p) = Inr k \<Longrightarrow> p < k"
begin

lemma draw_length: "draw_keys gen start n = Inr ks \<Longrightarrow> length ks = n"
  by (induction n arbitrary: start ks) (auto simp: rbind_eq_Inr)

lemma draw_all_fit:
  "admissible start \<Longrightarrow> draw_keys gen start n = Inr ks \<Longrightarrow> list_all fits ks"
  by (induction n arbitrary: start ks) (auto simp: rbind_eq_Inr, (blast intro: gen_fits gen_admissible)+)

lemma draw_above:
  "admissible (Some p) \<Longrightarrow> draw_keys gen (Some p) n = Inr ks \<Longrightarrow> list_all (\<lambda>k. p < k) ks"
proof (induction n arbitrary: p ks)
  case (Suc n)
  then obtain k rest where k: "gen (Some p) = Inr k" and rest: "draw_keys gen (Some k) n = Inr rest"
    and ks: "ks = k # rest" by (auto simp: rbind_eq_Inr)
  from k Suc.prems have "p < k" "admissible (Some k)" by (auto intro: gen_above gen_admissible)
  moreover from this rest have "list_all (\<lambda>x. k < x) rest" by (blast intro: Suc.IH)
  ultimately show ?case unfolding ks by (auto simp: list_all_iff)
qed simp

lemma draw_sorted: "admissible start \<Longrightarrow> draw_keys gen start n = Inr ks \<Longrightarrow> sorted_wrt (<) ks"
proof (induction n arbitrary: start ks)
  case (Suc n)
  then obtain k rest where k: "gen start = Inr k" and rest: "draw_keys gen (Some k) n = Inr rest"
    and ks: "ks = k # rest" by (auto simp: rbind_eq_Inr)
  from k Suc.prems have adm: "admissible (Some k)" by (blast intro: gen_admissible)
  with rest have "sorted_wrt (<) rest" "list_all (\<lambda>x. k < x) rest"
    by (blast intro: Suc.IH draw_above)+
  then show ?case unfolding ks by (simp add: list_all_iff)
qed simp

end

interpretation open_end: key_supply "\<lambda>start. keyBetween start None" key_arg isOrderKey
proof
  show "key_arg (Some k)" if "key_arg start" "keyBetween start None = Inr k" for start k
    using that keyBetween_strict(1) [of start None k] by (simp add: key_arg_def in_order_def)
  show "isOrderKey k" if "key_arg start" "keyBetween start None = Inr k" for start k
    using that keyBetween_strict(1) [of start None k] by (simp add: key_arg_def in_order_def)
  show "p < k" if "key_arg (Some p)" "keyBetween (Some p) None = Inr k" for p k
    using that keyBetween_strict(2) [of "Some p" None k]
    by (simp add: key_arg_def in_order_def key_text_def)
qed

definition below :: "string option \<Rightarrow> string option \<Rightarrow> bool" where
  "below bound start \<longleftrightarrow> key_arg bound \<and> key_arg start \<and> in_order start bound"

definition key_below :: "string option \<Rightarrow> string \<Rightarrow> bool" where
  "key_below bound k \<longleftrightarrow> isOrderKey k \<and> (\<forall>b. bound = Some b \<longrightarrow> k < b)"

interpretation bounded: key_supply "\<lambda>start. keyBetween start bound" "below bound" "key_below bound"
  for bound
proof
  show "below bound (Some k)" if "below bound start" "keyBetween start bound = Inr k" for start k
    using that keyBetween_strict [of start bound k]
    by (auto simp: below_def key_arg_def in_order_def key_text_def)
  show "key_below bound k" if "below bound start" "keyBetween start bound = Inr k" for start k
    using that keyBetween_strict [of start bound k] by (auto simp: below_def key_below_def)
  show "p < k" if "below bound (Some p)" "keyBetween (Some p) bound = Inr k" for p k
    using that keyBetween_strict(2) [of "Some p" bound k] by (simp add: below_def key_text_def)
qed

section \<open>Properties\<close>

text \<open>C28: between any two order keys in order (or at an open end) shorter than the limit,
  \<open>keyBetween\<close> terminates with a new valid order key strictly between them.\<close>

theorem order_key_between:
  assumes "key_arg before" "key_arg after" "in_order before after"
    and "length (key_text before) < MAX_ORDER_KEY" "length (key_text after) < MAX_ORDER_KEY"
  shows "\<exists>k. keyBetween before after = Inr k \<and> isOrderKey k \<and> key_text before < k \<and>
    (case after of None \<Rightarrow> True | Some b \<Rightarrow> k < b)"
proof -
  obtain k where "keyBetween before after = Inr k" using keyBetween_returns [OF assms] by blast
  with keyBetween_strict [OF assms(1-3), of k] show ?thesis by (auto split: option.splits)
qed

theorem order_key_between_witness:
  "\<exists>k. keyBetween (Some ''a'') (Some ''a1'') = Inr k \<and> isOrderKey k \<and> key_text (Some ''a'') < k \<and>
    (case Some ''a1'' of None \<Rightarrow> True | Some b \<Rightarrow> k < b)"
  by (rule order_key_between)
    (simp_all add: key_arg_def isOrderKey_def DIGITS_def MAX_ORDER_KEY_def in_order_def key_text_def)

text \<open>\<open>keyBetween\<close> on order keys fails in exactly two ways: the neighbours are out of order, or
  the new key would exceed 512 characters, which needs a neighbour of at least 512.\<close>

lemma order_key_failures:
  assumes "key_arg before" "key_arg after" "keyBetween before after = Inl e"
  shows "e = Error ''order keys out of order'' \<and> \<not> in_order before after \<or>
    e = Error ''order key limit reached'' \<and> in_order before after \<and>
      (MAX_ORDER_KEY \<le> length (key_text before) \<or> MAX_ORDER_KEY \<le> length (key_text after))"
  using keyBetween_errors [OF assms] keyBetween_returns [OF assms(1,2)] assms(3) not_le by auto

end
