(* ===== verification/Outline.thy ===== *)
theory Outline
  imports Order Json
begin

text \<open>
  The page outline and the tree of section groups (\<open>web/src/outline.ts\<close>). Levels are what an ordered
  page list displays, blocks are a page with its deeper followers, and groups nest at most four deep.
  Stored data may be wrong in any way (levels that jump, parents that are missing or form a cycle);
  the functions repair it for display. \<open>groupTargets\<close> and \<open>sectionTargets\<close> only build sorted labels
  with a character above 255 and are left out. The lemmas: displayed levels form an outline, rows are hidden exactly
  under a collapsed ancestor, ancestors are found nearest first, an inserted block gets keys strictly
  between its neighbours, the effective group parents have no cycle and no chain beyond the limit, and
  so the recursions over them end.
\<close>

definition MAX_LEVEL :: int where "MAX_LEVEL = 2"
definition MAX_GROUP_DEPTH :: nat where "MAX_GROUP_DEPTH = 4"

record outline_page =
  o_id :: string
  o_order :: "string option"
  o_level :: "int option"
  o_section :: "string option"

section \<open>Levels\<close>

definition clampLevel :: "int option \<Rightarrow> int" where
  "clampLevel level = min MAX_LEVEL (max 0 (or0 level))"

definition nests :: "'a outline_page_scheme list \<Rightarrow> nat \<Rightarrow> bool" where
  "nests xs index = (index > 0 \<and> o_section (xs ! index) = o_section (xs ! (index - 1)))"

definition next_level :: "'a outline_page_scheme list \<Rightarrow> nat \<Rightarrow> int list \<Rightarrow> int" where
  "next_level xs index levels =
     (if nests xs index then min (clampLevel (o_level (xs ! index))) (levels ! (index - 1) + 1) else 0)"

definition displayLevels :: "'a outline_page_scheme list \<Rightarrow> int list" where
  "displayLevels xs = fold (\<lambda>index levels. levels @ [next_level xs index levels]) [0..<length xs] []"

function block_end :: "int list \<Rightarrow> int \<Rightarrow> nat \<Rightarrow> nat" where
  "block_end levels level stop =
     (if stop < length levels \<and> levels ! stop > level then block_end levels level (Suc stop) else stop)"
  by pat_completeness auto
termination by (relation "measure (\<lambda>(levels, _, stop). length levels - stop)") auto

declare block_end.simps [simp del]

definition blockRange :: "int list \<Rightarrow> nat \<Rightarrow> nat \<times> nat" where
  "blockRange levels index = (index, block_end levels (levels ! index) (Suc index))"

record outline_row =
  r_index :: nat
  r_level :: int
  r_hasChildren :: bool
  r_collapsed :: bool

text \<open>A row names its page by its index in the list.\<close>

definition row_step ::
  "'a outline_page_scheme list \<Rightarrow> int list \<Rightarrow> string set \<Rightarrow> nat \<Rightarrow> outline_row list \<times> int option \<Rightarrow> outline_row list \<times> int option" where
  "row_step xs levels collapsed index acc =
     (let (rows, hiddenDeeperThan) = acc; level = levels ! index in
      if (case hiddenDeeperThan of None \<Rightarrow> False | Some h \<Rightarrow> level > h) then acc
      else
        let hasChildren = (index + 1 < length xs \<and> levels ! (index + 1) > level);
            isCollapsed = (hasChildren \<and> o_id (xs ! index) \<in> collapsed) in
        (rows @ [\<lparr>r_index = index, r_level = level, r_hasChildren = hasChildren, r_collapsed = isCollapsed\<rparr>],
         if isCollapsed then Some level else None))"

definition visibleRows :: "'a outline_page_scheme list \<Rightarrow> string set \<Rightarrow> outline_row list" where
  "visibleRows xs collapsed =
     fst (fold (row_step xs (displayLevels xs) collapsed) [0..<length xs] ([], None))"

definition findIndex :: "('a \<Rightarrow> bool) \<Rightarrow> 'a list \<Rightarrow> nat option" where
  "findIndex P xs = find (\<lambda>i. P (xs ! i)) [0..<length xs]"

fun ancestors_from :: "'a outline_page_scheme list \<Rightarrow> int list \<Rightarrow> nat \<Rightarrow> int \<Rightarrow> string list" where
  "ancestors_from xs levels 0 level = []"
| "ancestors_from xs levels (Suc i) level =
     (if level > 0 then
        (if levels ! i < level then o_id (xs ! i) # ancestors_from xs levels i (levels ! i)
         else ancestors_from xs levels i level)
      else [])"

text \<open>An unknown id has index -1, an undefined level and no ancestors.\<close>

definition ancestors :: "'a outline_page_scheme list \<Rightarrow> string \<Rightarrow> string list" where
  "ancestors xs pid =
     (case findIndex (\<lambda>page. o_id page = pid) xs of
        None \<Rightarrow> []
      | Some index \<Rightarrow> ancestors_from xs (displayLevels xs) index (displayLevels xs ! index))"

definition shiftLevel :: "'a outline_page_scheme list \<Rightarrow> nat \<Rightarrow> int \<Rightarrow> int option" where
  "shiftLevel xs index delta =
     (let levels = displayLevels xs; nxt = levels ! index + delta in
      if nxt < 0 \<or> nxt > MAX_LEVEL then None
      else if delta = 1 \<and> (\<not> nests xs index \<or> nxt > levels ! (index - 1) + 1) then None
      else Some nxt)"

section \<open>Placing a block\<close>

record placement =
  pl_id :: string
  pl_order :: string
  pl_level :: "int option"

definition block_levels :: "'a outline_page_scheme list \<Rightarrow> int list \<Rightarrow> nat \<Rightarrow> int list" where
  "block_levels target blockLevels at =
     (let head = min (blockLevels ! 0) (if at = 0 then 0 else displayLevels target ! (at - 1) + 1) in
      map (\<lambda>level. clampLevel (Some (level - blockLevels ! 0 + head))) blockLevels)"

definition opt_order :: "'a outline_page_scheme list \<Rightarrow> nat option \<Rightarrow> string option" where
  "opt_order xs i = (case i of None \<Rightarrow> None | Some n \<Rightarrow> if n < length xs then o_order (xs ! n) else None)"

definition has_order :: "'a outline_page_scheme \<Rightarrow> bool" where
  "has_order item = (o_order item \<noteq> None \<and> o_order item \<noteq> Some [])"

definition place_all :: "(string \<times> int option) list \<Rightarrow> string list \<Rightarrow> placement list" where
  "place_all items keys = map (\<lambda>((i, lv), k). \<lparr>pl_id = i, pl_order = k, pl_level = lv\<rparr>) (zip items keys)"

definition placeBlock ::
  "'a outline_page_scheme list \<Rightarrow> 'b outline_page_scheme list \<Rightarrow> int list \<Rightarrow> int \<Rightarrow> placement list result" where
  "placeBlock target block blockLevels index =
     (let at = nat (max 0 (min index (int (length target))));
          levels = block_levels target blockLevels at;
          prev = opt_order target (if at = 0 then None else Some (at - 1));
          nxt = opt_order target (Some at);
          items = map2 (\<lambda>item lv. (o_id item, Some lv)) block levels;
          merged = map (\<lambda>item. (o_id item, None)) (take at target) @ items @ map (\<lambda>item. (o_id item, None)) (drop at target);
          renumber = rbind (draw_keys (\<lambda>low. keyBetween low None) None (length merged)) (\<lambda>keys. Inr (place_all merged keys)) in
      if list_all has_order target \<and> (prev = None \<or> nxt = None \<or> the prev < the nxt) then
        (case draw_keys (\<lambda>low. keyBetween low nxt) prev (length block) of
           Inr keys \<Rightarrow> Inr (place_all items keys)
         | Inl _ \<Rightarrow> renumber)
      else renumber)"

section \<open>Groups\<close>

record grouped =
  g_id :: string
  g_group :: "string option"

definition raw_map :: "grouped list \<Rightarrow> (string, string option) dict" where
  "raw_map groups = spread [] (map (\<lambda>g. (g_id g, g_group g)) groups)"

text \<open>The upward walk of one group; \<open>depth\<close> bounds it, so it needs no other measure.\<close>

function walk_up ::
  "(string, string option) dict \<Rightarrow> string set \<Rightarrow> nat \<Rightarrow> string option \<Rightarrow> string set \<times> nat \<times> string option" where
  "walk_up raw seen depth current =
     (case current of
        None \<Rightarrow> (seen, depth, current)
      | Some c \<Rightarrow>
          if map_of raw c \<noteq> None \<and> c \<notin> seen \<and> depth \<le> MAX_GROUP_DEPTH
          then walk_up raw (insert c seen) (Suc depth) (the (map_of raw c))
          else (seen, depth, current))"
  by pat_completeness auto
termination by (relation "measure (\<lambda>(_, _, depth, _). Suc MAX_GROUP_DEPTH - depth)") auto

declare walk_up.simps [simp del]

definition effective_parent :: "(string, string option) dict \<Rightarrow> grouped \<Rightarrow> string option" where
  "effective_parent raw g =
     (let (seen, depth, current) = walk_up raw {g_id g} 1 (g_group g);
          cyclic = (case current of None \<Rightarrow> False | Some c \<Rightarrow> c \<in> seen) in
      case g_group g of
        None \<Rightarrow> None
      | Some p \<Rightarrow> if map_of raw p \<noteq> None \<and> \<not> cyclic \<and> depth \<le> MAX_GROUP_DEPTH then Some p else None)"

definition groupParents :: "grouped list \<Rightarrow> (string, string option) dict" where
  "groupParents groups = spread [] (map (\<lambda>g. (g_id g, effective_parent (raw_map groups) g)) groups)"

definition sectionGroup :: "grouped \<Rightarrow> (string, string option) dict \<Rightarrow> string option" where
  "sectionGroup s parents =
     (case g_group s of None \<Rightarrow> None | Some p \<Rightarrow> if map_of parents p \<noteq> None then Some p else None)"

text \<open>The path is cut after five groups, so five rounds are enough.\<close>

fun group_path_from :: "nat \<Rightarrow> string option \<Rightarrow> (string, string option) dict \<Rightarrow> string list \<Rightarrow> string list" where
  "group_path_from 0 current parents path = path"
| "group_path_from (Suc n) current parents path =
     (case current of
        None \<Rightarrow> path
      | Some c \<Rightarrow>
          (case map_of parents c of
             None \<Rightarrow> path
           | Some up \<Rightarrow> if length path \<le> MAX_GROUP_DEPTH then group_path_from n up parents (c # path) else path))"

definition groupPath :: "string option \<Rightarrow> (string, string option) dict \<Rightarrow> string list" where
  "groupPath groupID parents = group_path_from (Suc (Suc MAX_GROUP_DEPTH)) groupID parents []"

text \<open>\<open>None\<close> when the fuel runs out, which is the stack overflow of the source on a cycle.\<close>

fun subtreeHeight :: "nat \<Rightarrow> string \<Rightarrow> (string, string option) dict \<Rightarrow> nat option" where
  "subtreeHeight 0 gid parents = None"
| "subtreeHeight (Suc n) gid parents =
     map_option Suc (fold (\<lambda>(child, parent) height.
        if parent = Some gid then
          (case (height, subtreeHeight n child parents) of (Some h, Some s) \<Rightarrow> Some (max h s) | _ \<Rightarrow> None)
        else height) parents (Some 0))"

definition groupMoveAllowed :: "nat \<Rightarrow> string \<Rightarrow> string option \<Rightarrow> (string, string option) dict \<Rightarrow> bool option" where
  "groupMoveAllowed fuel gid target parents =
     (let path = groupPath target parents in
      if gid \<in> set path then Some False
      else map_option (\<lambda>h. length path + h \<le> MAX_GROUP_DEPTH) (subtreeHeight fuel gid parents))"

definition groupOfSection :: "string \<Rightarrow> grouped list \<Rightarrow> (string, string option) dict \<Rightarrow> string option" where
  "groupOfSection sid sections parents =
     (case find (\<lambda>entry. g_id entry = sid) sections of None \<Rightarrow> None | Some s \<Rightarrow> sectionGroup s parents)"

section \<open>Moving a block\<close>

fun sibling_above :: "int list \<Rightarrow> int \<Rightarrow> nat \<Rightarrow> nat option" where
  "sibling_above levels level 0 = None"
| "sibling_above levels level (Suc i) =
     (if levels ! i > level then sibling_above levels level i
      else if levels ! i = level then Some i else None)"

definition siblingMove :: "int list \<Rightarrow> nat \<Rightarrow> int \<Rightarrow> nat option" where
  "siblingMove levels index delta =
     (let level = levels ! index in
      if delta = -1 then sibling_above levels level index
      else
        let nxt = snd (blockRange levels index) in
        if nxt < length levels \<and> levels ! nxt = level then Some (snd (blockRange levels nxt)) else None)"

definition dropBefore :: "int list \<Rightarrow> nat \<Rightarrow> nat \<Rightarrow> nat option" where
  "dropBefore levels from at =
     (let (start, stop) = blockRange levels from in
      if at \<ge> start \<and> at < stop then None
      else Some (if at < from then at else snd (blockRange levels at)))"

definition parseCollapsed :: "string option \<Rightarrow> string set" where
  "parseCollapsed raw =
     (case parse (case raw of None \<Rightarrow> ''[]'' | Some s \<Rightarrow> s) of
        Inr (JArr xs) \<Rightarrow> set (List.map_filter (\<lambda>v. str_of (Some v)) xs)
      | _ \<Rightarrow> {})"

section \<open>Displayed levels\<close>

lemma levels_prefix:
  "n \<le> length xs \<Longrightarrow>
     (let ls = fold (\<lambda>index levels. levels @ [next_level xs index levels]) [0..<n] [] in
      length ls = n \<and> (\<forall>i < n. ls ! i = next_level xs i ls))"
proof (induction n)
  case (Suc n)
  let ?ls = "fold (\<lambda>index levels. levels @ [next_level xs index levels]) [0..<n] []"
  have ih: "length ?ls = n" "\<forall>i < n. ?ls ! i = next_level xs i ?ls" using Suc by (simp_all add: Let_def)
  have ext: "next_level xs i (?ls @ [x]) = next_level xs i ?ls" if "i \<le> n" for i x
    using that ih(1) by (auto simp: next_level_def nests_def nth_append)
  show ?case using ih ext by (auto simp: Let_def nth_append less_Suc_eq)
qed simp

lemma length_displayLevels [simp]: "length (displayLevels xs) = length xs"
  using levels_prefix [of "length xs" xs] by (simp add: displayLevels_def Let_def)

lemma displayLevels_nth:
  "i < length xs \<Longrightarrow> displayLevels xs ! i = next_level xs i (displayLevels xs)"
  using levels_prefix [of "length xs" xs] by (simp add: displayLevels_def Let_def)

lemma clampLevel_range: "0 \<le> clampLevel l" "clampLevel l \<le> 2"
  by (auto simp: clampLevel_def MAX_LEVEL_def)

lemma displayLevels_range:
  assumes "i < length xs"
  shows "0 \<le> displayLevels xs ! i \<and> displayLevels xs ! i \<le> 2"
  using assms
proof (induction i)
  case 0
  then show ?case by (simp add: displayLevels_nth next_level_def nests_def)
next
  case (Suc i)
  with clampLevel_range [of "o_level (xs ! Suc i)"] show ?case
    by (auto simp: displayLevels_nth [of "Suc i"] next_level_def min_def)
qed

lemma displayLevels_step:
  "Suc i < length xs \<Longrightarrow> displayLevels xs ! Suc i \<le> displayLevels xs ! i + 1"
  using displayLevels_range [of i xs] by (simp add: displayLevels_nth [of "Suc i"] next_level_def)

lemma displayLevels_first: "xs \<noteq> [] \<Longrightarrow> displayLevels xs ! 0 = 0"
  by (simp add: displayLevels_nth next_level_def nests_def)

section \<open>Hidden rows\<close>

text \<open>\<open>j\<close> is above \<open>i\<close> in the outline: everything from after \<open>j\<close> up to \<open>i\<close> is deeper than \<open>j\<close>.\<close>

definition above :: "int list \<Rightarrow> nat \<Rightarrow> nat \<Rightarrow> bool" where
  "above levels j i \<longleftrightarrow> j < i \<and> (\<forall>k. j < k \<and> k \<le> i \<longrightarrow> levels ! j < levels ! k)"

definition hidden :: "'a outline_page_scheme list \<Rightarrow> string set \<Rightarrow> nat \<Rightarrow> bool" where
  "hidden xs collapsed i \<longleftrightarrow> (\<exists>j. above (displayLevels xs) j i \<and> o_id (xs ! j) \<in> collapsed)"

definition row_of :: "'a outline_page_scheme list \<Rightarrow> string set \<Rightarrow> nat \<Rightarrow> outline_row" where
  "row_of xs collapsed i =
     (let levels = displayLevels xs; children = (i + 1 < length xs \<and> levels ! (i + 1) > levels ! i) in
      \<lparr>r_index = i, r_level = levels ! i, r_hasChildren = children, r_collapsed = (children \<and> o_id (xs ! i) \<in> collapsed)\<rparr>)"

definition hide_inv :: "'a outline_page_scheme list \<Rightarrow> string set \<Rightarrow> nat \<Rightarrow> int option \<Rightarrow> bool" where
  "hide_inv xs collapsed n h \<longleftrightarrow>
     (\<forall>l. h = Some l \<longrightarrow> (\<exists>j < n. o_id (xs ! j) \<in> collapsed \<and> displayLevels xs ! j = l \<and>
        (\<forall>k. j < k \<and> k < n \<longrightarrow> displayLevels xs ! k > l))) \<and>
     (n < length xs \<longrightarrow> (\<forall>j. above (displayLevels xs) j n \<and> o_id (xs ! j) \<in> collapsed \<longrightarrow>
        (\<exists>l. h = Some l \<and> l \<le> displayLevels xs ! j)))"

lemma hidden_iff:
  assumes "hide_inv xs collapsed n h" "n < length xs"
  shows "hidden xs collapsed n \<longleftrightarrow> (case h of None \<Rightarrow> False | Some l \<Rightarrow> displayLevels xs ! n > l)"
proof
  assume "hidden xs collapsed n"
  then obtain j where j: "above (displayLevels xs) j n" "o_id (xs ! j) \<in> collapsed" by (auto simp: hidden_def)
  then obtain l where "h = Some l" "l \<le> displayLevels xs ! j" using assms unfolding hide_inv_def by blast
  moreover have "displayLevels xs ! j < displayLevels xs ! n" using j(1) by (auto simp: above_def)
  ultimately show "case h of None \<Rightarrow> False | Some l \<Rightarrow> displayLevels xs ! n > l" by simp
next
  assume "case h of None \<Rightarrow> False | Some l \<Rightarrow> displayLevels xs ! n > l"
  then obtain l where l: "h = Some l" "displayLevels xs ! n > l" by (auto split: option.splits)
  then obtain j where "j < n" "o_id (xs ! j) \<in> collapsed" "displayLevels xs ! j = l"
    "\<forall>k. j < k \<and> k < n \<longrightarrow> displayLevels xs ! k > l" using assms(1) unfolding hide_inv_def by blast
  with l show "hidden xs collapsed n" by (auto simp: hidden_def above_def le_less)
qed

lemma above_Suc: "above levels j (Suc n) \<Longrightarrow> j < n \<Longrightarrow> above levels j n"
  by (auto simp: above_def)

lemma hide_inv_hidden:
  assumes "hide_inv xs collapsed n h" "n < length xs" "hidden xs collapsed n"
  shows "hide_inv xs collapsed (Suc n) h"
proof -
  from assms obtain l where l: "h = Some l" "displayLevels xs ! n > l"
    using hidden_iff [OF assms(1,2)] by (auto split: option.splits)
  with assms(1) obtain j where j: "j < n" "o_id (xs ! j) \<in> collapsed" "displayLevels xs ! j = l"
    "\<forall>k. j < k \<and> k < n \<longrightarrow> displayLevels xs ! k > l" unfolding hide_inv_def by blast
  have "\<exists>m. h = Some m \<and> m \<le> displayLevels xs ! i"
    if "above (displayLevels xs) i (Suc n)" "o_id (xs ! i) \<in> collapsed" for i
  proof (cases "i < n")
    case True
    with that have "above (displayLevels xs) i n" by (blast intro: above_Suc)
    with assms(1,2) that(2) show ?thesis unfolding hide_inv_def by blast
  next
    case False
    with that(1) have "i = n" by (auto simp: above_def)
    with l show ?thesis by simp
  qed
  with j l show ?thesis unfolding hide_inv_def by (metis less_Suc_eq option.inject)
qed

lemma hide_inv_shown:
  assumes "hide_inv xs collapsed n h" "n < length xs" "\<not> hidden xs collapsed n"
  shows "hide_inv xs collapsed (Suc n) (if r_collapsed (row_of xs collapsed n) then Some (displayLevels xs ! n) else None)"
proof -
  have "i = n \<and> r_collapsed (row_of xs collapsed n)"
    if "Suc n < length xs" "above (displayLevels xs) i (Suc n)" "o_id (xs ! i) \<in> collapsed" for i
  proof (cases "i < n")
    case True
    with that(2) have "above (displayLevels xs) i n" by (blast intro: above_Suc)
    with assms(3) that(3) show ?thesis by (auto simp: hidden_def)
  next
    case False
    with that(2) have "i = n" by (auto simp: above_def)
    with that show ?thesis by (auto simp: row_of_def Let_def above_def)
  qed
  then show ?thesis by (auto simp: hide_inv_def row_of_def Let_def split: if_splits)
qed

lemma visible_prefix:
  "n \<le> length xs \<Longrightarrow> \<exists>h. fold (row_step xs (displayLevels xs) collapsed) [0..<n] ([], None) =
     (map (row_of xs collapsed) (filter (\<lambda>i. \<not> hidden xs collapsed i) [0..<n]), h) \<and> hide_inv xs collapsed n h"
proof (induction n)
  case 0
  then show ?case by (auto simp: hide_inv_def above_def)
next
  case (Suc n)
  then obtain h where run: "fold (row_step xs (displayLevels xs) collapsed) [0..<n] ([], None) =
     (map (row_of xs collapsed) (filter (\<lambda>i. \<not> hidden xs collapsed i) [0..<n]), h)" and inv: "hide_inv xs collapsed n h"
    by auto
  have n: "n < length xs" using Suc.prems by simp
  note hid = hidden_iff [OF inv n]
  show ?case
  proof (cases "hidden xs collapsed n")
    case True
    have "row_step xs (displayLevels xs) collapsed n (rows, h) = (rows, h)" for rows
      using True hid by (auto simp: row_step_def Let_def split: option.splits)
    with True run hide_inv_hidden [OF inv n True] show ?thesis by simp
  next
    case False
    have "row_step xs (displayLevels xs) collapsed n (map (row_of xs collapsed) (filter (\<lambda>i. \<not> hidden xs collapsed i) [0..<n]), h) =
      (map (row_of xs collapsed) (filter (\<lambda>i. \<not> hidden xs collapsed i) [0..<n]) @ [row_of xs collapsed n],
       if r_collapsed (row_of xs collapsed n) then Some (displayLevels xs ! n) else None)"
      using False hid by (auto simp: row_step_def row_of_def Let_def)
    with False run hide_inv_shown [OF inv n] show ?thesis by simp
  qed
qed

lemma visibleRows_spec:
  "visibleRows xs collapsed = map (row_of xs collapsed) (filter (\<lambda>i. \<not> hidden xs collapsed i) [0..<length xs])"
  using visible_prefix [of "length xs" xs collapsed] by (auto simp: visibleRows_def)

section \<open>Ancestors\<close>

lemma ancestors_from_spec:
  assumes "\<forall>k. i \<le> k \<and> k \<le> m \<longrightarrow> level \<le> levels ! k" "\<exists>k. i \<le> k \<and> k \<le> m \<and> levels ! k = level"
    and "\<forall>k \<le> m. 0 \<le> levels ! k" "i \<le> m"
  shows "ancestors_from xs levels i level = map (\<lambda>j. o_id (xs ! j)) (rev (filter (\<lambda>j. above levels j m) [0..<i]))"
  using assms
proof (induction i arbitrary: level)
  case (Suc i)
  have ab: "above levels i m \<longleftrightarrow> levels ! i < level"
    using Suc.prems(1,2,4) by (auto simp: above_def Suc_le_eq intro: less_le_trans)
  have none: "\<not> above levels j m" if "level \<le> 0" "j \<le> i" for j
  proof
    assume a: "above levels j m"
    obtain k where "Suc i \<le> k" "k \<le> m" "levels ! k = level" using Suc.prems(2) by blast
    with a that(2) have "levels ! j < level" by (auto simp: above_def)
    moreover have "0 \<le> levels ! j" using Suc.prems(3,4) that(2) by simp
    ultimately show False using that(1) by simp
  qed
  show ?case
  proof (cases "level > 0")
    case False
    with none have "filter (\<lambda>j. above levels j m) [0..<Suc i] = []" by (auto simp: filter_empty_conv)
    with False show ?thesis by simp
  next
    case True
    have low: "ancestors_from xs levels i l = map (\<lambda>j. o_id (xs ! j)) (rev (filter (\<lambda>j. above levels j m) [0..<i]))"
      if "l = min level (levels ! i)" for l
    proof (rule Suc.IH)
      show "\<forall>k. i \<le> k \<and> k \<le> m \<longrightarrow> l \<le> levels ! k"
        using Suc.prems(1) that by (metis Suc_leI le_neq_implies_less min.coboundedI1 min.cobounded2)
      show "\<exists>k. i \<le> k \<and> k \<le> m \<and> levels ! k = l"
        using Suc.prems(2,4) that by (cases "level \<le> levels ! i") (auto simp: min_def, metis Suc_leD)
    qed (use Suc.prems(3,4) in auto)
    show ?thesis using True ab low [of "if levels ! i < level then levels ! i else level"] by (auto simp: min_def)
  qed
qed simp

section \<open>The group tree\<close>

text \<open>\<open>climbs raw xs cur e\<close>: from \<open>cur\<close> the stored parents lead through exactly \<open>xs\<close> and end at \<open>e\<close>, the root or a missing group.\<close>

fun climbs :: "(string, string option) dict \<Rightarrow> string list \<Rightarrow> string option \<Rightarrow> string option \<Rightarrow> bool" where
  "climbs raw [] cur e = (cur = e \<and> (case e of None \<Rightarrow> True | Some m \<Rightarrow> map_of raw m = None))"
| "climbs raw (c # xs) cur e = (cur = Some c \<and> (\<exists>up. map_of raw c = Some up \<and> climbs raw xs up e))"

lemma climbs_det: "climbs raw xs cur e \<Longrightarrow> climbs raw ys cur e' \<Longrightarrow> xs = ys"
proof (induction xs arbitrary: ys cur)
  case Nil
  then show ?case by (cases ys) (auto split: option.splits)
next
  case (Cons c xs)
  then show ?case by (cases ys) (auto split: option.splits)
qed

lemma climbs_known: "climbs raw xs cur e \<Longrightarrow> c \<in> set xs \<Longrightarrow> map_of raw c \<noteq> None"
  by (induction xs arbitrary: cur) auto

lemma climbs_end: "climbs raw xs cur e \<Longrightarrow> (case e of None \<Rightarrow> True | Some m \<Rightarrow> map_of raw m = None)"
  by (induction xs arbitrary: cur) auto

lemma walk_climbs:
  assumes "climbs raw xs cur e" "distinct xs" "set xs \<inter> S = {}" "d + length xs \<le> Suc MAX_GROUP_DEPTH"
  shows "walk_up raw S d cur = (S \<union> set xs, d + length xs, e)"
  using assms
proof (induction xs arbitrary: S d cur)
  case Nil
  then show ?case by (subst walk_up.simps) (auto split: option.splits)
next
  case (Cons c xs)
  then obtain up where up: "cur = Some c" "map_of raw c = Some up" "climbs raw xs up e" by auto
  with Cons have "walk_up raw (insert c S) (Suc d) up = (insert c S \<union> set xs, Suc d + length xs, e)"
    by (intro Cons.IH) auto
  with up Cons.prems show ?case by (subst walk_up.simps) auto
qed

lemma walk_climbs_conv:
  assumes "walk_up raw S d cur = (S1, d1, c1)" "d1 \<le> MAX_GROUP_DEPTH" "\<And>c. c1 = Some c \<Longrightarrow> c \<notin> S1"
  shows "\<exists>xs. climbs raw xs cur c1 \<and> distinct xs \<and> set xs \<inter> S = {} \<and> d1 = d + length xs"
  using assms
proof (induction raw S d cur rule: walk_up.induct)
  case (1 raw S d cur)
  show ?case
  proof (cases "\<exists>c. cur = Some c \<and> map_of raw c \<noteq> None \<and> c \<notin> S \<and> d \<le> MAX_GROUP_DEPTH")
    case True
    then obtain c up where c: "cur = Some c" "map_of raw c = Some up" "c \<notin> S" "d \<le> MAX_GROUP_DEPTH" by auto
    with "1.prems"(1) have "walk_up raw (insert c S) (Suc d) up = (S1, d1, c1)" by (subst (asm) walk_up.simps) auto
    with "1.IH" [of c] c "1.prems"(2,3) obtain xs where
      "climbs raw xs up c1" "distinct xs" "set xs \<inter> insert c S = {}" "d1 = Suc d + length xs" by auto
    with c show ?thesis by (intro exI [of _ "c # xs"]) auto
  next
    case False
    with "1.prems"(1) have stop: "S1 = S" "d1 = d" "c1 = cur" by (subst (asm) walk_up.simps; auto split: option.splits if_splits)+
    with False "1.prems"(2,3) show ?thesis by (intro exI [of _ "[]"]) (auto split: option.splits)
  qed
qed

text \<open>A group is sound when its stored ancestors end within the depth limit.\<close>

definition sound_chain :: "(string, string option) dict \<Rightarrow> string \<Rightarrow> string list \<Rightarrow> bool" where
  "sound_chain raw c xs \<longleftrightarrow> (\<exists>e. climbs raw xs (Some c) e) \<and> distinct xs \<and> xs \<noteq> [] \<and> length xs \<le> MAX_GROUP_DEPTH"

lemma sound_chain_hd: "sound_chain raw c xs \<Longrightarrow> hd xs = c \<and> map_of raw c \<noteq> None"
  by (cases xs) (auto simp: sound_chain_def)

lemma effective_parent_iff:
  assumes "map_of raw c = Some up"
  shows "effective_parent raw \<lparr>g_id = c, g_group = up\<rparr> = Some p \<longleftrightarrow>
    up = Some p \<and> map_of raw p \<noteq> None \<and> (\<exists>xs. sound_chain raw c xs)"
proof
  assume eff: "effective_parent raw \<lparr>g_id = c, g_group = up\<rparr> = Some p"
  obtain S d e where walk: "walk_up raw {c} 1 up = (S, d, e)" by (cases "walk_up raw {c} 1 up")
  from eff walk have p: "up = Some p" "map_of raw p \<noteq> None" and d: "d \<le> MAX_GROUP_DEPTH" and cyc: "\<And>x. e = Some x \<Longrightarrow> x \<notin> S"
    by (auto simp: effective_parent_def split: option.splits if_splits)
  from walk_climbs_conv [OF walk d cyc] obtain xs where "climbs raw xs up e" "distinct xs" "set xs \<inter> {c} = {}" "d = 1 + length xs"
    by blast
  with assms d have "sound_chain raw c (c # xs)" by (auto simp: sound_chain_def)
  with p show "up = Some p \<and> map_of raw p \<noteq> None \<and> (\<exists>xs. sound_chain raw c xs)" by blast
next
  assume a: "up = Some p \<and> map_of raw p \<noteq> None \<and> (\<exists>xs. sound_chain raw c xs)"
  then obtain ys e where "climbs raw ys (Some c) e" "distinct ys" "ys \<noteq> []" "length ys \<le> MAX_GROUP_DEPTH"
    by (auto simp: sound_chain_def)
  moreover from this assms obtain xs where "ys = c # xs" "climbs raw xs up e" by (cases ys) auto
  ultimately have xs: "climbs raw xs up e" "distinct (c # xs)" "Suc (length xs) \<le> MAX_GROUP_DEPTH" by auto
  then have walk: "walk_up raw {c} 1 up = ({c} \<union> set xs, 1 + length xs, e)" by (intro walk_climbs) auto
  have "x \<notin> {c} \<union> set xs" if "e = Some x" for x
    using climbs_end [OF xs(1)] that climbs_known [OF xs(1), of x] assms by auto
  with a walk xs(3) show "effective_parent raw \<lparr>g_id = c, g_group = up\<rparr> = Some p"
    by (auto simp: effective_parent_def split: option.splits)
qed

lemma spread_snoc: "spread a (b @ [(k, v)]) = AList.update k v (spread a b)"
  by (simp add: spread_def)

lemma map_of_groupParents:
  "map_of (groupParents gs) c = map_option (\<lambda>up. effective_parent (raw_map gs) \<lparr>g_id = c, g_group = up\<rparr>) (map_of (raw_map gs) c)"
proof -
  have "map_of (spread [] (map (\<lambda>g. (g_id g, effective_parent raw g)) gs)) c =
    map_option (\<lambda>up. effective_parent raw \<lparr>g_id = c, g_group = up\<rparr>) (map_of (spread [] (map (\<lambda>g. (g_id g, g_group g)) gs)) c)" for raw
    by (induction gs rule: rev_induct) (auto simp: spread_snoc effective_parent_def)
  then show ?thesis by (simp add: groupParents_def raw_map_def)
qed

lemma parent_iff:
  "map_of (groupParents gs) c = Some (Some p) \<longleftrightarrow>
     map_of (raw_map gs) c = Some (Some p) \<and> map_of (raw_map gs) p \<noteq> None \<and> (\<exists>xs. sound_chain (raw_map gs) c xs)"
  using effective_parent_iff [of "raw_map gs" c _ p]
  by (cases "map_of (raw_map gs) c") (auto simp: map_of_groupParents)

lemma parent_chain:
  assumes "map_of (groupParents gs) c = Some (Some p)"
  shows "\<exists>xs. sound_chain (raw_map gs) c (c # xs) \<and> sound_chain (raw_map gs) p xs"
proof -
  from assms obtain ys e where c: "map_of (raw_map gs) c = Some (Some p)" and p: "map_of (raw_map gs) p \<noteq> None"
    and ys: "climbs (raw_map gs) ys (Some c) e" "distinct ys" "ys \<noteq> []" "length ys \<le> MAX_GROUP_DEPTH"
    by (auto simp: parent_iff sound_chain_def)
  then obtain xs where xs: "ys = c # xs" "climbs (raw_map gs) xs (Some p) e" by (cases ys) auto
  with p have "xs \<noteq> []" by (cases xs) (auto split: option.splits)
  with ys xs show ?thesis by (intro exI [of _ xs]) (auto simp: sound_chain_def)
qed

lemma sound_chain_det: "sound_chain raw c xs \<Longrightarrow> sound_chain raw c ys \<Longrightarrow> xs = ys"
  by (auto simp: sound_chain_def dest: climbs_det)

lemma path_of_chain:
  assumes "sound_chain (raw_map gs) c xs" "length xs \<le> n" "length acc + length xs \<le> Suc MAX_GROUP_DEPTH"
  shows "group_path_from n (Some c) (groupParents gs) acc = rev xs @ acc"
  using assms
proof (induction xs arbitrary: c n acc)
  case Nil
  then show ?case by (simp add: sound_chain_def)
next
  case (Cons d xs)
  have d: "d = c" using sound_chain_hd [OF Cons.prems(1)] by simp
  obtain m where n: "n = Suc m" using Cons.prems(2) by (cases n) auto
  have known: "map_of (raw_map gs) c \<noteq> None" using sound_chain_hd [OF Cons.prems(1)] by simp
  show ?case
  proof (cases "map_of (groupParents gs) c")
    case None
    with known show ?thesis by (simp add: map_of_groupParents)
  next
    case (Some up)
    have len: "length acc \<le> MAX_GROUP_DEPTH" using Cons.prems(3) by simp
    show ?thesis
    proof (cases up)
      case None
      have "xs = []"
      proof (rule ccontr)
        assume "xs \<noteq> []"
        then obtain p ys where "xs = p # ys" by (cases xs) auto
        with Cons.prems(1) d have "map_of (raw_map gs) c = Some (Some p)" "map_of (raw_map gs) p \<noteq> None"
          by (auto simp: sound_chain_def)
        with Cons.prems(1) have "map_of (groupParents gs) c = Some (Some p)" by (auto simp: parent_iff)
        with Some None show False by simp
      qed
      with Some None n len d show ?thesis by (cases m) simp_all
    next
      case (Some p)
      with \<open>map_of (groupParents gs) c = Some up\<close> have par: "map_of (groupParents gs) c = Some (Some p)" by simp
      obtain ys where "sound_chain (raw_map gs) c (c # ys)" "sound_chain (raw_map gs) p ys" using parent_chain [OF par] by blast
      with Cons.prems(1) d have "sound_chain (raw_map gs) p xs" by (auto dest: sound_chain_det)
      then have "group_path_from m (Some p) (groupParents gs) (c # acc) = rev xs @ c # acc"
        using Cons.prems(2,3) n by (intro Cons.IH) simp_all
      with par n len d show ?thesis by simp
    qed
  qed
qed

lemma groupPath_sound:
  assumes "sound_chain (raw_map gs) c xs"
  shows "groupPath (Some c) (groupParents gs) = rev xs"
  using path_of_chain [OF assms, of "Suc (Suc MAX_GROUP_DEPTH)" "[]"] assms by (simp add: groupPath_def sound_chain_def)

lemma groupPath_unsound:
  assumes "map_of (raw_map gs) c \<noteq> None" "\<nexists>xs. sound_chain (raw_map gs) c xs"
  shows "groupPath (Some c) (groupParents gs) = [c]"
proof -
  have "map_of (groupParents gs) c = Some None"
  proof (cases "map_of (groupParents gs) c")
    case None
    with assms(1) show ?thesis by (simp add: map_of_groupParents)
  next
    case (Some up)
    with assms(2) parent_iff [of gs c] show ?thesis by (cases up) auto
  qed
  then show ?thesis by (simp add: groupPath_def MAX_GROUP_DEPTH_def numeral_eq_Suc)
qed

lemma chain_parents:
  assumes "sound_chain (raw_map gs) c xs"
  shows "(\<forall>i. Suc i < length xs \<longrightarrow> map_of (groupParents gs) (xs ! i) = Some (Some (xs ! Suc i))) \<and>
    map_of (groupParents gs) (last xs) = Some None"
  using assms
proof (induction xs arbitrary: c)
  case Nil
  then show ?case by (simp add: sound_chain_def)
next
  case (Cons d xs)
  have d: "d = c" and known: "map_of (raw_map gs) c \<noteq> None" using sound_chain_hd [OF Cons.prems] by simp_all
  show ?case
  proof (cases xs)
    case Nil
    with Cons.prems d have "sound_chain (raw_map gs) c [c]" by simp
    then have "map_of (groupParents gs) c \<noteq> Some (Some p)" for p
      using parent_chain [of gs c p] sound_chain_det [of "raw_map gs" c "[c]"] by (fastforce simp: sound_chain_def [of _ p])
    moreover obtain up where "map_of (groupParents gs) c = Some up" using known by (auto simp: map_of_groupParents)
    ultimately have "map_of (groupParents gs) c = Some None" by (cases up) auto
    with Nil d show ?thesis by simp
  next
    case (Cons p ys)
    with Cons.prems d have "map_of (raw_map gs) c = Some (Some p)" "map_of (raw_map gs) p \<noteq> None" by (auto simp: sound_chain_def)
    with Cons.prems have par: "map_of (groupParents gs) c = Some (Some p)" by (auto simp: parent_iff)
    obtain zs where "sound_chain (raw_map gs) c (c # zs)" "sound_chain (raw_map gs) p zs" using parent_chain [OF par] by blast
    with Cons.prems d have "sound_chain (raw_map gs) p xs" by (auto dest: sound_chain_det)
    note ih = Cons.IH [OF this]
    have "map_of (groupParents gs) ((d # xs) ! i) = Some (Some ((d # xs) ! Suc i))" if "Suc i < length (d # xs)" for i
      using that ih par d Cons by (cases i) auto
    with ih Cons show ?thesis by simp
  qed
qed

subsection \<open>Heights\<close>

lemma groupParents_entry:
  "(c, up) \<in> set (groupParents gs) \<Longrightarrow> map_of (groupParents gs) c = Some up"
  by (rule map_of_is_SomeI) (simp_all add: groupParents_def)

lemma fold_heights:
  assumes "\<And>c. (c, Some gid) \<in> set ps \<Longrightarrow> \<exists>h. f c = Some h \<and> h \<le> b" "h0 \<le> b"
  shows "\<exists>h. fold (\<lambda>(child, parent) height. if parent = Some gid then
      (case (height, f child) of (Some h, Some s) \<Rightarrow> Some (max h s) | _ \<Rightarrow> None) else height) ps (Some h0) = Some h \<and> h \<le> (b :: nat)"
  using assms
proof (induction ps arbitrary: h0)
  case (Cons p ps)
  obtain c up where p: "p = (c, up)" by (cases p)
  have rest: "\<And>c. (c, Some gid) \<in> set ps \<Longrightarrow> \<exists>h. f c = Some h \<and> h \<le> b" using Cons.prems(1) by simp
  show ?case
  proof (cases "up = Some gid")
    case True
    with Cons.prems(1) p obtain s where "f c = Some s" "s \<le> b" by auto
    with True p Cons.IH [of "max h0 s"] rest Cons.prems(2) show ?thesis by simp
  next
    case False
    with p Cons.IH [of h0] rest Cons.prems(2) show ?thesis by simp
  qed
qed simp

text \<open>Levels left below a group: none when its own chain is not sound.\<close>

definition levels_left :: "grouped list \<Rightarrow> string \<Rightarrow> nat" where
  "levels_left gs c = (if \<exists>xs. sound_chain (raw_map gs) c xs
     then Suc MAX_GROUP_DEPTH - length (THE xs. sound_chain (raw_map gs) c xs) else 1)"

lemma levels_left_sound: "sound_chain (raw_map gs) c xs \<Longrightarrow> levels_left gs c = Suc MAX_GROUP_DEPTH - length xs"
proof -
  assume xs: "sound_chain (raw_map gs) c xs"
  then have "(THE xs. sound_chain (raw_map gs) c xs) = xs" by (blast intro: sound_chain_det)
  with xs show ?thesis by (auto simp: levels_left_def)
qed

lemma child_levels:
  assumes "map_of (groupParents gs) c = Some (Some p)"
  shows "Suc (levels_left gs c) = levels_left gs p" "1 \<le> levels_left gs c"
proof -
  obtain xs where xs: "sound_chain (raw_map gs) c (c # xs)" "sound_chain (raw_map gs) p xs" using parent_chain [OF assms] by blast
  then have "Suc (length xs) \<le> MAX_GROUP_DEPTH" by (auto simp: sound_chain_def)
  with levels_left_sound [OF xs(1)] levels_left_sound [OF xs(2)]
  show "Suc (levels_left gs c) = levels_left gs p" "1 \<le> levels_left gs c" by simp_all
qed

lemma subtreeHeight_returns:
  assumes "levels_left gs c \<le> n" "1 \<le> levels_left gs c"
  shows "\<exists>h. subtreeHeight n c (groupParents gs) = Some h \<and> 1 \<le> h \<and> h \<le> levels_left gs c"
  using assms
proof (induction n arbitrary: c)
  case (Suc n)
  have "\<exists>h. subtreeHeight n d (groupParents gs) = Some h \<and> h \<le> levels_left gs c - 1"
    if "(d, Some c) \<in> set (groupParents gs)" for d
  proof -
    have par: "map_of (groupParents gs) d = Some (Some c)" using that by (rule groupParents_entry)
    note lv = child_levels [OF par]
    then obtain h where "subtreeHeight n d (groupParents gs) = Some h" "h \<le> levels_left gs d"
      using Suc.IH [of d] Suc.prems(1) by auto
    with lv show ?thesis by (intro exI [of _ h]) linarith
  qed
  then have "\<exists>h. fold (\<lambda>(child, parent) height. if parent = Some c then
      (case (height, subtreeHeight n child (groupParents gs)) of (Some h, Some s) \<Rightarrow> Some (max h s) | _ \<Rightarrow> None) else height)
      (groupParents gs) (Some 0) = Some h \<and> h \<le> levels_left gs c - 1"
    by (intro fold_heights) auto
  then obtain h where "fold (\<lambda>(child, parent) height. if parent = Some c then
      (case (height, subtreeHeight n child (groupParents gs)) of (Some h, Some s) \<Rightarrow> Some (max h s) | _ \<Rightarrow> None) else height)
      (groupParents gs) (Some 0) = Some h" "h \<le> levels_left gs c - 1" by auto
  with Suc.prems(2) show ?case by (intro exI [of _ "Suc h"]) auto
qed simp

lemma levels_left_bounds: "1 \<le> levels_left gs c \<and> levels_left gs c \<le> MAX_GROUP_DEPTH"
proof (cases "\<exists>xs. sound_chain (raw_map gs) c xs")
  case True
  then obtain xs where xs: "sound_chain (raw_map gs) c xs" by blast
  then have "1 \<le> length xs" "length xs \<le> MAX_GROUP_DEPTH" by (auto simp: sound_chain_def Suc_le_eq)
  with levels_left_sound [OF xs] show ?thesis by linarith
qed (auto simp: levels_left_def MAX_GROUP_DEPTH_def)

subsection \<open>Moving a group\<close>

definition move_group :: "grouped list \<Rightarrow> string \<Rightarrow> string option \<Rightarrow> grouped list" where
  "move_group gs gid target = map (\<lambda>g. if g_id g = gid then g\<lparr>g_group := target\<rparr> else g) gs"

lemma raw_map_snoc: "map_of (raw_map (gs @ [g])) = (map_of (raw_map gs))(g_id g \<mapsto> g_group g)"
  by (simp add: raw_map_def spread_snoc)

lemma raw_map_Nil: "map_of (raw_map []) = Map.empty"
  by (simp add: raw_map_def)

lemma raw_map_keys: "map_of (raw_map gs) c \<noteq> None \<longleftrightarrow> c \<in> g_id ` set gs"
  by (induction gs rule: rev_induct) (auto simp: raw_map_snoc raw_map_Nil)

lemma move_group_snoc:
  "move_group (gs @ [g]) gid target = move_group gs gid target @ [if g_id g = gid then g\<lparr>g_group := target\<rparr> else g]"
  by (simp add: move_group_def)

lemma raw_map_move:
  "map_of (raw_map (move_group gs gid target)) c =
     (if c = gid \<and> map_of (raw_map gs) gid \<noteq> None then Some target else map_of (raw_map gs) c)"
proof (induction gs rule: rev_induct)
  case Nil
  then show ?case by (simp add: raw_map_Nil move_group_def)
next
  case (snoc g gs)
  then show ?case
    by (cases "c = gid"; cases "g_id g = gid") (simp_all add: raw_map_snoc move_group_snoc del: map_of_eq_None_iff not_None_eq)
qed

lemma climbs_move:
  assumes "climbs (raw_map gs) xs cur e" "gid \<notin> set xs" "map_of (raw_map gs) gid \<noteq> None"
  shows "climbs (raw_map (move_group gs gid target)) xs cur e"
  using assms by (induction xs arbitrary: cur) (auto simp: raw_map_move split: option.splits)

lemma subtreeHeight_pos: "subtreeHeight n c ps = Some h \<Longrightarrow> 1 \<le> h"
  by (cases n) auto

lemma move_into_sound:
  assumes known: "map_of (raw_map gs) gid \<noteq> None" and t: "sound_chain (raw_map gs) t xs"
    and allowed: "groupMoveAllowed n gid (Some t) (groupParents gs) = Some True"
  shows "map_of (groupParents (move_group gs gid (Some t))) gid = Some (Some t)"
proof -
  have path: "groupPath (Some t) (groupParents gs) = rev xs" using t by (rule groupPath_sound)
  with allowed obtain h where notin: "gid \<notin> set xs" and h: "subtreeHeight n gid (groupParents gs) = Some h" "length xs + h \<le> MAX_GROUP_DEPTH"
    by (auto simp: groupMoveAllowed_def Let_def split: if_splits)
  from t obtain e where e: "climbs (raw_map gs) xs (Some t) e" "distinct xs" by (auto simp: sound_chain_def)
  let ?raw = "raw_map (move_group gs gid (Some t))"
  have "climbs ?raw (gid # xs) (Some gid) e" using climbs_move [OF e(1) notin known] known by (simp add: raw_map_move)
  then have "sound_chain ?raw gid (gid # xs)"
    using notin e(2) h subtreeHeight_pos [OF h(1)] by (auto simp: sound_chain_def)
  moreover have "map_of ?raw t \<noteq> None"
    using sound_chain_hd [OF t] by (simp add: raw_map_move)
  ultimately show ?thesis using known by (auto simp: parent_iff raw_map_move)
qed

section \<open>Blocks\<close>

lemma block_end_ge: "stop \<le> block_end levels level stop"
  by (induction levels level stop rule: block_end.induct) (subst block_end.simps, auto)

lemma block_end_deeper: "stop \<le> k \<Longrightarrow> k < block_end levels level stop \<Longrightarrow> k < length levels \<and> levels ! k > level"
proof (induction levels level stop rule: block_end.induct)
  case (1 levels level stop)
  then show ?case
    by (cases "k = stop"; subst (asm) (2) block_end.simps) (auto split: if_splits)
qed

lemma block_end_stops: "block_end levels level stop < length levels \<Longrightarrow> levels ! block_end levels level stop \<le> level"
proof (induction levels level stop rule: block_end.induct)
  case (1 levels level stop)
  show ?case
  proof (cases "stop < length levels \<and> levels ! stop > level")
    case True
    then have "block_end levels level stop = block_end levels level (Suc stop)" by (simp add: block_end.simps [of levels level stop])
    with 1 True show ?thesis by simp
  next
    case False
    then have "block_end levels level stop = stop" by (auto simp: block_end.simps [of levels level stop])
    with False "1.prems" show ?thesis by auto
  qed
qed

lemma blockRange_above:
  assumes "index < length levels"
  shows "i \<in> {index<..<snd (blockRange levels index)} \<longleftrightarrow> i < length levels \<and> above levels index i"
proof
  assume "i \<in> {index<..<snd (blockRange levels index)}"
  then show "i < length levels \<and> above levels index i"
    using block_end_deeper [of "Suc index" _ levels "levels ! index"] by (fastforce simp: blockRange_def above_def)
next
  assume a: "i < length levels \<and> above levels index i"
  have "i < block_end levels (levels ! index) (Suc index)"
  proof (rule ccontr)
    let ?e = "block_end levels (levels ! index) (Suc index)"
    assume "\<not> i < ?e"
    then have "?e \<le> i" "index < ?e" using block_end_ge [of "Suc index" levels "levels ! index"] by simp_all
    with a block_end_stops [of levels "levels ! index" "Suc index"] show False by (auto simp: above_def)
  qed
  with a show "i \<in> {index<..<snd (blockRange levels index)}" by (simp add: blockRange_def above_def)
qed

lemma dropBefore_outside:
  assumes "dropBefore levels from at = Some n" "at < length levels"
  shows "n \<le> from \<or> snd (blockRange levels from) \<le> n"
  using assms block_end_ge [of "Suc at" levels "levels ! at"]
  by (auto simp: dropBefore_def blockRange_def split: if_splits)

section \<open>Inserted blocks\<close>

definition valid_orders :: "'a outline_page_scheme list \<Rightarrow> bool" where
  "valid_orders xs \<longleftrightarrow> (\<forall>item \<in> set xs. case o_order item of None \<Rightarrow> True | Some k \<Rightarrow> isOrderKey k)"

lemma place_all_orders: "length keys = length items \<Longrightarrow> map pl_order (place_all items keys) = keys"
  by (simp add: place_all_def comp_def case_prod_beta)

lemma place_all_ids: "length keys = length items \<Longrightarrow> map pl_id (place_all items keys) = map fst items"
  by (induction keys items rule: list_induct2) (auto simp: place_all_def)

lemma opt_order_valid: "valid_orders xs \<Longrightarrow> key_arg (opt_order xs i)"
  by (auto simp: opt_order_def key_arg_def valid_orders_def split: option.splits)

lemma Nil_less_key: "isOrderKey k \<Longrightarrow> [] < k"
  by (cases k) (simp_all add: isOrderKey_def)

lemma drawn_between:
  assumes "key_arg prev" "key_arg nxt" "prev = None \<or> nxt = None \<or> the prev < the nxt"
    and "draw_keys (\<lambda>low. keyBetween low nxt) prev n = Inr keys"
  shows "length keys = n \<and> sorted_wrt (<) keys \<and>
    (\<forall>k \<in> set keys. (\<forall>p. prev = Some p \<longrightarrow> p < k) \<and> (\<forall>q. nxt = Some q \<longrightarrow> k < q))"
proof -
  have below: "below nxt prev"
    using assms(1-3) Nil_less_key by (auto simp: below_def in_order_def key_text_def key_arg_def split: option.splits)
  have "list_all (\<lambda>k. p < k) keys" if "prev = Some p" for p
    using bounded.draw_above [of nxt p n keys] below assms(4) that by simp
  moreover have "list_all (key_below nxt) keys" using bounded.draw_all_fit [OF below assms(4)] .
  ultimately show ?thesis
    using bounded.draw_length [OF assms(4)] bounded.draw_sorted [OF below assms(4)]
    by (auto simp: list_all_iff key_below_def)
qed

lemma renumbered:
  assumes "draw_keys (\<lambda>low. keyBetween low None) None n = Inr keys"
  shows "length keys = n \<and> sorted_wrt (<) keys"
  using open_end.draw_length [OF assms] open_end.draw_sorted [OF _ assms] by (simp add: key_arg_def)

lemma between_neighbours:
  fixes target :: "'a outline_page_scheme list"
  assumes full: "list_all has_order target" and sorted: "sorted_wrt (\<lambda>a b. the (o_order a) < the (o_order b)) target"
    and low: "\<forall>p. opt_order target (if at = 0 then None else Some (at - 1)) = Some p \<longrightarrow> p < k"
    and high: "\<forall>q. opt_order target (Some at) = Some q \<longrightarrow> k < q"
    and "at \<le> length target"
  shows "(\<forall>p \<in> set (take at target). the (o_order p) < k) \<and> (\<forall>q \<in> set (drop at target). k < the (o_order q))"
proof (intro conjI ballI)
  have has: "o_order (target ! i) = Some (the (o_order (target ! i)))" if "i < length target" for i
    using full that by (auto simp: list_all_length has_order_def)
  have le: "the (o_order (target ! i)) \<le> the (o_order (target ! j))" if "i \<le> j" "j < length target" for i j
    using sorted that by (cases "i = j") (auto simp: sorted_wrt_iff_nth_less intro: order.strict_implies_order)
  {
    fix p
    assume "p \<in> set (take at target)"
    then obtain i where i: "i < at" "i < length target" "p = target ! i" by (auto simp: in_set_conv_nth)
    then have before: "at - 1 < length target" "0 < at" using assms(5) by simp_all
    with low has [OF before(1)] have "the (o_order (target ! (at - 1))) < k" by (simp add: opt_order_def)
    moreover have "the (o_order p) \<le> the (o_order (target ! (at - 1)))" using le [of i "at - 1"] i assms(5) by simp
    ultimately show "the (o_order p) < k" by (metis order.strict_trans1)
  next
    fix q
    assume "q \<in> set (drop at target)"
    then obtain i where i: "at + i < length target" "q = target ! (at + i)" by (metis in_set_conv_nth length_drop less_diff_conv add.commute nth_drop less_imp_le assms(5))
    then have "k < the (o_order (target ! at))" using high has [of at] by (auto simp: opt_order_def)
    moreover have "the (o_order (target ! at)) \<le> the (o_order q)" using le [of at "at + i"] i by simp
    ultimately show "k < the (o_order q)" by (metis order.strict_trans2)
  }
qed

section \<open>Properties\<close>

definition demo_page :: "string \<Rightarrow> int \<Rightarrow> outline_page" where
  "demo_page i l = \<lparr>o_id = i, o_order = None, o_level = Some l, o_section = None\<rparr>"

text \<open>Whatever levels are stored, the displayed levels of an ordered page list form an outline: one level per page, the first 0,
  each between 0 and 2 and at most one deeper than the page before, 0 where the section changes, and exactly
  the stored level wherever that is possible.\<close>

lemma displayed_levels_form_outline:
  "length (displayLevels xs) = length xs \<and>
   (\<forall>i < length xs. 0 \<le> displayLevels xs ! i \<and> displayLevels xs ! i \<le> 2 \<and>
      (if nests xs i then displayLevels xs ! i = min (clampLevel (o_level (xs ! i))) (displayLevels xs ! (i - 1) + 1)
       else displayLevels xs ! i = 0))"
proof (intro conjI allI impI)
  fix i
  assume i: "i < length xs"
  show "if nests xs i then displayLevels xs ! i = min (clampLevel (o_level (xs ! i))) (displayLevels xs ! (i - 1) + 1) else displayLevels xs ! i = 0"
    unfolding displayLevels_nth [OF i] next_level_def by simp
qed (simp_all add: displayLevels_range)

text \<open>The rows shown for an outline are exactly, in order, the pages with no collapsed page above them in the outline.\<close>

lemma visible_rows_exact:
  "map r_index (visibleRows xs collapsed) =
     filter (\<lambda>i. \<not> (\<exists>j < i. o_id (xs ! j) \<in> collapsed \<and> (\<forall>k. j < k \<and> k \<le> i \<longrightarrow> displayLevels xs ! j < displayLevels xs ! k)))
       [0..<length xs]"
proof -
  have "hidden xs collapsed i = (\<exists>j < i. o_id (xs ! j) \<in> collapsed \<and> (\<forall>k. j < k \<and> k \<le> i \<longrightarrow> displayLevels xs ! j < displayLevels xs ! k))" for i
    by (auto simp: hidden_def above_def)
  then show ?thesis by (simp add: visibleRows_spec row_of_def Let_def comp_def)
qed

text \<open>The ancestors of a page are the pages above it in the outline, nearest first.\<close>

lemma ancestors_exact:
  assumes "findIndex (\<lambda>page. o_id page = pid) xs = Some index"
  shows "ancestors xs pid =
    map (\<lambda>j. o_id (xs ! j)) (rev (filter (\<lambda>j. \<forall>k. j < k \<and> k \<le> index \<longrightarrow> displayLevels xs ! j < displayLevels xs ! k) [0..<index]))"
proof -
  have "index < length xs" using assms by (auto simp: findIndex_def dest!: find_SomeD)
  then have "ancestors_from xs (displayLevels xs) index (displayLevels xs ! index) =
      map (\<lambda>j. o_id (xs ! j)) (rev (filter (\<lambda>j. above (displayLevels xs) j index) [0..<index]))"
    by (intro ancestors_from_spec) (auto dest: le_antisym intro: exI [of _ index] simp: displayLevels_range)
  moreover have "filter (\<lambda>j. above (displayLevels xs) j index) [0..<index] =
      filter (\<lambda>j. \<forall>k. j < k \<and> k \<le> index \<longrightarrow> displayLevels xs ! j < displayLevels xs ! k) [0..<index]"
    by (rule filter_cong) (auto simp: above_def)
  ultimately show ?thesis using assms by (simp add: ancestors_def)
qed

text \<open>Placing a block of pages in a list with strictly increasing valid order keys either gives each block page a new key above
  every page before the spot and below every page after it, or renumbers the whole list in its new order; the
  new keys are strictly increasing either way.\<close>

lemma placeBlock_in_order:
  assumes "valid_orders target" "sorted_wrt (\<lambda>a b. the (o_order a) < the (o_order b)) target" "length blockLevels = length block"
    and "placeBlock target block blockLevels index = Inr ups"
  shows "sorted_wrt (<) (map pl_order ups) \<and>
    (let at = nat (max 0 (min index (int (length target)))) in
      map pl_id ups = map o_id (take at target) @ map o_id block @ map o_id (drop at target) \<or>
      (map pl_id ups = map o_id block \<and>
       (\<forall>u \<in> set ups. (\<forall>p \<in> set (take at target). the (o_order p) < pl_order u) \<and> (\<forall>q \<in> set (drop at target). pl_order u < the (o_order q)))))"
proof -
  define at where "at = nat (max 0 (min index (int (length target))))"
  define prev where "prev = opt_order target (if at = 0 then None else Some (at - 1))"
  define nxt where "nxt = opt_order target (Some at)"
  define items where "items = map2 (\<lambda>item lv. (o_id item, Some lv)) block (block_levels target blockLevels at)"
  define merged where "merged = map (\<lambda>item. (o_id item, None :: int option)) (take at target) @ items @ map (\<lambda>item. (o_id item, None)) (drop at target)"
  have lens: "length items = length block" "map fst items = map o_id block"
    using assms(3) by (auto simp: items_def block_levels_def Let_def comp_def case_prod_beta map_fst_zip [unfolded comp_def] intro!: nth_equalityI)
  have mids: "map fst merged = map o_id (take at target) @ map o_id block @ map o_id (drop at target)"
    by (simp add: merged_def lens comp_def)
  have split: "(\<exists>keys. draw_keys (\<lambda>low. keyBetween low None) None (length merged) = Inr keys \<and> ups = place_all merged keys) \<or>
    (list_all has_order target \<and> (prev = None \<or> nxt = None \<or> the prev < the nxt) \<and>
     (\<exists>keys. draw_keys (\<lambda>low. keyBetween low nxt) prev (length block) = Inr keys \<and> ups = place_all items keys))"
    using assms(4) unfolding placeBlock_def Let_def at_def [symmetric] prev_def [symmetric] nxt_def [symmetric] items_def [symmetric] merged_def [symmetric]
    by (auto simp: rbind_eq_Inr split: if_splits sum.splits)
  then show ?thesis
    unfolding Let_def at_def [symmetric]
  proof
    assume "\<exists>keys. draw_keys (\<lambda>low. keyBetween low None) None (length merged) = Inr keys \<and> ups = place_all merged keys"
    then show "sorted_wrt (<) (map pl_order ups) \<and>
      (map pl_id ups = map o_id (take at target) @ map o_id block @ map o_id (drop at target) \<or>
       (map pl_id ups = map o_id block \<and>
        (\<forall>u \<in> set ups. (\<forall>p \<in> set (take at target). the (o_order p) < pl_order u) \<and> (\<forall>q \<in> set (drop at target). pl_order u < the (o_order q)))))"
      using renumbered mids by (auto simp: place_all_orders place_all_ids)
  next
    assume "list_all has_order target \<and> (prev = None \<or> nxt = None \<or> the prev < the nxt) \<and>
     (\<exists>keys. draw_keys (\<lambda>low. keyBetween low nxt) prev (length block) = Inr keys \<and> ups = place_all items keys)"
    then obtain keys where full: "list_all has_order target" and ord: "prev = None \<or> nxt = None \<or> the prev < the nxt"
      and keys: "draw_keys (\<lambda>low. keyBetween low nxt) prev (length block) = Inr keys" and ups: "ups = place_all items keys" by blast
    note btw = drawn_between [OF opt_order_valid [OF assms(1)] opt_order_valid [OF assms(1)] ord [unfolded prev_def nxt_def] keys [unfolded prev_def nxt_def]]
    have orders: "map pl_order ups = keys" and ids: "map pl_id ups = map o_id block"
      using btw lens by (simp_all add: ups place_all_orders place_all_ids)
    have "(\<forall>p \<in> set (take at target). the (o_order p) < k) \<and> (\<forall>q \<in> set (drop at target). k < the (o_order q))" if "k \<in> set keys" for k
      using btw that by (intro between_neighbours [OF full assms(2)]) (auto simp: at_def)
    then have "\<forall>u \<in> set ups. (\<forall>p \<in> set (take at target). the (o_order p) < pl_order u) \<and> (\<forall>q \<in> set (drop at target). pl_order u < the (o_order q))"
      unfolding orders [symmetric] by simp
    with btw orders ids show "sorted_wrt (<) (map pl_order ups) \<and>
      (map pl_id ups = map o_id (take at target) @ map o_id block @ map o_id (drop at target) \<or>
       (map pl_id ups = map o_id block \<and>
        (\<forall>u \<in> set ups. (\<forall>p \<in> set (take at target). the (o_order p) < pl_order u) \<and> (\<forall>q \<in> set (drop at target). pl_order u < the (o_order q)))))"
      by simp
  qed
qed

definition demo_ordered :: "string \<Rightarrow> string \<Rightarrow> outline_page" where
  "demo_ordered i k = \<lparr>o_id = i, o_order = Some k, o_level = Some 0, o_section = None\<rparr>"

text \<open>C35: whatever parents are stored, also missing ones and cycles, the effective parents form a forest: the path of a known group
  starts at a root group, follows parent links to the group itself, repeats nothing and is at most four long, and the
  recursion over children ends within four levels.\<close>

theorem group_forest:
  assumes "c \<in> g_id ` set gs"
  shows "let parents = groupParents gs; path = groupPath (Some c) parents in
    distinct path \<and> path \<noteq> [] \<and> length path \<le> MAX_GROUP_DEPTH \<and> last path = c \<and> map_of parents (hd path) = Some None \<and>
    (\<forall>i. Suc i < length path \<longrightarrow> map_of parents (path ! Suc i) = Some (Some (path ! i))) \<and>
    (\<exists>h. subtreeHeight MAX_GROUP_DEPTH c parents = Some h \<and> 1 \<le> h \<and> h \<le> MAX_GROUP_DEPTH)"
proof -
  have known: "map_of (raw_map gs) c \<noteq> None" using assms raw_map_keys by blast
  have heights: "\<exists>h. subtreeHeight MAX_GROUP_DEPTH c (groupParents gs) = Some h \<and> 1 \<le> h \<and> h \<le> MAX_GROUP_DEPTH"
    using subtreeHeight_returns [of gs c MAX_GROUP_DEPTH] levels_left_bounds [of gs c] by force
  show ?thesis
  proof (cases "\<exists>xs. sound_chain (raw_map gs) c xs")
    case True
    then obtain xs where xs: "sound_chain (raw_map gs) c xs" by blast
    then have basic: "distinct xs" "xs \<noteq> []" "length xs \<le> MAX_GROUP_DEPTH" "hd xs = c"
      using sound_chain_hd [OF xs] by (auto simp: sound_chain_def)
    have "map_of (groupParents gs) (rev xs ! Suc i) = Some (Some (rev xs ! i))" if "Suc i < length xs" for i
    proof -
      have "Suc (length xs - Suc (Suc i)) = length xs - Suc i" using that by simp
      with that chain_parents [OF xs] show ?thesis by (simp add: rev_nth)
    qed
    with basic heights groupPath_sound [OF xs] chain_parents [OF xs] show ?thesis by (simp add: Let_def last_rev hd_rev)
  next
    case False
    then have "map_of (groupParents gs) c \<noteq> Some (Some p)" for p by (simp add: parent_iff)
    moreover obtain up where "map_of (groupParents gs) c = Some up" using known by (auto simp: map_of_groupParents)
    ultimately have "map_of (groupParents gs) c = Some None" by (cases up) auto
    with groupPath_unsound [OF known False] heights show ?thesis by (simp add: Let_def MAX_GROUP_DEPTH_def)
  qed
qed

definition demo_groups :: "grouped list" where
  "demo_groups = [\<lparr>g_id = ''a'', g_group = None\<rparr>, \<lparr>g_id = ''b'', g_group = Some ''a''\<rparr>, \<lparr>g_id = ''c'', g_group = Some ''c''\<rparr>]"

theorem group_forest_witness:
  "let parents = groupParents demo_groups; path = groupPath (Some ''b'') parents in
    distinct path \<and> path \<noteq> [] \<and> length path \<le> MAX_GROUP_DEPTH \<and> last path = ''b'' \<and> map_of parents (hd path) = Some None \<and>
    (\<forall>i. Suc i < length path \<longrightarrow> map_of parents (path ! Suc i) = Some (Some (path ! i))) \<and>
    (\<exists>h. subtreeHeight MAX_GROUP_DEPTH ''b'' parents = Some h \<and> 1 \<le> h \<and> h \<le> MAX_GROUP_DEPTH)"
  by (rule group_forest) (simp add: demo_groups_def)

text \<open>A group move the check allows, into a group whose own stored parents reach the top within four levels, takes effect: after
  the stored parent changes, the moved group is shown under its target.\<close>

lemma allowed_group_move_takes_effect:
  assumes "gid \<in> g_id ` set gs" "climbs (raw_map gs) xs (Some t) None" "distinct xs" "length xs \<le> MAX_GROUP_DEPTH" "xs \<noteq> []"
    and "groupMoveAllowed n gid (Some t) (groupParents gs) = Some True"
  shows "map_of (groupParents (map (\<lambda>g. if g_id g = gid then g\<lparr>g_group := Some t\<rparr> else g) gs)) gid = Some (Some t)"
proof -
  have "map_of (raw_map gs) gid \<noteq> None" using assms(1) raw_map_keys by blast
  moreover have "sound_chain (raw_map gs) t xs" using assms(2-5) by (auto simp: sound_chain_def)
  ultimately show ?thesis using move_into_sound [of gs gid t xs n] assms(6) by (simp add: move_group_def)
qed

text \<open>The check reads the displayed tree: a target whose stored parents form a cycle counts as a root group, yet a
  group moved under it is itself shown at the root, because its own chain then meets the cycle.\<close>

lemma allowed_move_into_cycle_has_no_effect:
  "let gs = [\<lparr>g_id = ''a'', g_group = Some ''b''\<rparr>, \<lparr>g_id = ''b'', g_group = Some ''a''\<rparr>, \<lparr>g_id = ''c'', g_group = None\<rparr>] in
   groupMoveAllowed 4 ''c'' (Some ''a'') (groupParents gs) = Some True \<and>
   map_of (groupParents (move_group gs ''c'' (Some ''a''))) ''c'' = Some None"
  by code_simp

end
