(* ===== verification/Pages.thy ===== *)
theory Pages
  imports Outline
begin

text \<open>
  Objects of a notebook and where they are shown (\<open>web/src/pages.ts\<close>): narrowing of decrypted JSON to
  a page, section or group, the display order, moving one item, the copy kept of a rejected edit, and
  the hash routes. A property that is present but \<open>undefined\<close> is not told apart from an absent one:
  printing drops both. The lemmas: the display order is a total order, a move puts the item where it was
  dropped whatever keys the list had, no rejected edit is lost or doubled when conflicts are grouped,
  what is narrowed is well-formed and prints and narrows back to itself, and routes are read back.
\<close>

section \<open>Objects\<close>

definition QUICK_NOTES :: string where "QUICK_NOTES = ''quick''"

definition SECTION_COLORS :: "string list" where
  "SECTION_COLORS = [''orange'', ''blue'', ''green'', ''purple'', ''red'', ''teal'', ''yellow'', ''gray'']"

record section_payload =
  sp_title :: string
  sp_color :: string
  sp_order :: "string option"
  sp_group :: "string option"

record page_payload =
  pg_title :: string
  pg_body :: string
  pg_section :: "string option"
  pg_order :: "string option"
  pg_level :: "int option"
  pg_legacy :: "(string, string) dict option"

datatype object_payload =
    SectionPayload section_payload
  | GroupPayload section_payload
  | PagePayload page_payload

record section_obj = section_payload +
  s_id :: string
  s_version :: int

definition OBJECT_ID :: "string \<Rightarrow> bool" where "OBJECT_ID s = prefixed_id ''obj'' s"
definition CONTAINER_ID :: "string \<Rightarrow> bool" where "CONTAINER_ID s = prefixed_id ''cnt'' s"

definition CHILD_ID :: "string \<Rightarrow> bool" where
  "CHILD_ID s = (prefixed_id ''cmt'' s \<or> prefixed_id ''att'' s \<or> (drop 30 s = ''/meta'' \<and> prefixed_id ''att'' (take 30 s)))"

definition DIGEST :: "string \<Rightarrow> bool" where
  "DIGEST s = (length s = 64 \<and> list_all (\<lambda>c. c \<in> set ''0123456789abcdef'') s)"

definition pin_entry :: "string \<times> json \<Rightarrow> (string \<times> string) option" where
  "pin_entry e = (case e of (k, JStr digest) \<Rightarrow> if CHILD_ID k \<and> DIGEST digest then Some (k, digest) else None | _ \<Rightarrow> None)"

definition parseLegacy :: "json \<Rightarrow> (string, string) dict" where
  "parseLegacy value = (case value of JObj ms \<Rightarrow> spread [] (List.map_filter pin_entry ms) | _ \<Rightarrow> [])"

definition filter_str :: "(string \<Rightarrow> bool) \<Rightarrow> json option \<Rightarrow> string option" where
  "filter_str P v = (case str_of v of Some s \<Rightarrow> if P s then Some s else None | None \<Rightarrow> None)"

definition str_or :: "string \<Rightarrow> json option \<Rightarrow> string" where
  "str_or d v = (case str_of v of Some s \<Rightarrow> s | None \<Rightarrow> d)"

definition parse_structure :: "string \<Rightarrow> json \<Rightarrow> section_payload" where
  "parse_structure untitled v =
     \<lparr>sp_title = str_or untitled (field ''title'' v),
      sp_color = (case filter_str (\<lambda>c. c \<in> set SECTION_COLORS) (field ''color'' v) of Some c \<Rightarrow> c | None \<Rightarrow> ''gray''),
      sp_order = filter_str isOrderKey (field ''order'' v),
      sp_group = filter_str OBJECT_ID (field ''group'' v)\<rparr>"

definition parseObjectPayload :: "json \<Rightarrow> object_payload option" where
  "parseObjectPayload value =
     (case value of
        JObj _ \<Rightarrow>
          if field ''type'' value = Some (JStr ''section'') then Some (SectionPayload (parse_structure ''Untitled section'' value))
          else if field ''type'' value = Some (JStr ''group'') then Some (GroupPayload (parse_structure ''Untitled group'' value))
          else (case str_of (field ''body'' value) of
                  None \<Rightarrow> None
                | Some body \<Rightarrow>
                    Some (PagePayload \<lparr>pg_title = str_or [] (field ''title'' value), pg_body = body,
                      pg_section = filter_str OBJECT_ID (field ''section'' value),
                      pg_order = filter_str isOrderKey (field ''order'' value),
                      pg_level = (case num_of (field ''level'' value) of Some n \<Rightarrow> if n \<in> {0, 1, 2} then Some n else None | None \<Rightarrow> None),
                      pg_legacy = map_option parseLegacy (field ''legacy'' value)\<rparr>))
      | _ \<Rightarrow> None)"

section \<open>Display order\<close>

text \<open>What the order looks at: the ID and the order key.\<close>

type_synonym ordered = "string \<times> string option"

definition set_order :: "string option \<Rightarrow> bool" where
  "set_order k = (k \<noteq> None \<and> k \<noteq> Some [])"

definition compareOrdered :: "ordered \<Rightarrow> ordered \<Rightarrow> int" where
  "compareOrdered a b =
     (if set_order (snd a) \<and> set_order (snd b) \<and> snd a \<noteq> snd b then (if the (snd a) < the (snd b) then -1 else 1)
      else if set_order (snd a) \<noteq> set_order (snd b) then (if set_order (snd a) then -1 else 1)
      else if fst a < fst b then -1 else if fst b < fst a then 1 else 0)"

definition page_key :: "'a outline_page_scheme \<Rightarrow> ordered" where
  "page_key p = (o_id p, o_order p)"

definition section_key :: "section_obj \<Rightarrow> ordered" where
  "section_key s = (s_id s, sp_order s)"

definition sortedSections :: "section_obj list \<Rightarrow> section_obj list" where
  "sortedSections sections = sort_by (\<lambda>a b. compareOrdered (section_key a) (section_key b) \<le> 0) sections"

definition in_section :: "section_obj list \<Rightarrow> string \<Rightarrow> 'a outline_page_scheme \<Rightarrow> bool" where
  "in_section sections sectionID page =
     (if sectionID = QUICK_NOTES then \<not> set_order (o_section page) \<or> the (o_section page) \<notin> s_id ` set sections
      else o_section page = Some sectionID)"

definition pagesInSection :: "'a outline_page_scheme list \<Rightarrow> section_obj list \<Rightarrow> string \<Rightarrow> 'a outline_page_scheme list" where
  "pagesInSection pages sections sectionID =
     sort_by (\<lambda>a b. compareOrdered (page_key a) (page_key b) \<le> 0) (filter (in_section sections sectionID) pages)"

definition max_order :: "string option list \<Rightarrow> string option" where
  "max_order list =
     foldl (\<lambda>mx k. if set_order k \<and> (mx = None \<or> the mx < the k) then k else mx) None list"

definition endOrder :: "string option list \<Rightarrow> string result" where
  "endOrder list = keyBetween (max_order list) None"

section \<open>Moving one item\<close>

definition nth_key :: "ordered list \<Rightarrow> int \<Rightarrow> string option" where
  "nth_key xs i = (if 0 \<le> i \<and> i < int (length xs) then snd (xs ! nat i) else None)"

definition renumber :: "string list \<Rightarrow> (string \<times> string) list result" where
  "renumber ids = rbind (draw_keys (\<lambda>low. keyBetween low None) None (length ids)) (\<lambda>keys. Inr (zip ids keys))"

definition reorder :: "ordered list \<Rightarrow> string \<Rightarrow> int \<Rightarrow> (string \<times> string) list result" where
  "reorder list movedID index =
     (let rest = filter (\<lambda>item. fst item \<noteq> movedID) list;
          at = max 0 (min index (int (length rest)));
          all_of_them = renumber (map fst (take (nat at) rest) @ [movedID] @ map fst (drop (nat at) rest)) in
      if list_all (\<lambda>item. set_order (snd item)) rest then
        (case keyBetween (nth_key rest (at - 1)) (nth_key rest at) of
           Inr k \<Rightarrow> Inr [(movedID, k)]
         | Inl _ \<Rightarrow> all_of_them)
      else all_of_them)"

section \<open>Conflicts\<close>

definition conflictCopy ::
  "'a outline_page_scheme list \<Rightarrow> 'a outline_page_scheme \<Rightarrow> string \<Rightarrow> string \<Rightarrow> (page_payload \<times> (string \<times> string) list) result" where
  "conflictCopy list original title body =
     (let copyID = []; levels = displayLevels list;
          index = findIndex (\<lambda>item. o_id item = o_id original) list;
          spot = (case index of None \<Rightarrow> length list | Some i \<Rightarrow> snd (blockRange levels i)) in
      rbind (reorder (map page_key list) copyID (int spot)) (\<lambda>updates.
        Inr (\<lparr>pg_title = (if title = [] then ''Untitled page'' else title) @ '' (conflicting copy)'', pg_body = body,
              pg_section = o_section original,
              pg_order = map_option snd (find (\<lambda>u. fst u = copyID) updates),
              pg_level = map_option (\<lambda>i. levels ! i) index,
              pg_legacy = Some []\<rparr>,
             filter (\<lambda>u. fst u \<noteq> copyID) updates)))"

record rejected_edit =
  rj_id :: string
  rj_createdAt :: string
  rj_payload :: page_payload

definition text_key :: "string \<Rightarrow> string \<Rightarrow> string" where
  "text_key title body = stringify (JArr [JStr title, JStr body])"

definition edit_key :: "rejected_edit \<Rightarrow> string" where
  "edit_key item = text_key (pg_title (rj_payload item)) (pg_body (rj_payload item))"

type_synonym conflict_groups = "(string, page_payload \<times> string list) dict"

definition conflict_step :: "string \<Rightarrow> rejected_edit \<Rightarrow> string list \<times> conflict_groups \<Rightarrow> string list \<times> conflict_groups" where
  "conflict_step server item acc =
     (let (resolveOnly, groups) = acc; key = edit_key item in
      if key = server then (resolveOnly @ [rj_id item], groups)
      else (resolveOnly, AList.update key
              (case map_of groups key of Some (p, ids) \<Rightarrow> (p, ids @ [rj_id item]) | None \<Rightarrow> (rj_payload item, [rj_id item])) groups))"

definition groupConflicts :: "string \<Rightarrow> string \<Rightarrow> rejected_edit list \<Rightarrow> string list \<times> (page_payload \<times> string list) list" where
  "groupConflicts title body rejected =
     (let (resolveOnly, groups) = fold (conflict_step (text_key title body))
            (sort_by (\<lambda>a b. rj_createdAt a \<le> rj_createdAt b) rejected) ([], []) in
      (resolveOnly, map snd groups))"

section \<open>Routes\<close>

definition resolveSection :: "string option \<Rightarrow> section_obj list \<Rightarrow> string" where
  "resolveSection sid sections =
     (if sid = Some QUICK_NOTES \<or> (set_order sid \<and> the sid \<in> s_id ` set sections) then the sid
      else case sortedSections sections of [] \<Rightarrow> QUICK_NOTES | s # _ \<Rightarrow> s_id s)"

record route =
  rt_container :: "string option"
  rt_section :: "string option"
  rt_page :: "string option"

fun split_on :: "char \<Rightarrow> string \<Rightarrow> string list" where
  "split_on d [] = [[]]"
| "split_on d (c # s) = (if c = d then [] # split_on d s else (case split_on d s of p # ps \<Rightarrow> (c # p) # ps | [] \<Rightarrow> [[c]]))"

fun join_with :: "char \<Rightarrow> string list \<Rightarrow> string" where
  "join_with d [] = []"
| "join_with d [p] = p"
| "join_with d (p # q # ps) = p @ d # join_with d (q # ps)"

definition strip_hash :: "string \<Rightarrow> string" where
  "strip_hash hash = (case hash of c # s \<Rightarrow> if c = CHR ''#'' then (case s of d # t \<Rightarrow> if d = CHR ''/'' then t else s | [] \<Rightarrow> s) else hash | [] \<Rightarrow> [])"

definition nth_part :: "string list \<Rightarrow> nat \<Rightarrow> string" where
  "nth_part ps n = (if n < length ps then ps ! n else [])"

definition parseRoute :: "string \<Rightarrow> route" where
  "parseRoute hash =
     (let parts = split_on (CHR ''/'') (strip_hash hash);
          keep = (\<lambda>P s. if P s then Some s else None) in
      \<lparr>rt_container = keep CONTAINER_ID (nth_part parts 0),
       rt_section = keep (\<lambda>s. s = QUICK_NOTES \<or> OBJECT_ID s) (nth_part parts 1),
       rt_page = keep OBJECT_ID (nth_part parts 2)\<rparr>)"

definition formatRoute :: "route \<Rightarrow> string" where
  "formatRoute r =
     (if \<not> set_order (rt_container r) then []
      else ''#/'' @ join_with (CHR ''/'') (map the (filter set_order
        [rt_container r, rt_section r, if set_order (rt_section r) then rt_page r else None])))"

definition SETTINGS_TABS :: "(string \<times> string) list" where
  "SETTINGS_TABS = [(''account'', ''Account''), (''devices'', ''Phones & apps''), (''appearance'', ''Appearance''),
     (''reminders'', ''Reminders''), (''colleague-keys'', ''Colleague keys''), (''share-links'', ''Share links''), (''unsent'', ''Unsent edits'')]"

definition OLD_SETTINGS_HASHES :: "(string, string) dict" where
  "OLD_SETTINGS_HASHES = [(''#password'', ''account''), (''#device'', ''account''), (''#link-this-browser'', ''devices''),
     (''#link-devices'', ''devices''), (''#reminders'', ''reminders''), (''#colleague-keys'', ''colleague-keys'')]"

definition tab_char :: "char \<Rightarrow> bool" where
  "tab_char c = (c \<in> set ''abcdefghijklmnopqrstuvwxyz-'')"

definition settingsTabOf :: "string \<Rightarrow> string option" where
  "settingsTabOf hash =
     (case strip_prefix ''#/settings'' hash of
        Some [] \<Rightarrow> map_option fst (find (\<lambda>t. fst t = ''account'') SETTINGS_TABS)
      | Some (c # tab) \<Rightarrow>
          if c = CHR ''/'' \<and> tab \<noteq> [] \<and> list_all tab_char tab then map_option fst (find (\<lambda>t. fst t = tab) SETTINGS_TABS)
          else map_of OLD_SETTINGS_HASHES hash
      | None \<Rightarrow> map_of OLD_SETTINGS_HASHES hash)"

definition settingsHash :: "string \<Rightarrow> string" where
  "settingsHash tab = ''#/settings/'' @ tab"

section \<open>The display order is a total order\<close>

definition display_le :: "ordered \<Rightarrow> ordered \<Rightarrow> bool" where
  "display_le a b \<longleftrightarrow> compareOrdered a b \<le> 0"

lemma display_le_iff:
  "display_le a b \<longleftrightarrow>
     (set_order (snd a) \<and> \<not> set_order (snd b)) \<or>
     (set_order (snd a) \<and> set_order (snd b) \<and> the (snd a) < the (snd b)) \<or>
     (set_order (snd a) = set_order (snd b) \<and> (set_order (snd a) \<longrightarrow> snd a = snd b) \<and> fst a \<le> fst b)"
  by (auto simp: display_le_def compareOrdered_def set_order_def)

lemma same_order: "set_order x \<Longrightarrow> set_order y \<Longrightarrow> the x = the y \<longleftrightarrow> x = y"
  by (auto simp: set_order_def)

interpretation display: comparator display_le
proof unfold_locales
  fix x y z :: ordered
  show "display_le x y \<or> display_le y x"
    unfolding display_le_iff using same_order [of "snd x" "snd y"]
    by (cases "set_order (snd x)"; cases "set_order (snd y)") (auto simp: not_le not_less order.order_iff_strict)
  assume "display_le x y" "display_le y z"
  then show "display_le x z" unfolding display_le_iff by (elim disjE conjE) (auto intro: less_trans order_trans)
qed

lemma compare_zero: "compareOrdered a b = 0 \<Longrightarrow> fst a = fst b"
  by (auto simp: compareOrdered_def split: if_splits)

lemma compare_neg: "set_order (snd a) \<Longrightarrow> set_order (snd b) \<Longrightarrow> the (snd a) < the (snd b) \<Longrightarrow> compareOrdered a b < 0"
  by (auto simp: compareOrdered_def)

lemma display_le_order:
  "display_le a b \<Longrightarrow> set_order (snd a) \<Longrightarrow> set_order (snd b) \<Longrightarrow> the (snd a) \<le> the (snd b)"
  by (auto simp: display_le_iff)

lemma strict_of_distinct:
  assumes "sorted_wrt display_le xs" "distinct (map fst xs)"
  shows "sorted_wrt (\<lambda>a b. compareOrdered a b < 0) xs"
  using assms
proof (induction xs)
  case (Cons a xs)
  have "compareOrdered a b < 0" if "b \<in> set xs" for b
  proof -
    have "compareOrdered a b \<le> 0" using Cons.prems(1) that by (simp add: display_le_def)
    moreover have "compareOrdered a b \<noteq> 0" using compare_zero [of a b] Cons.prems(2) that by (metis distinct.simps(2) image_eqI list.set_map list.simps(9))
    ultimately show ?thesis by simp
  qed
  with Cons show ?case by simp
qed simp

section \<open>A move lands where it was dropped\<close>

definition apply_order :: "(string \<times> string) list \<Rightarrow> ordered \<Rightarrow> ordered" where
  "apply_order ups item = (fst item, case map_of ups (fst item) of Some k \<Rightarrow> Some k | None \<Rightarrow> snd item)"

lemma order_key_set: "isOrderKey k \<Longrightarrow> set_order (Some k)"
  using Nil_less_key [of k] by (auto simp: set_order_def)

lemma apply_zip:
  assumes "distinct ids" "length keys = length ids" "map fst items = ids"
  shows "map (apply_order (zip ids keys)) items = zip ids (map Some keys)"
proof (rule nth_equalityI)
  fix i
  assume "i < length (map (apply_order (zip ids keys)) items)"
  then have i: "i < length ids" using assms(3) by auto
  then have "map_of (zip ids keys) (ids ! i) = Some (keys ! i)" using assms(1,2) by (intro map_of_zip_nth) auto
  with i assms show "map (apply_order (zip ids keys)) items ! i = zip ids (map Some keys) ! i"
    by (auto simp: apply_order_def)
qed (use assms in auto)

lemma renumber_sorts:
  assumes "renumber ids = Inr ups" "distinct ids" "map fst items = ids"
  shows "sorted_wrt (\<lambda>a b. compareOrdered a b < 0) (map (apply_order ups) items)"
proof -
  obtain keys where draw: "draw_keys (\<lambda>low. keyBetween low None) None (length ids) = Inr keys" and ups: "ups = zip ids keys"
    using assms(1) by (auto simp: renumber_def rbind_eq_Inr)
  have len: "length keys = length ids" and sorted: "sorted_wrt (<) keys" using renumbered [OF draw] by auto
  have fits: "list_all isOrderKey keys" using open_end.draw_all_fit [OF _ draw] by (simp add: key_arg_def)
  have "compareOrdered (ids ! i, Some (keys ! i)) (ids ! j, Some (keys ! j)) < 0" if "i < j" "j < length ids" for i j
    using that len sorted fits by (intro compare_neg) (auto simp: sorted_wrt_iff_nth_less list_all_length intro!: order_key_set)
  then show ?thesis using len by (simp add: ups apply_zip [OF assms(2) len assms(3)] sorted_wrt_iff_nth_less)
qed

lemma apply_one_rest: "movedID \<notin> fst ` set xs \<Longrightarrow> map (apply_order [(movedID, k)]) xs = xs"
  by (induction xs) (auto simp: apply_order_def)

lemma inserted_sorts:
  assumes rest: "sorted_wrt display_le rest" "distinct (map fst rest)" "list_all (\<lambda>x. set_order (snd x)) rest"
    and at: "at \<le> length rest" and k: "set_order (Some k)"
    and low: "\<And>p. 0 < at \<Longrightarrow> snd (rest ! (at - 1)) = Some p \<Longrightarrow> p < k"
    and high: "\<And>q. at < length rest \<Longrightarrow> snd (rest ! at) = Some q \<Longrightarrow> k < q"
  shows "sorted_wrt (\<lambda>a b. compareOrdered a b < 0) (take at rest @ [(movedID, Some k)] @ drop at rest)"
proof -
  have strict: "sorted_wrt (\<lambda>a b. compareOrdered a b < 0) (take at rest @ drop at rest)"
    using strict_of_distinct [OF rest(1,2)] by (simp only: append_take_drop_id)
  have set: "set_order (snd (rest ! i))" if "i < length rest" for i using rest(3) that by (simp add: list_all_length)
  have le: "the (snd (rest ! i)) \<le> the (snd (rest ! j))" if "i \<le> j" "j < length rest" for i j
    using that rest(1) set by (cases "i = j") (auto simp: sorted_wrt_iff_nth_less intro: display_le_order)
  have "compareOrdered x (movedID, Some k) < 0" if x: "x \<in> set (take at rest)" for x
  proof -
    obtain i where i: "i < at" "x = rest ! i" "i < length rest" using x by (auto simp: in_set_conv_nth)
    have "at - 1 < length rest" using i at by simp
    then have "the (snd (rest ! (at - 1))) < k" using low [of "the (snd (rest ! (at - 1)))"] set i(1) by (auto simp: set_order_def)
    moreover have "the (snd x) \<le> the (snd (rest ! (at - 1)))" using le [of i "at - 1"] i \<open>at - 1 < length rest\<close> by simp
    ultimately have "the (snd x) < k" by (rule le_less_trans [rotated])
    then show ?thesis using compare_neg [of x "(movedID, Some k)"] set [OF i(3)] i(2) k by simp
  qed
  moreover have "compareOrdered (movedID, Some k) x < 0" if x: "x \<in> set (drop at rest)" for x
  proof -
    obtain i where i: "i < length rest - at" "x = rest ! (at + i)" using x at by (auto simp: in_set_conv_nth)
    have "k < the (snd (rest ! at))" using high [of "the (snd (rest ! at))"] set [of at] i(1) by (auto simp: set_order_def)
    then have "k < the (snd x)" using le [of at "at + i"] i by (auto intro: order.strict_trans2)
    then show ?thesis using compare_neg [of "(movedID, Some k)" x] set [of "at + i"] i k by simp
  qed
  ultimately show ?thesis using strict by (simp only: sorted_wrt_append) simp
qed

lemma keyBetween_Inr_in_order: "keyBetween before after = Inr k \<Longrightarrow> in_order before after"
  using Nil_less_Cons
  by (cases after; cases before) (auto simp: keyBetween_def in_order_def key_text_def not_le neq_Nil_conv split: if_splits)

lemma nth_key_valid: "\<forall>x \<in> set xs. key_arg (snd x) \<Longrightarrow> key_arg (nth_key xs i)"
  by (auto simp: nth_key_def key_arg_def nat_less_iff)

lemma reorder_cases:
  assumes "reorder list movedID index = Inr ups"
    and rest: "rest = filter (\<lambda>item. fst item \<noteq> movedID) list" and at: "at = nat (max 0 (min index (int (length rest))))"
  shows "(\<exists>k. list_all (\<lambda>item. set_order (snd item)) rest \<and>
        keyBetween (nth_key rest (int at - 1)) (nth_key rest (int at)) = Inr k \<and> ups = [(movedID, k)]) \<or>
    renumber (map fst (take at rest) @ [movedID] @ map fst (drop at rest)) = Inr ups"
proof -
  have "int at = max 0 (min index (int (length rest)))" by (simp add: at)
  then show ?thesis using assms(1) unfolding reorder_def Let_def rest [symmetric]
    by (metis (no_types, lifting) at sum.case_eq_if sum.collapse(2) sum.sel(2) sum.disc_eq_case(2) isl_def sum.exhaust_sel)
qed

lemma reorder_lands_lemma:
  assumes sorted: "sorted_wrt display_le list" and dist: "distinct (map fst list)" and valid: "\<forall>x \<in> set list. key_arg (snd x)"
    and ups: "reorder list movedID index = Inr ups"
    and rest: "rest = filter (\<lambda>item. fst item \<noteq> movedID) list" and at: "at = nat (max 0 (min index (int (length rest))))"
  shows "sorted_wrt (\<lambda>a b. compareOrdered a b < 0)
    (map (apply_order ups) (take at rest @ [(movedID, None)] @ drop at rest))"
proof -
  have notin: "movedID \<notin> fst ` set rest" and drest: "distinct (map fst rest)" and vrest: "\<forall>x \<in> set rest. key_arg (snd x)"
    using dist valid by (auto simp: rest distinct_map_filter)
  have le: "at \<le> length rest" by (simp add: at)
  have ids: "distinct (map fst (take at rest) @ [movedID] @ map fst (drop at rest))"
  proof -
    have split: "map fst (take at rest) @ map fst (drop at rest) = map fst rest" by (metis append_take_drop_id map_append)
    have "distinct (map fst (take at rest) @ map fst (drop at rest))" "movedID \<notin> set (map fst (take at rest) @ map fst (drop at rest))"
      using drest notin by (simp_all only: split set_map not_False_eq_True)
    then show ?thesis by auto
  qed
  from reorder_cases [OF ups rest at] show ?thesis
  proof
    assume "renumber (map fst (take at rest) @ [movedID] @ map fst (drop at rest)) = Inr ups"
    then show ?thesis using ids by (rule renumber_sorts) simp
  next
    assume "\<exists>k. list_all (\<lambda>item. set_order (snd item)) rest \<and>
        keyBetween (nth_key rest (int at - 1)) (nth_key rest (int at)) = Inr k \<and> ups = [(movedID, k)]"
    then obtain k where all: "list_all (\<lambda>item. set_order (snd item)) rest"
      and k: "keyBetween (nth_key rest (int at - 1)) (nth_key rest (int at)) = Inr k" and ups1: "ups = [(movedID, k)]" by blast
    note strict = keyBetween_strict [OF nth_key_valid [OF vrest] nth_key_valid [OF vrest] keyBetween_Inr_in_order [OF k] k]
    have "sorted_wrt (\<lambda>a b. compareOrdered a b < 0) (take at rest @ [(movedID, Some k)] @ drop at rest)"
    proof (rule inserted_sorts [OF _ drest all le])
      show "sorted_wrt display_le rest" using sorted by (simp add: rest sorted_wrt_filter)
      show "set_order (Some k)" using strict(1) by (rule order_key_set)
      show "p < k" if "0 < at" "snd (rest ! (at - 1)) = Some p" for p
        using strict(2) that le by (auto simp: nth_key_def key_text_def nat_diff_distrib)
      show "k < q" if "at < length rest" "snd (rest ! at) = Some q" for q
        using strict(3) [of q] that by (auto simp: nth_key_def)
    qed
    moreover have "map (apply_order ups) (take at rest) = take at rest" "map (apply_order ups) (drop at rest) = drop at rest"
      unfolding ups1 using notin by (auto intro!: apply_one_rest dest: in_set_takeD in_set_dropD)
    ultimately show ?thesis by (simp add: ups1 apply_order_def)
  qed
qed

section \<open>Grouped conflicts\<close>

lemma text_key_inj [simp]: "text_key t b = text_key t' b' \<longleftrightarrow> t = t' \<and> b = b'"
  using stringify_inj [of "JArr [JStr t, JStr b]" "JArr [JStr t', JStr b']"] by (auto simp: text_key_def)

definition conflict_ok :: "string \<Rightarrow> rejected_edit list \<Rightarrow> string list \<times> conflict_groups \<Rightarrow> bool" where
  "conflict_ok server items acc \<longleftrightarrow>
     fst acc = map rj_id (filter (\<lambda>x. edit_key x = server) items) \<and> distinct (keys_of (snd acc)) \<and>
     (\<forall>key. map_of (snd acc) key =
        (case filter (\<lambda>x. edit_key x = key \<and> key \<noteq> server) items of [] \<Rightarrow> None | x # xs \<Rightarrow> Some (rj_payload x, map rj_id (x # xs))))"

lemma conflict_step_ok:
  assumes "conflict_ok server items acc"
  shows "conflict_ok server (items @ [item]) (conflict_step server item acc)"
proof -
  obtain ro gs where acc: "acc = (ro, gs)" by (cases acc)
  note ok = assms [unfolded conflict_ok_def acc fst_conv snd_conv]
  show ?thesis
  proof (cases "edit_key item = server")
    case True
    with ok show ?thesis by (auto simp: conflict_ok_def conflict_step_def acc split: list.splits)
  next
    case False
    with ok show ?thesis
      by (auto simp: conflict_ok_def conflict_step_def acc Let_def split: list.splits option.splits)
  qed
qed

lemma conflicts_ok: "conflict_ok server items (fold (conflict_step server) items ([], []))"
proof (induction items rule: rev_induct)
  case Nil
  show ?case by (simp add: conflict_ok_def)
qed (simp add: conflict_step_ok)

lemma conflict_groups_of:
  assumes "distinct (keys_of gs)"
    and "\<And>key. map_of gs key = (case filter (\<lambda>x. edit_key x = key \<and> key \<noteq> server) items of [] \<Rightarrow> None | x # xs \<Rightarrow> Some (rj_payload x, map rj_id (x # xs)))"
  shows "set (map snd gs) = (\<lambda>x. (rj_payload (hd (filter (\<lambda>y. edit_key y = edit_key x) items)), map rj_id (filter (\<lambda>y. edit_key y = edit_key x) items)))
      ` {x \<in> set items. edit_key x \<noteq> server}"
    and "length (map snd gs) = card (edit_key ` {x \<in> set items. edit_key x \<noteq> server})"
proof -
  let ?same = "\<lambda>key. filter (\<lambda>y. edit_key y = key) items"
  have entry: "map_of gs key = (if key \<in> edit_key ` {x \<in> set items. edit_key x \<noteq> server} then Some (rj_payload (hd (?same key)), map rj_id (?same key)) else None)" for key
  proof (cases "key = server")
    case False
    then have "map_of gs key = (case ?same key of [] \<Rightarrow> None | x # xs \<Rightarrow> Some (rj_payload x, map rj_id (x # xs)))" by (simp add: assms(2))
    moreover have "?same key = [] \<longleftrightarrow> key \<notin> edit_key ` {x \<in> set items. edit_key x \<noteq> server}" using False by (auto simp: filter_empty_conv)
    ultimately show ?thesis by (cases "?same key") auto
  qed (auto simp: assms(2))
  have keys: "set (keys_of gs) = edit_key ` {x \<in> set items. edit_key x \<noteq> server}"
    by (auto simp: dom_map_of_conv_image_fst [symmetric] dom_def entry split: if_splits)
  have "snd ` set gs = (\<lambda>key. the (map_of gs key)) ` set (keys_of gs)"
    using assms(1) by (force simp: image_iff)
  also have "\<dots> = (\<lambda>x. the (map_of gs (edit_key x))) ` {x \<in> set items. edit_key x \<noteq> server}" by (simp only: keys image_image)
  also have "\<dots> = (\<lambda>x. (rj_payload (hd (?same (edit_key x))), map rj_id (?same (edit_key x)))) ` {x \<in> set items. edit_key x \<noteq> server}"
    by (rule image_cong) (auto simp: entry)
  finally show "set (map snd gs) = (\<lambda>x. (rj_payload (hd (?same (edit_key x))), map rj_id (?same (edit_key x)))) ` {x \<in> set items. edit_key x \<noteq> server}"
    by simp
  show "length (map snd gs) = card (edit_key ` {x \<in> set items. edit_key x \<noteq> server})"
    using distinct_card [OF assms(1)] keys by simp
qed

section \<open>Narrowed payloads\<close>

definition opt_member :: "string \<Rightarrow> ('a \<Rightarrow> json) \<Rightarrow> 'a option \<Rightarrow> (string \<times> json) list" where
  "opt_member k f v = (case v of None \<Rightarrow> [] | Some x \<Rightarrow> [(k, f x)])"

definition structure_json :: "string \<Rightarrow> section_payload \<Rightarrow> json" where
  "structure_json kind p = JObj ([(''type'', JStr kind), (''title'', JStr (sp_title p)), (''color'', JStr (sp_color p))] @
     opt_member ''order'' JStr (sp_order p) @ opt_member ''group'' JStr (sp_group p))"

definition legacy_json :: "(string, string) dict \<Rightarrow> json" where
  "legacy_json pins = JObj (map (\<lambda>(k, d). (k, JStr d)) pins)"

definition page_json :: "page_payload \<Rightarrow> json" where
  "page_json p = JObj ([(''type'', JStr ''page''), (''title'', JStr (pg_title p)), (''body'', JStr (pg_body p))] @
     opt_member ''section'' JStr (pg_section p) @ opt_member ''order'' JStr (pg_order p) @
     opt_member ''level'' JNum (pg_level p) @ opt_member ''legacy'' legacy_json (pg_legacy p))"

text \<open>The object \<open>JSON.stringify\<close> prints for a payload.\<close>

fun payload_json :: "object_payload \<Rightarrow> json" where
  "payload_json (SectionPayload p) = structure_json ''section'' p"
| "payload_json (GroupPayload p) = structure_json ''group'' p"
| "payload_json (PagePayload p) = page_json p"

definition opt_ok :: "('a \<Rightarrow> bool) \<Rightarrow> 'a option \<Rightarrow> bool" where
  "opt_ok P v = (case v of None \<Rightarrow> True | Some x \<Rightarrow> P x)"

lemma opt_ok_simps [simp]: "opt_ok P None" "opt_ok P (Some x) = P x"
  by (simp_all add: opt_ok_def)

definition structure_ok :: "section_payload \<Rightarrow> bool" where
  "structure_ok p = (sp_color p \<in> set SECTION_COLORS \<and> opt_ok isOrderKey (sp_order p) \<and> opt_ok OBJECT_ID (sp_group p))"

definition legacy_ok :: "(string, string) dict \<Rightarrow> bool" where
  "legacy_ok pins = (distinct (keys_of pins) \<and> list_all (\<lambda>(k, d). CHILD_ID k \<and> DIGEST d) pins)"

fun payload_ok :: "object_payload \<Rightarrow> bool" where
  "payload_ok (SectionPayload p) = structure_ok p"
| "payload_ok (GroupPayload p) = structure_ok p"
| "payload_ok (PagePayload p) =
     (opt_ok OBJECT_ID (pg_section p) \<and> opt_ok isOrderKey (pg_order p) \<and> opt_ok (\<lambda>n. n \<in> {0, 1, 2}) (pg_level p) \<and> opt_ok legacy_ok (pg_legacy p))"

lemma filter_str_ok [simp]: "opt_ok P (filter_str P v)"
  by (auto simp: filter_str_def split: option.splits)

lemma filter_str_JStr [simp]: "P s \<Longrightarrow> filter_str P (Some (JStr s)) = Some s" "filter_str P None = None"
  by (simp_all add: filter_str_def)

lemma str_or_JStr [simp]: "str_or d (Some (JStr s)) = s"
  by (simp add: str_or_def)

lemma spread_list_all:
  "list_all P a \<Longrightarrow> list_all P b \<Longrightarrow> list_all P (spread a b)"
proof (induction b arbitrary: a)
  case (Cons e b)
  obtain k v where e: "e = (k, v)" by (cases e)
  have "list_all P (AList.update k v a)"
    using Cons.prems e by (induction a) auto
  with Cons e show ?case by simp
qed simp

lemma parseLegacy_ok: "legacy_ok (parseLegacy v)"
proof (cases v)
  case (JObj ms)
  have "list_all (\<lambda>(k, d). CHILD_ID k \<and> DIGEST d) (List.map_filter pin_entry ms)"
    by (auto simp: list_all_iff map_filter_def pin_entry_def split: json.splits if_splits)
  with JObj show ?thesis by (auto simp: legacy_ok_def parseLegacy_def intro: spread_list_all)
qed (auto simp: legacy_ok_def parseLegacy_def)

lemma parseLegacy_json: "legacy_ok pins \<Longrightarrow> parseLegacy (legacy_json pins) = pins"
proof -
  assume ok: "legacy_ok pins"
  then have "List.map_filter pin_entry (map (\<lambda>(k, d). (k, JStr d)) pins) = pins"
    by (induction pins) (auto simp: legacy_ok_def pin_entry_def map_filter_def)
  with ok show ?thesis using spread_distinct [of "[]" pins] by (simp add: parseLegacy_def legacy_json_def legacy_ok_def)
qed

lemma parse_structure_ok: "structure_ok (parse_structure u v)"
proof -
  have "(case filter_str (\<lambda>c. c \<in> set SECTION_COLORS) (field ''color'' v) of Some c \<Rightarrow> c | None \<Rightarrow> ''gray'') \<in> set SECTION_COLORS"
  proof (cases "filter_str (\<lambda>c. c \<in> set SECTION_COLORS) (field ''color'' v)")
    case (Some c)
    with filter_str_ok [of "\<lambda>c. c \<in> set SECTION_COLORS" "field ''color'' v"] show ?thesis by simp
  qed (simp add: SECTION_COLORS_def)
  then show ?thesis by (simp add: structure_ok_def parse_structure_def)
qed

lemma parse_structure_json: "structure_ok p \<Longrightarrow> parse_structure u (structure_json kind p) = p"
  by (cases "sp_order p"; cases "sp_group p")
    (auto simp: structure_json_def parse_structure_def field_def opt_member_def structure_ok_def)

lemma wf_payload: "payload_ok p \<Longrightarrow> wf_json (payload_json p)"
proof (cases p)
  case (PagePayload q)
  assume "payload_ok p"
  with PagePayload have "wf_json (legacy_json pins)" if "pg_legacy q = Some pins" for pins
    using that by (auto simp: legacy_json_def legacy_ok_def comp_def case_prod_beta list_all_iff)
  with PagePayload show ?thesis by (auto simp: page_json_def opt_member_def split: option.splits)
qed (auto simp: structure_json_def opt_member_def split: option.splits)

lemma page_json_fields:
  "field ''type'' (page_json p) = Some (JStr ''page'')" "field ''title'' (page_json p) = Some (JStr (pg_title p))"
  "field ''body'' (page_json p) = Some (JStr (pg_body p))" "field ''section'' (page_json p) = map_option JStr (pg_section p)"
  "field ''order'' (page_json p) = map_option JStr (pg_order p)" "field ''level'' (page_json p) = map_option JNum (pg_level p)"
  "field ''legacy'' (page_json p) = map_option legacy_json (pg_legacy p)"
  by (auto simp: page_json_def field_def opt_member_def split: option.splits)

lemma filter_str_map: "opt_ok P v \<Longrightarrow> filter_str P (map_option JStr v) = v"
  by (cases v) auto

lemma page_narrows:
  assumes "payload_ok (PagePayload p)"
  shows "parseObjectPayload (page_json p) = Some (PagePayload p)"
proof -
  obtain ms where ms: "page_json p = JObj ms" by (simp add: page_json_def)
  have "map_option (parseLegacy \<circ> legacy_json) (pg_legacy p) = pg_legacy p"
    using assms by (cases "pg_legacy p") (auto simp: parseLegacy_json)
  moreover have "(case num_of (map_option JNum (pg_level p)) of Some n \<Rightarrow> if n \<in> {0, 1, 2} then Some n else None | None \<Rightarrow> None) = pg_level p"
    using assms by (cases "pg_level p") auto
  ultimately show ?thesis using assms page_json_fields [of p]
    by (simp add: parseObjectPayload_def ms filter_str_map option.map_comp)
qed

lemma structure_narrows:
  assumes "structure_ok p"
  shows "parseObjectPayload (structure_json ''section'' p) = Some (SectionPayload p)"
    "parseObjectPayload (structure_json ''group'' p) = Some (GroupPayload p)"
proof -
  have typed: "field ''type'' (structure_json kind p) = Some (JStr kind)" for kind by (simp add: structure_json_def field_def)
  obtain ms where ms: "structure_json ''section'' p = JObj ms" by (simp add: structure_json_def)
  show "parseObjectPayload (structure_json ''section'' p) = Some (SectionPayload p)"
    using typed [of "''section''"] parse_structure_json [OF assms, of _ "''section''"] by (simp add: parseObjectPayload_def ms)
  obtain ns where ns: "structure_json ''group'' p = JObj ns" by (simp add: structure_json_def)
  show "parseObjectPayload (structure_json ''group'' p) = Some (GroupPayload p)"
    using typed [of "''group''"] parse_structure_json [OF assms, of _ "''group''"] by (simp add: parseObjectPayload_def ns)
qed

lemma payload_narrows: "payload_ok p \<Longrightarrow> parseObjectPayload (payload_json p) = Some p"
  by (cases p) (auto simp: structure_narrows page_narrows)

lemma narrowed_ok: "parseObjectPayload v = Some p \<Longrightarrow> payload_ok p"
  by (auto simp: parseObjectPayload_def parse_structure_ok parseLegacy_ok opt_ok_def [of legacy_ok]
      split: json.splits if_splits option.splits)

section \<open>Routes read back\<close>

lemma split_on_nonempty: "split_on d s \<noteq> []"
  by (induction s) (auto split: list.splits)

lemma split_clean: "d \<notin> set p \<Longrightarrow> split_on d p = [p]"
  by (induction p) auto

lemma split_append: "d \<notin> set p \<Longrightarrow> split_on d (p @ d # r) = p # split_on d r"
  by (induction p) auto

lemma crockford_no_slash: "prefixed_id pre s \<Longrightarrow> CHR ''/'' \<notin> set pre \<Longrightarrow> CHR ''/'' \<notin> set s"
proof -
  assume a: "prefixed_id pre s" "CHR ''/'' \<notin> set pre"
  have "set s = set (take 4 s) \<union> set (drop 4 s)" by (metis append_take_drop_id set_append)
  with a show ?thesis by (auto simp: prefixed_id_def list_all_iff crockford_def)
qed

lemma prefixed_nonempty: "prefixed_id pre s \<Longrightarrow> s \<noteq> []"
  by (auto simp: prefixed_id_def)

definition route_ok :: "route \<Rightarrow> bool" where
  "route_ok r \<longleftrightarrow> opt_ok CONTAINER_ID (rt_container r) \<and> opt_ok (\<lambda>s. s = QUICK_NOTES \<or> OBJECT_ID s) (rt_section r) \<and>
     opt_ok OBJECT_ID (rt_page r) \<and> (rt_container r = None \<longrightarrow> rt_section r = None) \<and> (rt_section r = None \<longrightarrow> rt_page r = None)"

lemma section_part:
  "s = QUICK_NOTES \<or> OBJECT_ID s \<Longrightarrow> CHR ''/'' \<notin> set s \<and> s \<noteq> []"
  using crockford_no_slash [of "''obj''" s] prefixed_nonempty [of "''obj''" s] by (auto simp: QUICK_NOTES_def OBJECT_ID_def)

lemma route_back: "route_ok r \<Longrightarrow> parseRoute (formatRoute r) = r"
proof (cases "rt_container r")
  case None
  assume "route_ok r"
  with None have "r = \<lparr>rt_container = None, rt_section = None, rt_page = None\<rparr>" by (auto simp: route_ok_def)
  then show ?thesis by (auto simp: formatRoute_def set_order_def parseRoute_def strip_hash_def nth_part_def CONTAINER_ID_def OBJECT_ID_def QUICK_NOTES_def prefixed_id_def)
next
  case (Some c)
  assume ok: "route_ok r"
  with Some have c: "CONTAINER_ID c" "CHR ''/'' \<notin> set c" "c \<noteq> []"
    using crockford_no_slash [of "''cnt''" c] prefixed_nonempty [of "''cnt''" c] by (auto simp: route_ok_def CONTAINER_ID_def)
  have empty: "\<not> OBJECT_ID []" "[] \<noteq> QUICK_NOTES" by (auto simp: OBJECT_ID_def prefixed_id_def QUICK_NOTES_def)
  show ?thesis
  proof (cases "rt_section r")
    case None
    with ok Some c empty show ?thesis
      by (cases r) (auto simp: route_ok_def formatRoute_def set_order_def parseRoute_def strip_hash_def split_clean nth_part_def)
  next
    case (Some s)
    with ok have s: "s = QUICK_NOTES \<or> OBJECT_ID s" by (simp add: route_ok_def)
    note s' = section_part [OF s]
    show ?thesis
    proof (cases "rt_page r")
      case None
      with ok \<open>rt_container r = Some c\<close> Some c s s' empty show ?thesis
        by (cases r) (auto simp: formatRoute_def set_order_def parseRoute_def strip_hash_def split_clean split_append nth_part_def)
    next
      case p: (Some p)
      with ok have "OBJECT_ID p" by (simp add: route_ok_def)
      with section_part [of p] p \<open>rt_container r = Some c\<close> Some c s s' show ?thesis
        by (cases r) (auto simp: formatRoute_def set_order_def parseRoute_def strip_hash_def split_clean split_append nth_part_def)
    qed
  qed
qed

section \<open>Properties\<close>

text \<open>Moving an item to an index of an ordered list either writes one key or renumbers the list, and with the keys written the
  display order is exactly the rest of the list with the item at that index, also when keys tie, are missing or have
  run out of room.\<close>

lemma reorder_lands:
  assumes "sorted_wrt (\<lambda>a b. compareOrdered a b \<le> 0) list" "distinct (map fst list)" "\<forall>x \<in> set list. key_arg (snd x)"
    and "reorder list movedID index = Inr ups"
  shows "let rest = filter (\<lambda>item. fst item \<noteq> movedID) list; at = nat (max 0 (min index (int (length rest)))) in
    sorted_wrt (\<lambda>a b. compareOrdered a b < 0)
      (map (\<lambda>item. (fst item, case map_of ups (fst item) of Some k \<Rightarrow> Some k | None \<Rightarrow> snd item))
        (take at rest @ [(movedID, None)] @ drop at rest))"
  using reorder_lands_lemma [OF _ assms(2-4) refl refl] assms(1)
  by (simp add: Let_def display_le_def [abs_def] apply_order_def [abs_def])

text \<open>C36: decrypted JSON is narrowed to a well-formed page, section or group or to nothing, and what is narrowed is a fixed point: the
  text it is printed as parses and narrows back to the same object.\<close>

theorem narrowing_stable:
  assumes "parseObjectPayload v = Some p"
  shows "payload_ok p \<and> rbind (parse (stringify (payload_json p))) (\<lambda>j. Inr (parseObjectPayload j)) = Inr (Some p)"
  using narrowed_ok [OF assms] by (simp add: wf_payload payload_narrows)

theorem narrowing_stable_witness:
  "let p = PagePayload \<lparr>pg_title = [], pg_body = ''x'', pg_section = None, pg_order = Some ''i'', pg_level = None, pg_legacy = Some []\<rparr> in
   payload_ok p \<and> rbind (parse (stringify (payload_json p))) (\<lambda>j. Inr (parseObjectPayload j)) = Inr (Some p)"
  unfolding Let_def
  by (rule narrowing_stable [of "JObj [(''body'', JStr ''x''), (''order'', JStr ''i''), (''level'', JNum 7), (''legacy'', JNull)]"]) code_simp

text \<open>Grouping the rejected edits of a page keeps every one of them: each is in exactly one place, with the edits of the same text,
  oldest first, those equal to the server's text apart; and there is one copy per distinct other text.\<close>

lemma conflicts_grouped:
  "let items = sort_by (\<lambda>a b. rj_createdAt a \<le> rj_createdAt b) rejected; (resolveOnly, groups) = groupConflicts title body rejected;
       same = (\<lambda>t b. map rj_id (filter (\<lambda>x. pg_title (rj_payload x) = t \<and> pg_body (rj_payload x) = b) items)) in
   resolveOnly = same title body \<and>
   set groups = (\<lambda>x. (rj_payload (hd (filter (\<lambda>y. edit_key y = edit_key x) items)), same (pg_title (rj_payload x)) (pg_body (rj_payload x))))
     ` {x \<in> set items. edit_key x \<noteq> text_key title body} \<and>
   length groups = card (edit_key ` {x \<in> set items. edit_key x \<noteq> text_key title body})"
proof -
  define items where "items = sort_by (\<lambda>a b. rj_createdAt a \<le> rj_createdAt b) rejected"
  obtain ro gs where run: "fold (conflict_step (text_key title body)) items ([], []) = (ro, gs)" by (cases "fold (conflict_step (text_key title body)) items ([], [])")
  have ok: "ro = map rj_id (filter (\<lambda>x. edit_key x = text_key title body) items)" "distinct (keys_of gs)"
    "\<And>key. map_of gs key = (case filter (\<lambda>x. edit_key x = key \<and> key \<noteq> text_key title body) items of [] \<Rightarrow> None | x # xs \<Rightarrow> Some (rj_payload x, map rj_id (x # xs)))"
    using conflicts_ok [of "text_key title body" items] by (auto simp: run conflict_ok_def)
  note found = conflict_groups_of [OF ok(2,3)]
  have key: "edit_key x = text_key t b \<longleftrightarrow> pg_title (rj_payload x) = t \<and> pg_body (rj_payload x) = b" for x t b by (simp add: edit_key_def)
  have grouped: "groupConflicts title body rejected = (ro, map snd gs)" by (simp add: groupConflicts_def run items_def [symmetric])
  have own: "(\<lambda>y. edit_key y = edit_key x) = (\<lambda>y. pg_title (rj_payload y) = pg_title (rj_payload x) \<and> pg_body (rj_payload y) = pg_body (rj_payload x))" for x
    by (simp add: edit_key_def fun_eq_iff)
  show ?thesis unfolding Let_def items_def [symmetric] grouped using found by (simp add: ok(1) key own)
qed

text \<open>A route is read back from its own hash, so reloading a link opens the notebook, section and page it was made for.\<close>

lemma route_roundtrip:
  assumes "route_ok r"
  shows "parseRoute (formatRoute r) = r"
  using assms by (rule route_back)

end
