(* ===== verification/Calendar.thy ===== *)
theory Calendar
  imports Pages
begin

text \<open>
  Calendar dates of tasks (\<open>web/src/taskDates.ts\<close>: \<open>validDate\<close>, \<open>addRepeat\<close> and what they use of \<open>Date\<close>). \<open>Date.UTC\<close> and the UTC getters follow the
  language definition: days since 1970 from year, month and day with carry in both directions, years 0 to 99 read as
  19xx, and no value beyond a hundred million days; the year of a day is computed from an estimate that is shown to be off
  by at most one. The lemmas: days and calendar dates correspond one to one; a date text is accepted exactly when it
  names a day of the Gregorian calendar from the year 100 on; and advancing a date gives the calendar date that many
  days later, or the same day some months later clamped to the month.
\<close>

section \<open>Days and dates\<close>

definition leap :: "int \<Rightarrow> bool" where
  "leap y \<longleftrightarrow> 4 dvd y \<and> (\<not> 100 dvd y \<or> 400 dvd y)"

definition day_from_year :: "int \<Rightarrow> int" where
  "day_from_year y = 365 * (y - 1970) + (y - 1969) div 4 - (y - 1901) div 100 + (y - 1601) div 400"

definition month_lengths :: "int \<Rightarrow> int list" where
  "month_lengths y = [31, 28 + of_bool (leap y), 31, 30, 31, 30, 31, 31, 30, 31, 30, 31]"

definition year_of :: "int \<Rightarrow> int" where
  "year_of day = (let g = 1970 + day * 400 div 146097 in
     if day < day_from_year g then g - 1 else if day < day_from_year (g + 1) then g else g + 1)"

fun month_split :: "int list \<Rightarrow> int \<Rightarrow> nat \<times> int" where
  "month_split [] d = (0, d)"
| "month_split (l # ls) d = (if d < l then (0, d) else let (m, r) = month_split ls (d - l) in (Suc m, r))"

text \<open>Year, month from 0 and day of the month from 1.\<close>

definition civil :: "int \<Rightarrow> int \<times> int \<times> int" where
  "civil day = (let y = year_of day; (m, d) = month_split (month_lengths y) (day - day_from_year y) in (y, int m, d + 1))"

definition day_number :: "int \<Rightarrow> int \<Rightarrow> int \<Rightarrow> int" where
  "day_number y m d = (let ym = y + m div 12 in
     day_from_year ym + sum_list (take (nat (m mod 12)) (month_lengths ym)) + d - 1)"

text \<open>\<open>Date.UTC(y, m, d)\<close> as a number of days; \<open>None\<close> is an invalid date.\<close>

definition date_utc :: "int \<Rightarrow> int \<Rightarrow> int \<Rightarrow> int option" where
  "date_utc y m d = (let day = day_number (if 0 \<le> y \<and> y \<le> 99 then 1900 + y else y) m d in
     if \<bar>day\<bar> \<le> 100000000 then Some day else None)"

definition month_length :: "int \<Rightarrow> int \<Rightarrow> int" where
  "month_length y m = month_lengths y ! nat m"

definition valid_civil :: "int \<Rightarrow> int \<Rightarrow> int \<Rightarrow> bool" where
  "valid_civil y m d \<longleftrightarrow> 0 \<le> m \<and> m < 12 \<and> 1 \<le> d \<and> d \<le> month_length y m"

section \<open>The year of a day\<close>

lemma div_bounds: "0 < n \<Longrightarrow> n * (a div n) \<le> a" "0 < n \<Longrightarrow> a < n * (a div n) + n" for a n :: int
  using pos_mod_bound [of n a] pos_mod_sign [of n a] mult_div_mod_eq [of n a] by linarith+

lemma div_Suc:
  fixes a n :: int
  assumes "0 < n"
  shows "(a + 1) div n = a div n + of_bool (n dvd a + 1)"
proof (cases "n dvd a + 1")
  case True
  then obtain k where k: "a + 1 = n * k" by (elim dvdE)
  with assms have "a div n = k - 1" by (intro int_div_pos_eq [of _ _ _ "n - 1"]) (simp_all add: algebra_simps)
  with k True assms show ?thesis by simp
next
  case False
  have "a mod n + 1 \<noteq> n"
  proof
    assume "a mod n + 1 = n"
    then have "n * (a div n) + (a mod n + 1) = n * (a div n + 1)" by (simp add: algebra_simps)
    then have "a + 1 = n * (a div n + 1)" by (simp add: add.assoc [symmetric])
    with False show False by simp
  qed
  with pos_mod_bound [OF assms, of a] have "a mod n + 1 < n" by linarith
  with pos_mod_sign [OF assms, of a] mult_div_mod_eq [of n a] have "(a + 1) div n = a div n"
    by (intro int_div_pos_eq [of _ _ _ "a mod n + 1"]) simp_all
  with False show ?thesis by simp
qed

lemma leap_count: "of_bool (4 dvd y) - of_bool (100 dvd y) + of_bool (400 dvd y) = (of_bool (leap y) :: int)"
proof -
  have count: "(b \<longrightarrow> a) \<Longrightarrow> (c \<longrightarrow> b) \<Longrightarrow> of_bool a - of_bool b + of_bool c = (of_bool (a \<and> (\<not> b \<or> c)) :: int)" for a b c
    by (cases a; cases b; cases c) simp_all
  have "(4 :: int) dvd 100" "(100 :: int) dvd 400" by simp_all
  then show ?thesis unfolding leap_def by (intro count) (blast intro: dvd_trans)+
qed

lemma day_from_year_Suc: "day_from_year (y + 1) = day_from_year y + 365 + of_bool (leap y)"
proof -
  have shift: "y - 1969 + 1 = y - 1968" "y - 1901 + 1 = y - 1900" "y - 1601 + 1 = y - 1600" by simp_all
  have "4 dvd y - 1968 \<longleftrightarrow> 4 dvd y" "100 dvd y - 1900 \<longleftrightarrow> 100 dvd y" "400 dvd y - 1600 \<longleftrightarrow> 400 dvd y"
    by (simp_all add: dvd_diff_left_iff)
  then have "(y - 1968) div 4 = (y - 1969) div 4 + of_bool (4 dvd y)" "(y - 1900) div 100 = (y - 1901) div 100 + of_bool (100 dvd y)"
    "(y - 1600) div 400 = (y - 1601) div 400 + of_bool (400 dvd y)"
    using div_Suc [of 4 "y - 1969", OF zero_less_numeral] div_Suc [of 100 "y - 1901", OF zero_less_numeral] div_Suc [of 400 "y - 1601", OF zero_less_numeral]
    by (simp_all only: shift)
  moreover have "y + 1 - 1970 = y - 1970 + 1" "y + 1 - 1969 = y - 1968" "y + 1 - 1901 = y - 1900" "y + 1 - 1601 = y - 1600" by simp_all
  ultimately show ?thesis unfolding day_from_year_def leap_count [of y, symmetric] by (simp only: distrib_left)
qed

lemma year_bounds: "146097 * y - 287811596 \<le> 400 * day_from_year y" "400 * day_from_year y \<le> 146097 * y - 287810501"
proof -
  define p q r where "p = (y - 1969) div 4" "q = (y - 1901) div 100" "r = (y - 1601) div 400"
  then have "4 * p \<le> y - 1969" "y - 1969 < 4 * p + 4" "100 * q \<le> y - 1901" "y - 1901 < 100 * q + 100" "400 * r \<le> y - 1601" "y - 1601 < 400 * r + 400"
    using div_bounds zero_less_numeral by metis+
  moreover have "day_from_year y = 365 * y - 719050 + p - q + r" by (simp add: day_from_year_def p_q_r_def)
  ultimately show "146097 * y - 287811596 \<le> 400 * day_from_year y" "400 * day_from_year y \<le> 146097 * y - 287810501" by linarith+
qed

lemma day_from_year_mono: "y \<le> z \<Longrightarrow> day_from_year y \<le> day_from_year z"
proof (induction z rule: int_ge_induct)
  case (step z)
  then show ?case by (simp add: day_from_year_Suc)
qed simp

lemma year_of_bounds: "day_from_year (year_of day) \<le> day" "day < day_from_year (year_of day + 1)"
proof -
  define q where "q = day * 400 div 146097"
  then have "146097 * q \<le> day * 400" "day * 400 < 146097 * q + 146097" using div_bounds zero_less_numeral by metis+
  moreover have "400 * day_from_year (1970 + q - 1) \<le> 146097 * q - 145508" "146097 * q + 291688 \<le> 400 * day_from_year (1970 + q + 2)"
    using year_bounds(2) [of "1970 + q - 1"] year_bounds(1) [of "1970 + q + 2"] by simp_all
  ultimately have "day_from_year (1970 + q - 1) \<le> day" "day < day_from_year (1970 + q + 2)" by linarith+
  then show "day_from_year (year_of day) \<le> day" "day < day_from_year (year_of day + 1)"
    by (auto simp: year_of_def q_def [symmetric] Let_def)
qed

lemma year_ofI: "day_from_year y \<le> day \<Longrightarrow> day < day_from_year (y + 1) \<Longrightarrow> year_of day = y"
  using year_of_bounds [of day] day_from_year_mono [of "y + 1" "year_of day"] day_from_year_mono [of "year_of day + 1" y] by linarith

section \<open>Months\<close>

lemma sum_month_lengths: "sum_list (month_lengths y) = 365 + of_bool (leap y)"
  by (simp add: month_lengths_def)

lemma length_month_lengths [simp]: "length (month_lengths y) = 12"
  by (simp add: month_lengths_def)

lemma month_length_range: "l \<in> set (month_lengths y) \<Longrightarrow> 28 \<le> l \<and> l \<le> 31"
  by (auto simp: month_lengths_def)

lemma month_length_bounds: "0 \<le> m \<Longrightarrow> m < 12 \<Longrightarrow> 28 \<le> month_length y m \<and> month_length y m \<le> 31"
  unfolding month_length_def by (rule month_length_range [of _ y]) (simp add: nat_less_iff)

text \<open>Splitting off whole months and adding them up again are inverse.\<close>

lemma month_split_sound:
  assumes "0 \<le> d" "d < sum_list ls" "month_split ls d = (m, r)"
  shows "m < length ls \<and> 0 \<le> r \<and> r < ls ! m \<and> d = sum_list (take m ls) + r"
  using assms
proof (induction ls arbitrary: d m)
  case (Cons l ls)
  show ?case
  proof (cases "d < l")
    case False
    obtain m' where "month_split ls (d - l) = (m', r)" "m = Suc m'" using Cons.prems(3) False by (auto split: prod.splits)
    with Cons.IH [of "d - l" m'] Cons.prems False show ?thesis by auto
  qed (use Cons.prems in auto)
qed simp

lemma month_split_add:
  assumes "m < length ls" "0 \<le> r" "r < ls ! m" "\<forall>l\<in>set ls. 0 \<le> l"
  shows "month_split ls (sum_list (take m ls) + r) = (m, r)"
  using assms
proof (induction ls arbitrary: m)
  case (Cons l ls)
  show ?case
  proof (cases m)
    case (Suc k)
    have "0 \<le> sum_list (take k ls)" using Cons.prems(4) by (intro sum_list_nonneg) (auto dest: in_set_takeD)
    with Suc Cons show ?thesis by (auto simp: Let_def)
  qed (use Cons.prems in auto)
qed simp

lemma take_months_le: "m \<le> 12 \<Longrightarrow> sum_list (take m (month_lengths y)) \<le> 365 + of_bool (leap y)"
proof -
  have "0 \<le> sum_list (drop m (month_lengths y))" by (intro sum_list_nonneg) (auto dest!: in_set_dropD month_length_range)
  moreover have "sum_list (take m (month_lengths y)) + sum_list (drop m (month_lengths y)) = 365 + of_bool (leap y)"
    by (simp only: sum_list_append [symmetric] append_take_drop_id sum_month_lengths)
  ultimately show "sum_list (take m (month_lengths y)) \<le> 365 + of_bool (leap y)" by linarith
qed

lemma civil_valid: "civil day = (y, m, d) \<Longrightarrow> valid_civil y m d \<and> day_number y m d = day"
proof -
  assume "civil day = (y, m, d)"
  then obtain k r where y: "y = year_of day" and split: "month_split (month_lengths y) (day - day_from_year y) = (k, r)" and md: "m = int k" "d = r + 1"
    by (auto simp: civil_def Let_def split: prod.splits)
  have "0 \<le> day - day_from_year y" "day - day_from_year y < sum_list (month_lengths y)"
    using year_of_bounds [of day] by (auto simp: y sum_month_lengths day_from_year_Suc)
  from month_split_sound [OF this split] show ?thesis
    by (simp add: md valid_civil_def month_length_def day_number_def)
qed

lemma civil_day_number:
  assumes "valid_civil y m d"
  shows "civil (day_number y m d) = (y, m, d)"
proof -
  let ?start = "sum_list (take (nat m) (month_lengths y))"
  from assms have m: "0 \<le> m" "m < 12" and d: "1 \<le> d" "d \<le> month_lengths y ! nat m" by (simp_all add: valid_civil_def month_length_def)
  have nat_m: "nat m < length (month_lengths y)" using m by simp
  have pos: "\<forall>l\<in>set (month_lengths y). 0 \<le> l" by (auto dest: month_length_range)
  have day: "day_number y m d = day_from_year y + (?start + (d - 1))" using m by (simp add: day_number_def)
  have "0 \<le> ?start" using pos by (intro sum_list_nonneg) (auto dest: in_set_takeD)
  moreover have "?start + month_lengths y ! nat m \<le> 365 + of_bool (leap y)"
    using take_months_le [of "Suc (nat m)" y] nat_m by (simp add: take_Suc_conv_app_nth)
  ultimately have "year_of (day_number y m d) = y" using d by (intro year_ofI) (simp_all add: day day_from_year_Suc)
  moreover from month_split_add [OF nat_m _ _ pos, of "d - 1"] d have "month_split (month_lengths y) (?start + (d - 1)) = (nat m, d - 1)" by simp
  ultimately show ?thesis using m by (simp add: civil_def day)
qed

section \<open>Date texts\<close>

definition number_text :: "int option \<Rightarrow> string" where
  "number_text v = (case v of None \<Rightarrow> ''NaN'' | Some i \<Rightarrow> int_text i)"

definition pad :: "int option \<Rightarrow> nat \<Rightarrow> string" where
  "pad value width = (let s = number_text value in replicate (width - length s) (CHR ''0'') @ s)"

definition date_match :: "string \<Rightarrow> (int \<times> int \<times> int) option" where
  "date_match value =
     (if length value = 10 \<and> value ! 4 = CHR ''-'' \<and> value ! 7 = CHR ''-'' \<and> list_all is_digit (take 4 value) \<and>
         list_all is_digit (take 2 (drop 5 value)) \<and> list_all is_digit (drop 8 value)
      then Some (int (read_nat (take 4 value)), int (read_nat (take 2 (drop 5 value))), int (read_nat (drop 8 value))) else None)"

definition validDate :: "string \<Rightarrow> bool" where
  "validDate value =
     (case date_match value of
        None \<Rightarrow> False
      | Some (y, m, d) \<Rightarrow> (case date_utc y (m - 1) d of None \<Rightarrow> False | Some day \<Rightarrow> civil day = (y, m - 1, d)))"

datatype repeat_unit = UDay | UWeek | UMonth | UYear

text \<open>A repetition is an entry of the table or read from the text. \<open>Inherited\<close> is a value the table lookup finds on the prototype of
  the table, an object with neither \<open>unit\<close> nor \<open>every\<close>.\<close>

datatype repeat = Repeat repeat_unit int | Inherited

text \<open>\<open>Number\<close> of a decimal text; \<open>None\<close> is \<open>NaN\<close>. The signs, exponents and radix prefixes it also reads do not occur in the dates passed here.\<close>

definition number_of :: "string \<Rightarrow> int option" where
  "number_of s = (if list_all is_digit s then Some (int (read_nat s)) else None)"

definition js_rem :: "int \<Rightarrow> int \<Rightarrow> int" where
  "js_rem a b = (if a < 0 then - ((- a) mod b) else a mod b)"

definition both :: "('a \<Rightarrow> 'b \<Rightarrow> 'c) \<Rightarrow> 'a option \<Rightarrow> 'b option \<Rightarrow> 'c option" where
  "both f a b = (case (a, b) of (Some x, Some y) \<Rightarrow> Some (f x y) | _ \<Rightarrow> None)"

definition date_out :: "int option \<Rightarrow> int option \<Rightarrow> int option \<Rightarrow> string" where
  "date_out y m d = pad y 4 @ ''-'' @ pad (map_option (\<lambda>m. m + 1) m) 2 @ ''-'' @ pad d 2"

definition utc_text :: "int option \<Rightarrow> string" where
  "utc_text day = (case day of None \<Rightarrow> date_out None None None | Some n \<Rightarrow> (let (y, m, d) = civil n in date_out (Some y) (Some m) (Some d)))"

definition last_of_month :: "int \<Rightarrow> int \<Rightarrow> int option" where
  "last_of_month year month = map_option (\<lambda>day. snd (snd (civil day))) (date_utc year (month + 1) 0)"

definition date_numbers :: "string \<Rightarrow> int option \<times> int option \<times> int option" where
  "date_numbers date = (let parts = map number_of (split_on (CHR ''-'') date); part = (\<lambda>i. if i < length parts then parts ! i else None) in (part 0, part 1, part 2))"

definition addRepeat :: "string \<Rightarrow> repeat \<Rightarrow> string" where
  "addRepeat date r =
     (let (y, m, d) = date_numbers date in
      case r of
        Inherited \<Rightarrow> date_out None None None
      | Repeat u every \<Rightarrow>
          if u = UDay \<or> u = UWeek
          then utc_text (case (y, m, d) of (Some y, Some m, Some d) \<Rightarrow> date_utc y (m - 1) (d + every * (if u = UWeek then 7 else 1)) | _ \<Rightarrow> None)
          else
            let months = map_option (\<lambda>m. (m - 1) + every * (if u = UYear then 12 else 1)) m;
                year = both (\<lambda>y n. y + n div 12) y months;
                month = map_option (\<lambda>n. js_rem n 12) months;
                final = Option.bind (both Pair year month) (\<lambda>(y, m). last_of_month y m) in
            date_out year month (both min d final))"

section \<open>Texts and numbers\<close>

lemma length_nat_text: "n < 10 ^ k \<Longrightarrow> 0 < k \<Longrightarrow> length (nat_text n) \<le> k"
proof (induction k arbitrary: n)
  case (Suc k)
  show ?case
  proof (cases "n < 10")
    case False
    with Suc.prems have "n div 10 < 10 ^ k" "0 < k" by (auto simp: div_less_iff_less_mult intro: gr0I)
    with Suc.IH [of "n div 10"] False show ?thesis by (subst nat_text.simps) simp
  qed (subst nat_text.simps, simp)
qed simp

lemma read_nat_zeros: "read_nat (replicate k (CHR ''0'') @ s) = read_nat s"
  by (induction k) (simp_all add: read_nat_def digit_value_def)

lemma pad_number:
  assumes "0 \<le> i" "i < 10 ^ k" "0 < k"
  shows "length (pad (Some i) k) = k" "list_all is_digit (pad (Some i) k)" "read_nat (pad (Some i) k) = nat i"
proof -
  have "nat i < 10 ^ k" using assms(1,2) by (simp add: nat_less_iff)
  from length_nat_text [OF this assms(3)] show "length (pad (Some i) k) = k" using assms(1) by (simp add: pad_def number_text_def int_text_def Let_def)
  have "is_digit (CHR ''0'')" by (simp add: is_digit_def)
  then show "list_all is_digit (pad (Some i) k)"
    using assms(1) nat_text_digits [of "nat i"] by (auto simp: pad_def number_text_def int_text_def Let_def list_all_iff)
  show "read_nat (pad (Some i) k) = nat i" using assms(1) by (simp add: pad_def number_text_def int_text_def Let_def read_nat_zeros)
qed

lemma date_match_out:
  assumes "0 \<le> y" "y < 10000" "0 \<le> m" "m < 99" "0 \<le> d" "d < 100"
  shows "date_match (date_out (Some y) (Some m) (Some d)) = Some (y, m + 1, d)"
proof -
  have y: "length (pad (Some y) 4) = 4" "list_all is_digit (pad (Some y) 4)" "read_nat (pad (Some y) 4) = nat y" using pad_number [of y 4] assms by simp_all
  have m: "length (pad (Some (m + 1)) 2) = 2" "list_all is_digit (pad (Some (m + 1)) 2)" "read_nat (pad (Some (m + 1)) 2) = nat (m + 1)" using pad_number [of "m + 1" 2] assms by simp_all
  have d: "length (pad (Some d) 2) = 2" "list_all is_digit (pad (Some d) 2)" "read_nat (pad (Some d) 2) = nat d" using pad_number [of d 2] assms by simp_all
  show ?thesis using y m d assms by (simp add: date_match_def date_out_def nth_append)
qed

lemma read_nat_less: "list_all is_digit ds \<Longrightarrow> read_nat ds < 10 ^ length ds"
proof (induction ds rule: rev_induct)
  case (snoc c ds)
  then have "digit_value c \<le> 9" by (auto simp: is_digit_def digit_value_def)
  with snoc show ?case by (simp add: read_nat_snoc)
qed (simp add: read_nat_def)

lemma date_match_bounds: "date_match s = Some (y, m, d) \<Longrightarrow> 0 \<le> y \<and> 0 \<le> m \<and> 0 \<le> d"
  by (auto simp: date_match_def split: if_splits)

section \<open>Accepted dates\<close>

lemma day_range: "0 \<le> y \<Longrightarrow> y \<le> 20000 \<Longrightarrow> -719530 \<le> day_from_year y" "0 \<le> y \<Longrightarrow> y \<le> 20000 \<Longrightarrow> day_from_year y \<le> 6586000"
  using year_bounds [of y] by linarith+

lemma valid_civil_day:
  assumes "valid_civil y m d"
  shows "day_from_year y \<le> day_number y m d \<and> day_number y m d < day_from_year y + 366"
proof -
  have y: "year_of (day_number y m d) = y" using civil_day_number [OF assms] by (auto simp: civil_def Let_def split: prod.splits)
  then show ?thesis using year_of_bounds [of "day_number y m d"] day_from_year_Suc [of y] by (cases "leap y") auto
qed

lemma civil_in_range:
  assumes "valid_civil y m d" "0 \<le> y" "y \<le> 20000"
  shows "\<bar>day_number y m d\<bar> \<le> 6587000"
proof -
  from valid_civil_day [OF assms(1)] have "day_from_year y \<le> day_number y m d" "day_number y m d < day_from_year y + 366" by simp_all
  with day_range [OF assms(2,3)] show ?thesis by linarith
qed

lemma date_utc_valid:
  assumes "valid_civil y m d" "100 \<le> y" "y \<le> 9999"
  shows "date_utc y m d = Some (day_number y m d)"
  using civil_in_range [OF assms(1)] assms(2,3) by (simp add: date_utc_def Let_def)

text \<open>No two-digit year names itself: it is read as a year of the last century.\<close>

lemma short_year_not_itself:
  assumes "0 \<le> y" "y \<le> 99" "-1 \<le> m" "0 \<le> d" "civil (day_number (1900 + y) m d) = (y', m', d')"
  shows "100 \<le> y'"
proof (rule ccontr)
  assume "\<not> 100 \<le> y'"
  let ?ym = "1900 + y + m div 12"
  have "-1 \<le> m div 12" using assms(3) zdiv_mono1 [of "-1" m 12] by simp
  with assms(1) have "1899 \<le> ?ym" by linarith
  then have "day_from_year 1899 \<le> day_from_year ?ym" by (rule day_from_year_mono)
  moreover have "0 \<le> sum_list (take (nat (m mod 12)) (month_lengths ?ym))" by (intro sum_list_nonneg) (auto dest!: in_set_takeD month_length_range)
  ultimately have "day_from_year 1899 - 1 \<le> day_number (1900 + y) m d" using assms(4) by (simp add: day_number_def Let_def)
  moreover have "day_number (1900 + y) m d < day_from_year (y' + 1)"
    using assms(5) year_of_bounds(2) [of "day_number (1900 + y) m d"] by (auto simp: civil_def Let_def split: prod.splits)
  moreover have "day_from_year (y' + 1) \<le> day_from_year 100" using \<open>\<not> 100 \<le> y'\<close> by (intro day_from_year_mono) simp
  ultimately show False by (simp add: day_from_year_def)
qed

lemma validDate_civil:
  assumes "date_match s = Some (y, m + 1, d)"
  shows "validDate s \<longleftrightarrow> 100 \<le> y \<and> valid_civil y m d"
proof
  assume "validDate s"
  with assms obtain day where day: "date_utc y m d = Some day" "civil day = (y, m, d)" by (auto simp: validDate_def split: option.splits)
  have "0 \<le> y" "-1 \<le> m" "0 \<le> d" using date_match_bounds [OF assms] by simp_all
  with day have "100 \<le> y"
    using short_year_not_itself [of y m d] by (cases "y \<le> 99") (auto simp: date_utc_def Let_def split: if_splits)
  with civil_valid [OF day(2)] show "100 \<le> y \<and> valid_civil y m d" by simp
next
  assume v: "100 \<le> y \<and> valid_civil y m d"
  have "y \<le> 9999" using assms read_nat_less [of "take 4 s"] by (auto simp: date_match_def split: if_splits)
  with v assms date_utc_valid [of y m d] civil_day_number [of y m d] show "validDate s" by (simp add: validDate_def)
qed

section \<open>Advancing\<close>

lemma split_dashes:
  assumes "date_match s = Some (y, m, d)"
  shows "date_numbers s = (Some y, Some m, Some d)"
proof -
  let ?a = "take 4 s" and ?b = "take 2 (drop 5 s)" and ?c = "drop 8 s"
  from assms have len: "length s = 10" and dash: "s ! 4 = CHR ''-''" "s ! 7 = CHR ''-''" and digits: "list_all is_digit ?a" "list_all is_digit ?b" "list_all is_digit ?c"
    and num: "y = int (read_nat ?a)" "m = int (read_nat ?b)" "d = int (read_nat ?c)"
    by (auto simp: date_match_def split: if_splits)
  have "s = ?a @ drop 4 s" by simp
  also have "drop 4 s = CHR ''-'' # drop 5 s" using Cons_nth_drop_Suc [of 4 s] len dash by simp
  also have "drop 5 s = ?b @ drop 7 s" using append_take_drop_id [of 2 "drop 5 s"] by simp
  also have "drop 7 s = CHR ''-'' # ?c" using Cons_nth_drop_Suc [of 7 s] len dash by simp
  finally have s: "s = ?a @ CHR ''-'' # ?b @ CHR ''-'' # ?c" .
  have "\<not> is_digit (CHR ''-'')" by (simp add: is_digit_def)
  then have clean: "CHR ''-'' \<notin> set p" if "list_all is_digit p" for p using that by (auto simp: list_all_iff)
  have "split_on (CHR ''-'') (?a @ CHR ''-'' # ?b @ CHR ''-'' # ?c) = [?a, ?b, ?c]"
    by (simp only: split_append [OF clean [OF digits(1)]] split_append [OF clean [OF digits(2)]] split_clean [OF clean [OF digits(3)]])
  then have "split_on (CHR ''-'') s = [?a, ?b, ?c]" using s by simp
  then show ?thesis using digits num by (simp add: date_numbers_def number_of_def)
qed

lemma day_number_shift: "day_number y m (d + k) = day_number y m d + k"
  by (simp add: day_number_def Let_def)

lemma day_before_next_month:
  assumes "0 \<le> m" "m < 12"
  shows "day_number y (m + 1) 0 = day_number y m (month_length y m)"
proof (cases "m = 11")
  case True
  have "day_number y 11 31 = day_from_year y + 365 + of_bool (leap y) - 1" by (simp add: day_number_def month_lengths_def)
  moreover have "day_number y 12 0 = day_from_year (y + 1) - 1" by (simp add: day_number_def)
  ultimately show ?thesis using True by (simp add: day_from_year_Suc month_length_def month_lengths_def)
next
  case False
  with assms have "nat (m + 1) = Suc (nat m)" "nat m < 12" by simp_all
  with assms False show ?thesis by (simp add: day_number_def month_length_def take_Suc_conv_app_nth)
qed

lemma last_of_month_length:
  assumes "0 \<le> m" "m < 12" "100 \<le> y" "y \<le> 19999"
  shows "last_of_month y m = Some (month_length y m)"
proof -
  have v: "valid_civil y m (month_length y m)" using month_length_bounds [OF assms(1,2), of y] assms by (simp add: valid_civil_def)
  from civil_in_range [OF v] assms have "\<bar>day_number y m (month_length y m)\<bar> \<le> 100000000" by simp
  with assms day_before_next_month [OF assms(1,2), of y] civil_day_number [OF v] show ?thesis by (simp add: last_of_month_def date_utc_def)
qed

lemma year_step: "day_from_year y + 365 * 8 < day_from_year (y + 9)"
  using year_bounds(2) [of y] year_bounds(1) [of "y + 9"] by simp

lemma later_day:
  assumes "valid_civil y m d" "0 \<le> k" "k \<le> 2555" "civil (day_number y m d + k) = (y', m', d')"
  shows "y \<le> y' \<and> y' \<le> y + 8"
proof -
  let ?day = "day_number y m d + k"
  have y': "year_of ?day = y'" using assms(4) by (auto simp: civil_def Let_def split: prod.splits)
  note day = valid_civil_day [OF assms(1)] year_of_bounds [of ?day, unfolded y']
  have "\<not> y' + 1 \<le> y" using day_from_year_mono [of "y' + 1" y] day assms(2) by linarith
  moreover have "\<not> y + 9 \<le> y'" using day_from_year_mono [of "y + 9" y'] year_step [of y] day assms(3) by linarith
  ultimately show ?thesis by simp
qed

lemma date_out_valid:
  assumes "valid_civil y m d" "100 \<le> y" "y \<le> 9999"
  shows "validDate (date_out (Some y) (Some m) (Some d))"
proof -
  from assms(1) month_length_bounds [of m y] have "date_match (date_out (Some y) (Some m) (Some d)) = Some (y, m + 1, d)"
    using assms(2,3) by (intro date_match_out) (auto simp: valid_civil_def)
  from validDate_civil [OF this] assms show ?thesis by simp
qed

lemma addRepeat_days:
  assumes "validDate s" "date_match s = Some (y, m + 1, d)" "0 \<le> k" "k \<le> 2555" "(u = UDay \<and> k = n) \<or> (u = UWeek \<and> k = n * 7)"
    and "civil (day_number y m d + k) = (y', m', d')"
  shows "addRepeat s (Repeat u n) = date_out (Some y') (Some m') (Some d')"
proof -
  from validDate_civil [OF assms(2)] assms(1) have y: "100 \<le> y" and v: "valid_civil y m d" by simp_all
  have y9: "y \<le> 9999" using assms(2) read_nat_less [of "take 4 s"] by (auto simp: date_match_def split: if_splits)
  have "\<bar>day_number y m d + k\<bar> \<le> 100000000" using civil_in_range [OF v] y y9 assms(3,4) by linarith
  then have "date_utc y m (d + k) = Some (day_number y m d + k)" using y by (simp add: date_utc_def Let_def day_number_shift)
  with assms(5,6) show ?thesis by (auto simp: addRepeat_def split_dashes [OF assms(2)] utc_text_def)
qed

lemma addRepeat_months:
  assumes "validDate s" "date_match s = Some (y, m + 1, d)" "0 \<le> k" "k \<le> 4380" "(u = UMonth \<and> k = n) \<or> (u = UYear \<and> k = n * 12)"
  defines "y' \<equiv> y + (m + k) div 12" and "m' \<equiv> (m + k) mod 12"
  shows "addRepeat s (Repeat u n) = date_out (Some y') (Some m') (Some (min d (month_length y' m')))"
    and "valid_civil y' m' (min d (month_length y' m'))" and "y \<le> y'" and "y' \<le> y + 365" and "12 * y' + m' = 12 * y + m + k"
proof -
  from validDate_civil [OF assms(2)] assms(1) have y: "100 \<le> y" and v: "valid_civil y m d" by simp_all
  have y9: "y \<le> 9999" using assms(2) read_nat_less [of "take 4 s"] by (auto simp: date_match_def split: if_splits)
  have m: "0 \<le> m" "m < 12" "1 \<le> d" using v by (simp_all add: valid_civil_def)
  then have q: "0 \<le> (m + k) div 12" "(m + k) div 12 \<le> 365" using assms(3,4) zdiv_mono1 [of "m + k" 4391 12] by simp_all
  then show le: "y \<le> y'" "y' \<le> y + 365" by (simp_all add: y'_def)
  have m': "0 \<le> m'" "m' < 12" by (simp_all add: m'_def)
  have last_day: "last_of_month y' m' = Some (month_length y' m')" using last_of_month_length [OF m'] le y y9 by simp
  have rem: "js_rem (m + k) 12 = m'" using m assms(3) by (simp add: js_rem_def m'_def)
  show "addRepeat s (Repeat u n) = date_out (Some y') (Some m') (Some (min d (month_length y' m')))"
    using assms(5) last_day rem by (auto simp: addRepeat_def split_dashes [OF assms(2)] both_def y'_def)
  show "valid_civil y' m' (min d (month_length y' m'))" using m m' month_length_bounds [OF m', of y'] by (simp add: valid_civil_def)
  show "12 * y' + m' = 12 * y + m + k" using mult_div_mod_eq [of 12 "m + k"] by (simp add: y'_def m'_def)
qed

section \<open>Properties\<close>

text \<open>A text is accepted as a date exactly when it has the form yyyy-mm-dd and names a day of the Gregorian calendar from the year 100 on.\<close>

lemma validDate_calendar:
  "validDate s \<longleftrightarrow> (\<exists>y m d. date_match s = Some (y, m, d) \<and> 100 \<le> y \<and> 1 \<le> m \<and> m \<le> 12 \<and> 1 \<le> d \<and> d \<le> month_length y (m - 1))"
proof (cases "date_match s")
  case None
  then show ?thesis by (simp add: validDate_def)
next
  case (Some t)
  then obtain y m d where "date_match s = Some (y, (m - 1) + 1, d)" by (cases t) auto
  from validDate_civil [OF this] this show ?thesis by (auto simp: valid_civil_def)
qed

text \<open>C39: advancing an accepted date by a repetition of 1 to 365 units gives a calendar date, at most 365 years later: exactly that many days
  or weeks later by day count, or exactly that many months or years later on the same day of the month, or on the last
  one where the month is shorter; the result is an accepted date again up to the year 9999.\<close>

theorem repeat_advances:
  assumes "validDate s" "date_match s = Some (y, m + 1, d)" "1 \<le> n" "n \<le> 365"
  shows "\<exists>y' m' d'. addRepeat s (Repeat u n) = date_out (Some y') (Some m') (Some d') \<and> valid_civil y' m' d' \<and> y \<le> y' \<and> y' \<le> y + 365 \<and>
    (y' \<le> 9999 \<longrightarrow> validDate (addRepeat s (Repeat u n))) \<and>
    (case u of UDay \<Rightarrow> day_number y' m' d' = day_number y m d + n
       | UWeek \<Rightarrow> day_number y' m' d' = day_number y m d + 7 * n
       | UMonth \<Rightarrow> 12 * y' + m' = 12 * y + m + n \<and> d' = min d (month_length y' m')
       | UYear \<Rightarrow> 12 * y' + m' = 12 * y + m + 12 * n \<and> d' = min d (month_length y' m'))"
proof -
  from validDate_civil [OF assms(2)] assms(1) have y: "100 \<le> y" and v: "valid_civil y m d" by simp_all
  have days: ?thesis if u: "(u = UDay \<and> k = n) \<or> (u = UWeek \<and> k = n * 7)" for k
  proof -
    have k: "0 \<le> k" "k \<le> 2555" using u assms(3,4) by auto
    obtain y' m' d' where c: "civil (day_number y m d + k) = (y', m', d')" by (cases "civil (day_number y m d + k)") auto
    have "addRepeat s (Repeat u n) = date_out (Some y') (Some m') (Some d')" by (rule addRepeat_days [OF assms(1,2) k u c])
    then show ?thesis using later_day [OF v k c] civil_valid [OF c] date_out_valid [of y' m' d'] y u
      by (intro exI [of _ y'] exI [of _ m'] exI [of _ d']) auto
  qed
  have months: ?thesis if u: "(u = UMonth \<and> k = n) \<or> (u = UYear \<and> k = n * 12)" for k
  proof -
    have k: "0 \<le> k" "k \<le> 4380" using u assms(3,4) by auto
    define y' m' where "y' = y + (m + k) div 12" "m' = (m + k) mod 12"
    note r = addRepeat_months [OF assms(1,2) k u, folded y'_m'_def]
    have "validDate (addRepeat s (Repeat u n))" if "y' \<le> 9999" unfolding r(1) using date_out_valid [OF r(2)] r(3) y that by simp
    then show ?thesis using r u by (intro exI [of _ y'] exI [of _ m'] exI [of _ "min d (month_length y' m')"]) auto
  qed
  show ?thesis by (cases u) (use days months in blast)+
qed

theorem repeat_advances_witness:
  "validDate ''2026-01-31'' \<and> (\<exists>y' m' d'. addRepeat ''2026-01-31'' (Repeat UMonth 1) = date_out (Some y') (Some m') (Some d') \<and>
     12 * y' + m' = 12 * 2026 + 0 + 1 \<and> d' = min 31 (month_length y' m'))"
proof -
  have dm: "date_match ''2026-01-31'' = Some (2026, 0 + 1, 31)" by (simp add: date_match_def is_digit_def read_nat_def digit_value_def)
  have "validDate ''2026-01-31''" using validDate_civil [OF dm] by (simp add: valid_civil_def month_length_def month_lengths_def)
  with repeat_advances [OF this dm, of 1 UMonth] show ?thesis by auto
qed

end
