(* ===== verification/TaskDates.thy ===== *)
theory TaskDates
  imports Calendar
begin

text \<open>
  Task dates inside checklist text (\<open>web/src/taskDates.ts\<close>): tokens and their character ranges, the parsed task, its next occurrence, the group it is
  listed in, which reminders fire, and the edits that complete a repeating item. The table of repetitions is an object, so a
  lookup also finds what every object inherits. The local time zone is a parameter that gives the time of a local date
  and clock time. The lemmas: tokens hold accepted values at their ranges; groups compare days although the code compares
  texts; each reminder is judged once; and completing an item takes exactly one repetition word out of its text.
\<close>

section \<open>Tokens\<close>

definition PROTOTYPE_KEYS :: "string list" where
  "PROTOTYPE_KEYS = [''constructor'', ''__defineGetter__'', ''__defineSetter__'', ''hasOwnProperty'', ''__lookupGetter__'', ''__lookupSetter__'',
     ''isPrototypeOf'', ''propertyIsEnumerable'', ''toString'', ''valueOf'', ''__proto__'', ''toLocaleString'']"

definition UNITS :: "(string, repeat) dict" where
  "UNITS = [(''daily'', Repeat UDay 1), (''weekly'', Repeat UWeek 1), (''monthly'', Repeat UMonth 1), (''yearly'', Repeat UYear 1)]"

definition units_at :: "string \<Rightarrow> repeat option" where
  "units_at value = (case map_of UNITS value of Some r \<Rightarrow> Some r | None \<Rightarrow> if value \<in> set PROTOTYPE_KEYS then Some Inherited else None)"

text \<open>\<open>/^every-(\d{1,3})-(days|weeks)$/\<close>: the digits up to the next dash and the unit after it.\<close>

definition every_match :: "string \<Rightarrow> (int \<times> repeat_unit) option" where
  "every_match value =
     (case strip_prefix ''every-'' value of
        None \<Rightarrow> None
      | Some rest \<Rightarrow>
          let digits = takeWhile is_digit rest; tail = dropWhile is_digit rest in
          if digits = [] \<or> length digits > 3 then None
          else if tail = ''-days'' then Some (int (read_nat digits), UDay)
          else if tail = ''-weeks'' then Some (int (read_nat digits), UWeek) else None)"

definition parseRepeat :: "string \<Rightarrow> repeat option" where
  "parseRepeat value =
     (case units_at value of
        Some r \<Rightarrow> Some r
      | None \<Rightarrow> (case every_match value of
          None \<Rightarrow> None
        | Some (every, u) \<Rightarrow> if every \<ge> 1 \<and> every \<le> 365 then Some (Repeat u every) else None))"

definition unit_name :: "repeat_unit \<Rightarrow> string" where
  "unit_name u = (case u of UDay \<Rightarrow> ''day'' | UWeek \<Rightarrow> ''week'' | UMonth \<Rightarrow> ''month'' | UYear \<Rightarrow> ''year'')"

definition unit_key :: "repeat_unit \<Rightarrow> string" where
  "unit_key u = (case u of UDay \<Rightarrow> ''daily'' | UWeek \<Rightarrow> ''weekly'' | UMonth \<Rightarrow> ''monthly'' | UYear \<Rightarrow> ''yearly'')"

definition repeatToken :: "repeat \<Rightarrow> string" where
  "repeatToken r = (case r of
       Inherited \<Rightarrow> ''repeat:every-undefined-undefineds''
     | Repeat u every \<Rightarrow> if every = 1 then ''repeat:'' @ unit_key u else ''repeat:every-'' @ int_text every @ ''-'' @ unit_name u @ ''s'')"

datatype token_key = KDue | KRepeat | KRemind | KPush

record token =
  tk_key :: token_key
  tk_value :: string
  tk_start :: nat
  tk_end :: nat

text \<open>\<open>text.matchAll(/\S+/g)\<close>: the words with their positions.\<close>

function words_from :: "nat \<Rightarrow> string \<Rightarrow> (nat \<times> string) list" where
  "words_from pos s =
     (let skipped = takeWhile js_space s; rest = dropWhile js_space s; word = takeWhile (\<lambda>c. \<not> js_space c) rest in
      if rest = [] then []
      else (pos + length skipped, word) # words_from (pos + length skipped + length word) (dropWhile (\<lambda>c. \<not> js_space c) rest))"
  by pat_completeness auto

lemma words_shrink: "dropWhile js_space s \<noteq> [] \<Longrightarrow> length (dropWhile (\<lambda>c. \<not> js_space c) (dropWhile js_space s)) < length s"
proof -
  assume "dropWhile js_space s \<noteq> []"
  then obtain c t where ct: "dropWhile js_space s = c # t" by (cases "dropWhile js_space s") auto
  then have "\<not> js_space c" using hd_dropWhile [of js_space s] by simp
  then have "length (dropWhile (\<lambda>c. \<not> js_space c) (c # t)) \<le> length t" using length_dropWhile_le [of _ t] by simp
  also have "length t < length s" using length_dropWhile_le [of js_space s] ct by simp
  finally show ?thesis by (simp only: ct)
qed

termination words_from
  by (relation "measure (\<lambda>(pos, s). length s)") (simp_all add: words_shrink del: dropWhile_eq_Nil_conv)

declare words_from.simps [simp del]

definition key_of :: "string \<Rightarrow> (token_key \<times> string) option" where
  "key_of word =
     (case find (\<lambda>(k, p). strip_prefix p word \<noteq> None) [(KDue, ''due:''), (KRepeat, ''repeat:''), (KRemind, ''remind:''), (KPush, ''push:'')] of
        None \<Rightarrow> None
      | Some (k, p) \<Rightarrow> if strip_prefix p word = Some [] then None else map_option (Pair k) (strip_prefix p word))"

definition remind_form :: "string \<Rightarrow> bool" where
  "remind_form value \<longleftrightarrow> length value = 16 \<and> date_match (take 10 value) \<noteq> None \<and> value ! 10 = CHR ''T'' \<and> value ! 13 = CHR '':'' \<and>
     list_all is_digit (take 2 (drop 11 value)) \<and> read_nat (take 2 (drop 11 value)) \<le> 23 \<and>
     list_all is_digit (drop 14 value) \<and> read_nat (drop 14 value) \<le> 59"

fun token_valid :: "token_key \<Rightarrow> string \<Rightarrow> bool" where
  "token_valid KDue value = validDate value"
| "token_valid KRepeat value = (parseRepeat value \<noteq> None)"
| "token_valid KPush value = (value = ''yes'')"
| "token_valid KRemind value = (remind_form value \<and> validDate (take 10 value))"

definition token_step :: "(nat \<times> string) \<Rightarrow> token list \<Rightarrow> token list" where
  "token_step w found =
     (case key_of (snd w) of
        None \<Rightarrow> found
      | Some (k, value) \<Rightarrow>
          if k \<in> set (map tk_key found) \<or> \<not> token_valid k value then found
          else found @ [\<lparr>tk_key = k, tk_value = value, tk_start = fst w, tk_end = fst w + length (snd w)\<rparr>])"

definition findTokens :: "string \<Rightarrow> token list" where
  "findTokens txt = fold token_step (words_from 0 txt) []"

section \<open>Tasks\<close>

record task_dates =
  td_text :: string
  td_due :: "string option"
  td_repeat :: "repeat option"
  td_remind :: "string option"
  td_push :: bool

definition take_token :: "token \<Rightarrow> task_dates \<Rightarrow> task_dates" where
  "take_token t task =
     (let task1 = (case tk_key t of
          KRepeat \<Rightarrow> task\<lparr>td_repeat := parseRepeat (tk_value t)\<rparr>
        | KPush \<Rightarrow> task\<lparr>td_push := True\<rparr>
        | KDue \<Rightarrow> task\<lparr>td_due := Some (tk_value t)\<rparr>
        | KRemind \<Rightarrow> task\<lparr>td_remind := Some (tk_value t)\<rparr>) in
      task1\<lparr>td_text := take (tk_start t) (td_text task) @ drop (tk_end t) (td_text task)\<rparr>)"

text \<open>\<open>replace(/\s+/g, " ").trim()\<close>: the words joined by single spaces.\<close>

definition squeeze :: "string \<Rightarrow> string" where
  "squeeze s = (case map snd (words_from 0 s) of [] \<Rightarrow> [] | w # others \<Rightarrow> w @ concat (map (\<lambda>v. CHR '' '' # v) others))"

definition parseTaskDates :: "string \<Rightarrow> task_dates" where
  "parseTaskDates raw =
     (let task = fold take_token (rev (findTokens raw)) \<lparr>td_text = raw, td_due = None, td_repeat = None, td_remind = None, td_push = False\<rparr> in
      task\<lparr>td_text := squeeze (td_text task), td_push := td_push task \<and> td_remind task \<noteq> None\<rparr>)"

text \<open>The local calendar date of a moment: year, month from 0 and day.\<close>

definition localDate :: "int \<times> int \<times> int \<Rightarrow> string" where
  "localDate now = (case now of (y, m, d) \<Rightarrow> int_text y @ ''-'' @ pad (Some (m + 1)) 2 @ ''-'' @ pad (Some d) 2)"

definition nextOccurrence :: "task_dates \<Rightarrow> string \<Rightarrow> string option \<times> string option" where
  "nextOccurrence task today =
     (case td_repeat task of
        None \<Rightarrow> (None, None)
      | Some r \<Rightarrow> (Some (addRepeat (case td_due task of None \<Rightarrow> today | Some d \<Rightarrow> d) r),
          map_option (\<lambda>v. addRepeat (take 10 v) r @ drop 10 v) (td_remind task)))"

text \<open>\<open>new Date(y, m, d, h, min).getTime()\<close> is the parameter; \<open>None\<close> is \<open>NaN\<close>.\<close>

definition remindAt :: "(int option \<times> int option \<times> int option \<times> int option \<times> int option \<Rightarrow> int option) \<Rightarrow> string \<Rightarrow> int option" where
  "remindAt local_time remind =
     (let (y, m, d) = date_numbers (take 10 remind) in
      local_time (y, map_option (\<lambda>m. m - 1) m, d, number_of (take 2 (drop 11 remind)), number_of (take 2 (drop 14 remind))))"

datatype task_group = Overdue | Today | Upcoming | Later | Undated

definition classifyTask :: "task_dates \<Rightarrow> int \<times> int \<times> int \<Rightarrow> bool \<Rightarrow> task_group" where
  "classifyTask task now missedReminder =
     (if missedReminder then Overdue
      else case td_due task of
        None \<Rightarrow> Undated
      | Some due \<Rightarrow>
          let today = localDate now in
          if due < today then Overdue else if due = today then Today
          else if due \<le> addRepeat today (Repeat UDay 7) then Upcoming else Later)"

record reminder_plan =
  rp_fire :: "string list"
  rp_missed :: "string set"
  rp_next :: "int option"

definition plan_step ::
  "(string \<Rightarrow> int option) \<Rightarrow> int \<Rightarrow> int \<Rightarrow> string set \<Rightarrow> bool \<Rightarrow> (string \<times> string option) \<Rightarrow> reminder_plan \<Rightarrow> reminder_plan" where
  "plan_step at now since fired enabled entry plan =
     (case entry of (key, remind) \<Rightarrow>
        if remind = None \<or> remind = Some [] \<or> key \<in> fired then plan
        else case at (the remind) of
          Some t \<Rightarrow>
            if t > now then plan\<lparr>rp_next := Some (case rp_next plan of None \<Rightarrow> t | Some n \<Rightarrow> min n t)\<rparr>
            else if enabled \<and> t > since then plan\<lparr>rp_fire := rp_fire plan @ [key]\<rparr>
            else plan\<lparr>rp_missed := insert key (rp_missed plan)\<rparr>
        | None \<Rightarrow> plan\<lparr>rp_missed := insert key (rp_missed plan)\<rparr>)"

definition planReminders ::
  "(string \<Rightarrow> int option) \<Rightarrow> (string \<times> string option) list \<Rightarrow> int \<Rightarrow> int \<Rightarrow> string set \<Rightarrow> bool \<Rightarrow> reminder_plan" where
  "planReminders at tasks now since fired enabled =
     fold (plan_step at now since fired enabled) tasks \<lparr>rp_fire = [], rp_missed = {}, rp_next = None\<rparr>"

section \<open>Recurrence in blocks\<close>

text \<open>An inline node with its text, if it has one; the rest of the node is kept as it is.\<close>

record inline_node =
  in_text :: "string option"
  in_rest :: json

record text_edit =
  te_start :: nat
  te_end :: nat
  te_text :: string

definition node_length :: "inline_node \<Rightarrow> nat" where
  "node_length n = (case in_text n of None \<Rightarrow> 0 | Some t \<Rightarrow> length t)"

definition edited_at :: "text_edit list \<Rightarrow> nat \<Rightarrow> string \<Rightarrow> string" where
  "edited_at edits index here =
     concat (map te_text (filter (\<lambda>e. te_start e = index) edits)) @
     (if list_ex (\<lambda>e. te_start e \<le> index \<and> index < te_end e) edits then [] else here)"

definition rewrite_node :: "text_edit list \<Rightarrow> nat \<Rightarrow> bool \<Rightarrow> string \<Rightarrow> string" where
  "rewrite_node edits base is_last t =
     concat (map (\<lambda>i. edited_at edits (base + i) (if i < length t then [t ! i] else [])) [0..<length t + (if is_last then 1 else 0)])"

definition no_text_after :: "inline_node list \<Rightarrow> bool" where
  "no_text_after ns = list_all (\<lambda>n. in_text n = None) ns"

fun rewrite_from :: "text_edit list \<Rightarrow> nat \<Rightarrow> inline_node list \<Rightarrow> inline_node list" where
  "rewrite_from edits base [] = []"
| "rewrite_from edits base (n # ns) =
     (case in_text n of
        None \<Rightarrow> n # rewrite_from edits base ns
      | Some t \<Rightarrow> n\<lparr>in_text := Some (rewrite_node edits base (no_text_after ns) t)\<rparr> # rewrite_from edits (base + length t) ns)"

definition rewrite :: "inline_node list \<Rightarrow> text_edit list \<Rightarrow> inline_node list" where
  "rewrite content edits = filter (\<lambda>n. in_text n \<noteq> Some []) (rewrite_from edits 0 content)"

definition textOf :: "inline_node list \<Rightarrow> string" where
  "textOf content = concat (map (\<lambda>n. case in_text n of None \<Rightarrow> [] | Some t \<Rightarrow> t) content)"

definition cut :: "string \<Rightarrow> token \<Rightarrow> text_edit" where
  "cut txt t =
     (let before = (if 0 < tk_start t \<and> js_space (txt ! (tk_start t - 1)) then 1 else 0);
          after = (if before = 1 \<or> \<not> (tk_end t < length txt \<and> js_space (txt ! tk_end t)) then 0 else 1) in
      \<lparr>te_start = tk_start t - before, te_end = tk_end t + after, te_text = []\<rparr>)"

record recurrence_edit =
  re_id :: string
  re_content :: "inline_node list"
  re_next :: "inline_node list"

text \<open>A block: its ID, type, checked property and inline content (if it is an array), and its children.\<close>

datatype task_block = Block (bl_id: "string option") (bl_type: string) (bl_checked: bool) (bl_content: "inline_node list option") (bl_children: "task_block list")

definition key_name :: "token_key \<Rightarrow> string" where
  "key_name k = (case k of KDue \<Rightarrow> ''due'' | KRepeat \<Rightarrow> ''repeat'' | KRemind \<Rightarrow> ''remind'' | KPush \<Rightarrow> ''push'')"

definition undefined_or :: "string option \<Rightarrow> string" where
  "undefined_or v = (case v of None \<Rightarrow> ''undefined'' | Some s \<Rightarrow> s)"

definition advanced :: "string \<Rightarrow> token list \<Rightarrow> string option \<times> string option \<Rightarrow> text_edit list" where
  "advanced txt tokens nxt =
     map (\<lambda>t. \<lparr>te_start = tk_start t, te_end = tk_end t,
            te_text = key_name (tk_key t) @ '':'' @ undefined_or (if tk_key t = KDue then fst nxt else snd nxt)\<rparr>)
         (filter (\<lambda>t. tk_key t \<noteq> KRepeat \<and> tk_key t \<noteq> KPush) tokens) @
     (if KDue \<in> set (map tk_key tokens) then []
      else [\<lparr>te_start = length txt, te_end = length txt,
             te_text = (if txt \<noteq> [] \<and> \<not> js_space (last txt) then '' '' else []) @ ''due:'' @ undefined_or (fst nxt)\<rparr>])"

definition block_edit :: "string \<Rightarrow> string \<Rightarrow> inline_node list \<Rightarrow> recurrence_edit option" where
  "block_edit today bid content =
     (let txt = textOf content; tokens = findTokens txt in
      case find (\<lambda>t. tk_key t = KRepeat) tokens of
        None \<Rightarrow> None
      | Some r \<Rightarrow> Some \<lparr>re_id = bid, re_content = rewrite content [cut txt r],
          re_next = rewrite content (advanced txt tokens (nextOccurrence (parseTaskDates txt) today))\<rparr>)"

definition MAX_DEPTH :: nat where "MAX_DEPTH = 100"

definition own_edits :: "string \<Rightarrow> task_block \<Rightarrow> recurrence_edit list" where
  "own_edits today b =
     (case (bl_id b, bl_content b) of
        (Some i, Some content) \<Rightarrow>
          if bl_type b = ''checkListItem'' \<and> bl_checked b \<and> i \<noteq> [] then (case block_edit today i content of None \<Rightarrow> [] | Some e \<Rightarrow> [e]) else []
      | _ \<Rightarrow> [])"

fun visit :: "string \<Rightarrow> nat \<Rightarrow> task_block \<Rightarrow> recurrence_edit list" where
  "visit today depth (Block i ty checked content children) =
     (if depth > MAX_DEPTH then []
      else own_edits today (Block i ty checked content children) @ concat (map (visit today (Suc depth)) children))"

definition recurrenceEdits :: "task_block list \<Rightarrow> string \<Rightarrow> recurrence_edit list" where
  "recurrenceEdits blocks today = concat (map (visit today 0) blocks)"

section \<open>Words\<close>

lemma words_Nil [simp]: "words_from p [] = []"
  by (subst words_from.simps) simp

lemma words_space [simp]: "js_space c \<Longrightarrow> words_from p (c # s) = words_from (Suc p) s"
  by (subst (1 2) words_from.simps) (simp add: Let_def)

lemma words_word: "\<not> js_space c \<Longrightarrow> words_from p (c # s) =
    (p, c # takeWhile (\<lambda>c. \<not> js_space c) s) # words_from (p + length (c # takeWhile (\<lambda>c. \<not> js_space c) s)) (dropWhile (\<lambda>c. \<not> js_space c) s)"
  by (subst words_from.simps) (simp add: Let_def)

text \<open>Two pieces of text that meet at white space have the words of both.\<close>

definition apart :: "string \<Rightarrow> string \<Rightarrow> bool" where
  "apart A B \<longleftrightarrow> A = [] \<or> B = [] \<or> js_space (last A) \<or> js_space (hd B)"

lemma words_append: "apart A B \<Longrightarrow> words_from p (A @ B) = words_from p A @ words_from (p + length A) B"
proof (induction "length A" arbitrary: A p rule: less_induct)
  case less
  show ?case
  proof (cases A)
    case (Cons c A')
    let ?ns = "\<lambda>c. \<not> js_space c"
    show ?thesis
    proof (cases "js_space c")
      case True
      have "apart A' B" using less.prems Cons by (auto simp: apart_def)
      with less.hyps [of A' "Suc p"] Cons True show ?thesis by simp
    next
      case False
      show ?thesis
      proof (cases "\<forall>x\<in>set A'. ?ns x")
        case True
        then have here: "takeWhile ?ns A' = A'" "dropWhile ?ns A' = []" by simp_all
        have "B = [] \<or> js_space (hd B)" using less.prems Cons False True last_in_set [of A'] by (auto simp: apart_def split: if_splits)
        then have "takeWhile ?ns (A' @ B) = A'" "dropWhile ?ns (A' @ B) = B" using True by (cases B; simp)+
        then show ?thesis unfolding Cons append_Cons words_word [OF \<open>\<not> js_space c\<close>] here by simp
      next
        case False
        then obtain x where x: "x \<in> set A'" "\<not> ?ns x" by blast
        then have cut: "takeWhile ?ns (A' @ B) = takeWhile ?ns A'" "dropWhile ?ns (A' @ B) = dropWhile ?ns A' @ B" by auto
        have tail: "dropWhile ?ns A' \<noteq> []" using x by auto
        then have "last (dropWhile ?ns A') = last A'" by (metis append_is_Nil_conv last_appendR takeWhile_dropWhile_id)
        with tail less.prems Cons have "apart (dropWhile ?ns A') B" by (cases A') (auto simp: apart_def)
        moreover have "length (dropWhile ?ns A') < length A" using Cons length_dropWhile_le [of ?ns A'] by simp
        moreover have "length (takeWhile ?ns A') + length (dropWhile ?ns A') = length A'" by (metis length_append takeWhile_dropWhile_id)
        ultimately show ?thesis using less.hyps [of "dropWhile ?ns A'" "p + length (c # takeWhile ?ns A')"] Cons \<open>\<not> js_space c\<close> cut
          by (simp add: words_word add.assoc)
      qed
    qed
  qed simp
qed

lemma words_shift: "map snd (words_from p s) = map snd (words_from q s)"
proof (induction p s arbitrary: q rule: words_from.induct)
  case (1 p s)
  show ?case
  proof (cases "dropWhile js_space s = []")
    case True
    then show ?thesis by (simp add: words_from.simps)
  next
    case False
    from "1.IH" [OF refl refl refl False] False show ?thesis by (subst (1 2) words_from.simps) (simp add: Let_def del: dropWhile_eq_Nil_conv)
  qed
qed

lemma words_at: "(q, w) \<in> set (words_from p s) \<Longrightarrow>
    \<exists>A B. s = A @ w @ B \<and> q = p + length A \<and> w \<noteq> [] \<and> (\<forall>c\<in>set w. \<not> js_space c) \<and> (A = [] \<or> js_space (last A)) \<and> (B = [] \<or> js_space (hd B))"
proof (induction p s rule: words_from.induct)
  case (1 p s)
  let ?sk = "takeWhile js_space s" and ?rest = "dropWhile js_space s"
  let ?w = "takeWhile (\<lambda>c. \<not> js_space c) ?rest" and ?t = "dropWhile (\<lambda>c. \<not> js_space c) ?rest"
  from "1.prems" have rest: "?rest \<noteq> []" by (subst (asm) words_from.simps) (auto simp: Let_def split: if_splits)
  have s: "s = ?sk @ ?w @ ?t" by simp
  have w: "?w \<noteq> []" using rest hd_dropWhile [of js_space s] by (cases ?rest) auto
  have sk: "?sk = [] \<or> js_space (last ?sk)" using set_takeWhileD [of "last ?sk" js_space s] last_in_set [of ?sk] by blast
  have t: "?t = [] \<or> js_space (hd ?t)" using hd_dropWhile [of "\<lambda>c. \<not> js_space c" ?rest] by blast
  from "1.prems" rest consider "q = p + length ?sk" "w = ?w" | "(q, w) \<in> set (words_from (p + length ?sk + length ?w) ?t)"
    by (subst (asm) words_from.simps) (auto simp: Let_def simp del: dropWhile_eq_Nil_conv)
  then show ?case
  proof cases
    case 1
    have "\<forall>c\<in>set ?w. \<not> js_space c" by (auto dest: set_takeWhileD)
    with 1 s w sk t show ?thesis by blast
  next
    case 2
    from "1.IH" [OF refl refl refl rest 2] obtain A B where ab: "?t = A @ w @ B" "q = p + length ?sk + length ?w + length A" "w \<noteq> []"
      "\<forall>c\<in>set w. \<not> js_space c" "A = [] \<or> js_space (last A)" "B = [] \<or> js_space (hd B)" by blast
    have "A \<noteq> []" using t ab(1,3,4) by (cases w) auto
    moreover have "s = (?sk @ ?w @ A) @ w @ B" using s ab(1) by (metis append.assoc)
    ultimately show ?thesis using ab by (intro exI [of _ "?sk @ ?w @ A"] exI [of _ B]) simp
  qed
qed

section \<open>Tokens found\<close>

definition is_token :: "string \<Rightarrow> token \<Rightarrow> bool" where
  "is_token txt t \<longleftrightarrow> (\<exists>w. (tk_start t, w) \<in> set (words_from 0 txt) \<and> key_of w = Some (tk_key t, tk_value t) \<and>
     token_valid (tk_key t) (tk_value t) \<and> tk_end t = tk_start t + length w)"

lemma findTokens_sound: "t \<in> set (findTokens txt) \<Longrightarrow> is_token txt t"
proof -
  have "\<forall>t\<in>set (fold token_step found_words found). is_token txt t"
    if "set found_words \<subseteq> set (words_from 0 txt)" "\<forall>t\<in>set found. is_token txt t" for found_words found
    using that
  proof (induction found_words arbitrary: found)
    case (Cons w found_words)
    have "\<forall>t\<in>set (token_step w found). is_token txt t"
      using Cons.prems by (cases w) (auto simp: token_step_def is_token_def split: option.splits)
    with Cons show ?case by simp
  qed simp
  from this [of "words_from 0 txt" "[]"] show "t \<in> set (findTokens txt) \<Longrightarrow> is_token txt t" by (simp add: findTokens_def)
qed

definition repeat_word :: "string \<Rightarrow> bool" where
  "repeat_word w = (case key_of w of Some (KRepeat, v) \<Rightarrow> parseRepeat v \<noteq> None | _ \<Rightarrow> False)"

definition words_of :: "string \<Rightarrow> string list" where
  "words_of s = map snd (words_from 0 s)"

lemma repeat_word_key: "repeat_word w \<longleftrightarrow> (\<exists>v. key_of w = Some (KRepeat, v) \<and> token_valid KRepeat v)"
  by (auto simp: repeat_word_def split: option.splits token_key.splits)

text \<open>The repeat token found is the first repetition word.\<close>

lemma repeat_token_first:
  "find (\<lambda>t. tk_key t = KRepeat) (fold token_step found_words found) =
     (case find (\<lambda>t. tk_key t = KRepeat) found of
        Some t \<Rightarrow> Some t
      | None \<Rightarrow> map_option (\<lambda>(p, w). \<lparr>tk_key = KRepeat, tk_value = snd (the (key_of w)), tk_start = p, tk_end = p + length w\<rparr>)
          (find (\<lambda>(p, w). repeat_word w) found_words))"
proof (induction found_words arbitrary: found)
  case Nil
  show ?case by (simp split: option.split)
next
  case (Cons w found_words)
  obtain p x where w: "w = (p, x)" by (cases w)
  have find_app: "find P (xs @ ys) = (case find P xs of Some t \<Rightarrow> Some t | None \<Rightarrow> find P ys)" for P and xs ys :: "token list"
    by (induction xs) simp_all
  have none: "find (\<lambda>t. tk_key t = KRepeat) found = None \<longleftrightarrow> KRepeat \<notin> set (map tk_key found)"
    by (auto simp: find_None_iff image_iff)
  have step: "find (\<lambda>t. tk_key t = KRepeat) (token_step w found) =
      (case find (\<lambda>t. tk_key t = KRepeat) found of Some t \<Rightarrow> Some t
       | None \<Rightarrow> if repeat_word x then Some \<lparr>tk_key = KRepeat, tk_value = snd (the (key_of x)), tk_start = p, tk_end = p + length x\<rparr> else None)"
  proof (cases "key_of x")
    case None
    then show ?thesis by (simp add: token_step_def w repeat_word_key split: option.split)
  next
    case (Some kv)
    then obtain k v where "key_of x = Some (k, v)" by (cases kv) auto
    then show ?thesis using none
      by (cases "k = KRepeat") (auto simp: token_step_def w repeat_word_key find_app split: option.splits)
  qed
  show ?case unfolding fold_simps Cons.IH step by (auto simp: w split: option.splits)
qed

lemma repeat_token:
  "find (\<lambda>t. tk_key t = KRepeat) (findTokens txt) =
     map_option (\<lambda>(p, w). \<lparr>tk_key = KRepeat, tk_value = snd (the (key_of w)), tk_start = p, tk_end = p + length w\<rparr>)
       (find (\<lambda>(p, w). repeat_word w) (words_from 0 txt))"
  by (simp add: findTokens_def repeat_token_first)

section \<open>Rewriting\<close>

lemma textOf_filter: "textOf (filter (\<lambda>n. in_text n \<noteq> Some []) ns) = textOf ns"
  by (induction ns) (auto simp: textOf_def split: option.splits)

lemma textOf_none: "no_text_after ns \<Longrightarrow> textOf ns = [] \<and> textOf (rewrite_from edits base ns) = []"
  by (induction ns arbitrary: base) (auto simp: textOf_def no_text_after_def)

definition edited :: "text_edit list \<Rightarrow> nat \<Rightarrow> string \<Rightarrow> nat \<Rightarrow> string" where
  "edited edits base t n = concat (map (\<lambda>i. edited_at edits (base + i) (if i < length t then [t ! i] else [])) [0..<n])"

lemma edited_append: "edited edits base (s @ t) (length s + n) = edited edits base s (length s) @ edited edits (base + length s) t n"
proof -
  have "map (\<lambda>i. length s + i) [0..<n] = [length s..<length s + n]" using map_add_upt [of "length s" n] by (simp add: add.commute)
  then have split: "[0..<length s + n] = [0..<length s] @ map (\<lambda>i. length s + i) [0..<n]" using upt_add_eq_append [of 0 "length s" n] by simp
  have here: "map (\<lambda>i. edited_at edits (base + i) (if i < length (s @ t) then [(s @ t) ! i] else [])) [0..<length s] =
      map (\<lambda>i. edited_at edits (base + i) (if i < length s then [s ! i] else [])) [0..<length s]" by (intro map_cong) (auto simp: nth_append)
  have there: "map (\<lambda>i. edited_at edits (base + (length s + i)) (if length s + i < length (s @ t) then [(s @ t) ! (length s + i)] else [])) [0..<n] =
      map (\<lambda>i. edited_at edits (base + length s + i) (if i < length t then [t ! i] else [])) [0..<n]" by (intro map_cong) (auto simp: nth_append add.assoc)
  show ?thesis unfolding edited_def split map_append concat_append here map_map comp_def there ..
qed

lemma rewrite_text: "textOf (rewrite_from edits base ns) = edited edits base (textOf ns) (length (textOf ns) + (if no_text_after ns then 0 else 1))"
proof (induction ns arbitrary: base)
  case Nil
  show ?case by (simp add: textOf_def edited_def no_text_after_def)
next
  case (Cons n ns)
  show ?case
  proof (cases "in_text n")
    case None
    with Cons.IH [of base] show ?thesis by (simp add: textOf_def no_text_after_def)
  next
    case (Some t)
    have head: "textOf (n # ns) = t @ textOf ns" using Some by (simp add: textOf_def)
    have tail: "textOf (rewrite_from edits base (n # ns)) = rewrite_node edits base (no_text_after ns) t @ textOf (rewrite_from edits (base + length t) ns)"
      using Some by (simp add: textOf_def)
    have not_last: "\<not> no_text_after (n # ns)" using Some by (simp add: no_text_after_def)
    have node: "rewrite_node edits base b t = edited edits base t (length t + (if b then 1 else 0))" for b by (simp add: rewrite_node_def edited_def)
    show ?thesis
    proof (cases "no_text_after ns")
      case True
      with textOf_none [OF True] head not_last show ?thesis unfolding tail node by simp
    next
      case False
      with Cons.IH [of "base + length t"] edited_append [of edits base t "textOf ns" "length (textOf ns) + 1"] head not_last
      show ?thesis unfolding tail node by (simp add: add.assoc)
    qed
  qed
qed

lemma take_conv_map: "n \<le> length xs \<Longrightarrow> map ((!) xs) [0..<n] = take n xs"
  by (rule nth_equalityI) simp_all

lemma drop_conv_map: "n \<le> length xs \<Longrightarrow> map ((!) xs) [n..<length xs] = drop n xs"
  by (rule nth_equalityI) simp_all

lemma upt_split: "i \<le> j \<Longrightarrow> j \<le> k \<Longrightarrow> [i..<k] = [i..<j] @ [j..<k]"
  using upt_add_eq_append [of i j "k - j"] by simp

lemma edited_delete:
  assumes "te_text e = []" "te_start e \<le> te_end e" "te_end e \<le> length t"
  shows "edited [e] 0 t (length t + k) = take (te_start e) t @ drop (te_end e) t"
proof -
  let ?f = "\<lambda>i. edited_at [e] i (if i < length t then [t ! i] else [])"
  have split: "[0..<length t + k] = [0..<te_start e] @ [te_start e..<te_end e] @ [te_end e..<length t] @ [length t..<length t + k]"
    using assms(2,3) upt_split [of 0 "te_start e" "length t + k"] upt_split [of "te_start e" "te_end e" "length t + k"]
      upt_split [of "te_end e" "length t" "length t + k"] by simp
  have keep: "concat (map ?f [a..<b]) = map ((!) t) [a..<b]" if "b \<le> te_start e \<or> te_end e \<le> a" "b \<le> length t" for a b
    using that by (induction b) (auto simp: edited_at_def assms(1))
  have drop_cut: "concat (map ?f [te_start e..<te_end e]) = []" by (simp add: edited_at_def assms(1))
  have drop_end: "concat (map ?f [length t..<length t + k]) = []" by (simp add: edited_at_def assms(1))
  have "concat (map ?f [0..<length t + k]) = map ((!) t) [0..<te_start e] @ map ((!) t) [te_end e..<length t]"
    unfolding split map_append concat_append drop_cut drop_end using keep [of "te_start e" 0] keep [of "length t" "te_end e"] assms(2,3) by simp
  also have "\<dots> = take (te_start e) t @ drop (te_end e) t" using assms(2,3) by (simp add: take_conv_map drop_conv_map)
  finally show ?thesis by (simp add: edited_def)
qed

section \<open>Completing an item\<close>

lemma words_of_append: "apart X Y \<Longrightarrow> words_of (X @ Y) = words_of X @ words_of Y"
  unfolding words_of_def words_append map_append using words_shift [of "0 + length X" Y 0] by simp

lemma words_of_space: "js_space c \<Longrightarrow> words_of (c # s) = words_of s"
  unfolding words_of_def words_space using words_shift [of "Suc 0" s 0] by simp

text \<open>Deleting a word with the white space before it, or after it at the start, leaves the words around it.\<close>

lemma cut_words:
  assumes "txt = A @ w @ B" "w \<noteq> []" "A = [] \<or> js_space (last A)" "B = [] \<or> js_space (hd B)" "tk_start t = length A" "tk_end t = length A + length w"
  defines "e \<equiv> cut txt t"
  shows "words_of (take (te_start e) txt @ drop (te_end e) txt) = words_of A @ words_of B"
    and "te_text e = [] \<and> te_start e \<le> te_end e \<and> te_end e \<le> length txt"
proof -
  have at: "tk_end t < length txt \<and> js_space (txt ! tk_end t) \<longleftrightarrow> B \<noteq> []"
    using assms(1,4,6) by (cases B) (auto simp: nth_append)
  note app = words_of_append
  show "words_of (take (te_start e) txt @ drop (te_end e) txt) = words_of A @ words_of B"
  proof (cases "A = []")
    case True
    show ?thesis
    proof (cases B)
      case Nil
      with True assms at show ?thesis by (simp add: cut_def words_of_def)
    next
      case (Cons c B')
      with assms(4) have "js_space c" by simp
      then have "words_of (c # B') = words_of B'" by (rule words_of_space)
      with True Cons assms at show ?thesis by (simp add: cut_def words_of_def [of "[]"])
    qed
  next
    case False
    then obtain A' c where A: "A = A' @ [c]" by (cases A rule: rev_cases) auto
    with False assms(3) have c: "js_space c" by simp
    then have "words_of A = words_of A'" using app [of A' "[c]"] by (simp add: A apart_def words_of_def [of "[c]"])
    moreover have "words_of (A' @ B) = words_of A' @ words_of B" using assms(4) by (intro app) (auto simp: apart_def)
    moreover have "take (te_start e) txt = A'" "drop (te_end e) txt = B" using assms A c by (simp_all add: e_def cut_def nth_append)
    ultimately show ?thesis by simp
  qed
  show "te_text e = [] \<and> te_start e \<le> te_end e \<and> te_end e \<le> length txt"
    using assms(1,5,6) at by (auto simp: e_def cut_def Let_def Suc_le_eq)
qed

lemma rewrite_cut:
  assumes "te_text e = [] \<and> te_start e \<le> te_end e \<and> te_end e \<le> length (textOf content)"
  shows "textOf (rewrite content [e]) = take (te_start e) (textOf content) @ drop (te_end e) (textOf content)"
  using assms edited_delete [of e "textOf content"] edited_delete [of e "textOf content" 0]
  by (simp add: rewrite_def textOf_filter rewrite_text)

lemma find_split: "find P xs = Some x \<Longrightarrow> \<exists>ys zs. xs = ys @ x # zs \<and> P x \<and> (\<forall>y\<in>set ys. \<not> P y)"
proof (induction xs)
  case (Cons a xs)
  show ?case
  proof (cases "P a")
    case True
    with Cons.prems show ?thesis by (intro exI [of _ "[]"] exI [of _ xs]) auto
  next
    case False
    with Cons obtain ys zs where "xs = ys @ x # zs \<and> P x \<and> (\<forall>y\<in>set ys. \<not> P y)" by auto
    with False show ?thesis by (intro exI [of _ "a # ys"] exI [of _ zs]) auto
  qed
qed simp

lemma split_at_unique:
  assumes "ys @ x # zs = ys' @ x # zs'" "x \<notin> set ys'" "x \<notin> set zs'"
  shows "ys = ys' \<and> zs = zs'"
  using assms by (auto simp: append_eq_append_conv2 Cons_eq_append_conv append_eq_Cons_conv)

lemma block_edit_None: "block_edit today bid content = None \<longleftrightarrow> (\<forall>w\<in>set (words_of (textOf content)). \<not> repeat_word w)"
proof -
  have "block_edit today bid content = None \<longleftrightarrow> find (\<lambda>(p, w). repeat_word w) (words_from 0 (textOf content)) = None"
    by (simp add: block_edit_def Let_def repeat_token split: option.split)
  also have "\<dots> \<longleftrightarrow> (\<forall>w\<in>set (words_of (textOf content)). \<not> repeat_word w)" by (auto simp: find_None_iff words_of_def)
  finally show ?thesis .
qed

lemma block_edit_Some:
  assumes "block_edit today bid content = Some e"
  shows "re_id e = bid \<and> (\<exists>ws1 w ws2. words_of (textOf content) = ws1 @ w # ws2 \<and> repeat_word w \<and> (\<forall>v\<in>set ws1. \<not> repeat_word v) \<and>
    words_of (textOf (re_content e)) = ws1 @ ws2)"
proof -
  let ?t = "textOf content"
  from assms obtain p w where found: "find (\<lambda>(p, w). repeat_word w) (words_from 0 ?t) = Some (p, w)"
    and e: "re_id e = bid" "re_content e = rewrite content [cut ?t \<lparr>tk_key = KRepeat, tk_value = snd (the (key_of w)), tk_start = p, tk_end = p + length w\<rparr>]"
    by (auto simp: block_edit_def Let_def repeat_token split: option.splits)
  from find_split [OF found] obtain ys zs where ws: "words_from 0 ?t = ys @ (p, w) # zs" and w: "repeat_word w" and ys: "\<forall>y\<in>set ys. \<not> repeat_word (snd y)"
    unfolding case_prod_unfold by auto
  then have "(p, w) \<in> set (words_from 0 ?t)" by simp
  from words_at [OF this] obtain A B where ab: "?t = A @ w @ B" "p = length A" "w \<noteq> []" "\<forall>c\<in>set w. \<not> js_space c"
    "A = [] \<or> js_space (last A)" "B = [] \<or> js_space (hd B)" by auto
  note cut = cut_words [OF ab(1,3,5,6), of "\<lparr>tk_key = KRepeat, tk_value = snd (the (key_of w)), tk_start = p, tk_end = p + length w\<rparr>"]
  have kept: "words_of (textOf (re_content e)) = words_of A @ words_of B" using cut ab(2) unfolding e(2) by (subst rewrite_cut) simp_all
  have "words_from 0 ?t = words_from 0 A @ words_from (length A) (w @ B)" unfolding ab(1) using words_append [of A "w @ B" 0] ab(5) by (auto simp: apart_def)
  moreover have "words_from (length A) (w @ B) = (length A, w) # words_from (length A + length w) B"
  proof -
    obtain c v where cv: "w = c # v" using ab(3) by (cases w) auto
    have "takeWhile (\<lambda>c. \<not> js_space c) (v @ B) = v" "dropWhile (\<lambda>c. \<not> js_space c) (v @ B) = B" using ab(4,6) cv by (cases B; simp)+
    then show ?thesis using ab(4) cv by (simp add: words_word)
  qed
  moreover have "fst x < length A" if "x \<in> set (words_from 0 A)" for x
    using words_at [of "fst x" "snd x" 0 A] that by auto
  moreover have "length A < fst x" if "x \<in> set (words_from (length A + length w) B)" for x
    using words_at [of "fst x" "snd x" "length A + length w" B] that ab(3) by fastforce
  ultimately have "ys = words_from 0 A \<and> zs = words_from (length A + length w) B"
    using ws ab(2) split_at_unique [of ys "(p, w)" zs "words_from 0 A" "words_from (length A + length w) B"] by fastforce
  then have "words_of ?t = words_of A @ w # words_of B" "words_of A = map snd ys"
    using ws words_shift [of "length A + length w" B 0] by (simp_all add: words_of_def)
  then show ?thesis using e(1) kept w ys by (intro conjI exI [of _ "words_of A"] exI [of _ w] exI [of _ "words_of B"]) auto
qed

fun subblocks :: "task_block \<Rightarrow> task_block list" where
  "subblocks (Block i ty checked content children) = Block i ty checked content children # concat (map subblocks children)"

lemma visit_edits: "e \<in> set (visit today depth b) \<Longrightarrow> \<exists>b'\<in>set (subblocks b). e \<in> set (own_edits today b')"
proof (induction today depth b rule: visit.induct)
  case (1 today depth i ty checked content children)
  from "1.prems" consider "e \<in> set (own_edits today (Block i ty checked content children))"
    | c where "\<not> MAX_DEPTH < depth" "c \<in> set children" "e \<in> set (visit today (Suc depth) c)" by (auto split: if_splits)
  then show ?case
  proof cases
    case 2
    from "1.IH" [OF 2] show ?thesis using 2(2) by fastforce
  qed simp
qed

lemma own_edits_cases:
  "bl_id b = None \<Longrightarrow> own_edits today b = []"
  "bl_id b = Some i \<Longrightarrow> bl_content b = None \<Longrightarrow> own_edits today b = []"
  "bl_id b = Some i \<Longrightarrow> bl_content b = Some content \<Longrightarrow> own_edits today b =
     (if bl_type b = ''checkListItem'' \<and> bl_checked b \<and> i \<noteq> [] then (case block_edit today i content of None \<Rightarrow> [] | Some e \<Rightarrow> [e]) else [])"
  by (simp_all add: own_edits_def)

lemma own_edit:
  assumes "e \<in> set (own_edits today b)"
  shows "\<exists>i content. bl_id b = Some i \<and> bl_content b = Some content \<and> bl_type b = ''checkListItem'' \<and> bl_checked b \<and> block_edit today i content = Some e"
proof -
  have some: "own_edits today b \<noteq> []" using assms by (metis list.set(1) empty_iff)
  then obtain i where i: "bl_id b = Some i" using own_edits_cases(1) by blast
  then obtain content where c: "bl_content b = Some content" using some own_edits_cases(2) by blast
  note own = own_edits_cases(3) [OF i c, of today]
  have item: "bl_type b = ''checkListItem'' \<and> bl_checked b \<and> i \<noteq> []" using own some by (metis (full_types))
  then have eq: "own_edits today b = (case block_edit today i content of None \<Rightarrow> [] | Some e \<Rightarrow> [e])" using own by (simp only: if_True simp_thms)
  have "block_edit today i content = Some e" using assms unfolding eq by (cases "block_edit today i content") auto
  with i c item show ?thesis by blast
qed

section \<open>Properties\<close>

text \<open>Every edit the recurrence pass makes belongs to a checked checklist item of the page; the completed item keeps all its words in order
  but one, its first repetition word, so the number of repetition words falls by exactly one with each pass.\<close>

lemma recurrence_takes_one_word:
  assumes "e \<in> set (recurrenceEdits blocks today)"
  shows "\<exists>b content ws1 w ws2. b \<in> set (concat (map subblocks blocks)) \<and> bl_type b = ''checkListItem'' \<and> bl_checked b \<and> bl_id b = Some (re_id e) \<and>
    bl_content b = Some content \<and> words_of (textOf content) = ws1 @ w # ws2 \<and> repeat_word w \<and> (\<forall>v\<in>set ws1. \<not> repeat_word v) \<and>
    words_of (textOf (re_content e)) = ws1 @ ws2 \<and>
    length (filter repeat_word (words_of (textOf content))) = Suc (length (filter repeat_word (words_of (textOf (re_content e)))))"
proof -
  from assms obtain b0 where "b0 \<in> set blocks" "e \<in> set (visit today 0 b0)" by (auto simp: recurrenceEdits_def)
  with visit_edits obtain b where b: "b \<in> set (concat (map subblocks blocks))" "e \<in> set (own_edits today b)" by fastforce
  from b(2) obtain i content where item: "bl_id b = Some i" "bl_content b = Some content" "bl_type b = ''checkListItem''" "bl_checked b"
    and ed: "block_edit today i content = Some e" using own_edit by blast
  from block_edit_Some [OF ed] obtain ws1 w ws2 where parts: "re_id e = i" "words_of (textOf content) = ws1 @ w # ws2" "repeat_word w" "\<forall>v\<in>set ws1. \<not> repeat_word v"
    "words_of (textOf (re_content e)) = ws1 @ ws2" by blast
  then have "length (filter repeat_word (words_of (textOf content))) = Suc (length (filter repeat_word (words_of (textOf (re_content e)))))" by simp
  with b(1) item parts show ?thesis by blast
qed

definition demo_item :: "string \<Rightarrow> task_block" where
  "demo_item s = Block (Some ''a'') ''checkListItem'' True (Some [\<lparr>in_text = Some s, in_rest = JNull\<rparr>]) []"

lemma demo_words: "words_of ''x repeat:daily repeat:weekly'' = [''x'', ''repeat:daily'', ''repeat:weekly'']"
  by (simp add: words_of_def words_word js_space_def)

lemma demo_repeats: "repeat_word ''repeat:daily''" "repeat_word ''repeat:weekly''" "\<not> repeat_word ''x''"
  by (simp_all add: repeat_word_def key_of_def strip_prefix_def parseRepeat_def units_at_def UNITS_def)

lemma demo_edit: "\<exists>e. recurrenceEdits [demo_item ''x repeat:daily repeat:weekly''] today = [e]"
proof -
  have "block_edit today ''a'' [\<lparr>in_text = Some ''x repeat:daily repeat:weekly'', in_rest = JNull\<rparr>] \<noteq> None"
    unfolding block_edit_None by (simp add: textOf_def demo_words demo_repeats)
  then show ?thesis by (auto simp: recurrenceEdits_def demo_item_def own_edits_def MAX_DEPTH_def)
qed

text \<open>So a completed item with two repetition words is found again by the next pass over its new content.\<close>

lemma second_repetition_survives:
  "\<exists>e e'. block_edit today ''a'' [\<lparr>in_text = Some ''x repeat:daily repeat:weekly'', in_rest = JNull\<rparr>] = Some e \<and> block_edit today ''a'' (re_content e) = Some e'"
proof -
  let ?c = "[\<lparr>in_text = Some ''x repeat:daily repeat:weekly'', in_rest = JNull\<rparr>]"
  have t: "words_of (textOf ?c) = [''x'', ''repeat:daily'', ''repeat:weekly'']" by (simp add: textOf_def demo_words)
  have "block_edit today ''a'' ?c \<noteq> None" unfolding block_edit_None t by (simp add: demo_repeats)
  then obtain e where e: "block_edit today ''a'' ?c = Some e" by blast
  from block_edit_Some [OF e] obtain ws1 w ws2 where "[''x'', ''repeat:daily'', ''repeat:weekly''] = ws1 @ w # ws2" "repeat_word w" "words_of (textOf (re_content e)) = ws1 @ ws2"
    unfolding t by blast
  then have "''repeat:weekly'' \<in> set (words_of (textOf (re_content e))) \<or> ''repeat:daily'' \<in> set (words_of (textOf (re_content e)))"
    by (cases ws1; cases "tl ws1"; cases "tl (tl ws1)") (auto simp: demo_repeats)
  then have "block_edit today ''a'' (re_content e) \<noteq> None" unfolding block_edit_None using demo_repeats by blast
  with e show ?thesis by blast
qed

text \<open>A name every object inherits is taken for a repetition, and its next occurrence is no date.\<close>

lemma inherited_name_repeats: "repeat_word ''repeat:constructor''" "addRepeat date Inherited = ''0NaN-NaN-NaN''" "\<not> validDate (addRepeat date Inherited)"
proof -
  show "repeat_word ''repeat:constructor''"
    by (simp add: repeat_word_def key_of_def strip_prefix_def parseRepeat_def units_at_def UNITS_def PROTOTYPE_KEYS_def)
  show out: "addRepeat date Inherited = ''0NaN-NaN-NaN''"
    by (simp add: addRepeat_def date_out_def pad_def number_text_def split: prod.split)
  show "\<not> validDate (addRepeat date Inherited)" unfolding out by (simp add: validDate_def date_match_def is_digit_def)
qed

section \<open>Dates compare as texts\<close>

lemma lex_append: "length a = length b \<Longrightarrow> (a @ c < b @ e) \<longleftrightarrow> a < b \<or> a = b \<and> c < (e :: string)"
  by (induction a b rule: list_induct2) auto

lemma digit_code: "is_digit a \<Longrightarrow> 48 \<le> (of_char a :: nat) \<and> (of_char a :: nat) \<le> 57"
  by (auto simp: is_digit_def)

lemma digit_order:
  assumes "is_digit a" "is_digit b"
  shows "(a < b \<longleftrightarrow> digit_value a < digit_value b) \<and> (a = b \<longleftrightarrow> digit_value a = digit_value b) \<and> digit_value a \<le> 9"
proof -
  have "a = b \<longleftrightarrow> (of_char a :: nat) = of_char b" by simp
  moreover have "a < b \<longleftrightarrow> (of_char a :: nat) < of_char b" by (simp add: less_char_def)
  ultimately show ?thesis using digit_code [OF assms(1)] digit_code [OF assms(2)] unfolding digit_value_def by linarith
qed

lemma read_nat_append: "read_nat (a @ b) = read_nat a * 10 ^ length b + read_nat b"
proof (induction b rule: rev_induct)
  case Nil
  show ?case by (simp add: read_nat_def)
next
  case (snoc c b)
  then show ?case by (simp add: read_nat_snoc append_assoc [symmetric] algebra_simps del: append_assoc)
qed

lemma read_nat_Cons: "read_nat (c # ds) = digit_value c * 10 ^ length ds + read_nat ds"
  using read_nat_append [of "[c]" ds] by (simp add: read_nat_def)

lemma digits_order:
  assumes "length a = length b" "list_all is_digit a" "list_all is_digit b"
  shows "(a < b \<longleftrightarrow> read_nat a < read_nat b) \<and> (a = b \<longleftrightarrow> read_nat a = read_nat b)"
  using assms
proof (induction a b rule: list_induct2)
  case (Cons x xs y ys)
  then have dig: "is_digit x" "is_digit y" and len: "length xs = length ys" by simp_all
  have low: "read_nat xs < 10 ^ length xs" "read_nat ys < 10 ^ length xs" using Cons read_nat_less [of xs] read_nat_less [of ys] by simp_all
  have mono: "a * 10 ^ length xs + p < b * 10 ^ length xs + q" if "a < b" "p < 10 ^ length xs" for a b p q :: nat
  proof -
    have "a * 10 ^ length xs + p < Suc a * 10 ^ length xs" using that(2) by simp
    also have "\<dots> \<le> b * 10 ^ length xs" using that(1) by (intro mult_right_mono) simp_all
    finally show ?thesis by simp
  qed
  consider "digit_value x < digit_value y" | "digit_value x = digit_value y" | "digit_value y < digit_value x" by linarith
  then show ?case
  proof cases
    case 1
    from mono [OF this low(1), of "read_nat ys"] len have "read_nat (x # xs) < read_nat (y # ys)" by (simp add: read_nat_Cons)
    with 1 digit_order [OF dig] show ?thesis by auto
  next
    case 2
    with Cons digit_order [OF dig] len show ?thesis by (auto simp: read_nat_Cons)
  next
    case 3
    from mono [OF this low(2), of "read_nat xs"] len have "read_nat (y # ys) < read_nat (x # xs)" by (simp add: read_nat_Cons)
    with 3 digit_order [OF dig] show ?thesis by auto
  qed
qed simp

lemma date_order:
  assumes "0 \<le> y" "y < 10000" "0 \<le> m" "m < 99" "0 \<le> d" "d < 100" "0 \<le> y'" "y' < 10000" "0 \<le> m'" "m' < 99" "0 \<le> d'" "d' < 100"
  shows "date_out (Some y) (Some m) (Some d) < date_out (Some y') (Some m') (Some d') \<longleftrightarrow> y < y' \<or> y = y' \<and> (m < m' \<or> m = m' \<and> d < d')"
proof -
  have order: "(pad (Some a) k < pad (Some b) k \<longleftrightarrow> a < b) \<and> (pad (Some a) k = pad (Some b) k \<longleftrightarrow> a = b)"
    if "0 \<le> a" "a < 10 ^ k" "0 \<le> b" "b < 10 ^ k" "0 < k" for a b :: int and k
    using digits_order [of "pad (Some a) k" "pad (Some b) k"] pad_number [OF that(1,2,5)] pad_number [OF that(3,4,5)] that(1,3) by auto
  have len: "length (pad (Some y) 4) = length (pad (Some y') 4)" "length (pad (Some (m + 1)) 2) = length (pad (Some (m' + 1)) 2)"
    using pad_number(1) [of y 4] pad_number(1) [of y' 4] pad_number(1) [of "m + 1" 2] pad_number(1) [of "m' + 1" 2] assms by simp_all
  note o = order [of y 4 y'] order [of "m + 1" 2 "m' + 1"] order [of d 2 d']
  show ?thesis
    unfolding date_out_def option.map using assms o by (simp add: lex_append [OF len(1)] lex_append [OF len(2)] add1_zle_eq)
qed

lemma months_add: "a < b \<Longrightarrow> b \<le> 12 \<Longrightarrow> sum_list (take a (month_lengths y)) + month_lengths y ! a \<le> sum_list (take b (month_lengths y))"
proof -
  assume ab: "a < b" "b \<le> 12"
  have "take b (month_lengths y) = take (Suc a) (month_lengths y) @ take (b - Suc a) (drop (Suc a) (month_lengths y))"
    using ab(1) take_add [of "Suc a" "b - Suc a" "month_lengths y"] by simp
  moreover have "0 \<le> sum_list (take (b - Suc a) (drop (Suc a) (month_lengths y)))"
    by (intro sum_list_nonneg) (auto dest!: in_set_takeD in_set_dropD month_length_range)
  moreover have "sum_list (take (Suc a) (month_lengths y)) = sum_list (take a (month_lengths y)) + month_lengths y ! a"
    using ab by (simp add: take_Suc_conv_app_nth)
  ultimately show "sum_list (take a (month_lengths y)) + month_lengths y ! a \<le> sum_list (take b (month_lengths y))" by simp
qed

lemma day_number_less:
  assumes "valid_civil y m d" "valid_civil y' m' d'" "y < y' \<or> y = y' \<and> (m < m' \<or> m = m' \<and> d < d')"
  shows "day_number y m d < day_number y' m' d'"
proof -
  have m: "0 \<le> m" "m < 12" "1 \<le> d" "d \<le> month_lengths y ! nat m" "0 \<le> m'" "m' < 12" "1 \<le> d'" using assms(1,2) by (simp_all add: valid_civil_def month_length_def)
  from assms(3) consider "y < y'" | "y = y'" "m < m'" | "y = y'" "m = m'" "d < d'" by blast
  then show ?thesis
  proof cases
    case 1
    have "year_of (day_number y m d) = y" using civil_day_number [OF assms(1)] by (auto simp: civil_def Let_def split: prod.splits)
    then have "day_number y m d < day_from_year (y + 1)" using year_of_bounds(2) [of "day_number y m d"] by simp
    also have "\<dots> \<le> day_from_year y'" using 1 by (intro day_from_year_mono) simp
    also have "\<dots> \<le> day_number y' m' d'" using valid_civil_day [OF assms(2)] by simp
    finally show ?thesis .
  next
    case 2
    with m have "nat m < nat m'" "nat m' \<le> 12" by linarith+
    from months_add [OF this, of y] 2 m show ?thesis by (simp add: day_number_def)
  next
    case 3
    with m show ?thesis by (simp add: day_number_def)
  qed
qed

lemma date_text_order:
  assumes "valid_civil y m d" "100 \<le> y" "y \<le> 9999" "valid_civil y' m' d'" "100 \<le> y'" "y' \<le> 9999"
  shows "date_out (Some y) (Some m) (Some d) < date_out (Some y') (Some m') (Some d') \<longleftrightarrow> day_number y m d < day_number y' m' d'"
    and "date_out (Some y) (Some m) (Some d) = date_out (Some y') (Some m') (Some d') \<longleftrightarrow> day_number y m d = day_number y' m' d'"
proof -
  have r: "0 \<le> m" "m < 99" "0 \<le> d" "d < 100" "0 \<le> m'" "m' < 99" "0 \<le> d'" "d' < 100"
    using assms(1,4) month_length_bounds [of m y] month_length_bounds [of m' y'] by (auto simp: valid_civil_def)
  note less = date_order [of y m d y' m' d'] and greater = date_order [of y' m' d' y m d]
  note later = day_number_less [OF assms(1,4)] day_number_less [OF assms(4,1)]
  consider "y < y' \<or> y = y' \<and> (m < m' \<or> m = m' \<and> d < d')" | "y' < y \<or> y' = y \<and> (m' < m \<or> m' = m \<and> d' < d)" | "y = y'" "m = m'" "d = d'" by linarith
  then have "(date_out (Some y) (Some m) (Some d) < date_out (Some y') (Some m') (Some d') \<longleftrightarrow> day_number y m d < day_number y' m' d') \<and>
    (date_out (Some y) (Some m) (Some d) = date_out (Some y') (Some m') (Some d') \<longleftrightarrow> day_number y m d = day_number y' m' d')"
  proof cases
    case 1
    with less later(1) r assms show ?thesis by simp
  next
    case 2
    with greater later(2) r assms have "date_out (Some y') (Some m') (Some d') < date_out (Some y) (Some m) (Some d)" "day_number y' m' d' < day_number y m d" by simp_all
    then show ?thesis by auto
  qed simp
  then show "date_out (Some y) (Some m) (Some d) < date_out (Some y') (Some m') (Some d') \<longleftrightarrow> day_number y m d < day_number y' m' d'"
    "date_out (Some y) (Some m) (Some d) = date_out (Some y') (Some m') (Some d') \<longleftrightarrow> day_number y m d = day_number y' m' d'" by simp_all
qed

lemma pad_digits: "list_all is_digit s \<Longrightarrow> length s = k \<Longrightarrow> 0 < k \<Longrightarrow> pad (Some (int (read_nat s))) k = s"
proof -
  assume s: "list_all is_digit s" "length s = k" "0 < k"
  have "int (read_nat s) < 10 ^ k" using read_nat_less [OF s(1)] s(2) by (simp flip: of_nat_less_iff)
  from pad_number [OF _ this s(3)] digits_order [of "pad (Some (int (read_nat s))) k" s] s show "pad (Some (int (read_nat s))) k = s" by simp
qed

lemma date_out_match:
  assumes "date_match s = Some (y, m + 1, d)"
  shows "s = date_out (Some y) (Some m) (Some d)"
proof -
  let ?a = "take 4 s" and ?b = "take 2 (drop 5 s)" and ?c = "drop 8 s"
  from assms have len: "length s = 10" and dash: "s ! 4 = CHR ''-''" "s ! 7 = CHR ''-''" and digits: "list_all is_digit ?a" "list_all is_digit ?b" "list_all is_digit ?c"
    and num: "y = int (read_nat ?a)" "m + 1 = int (read_nat ?b)" "d = int (read_nat ?c)"
    by (auto simp: date_match_def split: if_splits)
  have "pad (Some y) 4 = ?a" "pad (Some (m + 1)) 2 = ?b" "pad (Some d) 2 = ?c"
    unfolding num by (rule pad_digits; simp add: digits len)+
  then have "date_out (Some y) (Some m) (Some d) = ?a @ ''-'' @ ?b @ ''-'' @ ?c" by (simp add: date_out_def)
  moreover have "s = ?a @ drop 4 s" by simp
  moreover have "drop 4 s = CHR ''-'' # drop 5 s" using Cons_nth_drop_Suc [of 4 s] len dash by simp
  moreover have "drop 5 s = ?b @ drop 7 s" using append_take_drop_id [of 2 "drop 5 s"] by simp
  moreover have "drop 7 s = CHR ''-'' # ?c" using Cons_nth_drop_Suc [of 7 s] len dash by simp
  ultimately show ?thesis by (metis append_Cons append_Nil)
qed

lemma localDate_out:
  assumes "1000 \<le> y" "y \<le> 9999"
  shows "localDate (y, m, d) = date_out (Some y) (Some m) (Some d)"
proof -
  have "nat y < 10 ^ length (nat_text (nat y))" using read_nat_less [of "nat_text (nat y)"] nat_text_digits by simp
  moreover have "(10 :: nat) ^ 3 \<le> nat y" using assms(1) by simp
  ultimately have "(10 :: nat) ^ 3 < 10 ^ length (nat_text (nat y))" by (rule le_less_trans [rotated])
  then have "3 < length (nat_text (nat y))" by (rule power_less_imp_less_exp [rotated]) simp
  with assms have "pad (Some y) 4 = int_text y" by (simp add: pad_def number_text_def int_text_def)
  then show ?thesis by (simp add: localDate_def date_out_def)
qed

lemma week_ahead:
  assumes "valid_civil y m d" "1000 \<le> y" "y \<le> 9990"
  shows "\<exists>y' m' d'. addRepeat (date_out (Some y) (Some m) (Some d)) (Repeat UDay 7) = date_out (Some y') (Some m') (Some d') \<and> valid_civil y' m' d' \<and>
    100 \<le> y' \<and> y' \<le> 9999 \<and> day_number y' m' d' = day_number y m d + 7"
proof -
  have dm: "date_match (date_out (Some y) (Some m) (Some d)) = Some (y, m + 1, d)"
    using assms month_length_bounds [of m y] by (intro date_match_out) (auto simp: valid_civil_def)
  obtain y' m' d' where c: "civil (day_number y m d + 7) = (y', m', d')" by (cases "civil (day_number y m d + 7)") auto
  have "addRepeat (date_out (Some y) (Some m) (Some d)) (Repeat UDay 7) = date_out (Some y') (Some m') (Some d')"
    using assms by (intro addRepeat_days [OF date_out_valid dm _ _ _ c]) simp_all
  with later_day [OF assms(1) _ _ c] civil_valid [OF c] assms show ?thesis
    by (intro exI [of _ y'] exI [of _ m'] exI [of _ d']) auto
qed

text \<open>An item is listed by calendar days although the code compares texts: before today it is overdue, on the day today, up to seven days
  ahead upcoming, and later otherwise, for every accepted due date and every local date of the years 1000 to 9990.\<close>

lemma classified_by_day:
  assumes "td_due task = Some due" "validDate due" "date_match due = Some (y, m + 1, d)" "valid_civil yt mt dt" "1000 \<le> yt" "yt \<le> 9990"
  shows "classifyTask task (yt, mt, dt) False =
    (let k = day_number y m d - day_number yt mt dt in if k < 0 then Overdue else if k = 0 then Today else if k \<le> 7 then Upcoming else Later)"
proof -
  from validDate_civil [OF assms(3)] assms(2) have v: "valid_civil y m d" "100 \<le> y" by simp_all
  have y: "y \<le> 9999" using assms(3) read_nat_less [of "take 4 due"] by (auto simp: date_match_def split: if_splits)
  have due: "due = date_out (Some y) (Some m) (Some d)" by (rule date_out_match [OF assms(3)])
  have today: "localDate (yt, mt, dt) = date_out (Some yt) (Some mt) (Some dt)" using assms(5,6) by (intro localDate_out) simp_all
  from week_ahead [OF assms(4-6)] obtain y' m' d' where week: "addRepeat (date_out (Some yt) (Some mt) (Some dt)) (Repeat UDay 7) = date_out (Some y') (Some m') (Some d')"
    "valid_civil y' m' d'" "100 \<le> y'" "y' \<le> 9999" "day_number y' m' d' = day_number yt mt dt + 7" by blast
  have now: "due < localDate (yt, mt, dt) \<longleftrightarrow> day_number y m d < day_number yt mt dt" "due = localDate (yt, mt, dt) \<longleftrightarrow> day_number y m d = day_number yt mt dt"
    unfolding due today using date_text_order [OF v y assms(4)] assms(5,6) by simp_all
  have ahead: "due \<le> addRepeat (localDate (yt, mt, dt)) (Repeat UDay 7) \<longleftrightarrow> day_number y m d \<le> day_number yt mt dt + 7"
    unfolding due today week(1) using date_text_order [OF v y week(2-4)] week(5) by (auto simp: le_less)
  show ?thesis using assms(1) now ahead by (simp add: classifyTask_def Let_def)
qed

section \<open>Reminders\<close>

definition pending_reminder :: "string set \<Rightarrow> (string \<times> string option) \<Rightarrow> bool" where
  "pending_reminder fired entry \<longleftrightarrow> snd entry \<noteq> None \<and> snd entry \<noteq> Some [] \<and> fst entry \<notin> fired"

definition fires :: "(string \<Rightarrow> int option) \<Rightarrow> int \<Rightarrow> int \<Rightarrow> bool \<Rightarrow> (string \<times> string option) \<Rightarrow> bool" where
  "fires at now since enabled entry \<longleftrightarrow> enabled \<and> (\<exists>t. at (the (snd entry)) = Some t \<and> since < t \<and> t \<le> now)"

definition ahead :: "(string \<Rightarrow> int option) \<Rightarrow> int \<Rightarrow> (string \<times> string option) \<Rightarrow> bool" where
  "ahead at now entry \<longleftrightarrow> (\<exists>t. at (the (snd entry)) = Some t \<and> now < t)"

lemma plan_fold:
  "rp_fire (fold (plan_step at now since fired enabled) tasks plan) = rp_fire plan @ map fst (filter (\<lambda>e. pending_reminder fired e \<and> fires at now since enabled e) tasks)"
  "rp_missed (fold (plan_step at now since fired enabled) tasks plan) =
     rp_missed plan \<union> fst ` {e \<in> set tasks. pending_reminder fired e \<and> \<not> fires at now since enabled e \<and> \<not> ahead at now e}"
proof (induction tasks arbitrary: plan)
  case (Cons e tasks)
  obtain k r where e: "e = (k, r)" by (cases e)
  have step: "rp_fire (plan_step at now since fired enabled e plan) = rp_fire plan @ (if pending_reminder fired e \<and> fires at now since enabled e then [k] else [])"
    "rp_missed (plan_step at now since fired enabled e plan) =
       (if pending_reminder fired e \<and> \<not> fires at now since enabled e \<and> \<not> ahead at now e then insert k (rp_missed plan) else rp_missed plan)" for plan
    by (cases "at (the r)"; auto simp: e plan_step_def pending_reminder_def fires_def ahead_def)+
  case 1
  show ?case by (simp add: Cons.IH(1) e step(1) [unfolded e])
  case 2
  have "{e' \<in> set (e # tasks). Q e'} = (if Q e then insert e {e' \<in> set tasks. Q e'} else {e' \<in> set tasks. Q e'})" for Q by auto
  from this [of "\<lambda>e. pending_reminder fired e \<and> \<not> fires at now since enabled e \<and> \<not> ahead at now e"] show ?case
    by (simp add: Cons.IH(2) e step(2) [unfolded e])
qed simp_all

text \<open>The reminders that fire are exactly those not fired before whose time passed after the tab opened, while reminders are on, in task order;
  exactly the other passed ones (and those with an unreadable time) are missed; a reminder still ahead is neither.\<close>

lemma reminders_judged:
  "rp_fire (planReminders at tasks now since fired enabled) =
     map fst (filter (\<lambda>e. snd e \<notin> {None, Some []} \<and> fst e \<notin> fired \<and> enabled \<and> (case at (the (snd e)) of None \<Rightarrow> False | Some t \<Rightarrow> since < t \<and> t \<le> now)) tasks) \<and>
   rp_missed (planReminders at tasks now since fired enabled) =
     fst ` {e \<in> set tasks. snd e \<notin> {None, Some []} \<and> fst e \<notin> fired \<and> (case at (the (snd e)) of None \<Rightarrow> True | Some t \<Rightarrow> t \<le> now \<and> \<not> (enabled \<and> since < t))}"
proof -
  have "pending_reminder fired e \<and> fires at now since enabled e \<longleftrightarrow>
      snd e \<notin> {None, Some []} \<and> fst e \<notin> fired \<and> enabled \<and> (case at (the (snd e)) of None \<Rightarrow> False | Some t \<Rightarrow> since < t \<and> t \<le> now)" for e
    by (cases "at (the (snd e))") (auto simp: pending_reminder_def fires_def)
  moreover have "pending_reminder fired e \<and> \<not> fires at now since enabled e \<and> \<not> ahead at now e \<longleftrightarrow>
      snd e \<notin> {None, Some []} \<and> fst e \<notin> fired \<and> (case at (the (snd e)) of None \<Rightarrow> True | Some t \<Rightarrow> t \<le> now \<and> \<not> (enabled \<and> since < t))" for e
    by (cases "at (the (snd e))") (auto simp: pending_reminder_def fires_def ahead_def)
  ultimately show ?thesis by (simp only: planReminders_def plan_fold) simp
qed

end
