(* ===== verification/Reminders.thy ===== *)
theory Reminders
  imports TaskDates
begin

text \<open>
  Reminders pushed by the server (\<open>web/src/reminderPush.ts\<close>): an opaque identifier per reminder, the times an account wants, and
  what a tab sends so that the server holds them. The keyed hash is an argument, as are the local time zone and the moment. The property:
  what is sent is exactly a three-way merge of what the tab wants, what it last reconciled and what the server holds.
\<close>

section \<open>Identifiers and times\<close>

definition MAX_SERVER_REMINDERS :: nat where "MAX_SERVER_REMINDERS = 500"

definition CROCKFORD :: string where "CROCKFORD = ''0123456789abcdefghjkmnpqrstvwxyz''"

definition mac_bits :: "bytes \<Rightarrow> nat" where
  "mac_bits mac = foldl (\<lambda>bits b. bits * 256 + unat b) 0 (take 17 mac) div 64"

text \<open>The last \<open>k\<close> symbols, five bits each.\<close>

fun crockford_text :: "nat \<Rightarrow> nat \<Rightarrow> string" where
  "crockford_text 0 bits = []"
| "crockford_text (Suc k) bits = crockford_text k (bits div 32) @ [CROCKFORD ! (bits mod 32)]"

definition reminderID :: "(bytes \<Rightarrow> bytes \<Rightarrow> bytes) \<Rightarrow> bytes \<Rightarrow> string \<Rightarrow> string \<Rightarrow> string" where
  "reminderID hmac key noteID remind = crockford_text 26 (mac_bits (hmac key (encode (noteID @ [CHR 0x0A] @ remind))))"

definition iso_year :: "int \<Rightarrow> string" where
  "iso_year y = (if 0 \<le> y \<and> y \<le> 9999 then pad (Some y) 4 else (if y < 0 then ''-'' else ''+'') @ pad (Some \<bar>y\<bar>) 6)"

text \<open>\<open>toISOString\<close> down to the minute; its first sixteen characters are all that is used.\<close>

definition iso_minute :: "int \<Rightarrow> string" where
  "iso_minute ms =
     (let (y, m, d) = civil (ms div 86400000); t = ms mod 86400000 in
      iso_year y @ ''-'' @ pad (Some (m + 1)) 2 @ ''-'' @ pad (Some d) 2 @ ''T'' @ pad (Some (t div 3600000)) 2 @ '':'' @ pad (Some (t mod 3600000 div 60000)) 2)"

type_synonym time_zone = "int option \<times> int option \<times> int option \<times> int option \<times> int option \<Rightarrow> int option"

definition reminderUTC :: "time_zone \<Rightarrow> string \<Rightarrow> string result" where
  "reminderUTC zone remind =
     (case remindAt zone remind of
        None \<Rightarrow> Inl (NamedError ''RangeError'' ''Invalid time value'')
      | Some ms \<Rightarrow> Inr (take 16 (iso_minute ms) @ '':00Z''))"

section \<open>What an account wants\<close>

type_synonym server_reminder = "string \<times> string"

record push_task =
  pt_noteID :: string
  pt_remind :: "string option"
  pt_push :: bool

text \<open>An invalid time compares with nothing, so it is not skipped as past and fails when it is written out.\<close>

definition want_task :: "(bytes \<Rightarrow> bytes \<Rightarrow> bytes) \<Rightarrow> time_zone \<Rightarrow> bytes \<Rightarrow> int \<Rightarrow> push_task \<Rightarrow> server_reminder list \<Rightarrow> server_reminder list result" where
  "want_task hmac zone key now task rows =
     (case pt_remind task of
        None \<Rightarrow> Inr rows
      | Some remind \<Rightarrow>
          if \<not> pt_push task \<or> remind = [] \<or> (case remindAt zone remind of Some t \<Rightarrow> t \<le> now | None \<Rightarrow> False) then Inr rows
          else rbind (reminderUTC zone remind) (\<lambda>at. Inr (AList.update (reminderID hmac key (pt_noteID task) remind) at rows)))"

fun want_tasks :: "(bytes \<Rightarrow> bytes \<Rightarrow> bytes) \<Rightarrow> time_zone \<Rightarrow> bytes \<Rightarrow> int \<Rightarrow> push_task list \<Rightarrow> server_reminder list \<Rightarrow> server_reminder list result" where
  "want_tasks hmac zone key now [] rows = Inr rows"
| "want_tasks hmac zone key now (t # ts) rows = rbind (want_task hmac zone key now t rows) (want_tasks hmac zone key now ts)"

text \<open>On these texts, which have the same form and only digits and small letters besides, \<open>localeCompare\<close> is the order of the characters.\<close>

fun text_le :: "string \<Rightarrow> string \<Rightarrow> bool" where
  "text_le [] _ = True"
| "text_le (_ # _) [] = False"
| "text_le (a # s) (b # t) = (if a = b then text_le s t else (of_char a :: nat) < of_char b)"

definition earlier :: "server_reminder \<Rightarrow> server_reminder \<Rightarrow> bool" where
  "earlier a b = (if snd a = snd b then text_le (fst a) (fst b) else text_le (snd a) (snd b))"

definition desiredReminders :: "(bytes \<Rightarrow> bytes \<Rightarrow> bytes) \<Rightarrow> time_zone \<Rightarrow> bytes \<Rightarrow> push_task list \<Rightarrow> int \<Rightarrow> server_reminder list result" where
  "desiredReminders hmac zone key tasks now =
     rbind (want_tasks hmac zone key now tasks []) (\<lambda>rows. Inr (take MAX_SERVER_REMINDERS (sort_by earlier rows)))"

section \<open>What a tab sends\<close>

text \<open>\<open>new Map(rows)\<close>: a later row for the same identifier wins.\<close>

definition js_map :: "server_reminder list \<Rightarrow> string \<Rightarrow> string option" where
  "js_map rows = map_of (rev rows)"

definition planReconcile :: "server_reminder list \<Rightarrow> server_reminder list \<Rightarrow> bool \<Rightarrow> server_reminder list option \<Rightarrow> server_reminder list \<times> string list" where
  "planReconcile desired server complete previous =
     (if \<not> complete then ([], [])
      else
        (filter (\<lambda>(i, at). js_map server i \<noteq> Some at \<and> (case previous of None \<Rightarrow> True | Some prev \<Rightarrow> js_map prev i \<noteq> Some at)) desired,
         map fst (filter (\<lambda>(i, _). i \<notin> fst ` set desired \<and> (case previous of None \<Rightarrow> True | Some prev \<Rightarrow> js_map prev i \<noteq> None)) server)))"

section \<open>Properties\<close>

lemma crockford_text_ok: "length (crockford_text k n) = k \<and> list_all crockford (crockford_text k n)"
proof (induction k arbitrary: n)
  case (Suc k)
  have "n mod 32 < length CROCKFORD" by (simp add: CROCKFORD_def)
  then have "CROCKFORD ! (n mod 32) \<in> set CROCKFORD" by (rule nth_mem)
  then have "crockford (CROCKFORD ! (n mod 32))" by (simp add: crockford_def CROCKFORD_def)
  with Suc [of "n div 32"] show ?case by simp
qed simp

lemma crockford_digit_inj: "i < 32 \<Longrightarrow> j < 32 \<Longrightarrow> CROCKFORD ! i = CROCKFORD ! j \<Longrightarrow> i = j"
proof -
  have "distinct CROCKFORD" "length CROCKFORD = 32" by (simp_all add: CROCKFORD_def)
  then show "i < 32 \<Longrightarrow> j < 32 \<Longrightarrow> CROCKFORD ! i = CROCKFORD ! j \<Longrightarrow> i = j" by (simp add: nth_eq_iff_index_eq)
qed

text \<open>The text keeps every bit: two identifiers agree exactly when the 130 bits they are made of do.\<close>

lemma crockford_text_inj: "m < 32 ^ k \<Longrightarrow> n < 32 ^ k \<Longrightarrow> crockford_text k m = crockford_text k n \<Longrightarrow> m = n"
proof (induction k arbitrary: m n)
  case (Suc k)
  then have "m div 32 < 32 ^ k" "n div 32 < 32 ^ k" by (simp_all add: less_mult_imp_div_less)
  with Suc have "m div 32 = n div 32" "CROCKFORD ! (m mod 32) = CROCKFORD ! (n mod 32)" by auto
  then have "m div 32 = n div 32" "m mod 32 = n mod 32" using crockford_digit_inj [of "m mod 32" "n mod 32"] by auto
  then show ?case by (metis div_mult_mod_eq)
qed simp

lemma want_task_distinct: "distinct (map fst rows) \<Longrightarrow> want_task hmac zone key now t rows = Inr rows' \<Longrightarrow> distinct (map fst rows')"
  by (auto simp: want_task_def rbind_eq_Inr distinct_update split: option.splits if_splits)

lemma want_tasks_distinct: "distinct (map fst rows) \<Longrightarrow> want_tasks hmac zone key now ts rows = Inr rows' \<Longrightarrow> distinct (map fst rows')"
proof (induction ts arbitrary: rows)
  case (Cons t ts)
  then obtain mid where "want_task hmac zone key now t rows = Inr mid" "want_tasks hmac zone key now ts mid = Inr rows'"
    by (auto simp: rbind_eq_Inr)
  with Cons show ?case using want_task_distinct by blast
qed simp

lemma desired_distinct: "desiredReminders hmac zone key tasks now = Inr rows \<Longrightarrow> distinct (map fst rows) \<and> length rows \<le> MAX_SERVER_REMINDERS"
proof -
  assume "desiredReminders hmac zone key tasks now = Inr rows"
  then obtain every where every: "want_tasks hmac zone key now tasks [] = Inr every" "rows = take MAX_SERVER_REMINDERS (sort_by earlier every)"
    by (auto simp: desiredReminders_def rbind_eq_Inr)
  have "distinct (map fst every)" using want_tasks_distinct [OF _ every(1)] by simp
  moreover have "mset (map fst (sort_by earlier every)) = mset (map fst every)" by (simp only: mset_map mset_sort_by)
  ultimately have "distinct (map fst (sort_by earlier every))" using mset_eq_imp_distinct_iff by blast
  then show ?thesis by (simp add: every(2) take_map [symmetric])
qed

text \<open>The specification: on the first pass the server is to hold exactly what is wanted; later a tab changes only what changed for it since.\<close>

definition three_way :: "server_reminder list \<Rightarrow> server_reminder list option \<Rightarrow> server_reminder list \<Rightarrow> string \<Rightarrow> string option" where
  "three_way desired previous server i =
     (case previous of
        None \<Rightarrow> map_of desired i
      | Some prev \<Rightarrow> if map_of desired i = map_of prev i then map_of server i else map_of desired i)"

definition apply_plan :: "server_reminder list \<times> string list \<Rightarrow> (string \<Rightarrow> string option) \<Rightarrow> string \<Rightarrow> string option" where
  "apply_plan plan m i = (if i \<in> set (snd plan) then None else case map_of (fst plan) i of Some at \<Rightarrow> Some at | None \<Rightarrow> m i)"

lemma js_map_distinct: "distinct (map fst rows) \<Longrightarrow> js_map rows = map_of rows"
proof -
  assume d: "distinct (map fst rows)"
  then have "distinct (map fst (rev rows))" by (simp add: rev_map [symmetric])
  with d show ?thesis unfolding js_map_def by (intro map_of_eqI) (auto simp: map_of_eq_Some_iff intro!: map_of_is_SomeI [symmetric])
qed

lemma map_of_filter_distinct: "distinct (map fst rows) \<Longrightarrow> map_of (filter P rows) i = (case map_of rows i of Some v \<Rightarrow> if P (i, v) then Some v else None | None \<Rightarrow> None)"
  by (induction rows) (auto split: option.splits simp: map_of_eq_None_iff)

lemma in_dom_map_of: "i \<in> fst ` set rows \<longleftrightarrow> map_of rows i \<noteq> None"
  by (simp add: map_of_eq_None_iff)

lemma planned_delete:
  "i \<in> set (snd (planReconcile desired server True previous)) \<longleftrightarrow>
   map_of server i \<noteq> None \<and> map_of desired i = None \<and> (case previous of None \<Rightarrow> True | Some prev \<Rightarrow> js_map prev i \<noteq> None)"
proof -
  let ?Q = "\<lambda>i. i \<notin> fst ` set desired \<and> (case previous of None \<Rightarrow> True | Some prev \<Rightarrow> js_map prev i \<noteq> None)"
  have "(\<lambda>(i, _). ?Q i) = (\<lambda>x :: server_reminder. ?Q (fst x))" by (rule ext) (simp only: case_prod_beta)
  then have "snd (planReconcile desired server True previous) = map fst (filter (\<lambda>x. ?Q (fst x)) server)"
    by (simp only: planReconcile_def not_True_eq_False if_False snd_conv)
  then have "i \<in> set (snd (planReconcile desired server True previous)) \<longleftrightarrow> i \<in> fst ` set server \<and> ?Q i" by auto
  then show ?thesis by (simp only: in_dom_map_of) simp
qed

lemma planned_put:
  "distinct (map fst desired) \<Longrightarrow>
   map_of (fst (planReconcile desired server True previous)) i =
   (case map_of desired i of
      None \<Rightarrow> None
    | Some at \<Rightarrow> if js_map server i \<noteq> Some at \<and> (case previous of None \<Rightarrow> True | Some prev \<Rightarrow> js_map prev i \<noteq> Some at) then Some at else None)"
  by (cases "map_of desired i") (simp_all add: planReconcile_def map_of_filter_distinct del: map_of_eq_Some_iff)

text \<open>C40: reconciling the reminders a server holds is a three-way merge. The tab may send nothing while some notebook is not loaded. Otherwise,
  once its puts and deletes are carried out, the server holds exactly what is wanted on the first pass, and on later passes an identifier
  that is wanted now as it was at the last reconciliation is left as the server has it, even when another browser changed it, while one
  that this tab added, moved or dropped since becomes what it wants.\<close>

theorem reconcile_merges:
  assumes "distinct (map fst desired)" and "distinct (map fst server)" and "case previous of None \<Rightarrow> True | Some prev \<Rightarrow> distinct (map fst prev)"
  shows "apply_plan (planReconcile desired server complete previous) (map_of server) =
         (if complete then three_way desired previous server else map_of server)"
proof
  fix i
  show "apply_plan (planReconcile desired server complete previous) (map_of server) i =
        (if complete then three_way desired previous server else map_of server) i"
    using assms
    by (cases complete; cases previous)
      (auto simp: apply_plan_def three_way_def planned_delete planned_put js_map_distinct planReconcile_def [of _ _ False]
        simp del: map_of_eq_Some_iff Some_eq_map_of_iff split: option.splits)
qed

theorem reconcile_merges_witness:
  "apply_plan (planReconcile [(''a'', ''t1''), (''b'', ''t2'')] [(''b'', ''t9''), (''c'', ''t3''), (''d'', ''t4'')] True (Some [(''b'', ''t2''), (''c'', ''t3'')]))
     (map_of [(''b'', ''t9''), (''c'', ''t3''), (''d'', ''t4'')]) =
   three_way [(''a'', ''t1''), (''b'', ''t2'')] (Some [(''b'', ''t2''), (''c'', ''t3'')]) [(''b'', ''t9''), (''c'', ''t3''), (''d'', ''t4'')]
   \<and> planReconcile [(''a'', ''t1''), (''b'', ''t2'')] [(''b'', ''t9''), (''c'', ''t3''), (''d'', ''t4'')] True (Some [(''b'', ''t2''), (''c'', ''t3'')]) =
     ([(''a'', ''t1'')], [''c''])"
  using reconcile_merges [of "[(''a'', ''t1''), (''b'', ''t2'')]" "[(''b'', ''t9''), (''c'', ''t3''), (''d'', ''t4'')]" "Some [(''b'', ''t2''), (''c'', ''t3'')]" True]
  by (simp add: planReconcile_def js_map_def)

end
