(* ===== verification/KeyService.thy ===== *)
theory KeyService
  imports Vault
begin

text \<open>
  Sharing the keys of a team container (\<open>web/src/keyService.ts\<close>): \<open>syncContainerKeys\<close> and
  \<open>inviteWithKeys\<close>, with the interfaces \<open>KeyAPI\<close>, \<open>PinStore\<close> and \<open>InviteAPI\<close> as records of functions of
  whatever lies outside (server, local store, other tabs), exactly as the source takes them as arguments.
  The world adds to it the confirmations minted so far, the random bytes, the two mutable variables
  shared by the closures of the source (\<open>latest\<close>, \<open>carried\<close>) and a log of the calls made, which no
  definition reads. \<open>Promise.all\<close> over the members' identities runs in list order.
  A name shown to the user (\<open>displayName\<close>) is kept as the pair of user ID and user name.
  The lemmas: no write of any kind under a rollback, an envelope leaves only for this user or for a
  member whose key equals a pin that is stored, the raised floor is published before any envelope is
  read, the loop over confirmations ends, and there are at most two attempts.
\<close>

section \<open>Interfaces\<close>

record 'o key_api =
  api_container :: "string \<Rightarrow> ('o, keyed_container) io"
  api_envelopes :: "string \<Rightarrow> ('o, envelope_row list) io"
  api_members :: "string \<Rightarrow> ('o, member_key list) io"
  api_userIdentity :: "string \<Rightarrow> ('o, public_identity option) io"
  api_stepUp :: "('o, unit) io"
  api_putEnvelopes :: "string \<Rightarrow> envelope_row list \<Rightarrow> ('o, unit) io"
  api_rotate :: "string \<Rightarrow> int \<Rightarrow> envelope_row list \<Rightarrow> ('o, int) io"

text \<open>A confirmation is recognised by the list of those minted (a \<open>WeakSet\<close> in the source).\<close>

record 'o pin_store =
  st_load :: "('o, pins) io"
  st_addFresh :: "pins \<Rightarrow> ('o, pins_stored) io"
  st_confirm :: "confirmations \<Rightarrow> pin_confirmation \<Rightarrow> string \<Rightarrow> ('o, bool) io"
  st_loadKeyState :: "string \<Rightarrow> ('o, key_state) io"
  st_saveKeyState :: "string \<Rightarrow> key_state \<Rightarrow> ('o, bool) io"

record caller =
  cl_userId :: string
  cl_identity :: "held_identity option"
  cl_canWrap :: bool
  cl_recoverable :: bool

datatype key_plan =
    Planned sweep_plan
  | Untrusted "(string \<times> string) list"
  | PinsUnsaved
  | Rollback

record key_pass =
  kp_container :: keyed_container
  kp_ring :: keyring
  kp_minted :: bool
  kp_known :: key_state
  kp_plan :: key_plan
  kp_fresh :: "member_key list"
  kp_changed :: "pin_change list"
  kp_conflicts :: "int list"
  kp_members :: "member_key list"
  kp_envelopes :: "envelope_row list"
  kp_deferred :: bool

record key_sync = key_pass +
  ks_keyStateSaved :: bool

section \<open>The world of a pass\<close>

datatype key_event =
    Reported keyed_container
  | Remembered key_state
  | Floored string key_floor
  | Saving string key_state
  | ReadingEnvelopes string
  | PinsRead pins
  | PinsAdding pins
  | PinsAdded pins
  | Confirming pin_confirmation
  | PinConfirmed pin_confirmation
  | Sending string "envelope_row list"
  | Inviting string string "(envelope_row \<times> string) list"

record 'o key_world =
  k_outside :: 'o
  k_minted :: confirmations
  k_random :: "nat \<Rightarrow> bytes"
  k_drawn :: nat
  k_latest :: "(string \<times> key_state) option"
  k_carried :: "member_key list"
  k_log :: "key_event list"

definition outside :: "('o, 'a) io \<Rightarrow> ('o key_world, 'a) io" where
  "outside m w = (let (r, out) = m (k_outside w) in (r, w\<lparr>k_outside := out\<rparr>))"

definition note_event :: "key_event \<Rightarrow> ('o key_world, unit) io" where
  "note_event e w = (Inr (), w\<lparr>k_log := k_log w @ [e]\<rparr>)"

definition draw_random :: "('o key_world, bytes) io" where
  "draw_random w = (Inr (k_random w (k_drawn w)), w\<lparr>k_drawn := Suc (k_drawn w)\<rparr>)"

definition get_carried :: "('o key_world, member_key list) io" where
  "get_carried w = (Inr (k_carried w), w)"

definition push_carried :: "member_key list \<Rightarrow> ('o key_world, unit) io" where
  "push_carried ms w = (Inr (), w\<lparr>k_carried := k_carried w @ ms\<rparr>)"

definition set_latest :: "string \<Rightarrow> key_state \<Rightarrow> ('o key_world, unit) io" where
  "set_latest cid s w = (Inr (), w\<lparr>k_latest := Some (cid, s)\<rparr>)"

definition mint_confirmation :: "pins \<Rightarrow> member_key \<Rightarrow> ('o key_world, pin_confirmation) io" where
  "mint_confirmation ps member w =
     (let (r, minted) = confirmFingerprintChange ps member (k_minted w) in (r, w\<lparr>k_minted := minted\<rparr>))"

definition logged :: "('a \<Rightarrow> key_event list) \<Rightarrow> ('o key_world, 'a) io \<Rightarrow> ('o key_world, 'a) io" where
  "logged es m w = (case m w of (Inr x, w') \<Rightarrow> (Inr x, w'\<lparr>k_log := k_log w' @ es x\<rparr>) | (Inl e, w') \<Rightarrow> (Inl e, w'))"

section \<open>One pass\<close>

record 'o sync_env =
  x_lib :: lib
  x_api :: "'o key_api"
  x_containerID :: string
  x_caller :: caller
  x_store :: "'o pin_store"
  x_confirmChanged :: "pin_change list \<Rightarrow> ('o, bool) io"
  x_held :: keyring
  x_onFloor :: "string \<Rightarrow> key_floor \<Rightarrow> 'o \<Rightarrow> 'o"

definition me_of :: "caller \<Rightarrow> me option" where
  "me_of caller = map_option (\<lambda>i. \<lparr>publicKey = publicKey i, privateKey = privateKey i, deviceId = deviceId i,
     me_userId = cl_userId caller\<rparr>) (cl_identity caller)"

definition own_identity :: "caller \<Rightarrow> public_identity option" where
  "own_identity caller = map_option (\<lambda>i. \<lparr>idn_device = deviceId i, idn_key = base64 (publicKey i)\<rparr>) (cl_identity caller)"

definition uniqueBy :: "('a \<Rightarrow> string) \<Rightarrow> 'a list \<Rightarrow> 'a list" where
  "uniqueBy f items = map (\<lambda>i. items ! i) (filter (\<lambda>i. \<forall>j < i. f (items ! j) \<noteq> f (items ! i)) [0..<length items])"

definition shown_name :: "member_key \<Rightarrow> string \<times> string" where
  "shown_name member = (userId member, username member)"

definition load_pins :: "'o sync_env \<Rightarrow> ('o key_world, pins) io" where
  "load_pins x = logged (\<lambda>ps. [PinsRead ps]) (outside (st_load (x_store x)))"

definition add_fresh :: "'o sync_env \<Rightarrow> pins \<Rightarrow> ('o key_world, pins_stored) io" where
  "add_fresh x ps = bind_io (note_event (PinsAdding ps)) (\<lambda>_.
     logged (\<lambda>r. if r = PinsOk then [PinsAdded ps] else []) (outside (st_addFresh (x_store x) ps)))"

definition confirm_pin :: "'o sync_env \<Rightarrow> pin_confirmation \<Rightarrow> string \<Rightarrow> ('o key_world, bool) io" where
  "confirm_pin x c expected = bind_io (note_event (Confirming c)) (\<lambda>_.
     logged (\<lambda>ok. if ok then [PinConfirmed c] else []) (\<lambda>w. outside (st_confirm (x_store x) (k_minted w) c expected) w))"

definition save_state :: "'o sync_env \<Rightarrow> string \<Rightarrow> key_state \<Rightarrow> ('o key_world, bool) io" where
  "save_state x cid s = bind_io (note_event (Saving cid s)) (\<lambda>_.
     catch_io (outside (st_saveKeyState (x_store x) cid s)) (\<lambda>_. ret False))"

definition on_floor :: "'o sync_env \<Rightarrow> string \<Rightarrow> key_floor \<Rightarrow> ('o key_world, unit) io" where
  "on_floor x cid f = bind_io (note_event (Floored cid f)) (\<lambda>_. \<lambda>w. (Inr (), w\<lparr>k_outside := x_onFloor x cid f (k_outside w)\<rparr>))"

fun read_identities :: "'o sync_env \<Rightarrow> member_key list \<Rightarrow> ('o key_world, member_key list) io" where
  "read_identities x [] = ret []"
| "read_identities x (member # ms) =
     bind_io (if userId member = cl_userId (x_caller x) \<and> own_identity (x_caller x) \<noteq> None
              then ret (own_identity (x_caller x)) else outside (api_userIdentity (x_api x) (userId member))) (\<lambda>i.
     bind_io (read_identities x ms) (\<lambda>rest. ret (member\<lparr>m_identity := i\<rparr> # rest)))"

text \<open>What a pass has read and keeps: the container as reported, the raised key memory, the envelopes and the members.\<close>

record pass_ctx =
  px_container :: keyed_container
  px_known :: key_state
  px_envelopes :: "envelope_row list"
  px_members :: "member_key list"

definition open_ring :: "'o sync_env \<Rightarrow> pass_ctx \<Rightarrow> pins \<Rightarrow> envelope_row list \<Rightarrow> keyring option \<Rightarrow> opened_keyring" where
  "open_ring x c ps rows ring =
     openKeyring (x_lib x) \<lparr>i_containerID = c_id (px_container c), i_envelopes = rows, i_me = me_of (x_caller x),
       i_members = px_members c, i_pins = ps, i_known = px_known c,
       i_held = (case ring of Some r \<Rightarrow> r | None \<Rightarrow> x_held x)\<rparr>"

definition trusted :: "keyed_container \<Rightarrow> opened_keyring \<Rightarrow> ('o key_world, opened_keyring) io" where
  "trusted container opened =
     bind_io (set_latest (c_id container) (raiseFloor (ok_known opened) container)) (\<lambda>_. ret opened)"

definition persistedOnly :: "'o sync_env \<Rightarrow> pass_ctx \<Rightarrow> ('o key_world, opened_keyring) io" where
  "persistedOnly x c =
     bind_io (load_pins x) (\<lambda>stored.
       let again = open_ring x c stored (px_envelopes c) None in
       if ok_fresh again = [] then trusted (px_container c) again
       else bind_io (set_latest (c_id (px_container c)) (px_known c)) (\<lambda>_.
         ret ((open_ring x c stored [] None)\<lparr>ok_known := px_known c\<rparr>)))"

definition pinFailure :: "pass_ctx \<Rightarrow> pins_stored \<Rightarrow> key_plan option" where
  "pinFailure c stored =
     (case stored of
        PinsOk \<Rightarrow> None
      | PinsRefused [] \<Rightarrow> Some PinsUnsaved
      | PinsRefused conflicts \<Rightarrow>
          Some (Untrusted (map shown_name (filter (\<lambda>member. userId member \<in> set conflicts) (px_members c)))))"

text \<open>The plan and whether it is deferred to a session that may wrap.\<close>

definition plan_work :: "'o sync_env \<Rightarrow> pass_ctx \<Rightarrow> keyed_container \<Rightarrow> opened_keyring \<Rightarrow> envelope_row list \<Rightarrow> sweep_plan" where
  "plan_work x c container opened rows =
     (case planSweep container (cl_userId (x_caller x)) (px_members c) rows (ok_ring opened) (cl_recoverable (x_caller x)) of
        SweepWrap grants \<Rightarrow>
          let kept = filter (\<lambda>(m, g). g \<notin> set (ok_conflicts opened)) grants in
          if kept \<noteq> [] then SweepWrap kept else SweepIdle
      | next \<Rightarrow> next)"

definition plan_sweep :: "'o sync_env \<Rightarrow> pass_ctx \<Rightarrow> keyed_container \<Rightarrow> opened_keyring \<Rightarrow> envelope_row list \<Rightarrow> sweep_plan \<times> bool" where
  "plan_sweep x c container opened rows =
     (if me_of (x_caller x) = None then (SweepIdle, False)
      else let work = plan_work x c container opened rows;
               writes = (case work of SweepMint _ \<Rightarrow> True | SweepWrap _ \<Rightarrow> True | _ \<Rightarrow> False) in
        (if cl_canWrap (x_caller x) \<or> work = SweepUnrecoverable then work else SweepIdle,
         \<not> cl_canWrap (x_caller x) \<and> writes))"

definition targets :: "'o sync_env \<Rightarrow> sweep_plan \<Rightarrow> member_key list" where
  "targets x next =
     filter (\<lambda>member. userId member \<noteq> cl_userId (x_caller x))
       (case next of SweepMint recipients \<Rightarrow> recipients | SweepWrap grants \<Rightarrow> map fst grants | _ \<Rightarrow> [])"

text \<open>The variables of a pass that its closures share and change.\<close>

record pass_vars =
  v_container :: keyed_container
  v_changed :: "pin_change list"
  v_seen :: "envelope_row list"
  v_deferred :: bool

definition pass_result ::
  "pass_ctx \<Rightarrow> pass_vars \<Rightarrow> keyring \<Rightarrow> key_plan \<Rightarrow> bool \<Rightarrow> member_key list \<Rightarrow> opened_keyring \<Rightarrow> ('o key_world, key_pass) io" where
  "pass_result c v ring plan minted fresh last_opened =
     bind_io get_carried (\<lambda>carried.
       ret \<lparr>kp_container = v_container v, kp_ring = ring, kp_minted = minted,
            kp_known = raiseFloor (ok_known last_opened) (v_container v), kp_plan = plan,
            kp_fresh = uniqueBy userId (carried @ fresh), kp_changed = v_changed v, kp_conflicts = ok_conflicts last_opened,
            kp_members = px_members c, kp_envelopes = v_seen v, kp_deferred = v_deferred v\<rparr>)"

definition stopped :: "'o sync_env \<Rightarrow> pass_ctx \<Rightarrow> pass_vars \<Rightarrow> key_plan \<Rightarrow> member_key list \<Rightarrow> ('o key_world, key_pass) io" where
  "stopped x c v plan fresh =
     bind_io (persistedOnly x c) (\<lambda>safe. pass_result c (v\<lparr>v_deferred := False\<rparr>) (ok_ring safe) plan False fresh safe)"

text \<open>Stores the confirmation of every pending change; \<open>None\<close> when one was not kept.\<close>

fun confirm_all :: "'o sync_env \<Rightarrow> pin_change list \<Rightarrow> pins \<Rightarrow> ('o key_world, pins option) io" where
  "confirm_all x [] ps = ret (Some ps)"
| "confirm_all x (change # changes) ps =
     bind_io (mint_confirmation ps (pc_member change)) (\<lambda>confirmation.
     bind_io (confirm_pin x confirmation (pc_pinned change)) (\<lambda>ok.
       if \<not> ok then ret None else confirm_all x changes (pf_pins confirmation)))"

definition pending_changes :: "'o sync_env \<Rightarrow> pins \<Rightarrow> opened_keyring \<Rightarrow> sweep_plan \<Rightarrow> pin_change list" where
  "pending_changes x ps opened sweep =
     uniqueBy (\<lambda>change. userId (pc_member change)) (ok_changed opened @ snd (comparePins ps (targets x sweep)))"

datatype settled =
    Settled pins opened_keyring sweep_plan pass_vars
  | Stopped key_pass
  | OutOfFuel

text \<open>The loop \<open>for (;;)\<close> over changed keys; it ends, and \<open>length members\<close> rounds are enough, when no user is listed twice.\<close>

fun settle_changes ::
  "nat \<Rightarrow> 'o sync_env \<Rightarrow> pass_ctx \<Rightarrow> pins \<Rightarrow> opened_keyring \<Rightarrow> sweep_plan \<Rightarrow> pass_vars \<Rightarrow> ('o key_world, settled) io" where
  "settle_changes fuel x c ps opened sweep v =
     (let waiting = pending_changes x ps opened sweep in
      if waiting = [] then ret (Settled ps opened sweep v)
      else case fuel of
        0 \<Rightarrow> ret OutOfFuel
      | Suc n \<Rightarrow>
          let v1 = v\<lparr>v_changed := v_changed v @ waiting\<rparr> in
          bind_io (outside (x_confirmChanged x waiting)) (\<lambda>yes.
            if \<not> yes then bind_io (stopped x c v1 (Untrusted (map (\<lambda>change. shown_name (pc_member change)) waiting)) []) (\<lambda>r. ret (Stopped r))
            else bind_io (confirm_all x waiting ps) (\<lambda>kept.
              case kept of
                None \<Rightarrow> bind_io (stopped x c v1 PinsUnsaved []) (\<lambda>r. ret (Stopped r))
              | Some ps' \<Rightarrow>
                  let opened' = open_ring x c ps' (px_envelopes c) None;
                      (sweep', deferred) = plan_sweep x c (v_container v1) opened' (px_envelopes c) in
                  settle_changes n x c ps' opened' sweep' (v1\<lparr>v_deferred := deferred\<rparr>))))"

declare settle_changes.simps [simp del]

text \<open>Seals one at a time: each seal sees the pins the one before it added.\<close>

fun sealAll ::
  "'o sync_env \<Rightarrow> string \<Rightarrow> me \<Rightarrow> (member_key \<times> int \<times> bytes option) list \<Rightarrow> pins \<Rightarrow> member_key list \<Rightarrow> envelope_row list
    \<Rightarrow> ('o key_world, envelope_row list \<times> pins \<times> member_key list) io" where
  "sealAll x cid me [] ps fresh out = ret (out, ps, fresh)"
| "sealAll x cid me ((member, g, key) # grants) ps fresh out =
     bind_io draw_random (\<lambda>seed.
     bind_io (lift_result (case key of None \<Rightarrow> Inl TypeError | Some k \<Rightarrow> sealFor (x_lib x) seed member cid g k me ps)) (\<lambda>(row, ps', more_fresh).
       sealAll x cid me grants ps' (fresh @ more_fresh) (out @ [row])))"

definition grants_with :: "keyring \<Rightarrow> (member_key \<times> int) list \<Rightarrow> (member_key \<times> int \<times> bytes option) list" where
  "grants_with ring grants = map (\<lambda>(member, g). (member, g, map_of ring g)) grants"

text \<open>Rows for older generations, sent best effort once every new pin is stored.\<close>

definition offer_history ::
  "'o sync_env \<Rightarrow> pass_ctx \<Rightarrow> pass_vars \<Rightarrow> nat \<Rightarrow> envelope_row list \<times> pins \<times> member_key list
    \<Rightarrow> ('o key_world, pass_vars \<times> member_key list) io" where
  "offer_history x c v before sealed =
     (let (wrapped, ps, fresh) = sealed in
      bind_io (if length fresh > before then bind_io (add_fresh x ps) (\<lambda>r. ret (pinFailure c r)) else ret None) (\<lambda>unstored.
        if unstored \<noteq> None then ret (v, fresh)
        else catch_io
          (bind_io (outside (api_stepUp (x_api x))) (\<lambda>_.
           bind_io (note_event (Sending (c_id (px_container c)) wrapped)) (\<lambda>_.
           bind_io (outside (api_putEnvelopes (x_api x) (c_id (px_container c)) wrapped)) (\<lambda>_.
             ret (v\<lparr>v_seen := v_seen v @ wrapped\<rparr>, fresh)))))
          (\<lambda>_. ret (v, fresh))))"

text \<open>The second plan of a pass that minted: older generations for members that miss them.\<close>

definition wrap_history ::
  "'o sync_env \<Rightarrow> pass_ctx \<Rightarrow> me \<Rightarrow> pass_vars \<Rightarrow> pins \<Rightarrow> opened_keyring \<Rightarrow> member_key list
    \<Rightarrow> ('o key_world, pass_vars \<times> member_key list) io" where
  "wrap_history x c me v ps after fresh =
     (let (history, deferred) = plan_sweep x c (v_container v) after (v_seen v); v1 = v\<lparr>v_deferred := deferred\<rparr> in
      case history of
        SweepWrap grants \<Rightarrow>
          if snd (comparePins ps (targets x history)) \<noteq> [] then ret (v1, fresh)
          else bind_io (sealAll x (c_id (px_container c)) me (grants_with (ok_ring after) grants) ps fresh [])
            (offer_history x c v1 (length fresh))
      | _ \<Rightarrow> ret (v1, fresh))"

datatype attempt_outcome = Done key_pass | Retry | NoFuel

definition send_rows ::
  "'o sync_env \<Rightarrow> pass_ctx \<Rightarrow> pass_vars \<Rightarrow> sweep_plan \<Rightarrow> envelope_row list \<Rightarrow> ('o key_world, keyed_container) io" where
  "send_rows x c v sweep rows =
     bind_io (outside (api_stepUp (x_api x))) (\<lambda>_.
     bind_io (note_event (Sending (c_id (px_container c)) rows)) (\<lambda>_.
       case sweep of
         SweepMint _ \<Rightarrow>
           bind_io (outside (api_rotate (x_api x) (c_id (v_container v)) (keyGeneration (v_container v)) rows)) (\<lambda>rotated.
             let container = (v_container v)\<lparr>keyGeneration := rotated,
                   sharedGeneration := (if sharedGeneration (v_container v) = 0 then rotated else sharedGeneration (v_container v))\<rparr> in
             bind_io (\<lambda>w. case k_latest w of
                 Some (cid, known) \<Rightarrow> set_latest (c_id container) (raiseFloor known container) w
               | None \<Rightarrow> (Inl TypeError, w)) (\<lambda>_.
             bind_io (on_floor x (c_id container) \<lparr>shared = Some (sharedGeneration container), generation = Some (keyGeneration container)\<rparr>) (\<lambda>_.
               ret container)))
       | _ \<Rightarrow> bind_io (outside (api_putEnvelopes (x_api x) (c_id (v_container v)) rows)) (\<lambda>_. ret (v_container v))))"

definition finish_write ::
  "'o sync_env \<Rightarrow> pass_ctx \<Rightarrow> me \<Rightarrow> nat \<Rightarrow> pass_vars \<Rightarrow> pins \<Rightarrow> opened_keyring \<Rightarrow> sweep_plan \<Rightarrow> envelope_row list \<Rightarrow> member_key list
    \<Rightarrow> ('o key_world, attempt_outcome) io" where
  "finish_write x c me attempt v ps opened sweep rows fresh =
     bind_io (catch_io (bind_io (send_rows x c v sweep rows) (\<lambda>container. ret (Some container)))
       (\<lambda>e. if err_code e \<noteq> Some ''already_exists'' \<or> attempt > 0 then throw e
            else bind_io (push_carried fresh) (\<lambda>_. ret None))) (\<lambda>sent.
     case sent of
       None \<Rightarrow> ret Retry
     | Some container \<Rightarrow>
         let v1 = v\<lparr>v_container := container, v_seen := px_envelopes c @ rows\<rparr> in
         (case sweep of
            SweepWrap _ \<Rightarrow> bind_io (pass_result c v1 (ok_ring opened) (Planned sweep) False fresh opened) (\<lambda>r. ret (Done r))
          | _ \<Rightarrow>
              bind_io (trusted container (open_ring x c ps (v_seen v1) (Some (ok_ring opened)))) (\<lambda>after.
              bind_io (wrap_history x c me v1 ps after fresh) (\<lambda>(v2, fresh').
              bind_io (pass_result c v2 (ok_ring after) (Planned sweep) True fresh' after) (\<lambda>r. ret (Done r))))))"

text \<open>Seals everything first, so that every recipient's pin is stored before anything leaves.\<close>

definition write_sweep ::
  "'o sync_env \<Rightarrow> pass_ctx \<Rightarrow> me \<Rightarrow> nat \<Rightarrow> pass_vars \<Rightarrow> opened_keyring \<Rightarrow> sweep_plan \<Rightarrow> ('o key_world, attempt_outcome) io" where
  "write_sweep x c me attempt v opened sweep =
     bind_io (case sweep of
         SweepMint recipients \<Rightarrow>
           bind_io draw_random (\<lambda>bs. bind_io (lift_result (newContainerKey bs)) (\<lambda>key.
             sealAll x (c_id (px_container c)) me (map (\<lambda>member. (member, keyGeneration (v_container v) + 1, Some key)) recipients)
               (ok_pins opened) (ok_fresh opened) []))
       | SweepWrap grants \<Rightarrow> sealAll x (c_id (px_container c)) me (grants_with (ok_ring opened) grants) (ok_pins opened) (ok_fresh opened) []
       | _ \<Rightarrow> throw TypeError) (\<lambda>(rows, ps, fresh).
     bind_io (if length fresh > length (ok_fresh opened) then bind_io (add_fresh x ps) (\<lambda>r. ret (pinFailure c r)) else ret None) (\<lambda>sealedFor.
       case sealedFor of
         Some plan \<Rightarrow> bind_io (stopped x c v plan (ok_fresh opened)) (\<lambda>r. ret (Done r))
       | None \<Rightarrow> finish_write x c me attempt v ps opened sweep rows fresh))"

text \<open>After the changed keys are settled.\<close>

definition after_settled ::
  "'o sync_env \<Rightarrow> pass_ctx \<Rightarrow> nat \<Rightarrow> opened_keyring \<Rightarrow> sweep_plan \<Rightarrow> pass_vars \<Rightarrow> ('o key_world, attempt_outcome) io" where
  "after_settled x c attempt opened sweep v =
     bind_io (if ok_fresh opened \<noteq> [] then bind_io (add_fresh x (ok_pins opened)) (\<lambda>r. ret (pinFailure c r)) else ret None) (\<lambda>firstContact.
       case firstContact of
         Some plan \<Rightarrow> bind_io (stopped x c v plan []) (\<lambda>r. ret (Done r))
       | None \<Rightarrow>
           bind_io (trusted (v_container v) opened) (\<lambda>_.
             case (sweep, me_of (x_caller x)) of
               (SweepMint _, Some me) \<Rightarrow> write_sweep x c me attempt v opened sweep
             | (SweepWrap _, Some me) \<Rightarrow> write_sweep x c me attempt v opened sweep
             | _ \<Rightarrow> bind_io (pass_result c v (ok_ring opened) (Planned sweep) False (ok_fresh opened) opened) (\<lambda>r. ret (Done r))))"

text \<open>A pass against a server that reports an older state only reads.\<close>

definition rollback_pass :: "'o sync_env \<Rightarrow> pass_ctx \<Rightarrow> opened_keyring \<Rightarrow> ('o key_world, attempt_outcome) io" where
  "rollback_pass x c opened =
     bind_io (if ok_fresh opened \<noteq> [] then persistedOnly x c else trusted (px_container c) opened) (\<lambda>safe.
       ret (Done \<lparr>kp_container = px_container c, kp_ring = ok_ring safe, kp_minted = False,
         kp_known = raiseFloor (ok_known safe) (px_container c), kp_plan = Rollback, kp_fresh = [], kp_changed = [],
         kp_conflicts = ok_conflicts safe, kp_members = px_members c, kp_envelopes = px_envelopes c, kp_deferred = False\<rparr>))"

definition pass_rest :: "'o sync_env \<Rightarrow> pass_ctx \<Rightarrow> bool \<Rightarrow> nat \<Rightarrow> ('o key_world, attempt_outcome) io" where
  "pass_rest x c rollback attempt =
     bind_io (load_pins x) (\<lambda>ps.
       let opened = open_ring x c ps (px_envelopes c) None in
       if rollback then rollback_pass x c opened
       else let (sweep, deferred) = plan_sweep x c (px_container c) opened (px_envelopes c);
                v = \<lparr>v_container = px_container c, v_changed = [], v_seen = px_envelopes c, v_deferred = deferred\<rparr> in
         bind_io (settle_changes (length (px_members c)) x c ps opened sweep v) (\<lambda>s.
           case s of
             OutOfFuel \<Rightarrow> ret NoFuel
           | Stopped r \<Rightarrow> ret (Done r)
           | Settled ps' opened' sweep' v' \<Rightarrow> after_settled x c attempt opened' sweep' v'))"

definition key_pass_once :: "'o sync_env \<Rightarrow> nat \<Rightarrow> ('o key_world, attempt_outcome) io" where
  "key_pass_once x attempt =
     bind_io (logged (\<lambda>c. [Reported c]) (outside (api_container (x_api x) (x_containerID x)))) (\<lambda>container.
     bind_io (logged (\<lambda>s. [Remembered s]) (outside (st_loadKeyState (x_store x) (c_id container)))) (\<lambda>prior.
       let rollback = snd (guardContainer container prior); known = raiseFloor prior container in
       bind_io (on_floor x (c_id container) \<lparr>shared = shared known, generation = generation known\<rparr>) (\<lambda>_.
       bind_io (if shared known \<noteq> shared prior \<or> generation known \<noteq> generation prior
                then save_state x (c_id container) known else ret False) (\<lambda>_.
       bind_io (note_event (ReadingEnvelopes (c_id container))) (\<lambda>_.
       bind_io (outside (api_envelopes (x_api x) (c_id container))) (\<lambda>envelopes.
       bind_io (outside (api_members (x_api x) (c_id container))) (\<lambda>listed.
       bind_io (read_identities x listed) (\<lambda>members.
         pass_rest x \<lparr>px_container = container, px_known = known, px_envelopes = envelopes, px_members = members\<rparr> rollback attempt))))))))"

section \<open>The retry loop\<close>

definition reset_latest :: "('o key_world, unit) io" where
  "reset_latest w = (Inr (), w\<lparr>k_latest := None\<rparr>)"

definition save_latest :: "'o sync_env \<Rightarrow> ('o key_world, bool) io" where
  "save_latest x w = (case k_latest w of None \<Rightarrow> (Inr False, w) | Some (cid, known) \<Rightarrow> save_state x cid known w)"

text \<open>\<open>finally\<close>: the key memory of the newest keyring is saved also when the pass throws, and a failing save never hides that error.\<close>

definition key_attempt :: "'o sync_env \<Rightarrow> nat \<Rightarrow> ('o key_world, attempt_outcome \<times> bool) io" where
  "key_attempt x attempt =
     bind_io reset_latest (\<lambda>_.
     bind_io (catch_io (key_pass_once x attempt) (\<lambda>e. bind_io (save_latest x) (\<lambda>_. throw e))) (\<lambda>outcome.
     bind_io (save_latest x) (\<lambda>kept. ret (outcome, kept))))"

text \<open>Only attempt 0 answers \<open>Retry\<close>, so the loop runs at most twice; the last branch is unreachable.\<close>

definition syncContainerKeys :: "'o sync_env \<Rightarrow> ('o key_world, key_pass \<times> bool) io" where
  "syncContainerKeys x =
     bind_io (key_attempt x 0) (\<lambda>(first, kept).
       case first of
         Done r \<Rightarrow> ret (r, kept)
       | NoFuel \<Rightarrow> throw (Error ''endless confirmation'')
       | Retry \<Rightarrow>
           bind_io (key_attempt x 1) (\<lambda>(second, kept').
             case second of
               Done r \<Rightarrow> ret (r, kept')
             | NoFuel \<Rightarrow> throw (Error ''endless confirmation'')
             | Retry \<Rightarrow> throw TypeError))"

section \<open>Invitations\<close>

record ('o, 'i) invite_api =
  ia_userIdentity :: "string \<Rightarrow> ('o, public_identity option) io"
  ia_stepUp :: "('o, unit) io"
  ia_invite :: "string \<Rightarrow> string \<Rightarrow> string \<Rightarrow> (envelope_row \<times> string) list \<Rightarrow> ('o, 'i) io"

datatype invite_keys = ISealed | ICannotWrap | IRollback | INoKeys | INoIdentity | IInvalidIdentity | IUntrusted | IPinsUnsaved | IMoved

record 'i invited =
  iv_invitation :: 'i
  iv_keys :: invite_keys
  iv_recipient :: "member_key option"

record invite_target =
  it_container :: keyed_container
  it_ring :: keyring
  it_floor :: "key_floor option"

definition send_invite ::
  "('o, 'i) invite_api \<Rightarrow> invite_target \<Rightarrow> member_key \<Rightarrow> (envelope_row \<times> string) list \<Rightarrow> invite_keys \<Rightarrow> member_key option
    \<Rightarrow> ('o key_world, 'i invited) io" where
  "send_invite api target invitee rows keys recipient =
     bind_io (note_event (Inviting (c_id (it_container target)) (userId invitee) rows)) (\<lambda>_.
     bind_io (outside (ia_invite api (c_id (it_container target)) (userId invitee) (role invitee) rows)) (\<lambda>i.
       ret \<lparr>iv_invitation = i, iv_keys = keys, iv_recipient = recipient\<rparr>))"

text \<open>The invitee's pin: unchanged, confirmed, or the reason no key is sent.\<close>

definition invite_pins :: "'o sync_env \<Rightarrow> member_key \<Rightarrow> ('o key_world, invite_keys + pins) io" where
  "invite_pins x member =
     bind_io (load_pins x) (\<lambda>ps.
       case snd (comparePins ps [member]) of
         [] \<Rightarrow> ret (Inr ps)
       | change # changed \<Rightarrow>
           bind_io (outside (x_confirmChanged x (change # changed))) (\<lambda>yes.
             if \<not> yes then ret (Inl IUntrusted)
             else bind_io (mint_confirmation ps member) (\<lambda>confirmation.
               bind_io (confirm_pin x confirmation (pc_pinned change)) (\<lambda>ok.
                 ret (if ok then Inr (pf_pins confirmation) else Inl IPinsUnsaved)))))"

definition invite_sealed ::
  "('o, 'i) invite_api \<Rightarrow> 'o sync_env \<Rightarrow> invite_target \<Rightarrow> member_key \<Rightarrow> public_identity \<Rightarrow> me \<Rightarrow> bytes \<Rightarrow> pins \<Rightarrow> ('o key_world, 'i invited) io" where
  "invite_sealed api x target member identity me key ps =
     (let cid = c_id (it_container target); plain = (\<lambda>why. send_invite api target member [] why None) in
      bind_io draw_random (\<lambda>seed.
      bind_io (lift_result (sealFor (x_lib x) seed member cid (keyGeneration (it_container target)) key me ps)) (\<lambda>(row, ps', fresh).
      bind_io (if fresh \<noteq> [] then add_fresh x [(userId member, idn_key identity)] else ret PinsOk) (\<lambda>stored.
        case stored of
          PinsRefused conflicts \<Rightarrow> plain (if conflicts \<noteq> [] then IUntrusted else IPinsUnsaved)
        | PinsOk \<Rightarrow>
            bind_io (outside (ia_stepUp api)) (\<lambda>_.
            catch_io (send_invite api target member [(row, cid)] ISealed (Some member)) (\<lambda>e.
              if err_code e = Some ''already_exists'' then plain IMoved
              else if err_code e = Some ''invalid_request'' then plain IInvalidIdentity
              else throw e))))))"

definition inviteWithKeys ::
  "('o, 'i) invite_api \<Rightarrow> 'o sync_env \<Rightarrow> invite_target \<Rightarrow> member_key \<Rightarrow> ('o key_world, 'i invited) io" where
  "inviteWithKeys api x target invitee =
     (let container = it_container target; caller = x_caller x;
          plain = (\<lambda>why. send_invite api target invitee [] why None) in
      case (if cl_canWrap caller then me_of caller else None, it_floor target) of
        (None, _) \<Rightarrow> plain ICannotWrap
      | (Some me, None) \<Rightarrow> plain INoKeys
      | (Some me, Some floor) \<Rightarrow>
          bind_io (logged (\<lambda>s. [Remembered s]) (outside (st_loadKeyState (x_store x) (c_id container)))) (\<lambda>state.
            if \<not> keysAllowed container (mergeFloor (Some floor) state) then plain IRollback
            else case (if sharedGeneration container > 0 then map_of (it_ring target) (keyGeneration container) else None) of
              None \<Rightarrow> plain INoKeys
            | Some key \<Rightarrow>
                if map_of (digests state) (keyGeneration container) \<noteq> Some (key_digest (x_lib x) key) then plain INoKeys
                else bind_io (outside (ia_userIdentity api (userId invitee))) (\<lambda>found.
                  case found of
                    None \<Rightarrow> plain INoIdentity
                  | Some identity \<Rightarrow>
                      (case publicKeyBytes (idn_key identity) of
                         Inl _ \<Rightarrow> plain IInvalidIdentity
                       | Inr _ \<Rightarrow>
                           let member = invitee\<lparr>m_identity := Some identity\<rparr> in
                           bind_io (invite_pins x member) (\<lambda>r.
                             case r of
                               Inl why \<Rightarrow> plain why
                             | Inr ps \<Rightarrow> invite_sealed api x target member identity me key ps)))))"

end
