(* ===== verification/KeyTrust.thy ===== *)
theory KeyTrust
  imports KeyService
begin

text \<open>
  What a key pass guarantees (the theorems about \<open>KeyService\<close>). All of them hold for every server, every
  local store and every other tab, because those are arguments of the pass; they speak about the order of the
  calls in the log.
\<close>

section \<open>The order of the calls\<close>

text \<open>A key a pin vouches for: a pin that was read from, added to or confirmed in the local store.\<close>

definition vouched :: "key_event list \<Rightarrow> string \<Rightarrow> string \<Rightarrow> bool" where
  "vouched es u k \<longleftrightarrow>
     (\<exists>ps. (PinsRead ps \<in> set es \<or> PinsAdded ps \<in> set es) \<and> map_of ps u = Some k) \<or>
     (\<exists>c. PinConfirmed c \<in> set es \<and> pf_userId c = u \<and> pf_key c = k)"

definition sealed_row :: "lib \<Rightarrow> me \<Rightarrow> string \<Rightarrow> key_event list \<Rightarrow> envelope_row \<Rightarrow> bool" where
  "sealed_row L me cid es row \<longleftrightarrow>
     (\<exists>m seed g key ps ps' fresh. sealFor L seed m cid g key me ps = Inr (row, ps', fresh) \<and>
       (userId m = me_userId me \<or>
        (\<exists>i k. m_identity m = Some i \<and> vouched es (userId m) k \<and> sameKey k (idn_key i))))"

text \<open>The reports of the pass under way: the last container and the last key memory read, in this order.\<close>

fun read_event :: "key_event \<Rightarrow> bool" where
  "read_event (Reported _) = True"
| "read_event (Remembered _) = True"
| "read_event _ = False"

definition in_pass :: "key_event list \<Rightarrow> keyed_container \<Rightarrow> key_state \<Rightarrow> bool" where
  "in_pass es c s \<longleftrightarrow> (\<exists>xs ys. es = xs @ [Reported c, Remembered s] @ ys \<and> (\<forall>e \<in> set ys. \<not> read_event e))"

text \<open>The last event of a log is allowed there.\<close>

fun allowed_last :: "lib \<Rightarrow> me \<Rightarrow> key_event list \<Rightarrow> key_event \<Rightarrow> bool" where
  "allowed_last L me es (Sending cid rows) \<longleftrightarrow>
     (\<exists>c s. in_pass es c s \<and> cid = c_id c \<and> \<not> snd (guardContainer c s)) \<and> (\<forall>row \<in> set rows. sealed_row L me cid es row)"
| "allowed_last L me es (PinsAdding ps) \<longleftrightarrow> (\<exists>c s. in_pass es c s \<and> \<not> snd (guardContainer c s))"
| "allowed_last L me es (Confirming f) \<longleftrightarrow> (\<exists>c s. in_pass es c s \<and> \<not> snd (guardContainer c s))"
| "allowed_last L me es (ReadingEnvelopes cid) \<longleftrightarrow>
     (\<exists>c s. in_pass es c s \<and> cid = c_id c \<and>
       Floored cid \<lparr>shared = shared (raiseFloor s c), generation = generation (raiseFloor s c)\<rparr> \<in> set es)"
| "allowed_last L me es _ \<longleftrightarrow> True"

definition safe_log :: "lib \<Rightarrow> me \<Rightarrow> key_event list \<Rightarrow> bool" where
  "safe_log L me es \<longleftrightarrow> (\<forall>xs e ys. es = xs @ e # ys \<longrightarrow> allowed_last L me xs e)"

lemma safe_log_Nil [simp]: "safe_log L me []"
  by (simp add: safe_log_def)

lemma safe_log_snoc [simp]: "safe_log L me (es @ [e]) \<longleftrightarrow> safe_log L me es \<and> allowed_last L me es e"
proof
  assume safe: "safe_log L me (es @ [e])"
  then have "allowed_last L me es e" unfolding safe_log_def by blast
  moreover have "allowed_last L me xs f" if "es = xs @ f # ys" for xs f ys
    using safe that unfolding safe_log_def by (metis append.assoc append_Cons)
  ultimately show "safe_log L me es \<and> allowed_last L me es e" unfolding safe_log_def by blast
next
  assume "safe_log L me es \<and> allowed_last L me es e"
  then show "safe_log L me (es @ [e])"
    unfolding safe_log_def by (auto simp: append_eq_append_conv2 append_eq_Cons_conv Cons_eq_append_conv)
qed

lemma vouched_append: "vouched es u k \<Longrightarrow> vouched (es @ fs) u k"
  unfolding vouched_def by auto

lemma in_pass_snoc [simp]: "\<not> read_event e \<Longrightarrow> in_pass es c s \<Longrightarrow> in_pass (es @ [e]) c s"
proof -
  assume e: "\<not> read_event e" and "in_pass es c s"
  then obtain xs ys where "es = xs @ [Reported c, Remembered s] @ ys" "\<forall>e \<in> set ys. \<not> read_event e" by (auto simp: in_pass_def)
  with e have "es @ [e] = xs @ [Reported c, Remembered s] @ (ys @ [e])" "\<forall>e \<in> set (ys @ [e]). \<not> read_event e" by auto
  then show ?thesis unfolding in_pass_def by blast
qed

lemma in_pass_read: "in_pass (es @ [Reported c, Remembered s]) c s"
  unfolding in_pass_def by fastforce

section \<open>Calls that leave the log alone\<close>

lemma outside_log [triples]: "triple (\<lambda>w. P (k_log w)) (outside m) (\<lambda>_ w. P (k_log w)) (\<lambda>w. P (k_log w))"
  by (auto simp: triple_def outside_def Let_def split: prod.splits sum.splits)

lemma quiet_log [triples]:
  "triple (\<lambda>w. P (k_log w)) draw_random (\<lambda>_ w. P (k_log w)) (\<lambda>w. P (k_log w))"
  "triple (\<lambda>w. P (k_log w)) get_carried (\<lambda>_ w. P (k_log w)) (\<lambda>w. P (k_log w))"
  "triple (\<lambda>w. P (k_log w)) (push_carried ms) (\<lambda>_ w. P (k_log w)) (\<lambda>w. P (k_log w))"
  "triple (\<lambda>w. P (k_log w)) (set_latest cid st) (\<lambda>_ w. P (k_log w)) (\<lambda>w. P (k_log w))"
  "triple (\<lambda>w. P (k_log w)) reset_latest (\<lambda>_ w. P (k_log w)) (\<lambda>w. P (k_log w))"
  by (simp_all add: triple_def draw_random_def get_carried_def push_carried_def set_latest_def reset_latest_def)

lemma trusted_log [triples]: "triple (\<lambda>w. P (k_log w)) (trusted c opened) (\<lambda>r w. r = opened \<and> P (k_log w)) (\<lambda>w. P (k_log w))"
  by (simp add: triple_def trusted_def bind_io_def set_latest_def)

lemma mint_log:
  "triple (\<lambda>w. P (k_log w)) (mint_confirmation ps m)
     (\<lambda>f w. P (k_log w) \<and> pf_userId f = userId m \<and> pf_pins f = AList.update (pf_userId f) (pf_key f) ps \<and>
        (\<exists>i. m_identity m = Some i \<and> pf_key f = idn_key i \<and> validKey (idn_key i))) (\<lambda>w. P (k_log w))"
  by (auto simp: triple_def mint_confirmation_def Let_def confirm_Inr split: prod.splits sum.splits)

lemma note_log: "triple (\<lambda>w. P (k_log w @ [e])) (note_event e) (\<lambda>_ w. P (k_log w)) E"
  by (simp add: triple_def note_event_def)

lemma logged_log:
  assumes "triple (\<lambda>w. P (k_log w)) m (\<lambda>_ w. P (k_log w)) E" "\<And>x es. P es \<Longrightarrow> Q x (es @ evs x)"
  shows "triple (\<lambda>w. P (k_log w)) (logged evs m) (\<lambda>x w. Q x (k_log w)) E"
  using assms unfolding triple_def logged_def by (fastforce split: prod.splits sum.splits)

lemma on_floor_log: "triple (\<lambda>w. P (k_log w @ [Floored cid f])) (on_floor x cid f) (\<lambda>_ w. P (k_log w)) E"
  by (simp add: triple_def on_floor_def bind_io_def note_event_def)

lemma save_state_log: "triple (\<lambda>w. P (k_log w @ [Saving cid st])) (save_state x cid st) (\<lambda>_ w. P (k_log w)) E"
  unfolding save_state_def
  by (rule triple_bind [OF note_log [of P]]) (rule triple_catch [OF outside_log], rule triple_ret, assumption)

section \<open>The invariant of a pass\<close>

definition vouch :: "pins \<Rightarrow> key_event list \<Rightarrow> bool" where
  "vouch ps es \<longleftrightarrow> (\<forall>u k. map_of ps u = Some k \<longrightarrow> vouched es u k)"

definition log_ok :: "lib \<Rightarrow> me \<Rightarrow> keyed_container \<Rightarrow> key_state \<Rightarrow> key_event list \<Rightarrow> bool" where
  "log_ok L me c s es \<longleftrightarrow> safe_log L me es \<and> in_pass es c s"

definition pass_inv :: "lib \<Rightarrow> me \<Rightarrow> keyed_container \<Rightarrow> key_state \<Rightarrow> pins \<Rightarrow> key_event list \<Rightarrow> bool" where
  "pass_inv L me c s ps es \<longleftrightarrow> log_ok L me c s es \<and> vouch ps es"

lemma vouch_append: "vouch ps es \<Longrightarrow> vouch ps (es @ fs)"
  by (auto simp: vouch_def vouched_append)

lemma vouch_new:
  "vouch ps (es @ [PinsRead ps])" "vouch ps (es @ [PinsAdded ps])"
  by (auto simp: vouch_def vouched_def)

lemma vouch_confirmed: "vouch ps es \<Longrightarrow> vouch (AList.update (pf_userId f) (pf_key f) ps) (es @ [PinConfirmed f])"
  unfolding vouch_def vouched_def by auto

lemma log_ok_snoc: "log_ok L me c s es \<Longrightarrow> \<not> read_event e \<Longrightarrow> allowed_last L me es e \<Longrightarrow> log_ok L me c s (es @ [e])"
  by (simp add: log_ok_def)

lemma pass_inv_snoc: "pass_inv L me c s ps es \<Longrightarrow> \<not> read_event e \<Longrightarrow> allowed_last L me es e \<Longrightarrow> pass_inv L me c s ps (es @ [e])"
  by (simp add: pass_inv_def log_ok_snoc vouch_append)

lemma log_ok_write: "log_ok L me c s es \<Longrightarrow> \<not> snd (guardContainer c s) \<Longrightarrow> \<exists>c s. in_pass es c s \<and> \<not> snd (guardContainer c s)"
  by (auto simp: log_ok_def)

lemma pass_inv_ok: "pass_inv L me c s ps es \<Longrightarrow> log_ok L me c s es"
  by (simp add: pass_inv_def)

lemma log_ok_safe: "log_ok L me c s es \<Longrightarrow> safe_log L me es"
  by (simp add: log_ok_def)

lemma pass_inv_safe: "pass_inv L me c s ps es \<Longrightarrow> safe_log L me es"
  by (simp add: pass_inv_def log_ok_def)

lemma load_pins_inv:
  "triple (\<lambda>w. log_ok L me c s (k_log w)) (load_pins x) (\<lambda>ps w. pass_inv L me c s ps (k_log w)) (\<lambda>w. safe_log L me (k_log w))"
  unfolding load_pins_def
proof (rule triple_conseq [OF logged_log [OF outside_log]])
  show "pass_inv L me c s ps (es @ [PinsRead ps])" if "log_ok L me c s es" for ps es
    using that by (simp add: pass_inv_def log_ok_snoc vouch_new)
qed (simp_all add: log_ok_safe)

lemma add_fresh_inv:
  assumes "\<not> snd (guardContainer c s)"
  shows "triple (\<lambda>w. pass_inv L me c s ps (k_log w)) (add_fresh x ps')
    (\<lambda>r w. pass_inv L me c s (if r = PinsOk then ps' else ps) (k_log w)) (\<lambda>w. safe_log L me (k_log w))"
  unfolding add_fresh_def
proof (rule triple_bind)
  show "triple (\<lambda>w. pass_inv L me c s ps (k_log w)) (note_event (PinsAdding ps')) (\<lambda>_ w. pass_inv L me c s ps (k_log w)) (\<lambda>w. safe_log L me (k_log w))"
    by (rule triple_conseq [OF note_log [of "pass_inv L me c s ps"]])
      (auto intro!: pass_inv_snoc log_ok_write [OF pass_inv_ok] assms)
  show "triple (\<lambda>w. pass_inv L me c s ps (k_log w)) (logged (\<lambda>r. if r = PinsOk then [PinsAdded ps'] else []) (outside (st_addFresh (x_store x) ps')))
      (\<lambda>r w. pass_inv L me c s (if r = PinsOk then ps' else ps) (k_log w)) (\<lambda>w. safe_log L me (k_log w))"
    by (rule triple_conseq [OF logged_log [where P = "pass_inv L me c s ps" and Q = "\<lambda>r. pass_inv L me c s (if r = PinsOk then ps' else ps)", OF outside_log]])
      (auto simp: pass_inv_def log_ok_snoc vouch_new log_ok_safe)
qed

lemma confirm_pin_inv:
  assumes "\<not> snd (guardContainer c s)"
  shows "triple (\<lambda>w. pass_inv L me c s ps (k_log w)) (confirm_pin x f expected)
    (\<lambda>ok w. pass_inv L me c s (if ok then AList.update (pf_userId f) (pf_key f) ps else ps) (k_log w)) (\<lambda>w. safe_log L me (k_log w))"
  unfolding confirm_pin_def
proof (rule triple_bind)
  show "triple (\<lambda>w. pass_inv L me c s ps (k_log w)) (note_event (Confirming f)) (\<lambda>_ w. pass_inv L me c s ps (k_log w)) (\<lambda>w. safe_log L me (k_log w))"
    by (rule triple_conseq [OF note_log [of "pass_inv L me c s ps"]])
      (auto intro!: pass_inv_snoc log_ok_write [OF pass_inv_ok] assms)
  have out: "triple (\<lambda>w. pass_inv L me c s ps (k_log w)) (\<lambda>w. outside (st_confirm (x_store x) (k_minted w) f expected) w)
      (\<lambda>_ w. pass_inv L me c s ps (k_log w)) (\<lambda>w. pass_inv L me c s ps (k_log w))"
    by (auto simp: triple_def outside_def Let_def split: prod.splits sum.splits)
  show "triple (\<lambda>w. pass_inv L me c s ps (k_log w))
      (logged (\<lambda>ok. if ok then [PinConfirmed f] else []) (\<lambda>w. outside (st_confirm (x_store x) (k_minted w) f expected) w))
      (\<lambda>ok w. pass_inv L me c s (if ok then AList.update (pf_userId f) (pf_key f) ps else ps) (k_log w)) (\<lambda>w. safe_log L me (k_log w))"
    by (rule triple_conseq [OF logged_log [where Q = "\<lambda>ok. pass_inv L me c s (if ok then AList.update (pf_userId f) (pf_key f) ps else ps)", OF out]])
      (auto simp: pass_inv_def log_ok_snoc vouch_confirmed log_ok_safe)
qed

lemma confirm_all_inv:
  assumes "\<not> snd (guardContainer c s)"
  shows "triple (\<lambda>w. pass_inv L me c s ps (k_log w)) (confirm_all x changes ps)
    (\<lambda>r w. case r of Some ps' \<Rightarrow> pass_inv L me c s ps' (k_log w) | None \<Rightarrow> log_ok L me c s (k_log w)) (\<lambda>w. safe_log L me (k_log w))"
proof (induction changes arbitrary: ps)
  case Nil
  show ?case unfolding confirm_all.simps by (rule triple_ret) simp
next
  case (Cons ch changes)
  show ?case
    unfolding confirm_all.simps
  proof (rule triple_bind)
    show "triple (\<lambda>w. pass_inv L me c s ps (k_log w)) (mint_confirmation ps (pc_member ch))
        (\<lambda>f w. pf_pins f = AList.update (pf_userId f) (pf_key f) ps \<and> pass_inv L me c s ps (k_log w)) (\<lambda>w. safe_log L me (k_log w))"
      by (rule triple_conseq [OF mint_log [of "pass_inv L me c s ps"]]) (auto simp: pass_inv_safe)
    fix f
    show "triple (\<lambda>w. pf_pins f = AList.update (pf_userId f) (pf_key f) ps \<and> pass_inv L me c s ps (k_log w))
       (bind_io (confirm_pin x f (pc_pinned ch)) (\<lambda>ok. if \<not> ok then ret None else confirm_all x changes (pf_pins f)))
       (\<lambda>r w. case r of Some ps' \<Rightarrow> pass_inv L me c s ps' (k_log w) | None \<Rightarrow> log_ok L me c s (k_log w)) (\<lambda>w. safe_log L me (k_log w))"
    proof (rule triple_pull)
      assume f: "pf_pins f = AList.update (pf_userId f) (pf_key f) ps"
      show "triple (\<lambda>w. pass_inv L me c s ps (k_log w))
         (bind_io (confirm_pin x f (pc_pinned ch)) (\<lambda>ok. if \<not> ok then ret None else confirm_all x changes (pf_pins f)))
         (\<lambda>r w. case r of Some ps' \<Rightarrow> pass_inv L me c s ps' (k_log w) | None \<Rightarrow> log_ok L me c s (k_log w)) (\<lambda>w. safe_log L me (k_log w))"
      proof (rule triple_bind [OF confirm_pin_inv [OF assms]])
        fix ok
        show "triple (\<lambda>w. pass_inv L me c s (if ok then AList.update (pf_userId f) (pf_key f) ps else ps) (k_log w))
           (if \<not> ok then ret None else confirm_all x changes (pf_pins f))
           (\<lambda>r w. case r of Some ps' \<Rightarrow> pass_inv L me c s ps' (k_log w) | None \<Rightarrow> log_ok L me c s (k_log w)) (\<lambda>w. safe_log L me (k_log w))"
          using Cons.IH [of "pf_pins f"] by (cases ok) (auto intro: triple_ret simp: pass_inv_ok f simp del: io_simps)
      qed
    qed
  qed
qed

abbreviation safe_at :: "lib \<Rightarrow> me \<Rightarrow> 'o key_world \<Rightarrow> bool" where
  "safe_at L me w \<equiv> safe_log L me (k_log w)"

abbreviation ok_at :: "lib \<Rightarrow> me \<Rightarrow> keyed_container \<Rightarrow> key_state \<Rightarrow> 'o key_world \<Rightarrow> bool" where
  "ok_at L me c s w \<equiv> log_ok L me c s (k_log w)"

abbreviation inv_at :: "lib \<Rightarrow> me \<Rightarrow> keyed_container \<Rightarrow> key_state \<Rightarrow> pins \<Rightarrow> 'o key_world \<Rightarrow> bool" where
  "inv_at L me c s ps w \<equiv> pass_inv L me c s ps (k_log w)"

lemma outside_inv: "triple (inv_at L me c s ps) (outside m) (\<lambda>_. inv_at L me c s ps) (safe_at L me)"
  by (rule triple_conseq [OF outside_log [of "pass_inv L me c s ps"]]) (auto simp: pass_inv_safe)

lemma outside_ok: "triple (ok_at L me c s) (outside m) (\<lambda>_. ok_at L me c s) (safe_at L me)"
  by (rule triple_conseq [OF outside_log [of "log_ok L me c s"]]) (auto simp: log_ok_safe)

lemma pass_result_log:
  "triple (\<lambda>w. P (k_log w)) (pass_result c v ring plan m fresh opened) (\<lambda>_ w. P (k_log w)) E"
  by (simp add: triple_def pass_result_def bind_io_def get_carried_def)

lemma persistedOnly_ok:
  "triple (ok_at L me c s) (persistedOnly x ctx) (\<lambda>_. ok_at L me c s) (safe_at L me)"
  unfolding persistedOnly_def
proof (rule triple_bind [OF load_pins_inv])
  fix ps
  show "triple (inv_at L me c s ps)
     (let again = open_ring x ctx ps (px_envelopes ctx) None in
      if ok_fresh again = [] then trusted (px_container ctx) again
      else bind_io (set_latest (c_id (px_container ctx)) (px_known ctx)) (\<lambda>_. ret ((open_ring x ctx ps [] None)\<lparr>ok_known := px_known ctx\<rparr>)))
     (\<lambda>_. ok_at L me c s) (safe_at L me)"
    unfolding Let_def
  proof (rule triple_if)
    show "triple (inv_at L me c s ps) (trusted (px_container ctx) (open_ring x ctx ps (px_envelopes ctx) None)) (\<lambda>_. ok_at L me c s) (safe_at L me)"
      by (rule triple_conseq [OF trusted_log [of "pass_inv L me c s ps"]]) (auto simp: pass_inv_ok pass_inv_safe)
    show "triple (inv_at L me c s ps) (bind_io (set_latest (c_id (px_container ctx)) (px_known ctx)) (\<lambda>_. ret ((open_ring x ctx ps [] None)\<lparr>ok_known := px_known ctx\<rparr>)))
        (\<lambda>_. ok_at L me c s) (safe_at L me)"
      by (rule triple_bind_ret [OF triple_conseq [OF quiet_log(4) [of "pass_inv L me c s ps"]]]) (auto simp: pass_inv_safe pass_inv_ok)
  qed
qed

lemma stopped_ok: "triple (ok_at L me c s) (stopped x ctx v plan fresh) (\<lambda>_. ok_at L me c s) (safe_at L me)"
  unfolding stopped_def by (rule triple_bind [OF persistedOnly_ok]) (rule pass_result_log)

lemma stopped_inv: "triple (inv_at L me c s ps) (bind_io (stopped x ctx v plan fresh) (\<lambda>r. ret (f r))) (\<lambda>_. ok_at L me c s) (safe_at L me)"
  by (rule triple_bind_ret [OF triple_pre [OF stopped_ok]]) (simp_all add: pass_inv_ok)

section \<open>Changed keys\<close>

fun settled_post :: "lib \<Rightarrow> me \<Rightarrow> keyed_container \<Rightarrow> key_state \<Rightarrow> 'o sync_env \<Rightarrow> pass_ctx \<Rightarrow> settled \<Rightarrow> key_event list \<Rightarrow> bool" where
  "settled_post L me c s x ctx (Settled ps opened sweep v) es \<longleftrightarrow>
     pass_inv L me c s ps es \<and> opened = open_ring x ctx ps (px_envelopes ctx) None \<and> v_container v = px_container ctx"
| "settled_post L me c s x ctx _ es \<longleftrightarrow> log_ok L me c s es"

lemma settle_changes_inv:
  assumes "\<not> snd (guardContainer c s)" "opened = open_ring x ctx ps (px_envelopes ctx) None" "v_container v = px_container ctx"
  shows "triple (inv_at L me c s ps) (settle_changes fuel x ctx ps opened sweep v)
    (\<lambda>r w. settled_post L me c s x ctx r (k_log w)) (safe_at L me)"
  using assms(2,3)
proof (induction fuel arbitrary: ps opened sweep v)
  case 0
  then show ?case
    by (subst settle_changes.simps) (auto simp: Let_def pass_inv_ok simp del: io_simps intro!: triple_ret)
next
  case (Suc n)
  define waiting where "waiting = pending_changes x ps opened sweep"
  define v1 where "v1 = v\<lparr>v_changed := v_changed v @ waiting\<rparr>"
  have v1: "v_container v1 = px_container ctx" using Suc.prems by (simp add: v1_def)
  show ?case
  proof (cases "waiting = []")
    case True
    then have "settle_changes (Suc n) x ctx ps opened sweep v = ret (Settled ps opened sweep v)"
      by (subst settle_changes.simps) (simp add: Let_def waiting_def del: io_simps)
    then show ?thesis using Suc.prems by (auto intro!: triple_ret simp del: io_simps)
  next
    case False
    have next_round: "triple (inv_at L me c s ps')
       (let opened' = open_ring x ctx ps' (px_envelopes ctx) None;
            (sweep', deferred) = plan_sweep x ctx (v_container v1) opened' (px_envelopes ctx) in
        settle_changes n x ctx ps' opened' sweep' (v1\<lparr>v_deferred := deferred\<rparr>))
       (\<lambda>r w. settled_post L me c s x ctx r (k_log w)) (safe_at L me)" for ps'
      unfolding Let_def case_prod_beta by (rule Suc.IH) (simp_all add: v1)
    have stop: "triple (inv_at L me c s ps') (bind_io (stopped x ctx v1 plan []) (\<lambda>r. ret (Stopped r)))
       (\<lambda>r w. settled_post L me c s x ctx r (k_log w)) (safe_at L me)" for ps' plan
      by (rule triple_bind_ret [OF triple_pre [OF stopped_ok]]) (simp_all add: pass_inv_ok)
    have refused: "triple (ok_at L me c s) (bind_io (stopped x ctx v1 plan []) (\<lambda>r. ret (Stopped r)))
       (\<lambda>r w. settled_post L me c s x ctx r (k_log w)) (safe_at L me)" for plan
      by (rule triple_bind_ret [OF stopped_ok]) simp
    show ?thesis
      unfolding settle_changes.simps [of "Suc n"] Let_def waiting_def [symmetric] v1_def [symmetric] nat.case
      apply (rule triple_if, simp add: False)
      apply (rule triple_bind [OF outside_inv])
      apply (rule triple_if, rule stop)
      apply (rule triple_bind [OF confirm_all_inv [OF assms(1)]])
      subgoal for yes kept using refused next_round by (cases kept) (simp_all add: Let_def)
      done
  qed
qed

section \<open>Sealed rows\<close>

definition sealed_with :: "lib \<Rightarrow> me \<Rightarrow> string \<Rightarrow> pins \<Rightarrow> envelope_row \<Rightarrow> bool" where
  "sealed_with L me cid ps row \<longleftrightarrow>
     (\<exists>m seed g key qs qs' fresh. sealFor L seed m cid g key me qs = Inr (row, qs', fresh) \<and>
       (userId m = me_userId me \<or>
        (\<exists>i k. m_identity m = Some i \<and> map_of ps (userId m) = Some k \<and> sameKey k (idn_key i))))"

lemma sealed_with_mono: "sealed_with L me cid ps row \<Longrightarrow> map_of ps \<subseteq>\<^sub>m map_of qs \<Longrightarrow> sealed_with L me cid qs row"
  unfolding sealed_with_def by (meson map_leD)

lemma sealed_vouched: "sealed_with L me cid ps row \<Longrightarrow> vouch ps es \<Longrightarrow> sealed_row L me cid es row"
  unfolding sealed_with_def sealed_row_def vouch_def by meson

definition sealed_all :: "lib \<Rightarrow> me \<Rightarrow> string \<Rightarrow> pins \<Rightarrow> nat \<Rightarrow> envelope_row list \<Rightarrow> envelope_row list \<Rightarrow> pins \<Rightarrow> nat \<Rightarrow> bool" where
  "sealed_all L me cid ps n out rows ps' n' \<longleftrightarrow>
     map_of ps \<subseteq>\<^sub>m map_of ps' \<and> n \<le> n' \<and> (n' = n \<longrightarrow> ps' = ps) \<and>
     (\<forall>row \<in> set rows. row \<in> set out \<or> sealed_with L me cid ps' row)"

lemma sealFor_step:
  assumes "sealFor L seed m cid g key me ps = Inr (row, ps1, extra)"
  shows "sealed_all L me cid ps n out (out @ [row]) ps1 (n + length extra)"
proof -
  have "length extra = 0 \<longrightarrow> ps1 = ps" by (rule sealFor_Inr [OF assms]) auto
  moreover have "sealed_with L me cid ps1 row"
    unfolding sealed_with_def using assms sealFor_pins(2) [OF assms] by blast
  ultimately show ?thesis using sealFor_pins(1) [OF assms] by (auto simp: sealed_all_def)
qed

lemma sealed_all_trans:
  "sealed_all L me cid ps n out rows ps1 n1 \<Longrightarrow> sealed_all L me cid ps1 n1 rows rows' ps2 n2 \<Longrightarrow> sealed_all L me cid ps n out rows' ps2 n2"
  unfolding sealed_all_def by (auto intro: map_le_trans sealed_with_mono)

lemma sealAll_log:
  "triple (\<lambda>w. P (k_log w)) (sealAll x cid me grants ps fresh out)
     (\<lambda>(rows, ps', fresh') w. sealed_all (x_lib x) me cid ps (length fresh) out rows ps' (length fresh') \<and> P (k_log w)) (\<lambda>w. P (k_log w))"
proof (induction grants arbitrary: ps fresh out)
  case Nil
  show ?case unfolding sealAll.simps by (rule triple_ret) (auto simp: sealed_all_def)
next
  case (Cons gr grants)
  obtain m g key where gr: "gr = (m, g, key)" by (cases gr)
  let ?seal = "\<lambda>seed. case key of None \<Rightarrow> Inl TypeError | Some k \<Rightarrow> sealFor (x_lib x) seed m cid g k me ps"
  have step: "triple (\<lambda>w. ?seal seed = Inr (row, ps1, extra) \<and> P (k_log w)) (sealAll x cid me grants ps1 (fresh @ extra) (out @ [row]))
     (\<lambda>(rows, ps', fresh') w. sealed_all (x_lib x) me cid ps (length fresh) out rows ps' (length fresh') \<and> P (k_log w)) (\<lambda>w. P (k_log w))" for seed row ps1 extra
  proof (rule triple_pull)
    assume "?seal seed = Inr (row, ps1, extra)"
    then obtain k where "sealFor (x_lib x) seed m cid g k me ps = Inr (row, ps1, extra)" by (auto split: option.splits)
    note one = sealFor_step [OF this, of "length fresh" out]
    show "triple (\<lambda>w. P (k_log w)) (sealAll x cid me grants ps1 (fresh @ extra) (out @ [row]))
     (\<lambda>(rows, ps', fresh') w. sealed_all (x_lib x) me cid ps (length fresh) out rows ps' (length fresh') \<and> P (k_log w)) (\<lambda>w. P (k_log w))"
      by (rule triple_conseq [OF Cons.IH]) (auto intro: sealed_all_trans [OF one])
  qed
  show ?case
    unfolding gr sealAll.simps
    apply (rule triple_bind [OF quiet_log(1)])
    apply (rule triple_bind [where R = "\<lambda>r w. ?seal seed = Inr r \<and> P (k_log w)" for seed])
     apply (rule triple_lift, simp, assumption)
    subgoal for seed r using step [of seed] by (cases r) simp
    done
qed

lemma pinFailure_None [simp]: "pinFailure c r = None \<longleftrightarrow> r = PinsOk"
  by (auto simp: pinFailure_def split: pins_stored.splits list.splits)

lemma keep_pins:
  assumes "\<not> snd (guardContainer c s)" "n < n' \<or> ps' = ps"
  shows "triple (inv_at L me c s ps) (if n' > n then bind_io (add_fresh x ps') (\<lambda>r. ret (pinFailure ctx r)) else ret None)
    (\<lambda>f w. case f of None \<Rightarrow> inv_at L me c s ps' w | Some _ \<Rightarrow> ok_at L me c s w) (safe_at L me)"
proof (rule triple_if)
  show "triple (inv_at L me c s ps) (bind_io (add_fresh x ps') (\<lambda>r. ret (pinFailure ctx r)))
      (\<lambda>f w. case f of None \<Rightarrow> inv_at L me c s ps' w | Some _ \<Rightarrow> ok_at L me c s w) (safe_at L me)"
    by (rule triple_bind [OF add_fresh_inv [OF assms(1)]], rule triple_ret) (auto simp: pass_inv_ok split: option.splits)
  show "triple (inv_at L me c s ps) (ret None)
      (\<lambda>f w. case f of None \<Rightarrow> inv_at L me c s ps' w | Some _ \<Rightarrow> ok_at L me c s w) (safe_at L me)" if "\<not> n' > n"
    using assms(2) that by (intro triple_ret) auto
qed

lemma sending_ok:
  assumes "\<not> snd (guardContainer c s)" "\<forall>row \<in> set rows. sealed_with L me (c_id c) ps row"
  shows "triple (inv_at L me c s ps) (note_event (Sending (c_id c) rows)) (\<lambda>_. inv_at L me c s ps) (safe_at L me)"
proof (rule triple_pre [OF note_log [of "pass_inv L me c s ps"]])
  show "pass_inv L me c s ps (k_log w @ [Sending (c_id c) rows])" if "inv_at L me c s ps w" for w :: "'a key_world"
    using that assms by (intro pass_inv_snoc) (auto simp: pass_inv_def log_ok_def intro: sealed_vouched)
qed

lemma send_rows_inv:
  assumes rb: "\<not> snd (guardContainer c s)" and rows: "\<forall>row \<in> set rows. sealed_with L me (c_id c) ps row"
    and c: "px_container ctx = c"
  shows "triple (inv_at L me c s ps) (send_rows x ctx v sweep rows) (\<lambda>_. inv_at L me c s ps) (safe_at L me)"
proof -
  have floor: "triple (inv_at L me c s ps) (on_floor x cid f) (\<lambda>_. inv_at L me c s ps) (safe_at L me)" for cid f
    by (rule triple_pre [OF on_floor_log [of "pass_inv L me c s ps"]]) (simp add: pass_inv_snoc)
  have latest: "triple (inv_at L me c s ps) (\<lambda>w. case k_latest w of Some (cid, known) \<Rightarrow> set_latest i (f known) w | None \<Rightarrow> (Inl TypeError, w))
      (\<lambda>_. inv_at L me c s ps) (safe_at L me)" for i f
    by (auto simp: triple_def set_latest_def pass_inv_safe split: option.splits)
  show ?thesis
    unfolding send_rows_def c
    apply (rule triple_bind [OF outside_inv])
    apply (rule triple_bind [OF sending_ok [OF rb rows]])
    apply (cases sweep)
       apply (simp_all add: Let_def del: io_simps)
       apply (rule triple_bind_ret [OF outside_inv], assumption)+
     apply (rule triple_bind [OF outside_inv], rule triple_bind [OF latest], rule triple_bind_ret [OF floor], assumption)
    apply (rule triple_bind_ret [OF outside_inv], assumption)
    done
qed

section \<open>One attempt\<close>

lemma sealAll_inv:
  assumes "x_lib x = L"
  shows "triple (inv_at L me c s ps) (sealAll x cid me grants ps fresh [])
    (\<lambda>(rows, ps', fresh') w. ((length fresh < length fresh' \<or> ps' = ps) \<and> (\<forall>row \<in> set rows. sealed_with L me cid ps' row)) \<and> inv_at L me c s ps w)
    (safe_at L me)"
  by (rule triple_conseq [OF sealAll_log [of "pass_inv L me c s ps"]])
    (auto simp: sealed_all_def assms pass_inv_safe split: prod.splits)

lemma offer_history_safe:
  assumes rb: "\<not> snd (guardContainer c s)" and c: "px_container ctx = c"
    and sealed: "before < length fresh \<or> ps' = ps" "\<forall>row \<in> set rows. sealed_with L me (c_id c) ps' row"
  shows "triple (inv_at L me c s ps) (offer_history x ctx v before (rows, ps', fresh)) (\<lambda>_. safe_at L me) (safe_at L me)"
proof -
  have send: "triple (inv_at L me c s ps')
     (catch_io (bind_io (outside (api_stepUp (x_api x))) (\<lambda>_.
        bind_io (note_event (Sending (c_id c) rows)) (\<lambda>_.
        bind_io (outside (api_putEnvelopes (x_api x) (c_id c) rows)) (\<lambda>_. ret r1)))) (\<lambda>_. ret r2))
     (\<lambda>_. safe_at L me) (safe_at L me)" for r1 r2 :: "pass_vars \<times> member_key list"
    apply (rule triple_catch [where R = "safe_at L me"])
     apply (rule triple_bind [OF outside_inv], rule triple_bind [OF sending_ok [OF rb sealed(2)]], rule triple_bind_ret [OF outside_inv], erule pass_inv_safe)
    apply (rule triple_ret)
    apply assumption
    done
  show ?thesis
    unfolding offer_history_def Let_def prod.case c
    apply (rule triple_bind [OF keep_pins [OF rb sealed(1)]])
    subgoal for f using send by (cases f) (auto intro!: triple_ret simp: log_ok_safe simp del: io_simps)
    done
qed

lemma wrap_history_safe:
  assumes rb: "\<not> snd (guardContainer c s)" and c: "px_container ctx = c" and L: "x_lib x = L"
  shows "triple (inv_at L me c s ps) (wrap_history x ctx me v ps after fresh) (\<lambda>_. safe_at L me) (safe_at L me)"
proof -
  have quit: "triple (inv_at L me c s ps) (ret r) (\<lambda>_. safe_at L me) (safe_at L me)" for r :: "pass_vars \<times> member_key list"
    by (rule triple_ret) (rule pass_inv_safe)
  obtain history deferred where plan: "plan_sweep x ctx (v_container v) after (v_seen v) = (history, deferred)"
    by (cases "plan_sweep x ctx (v_container v) after (v_seen v)")
  have offer: "triple (inv_at L me c s ps) (bind_io (sealAll x (c_id c) me grants ps fresh []) (offer_history x ctx v1 (length fresh)))
      (\<lambda>_. safe_at L me) (safe_at L me)" for grants v1
  proof (rule triple_bind [OF sealAll_inv [OF L]])
    fix r :: "envelope_row list \<times> pins \<times> member_key list"
    obtain rows ps' fresh' where r: "r = (rows, ps', fresh')" by (cases r)
    show "triple ((\<lambda>(rows, ps', fresh') w. ((length fresh < length fresh' \<or> ps' = ps) \<and> (\<forall>row \<in> set rows. sealed_with L me (c_id c) ps' row)) \<and> inv_at L me c s ps w) r)
        (offer_history x ctx v1 (length fresh) r) (\<lambda>_. safe_at L me) (safe_at L me)"
      unfolding r prod.case by (rule triple_pull) (rule offer_history_safe [OF rb c], simp_all)
  qed
  show ?thesis
    unfolding wrap_history_def plan Let_def prod.case c
    by (cases history; simp only: sweep_plan.case) (auto intro!: quit triple_if offer simp del: io_simps)
qed

lemma finish_write_safe:
  assumes rb: "\<not> snd (guardContainer c s)" and c: "px_container ctx = c" and L: "x_lib x = L"
    and rows: "\<forall>row \<in> set rows. sealed_with L me (c_id c) ps row"
  shows "triple (inv_at L me c s ps) (finish_write x ctx me attempt v ps opened sweep rows fresh) (\<lambda>_. safe_at L me) (safe_at L me)"
proof -
  let ?mid = "\<lambda>r w. case r of Some (container :: keyed_container) \<Rightarrow> inv_at L me c s ps w | None \<Rightarrow> safe_at L me w"
  have sent: "triple (inv_at L me c s ps)
     (catch_io (bind_io (send_rows x ctx v sweep rows) (\<lambda>container. ret (Some container)))
       (\<lambda>e. if err_code e \<noteq> Some ''already_exists'' \<or> attempt > 0 then throw e else bind_io (push_carried fresh) (\<lambda>_. ret None))) ?mid (safe_at L me)"
    apply (rule triple_catch [where R = "safe_at L me"])
     apply (rule triple_bind_ret [OF send_rows_inv [OF rb rows c]], simp)
    apply (rule triple_if, rule triple_throw, assumption)
    apply (rule triple_bind_ret [OF quiet_log(3) [of "safe_log L me"]], simp)
    done
  have res: "triple (safe_at L me) (bind_io (pass_result ctx v1 ring plan m fr op) (\<lambda>r. ret (Done r))) (\<lambda>_. safe_at L me) (safe_at L me)" for v1 ring plan m fr op
    by (rule triple_bind_ret [OF pass_result_log [of "safe_log L me"]])
  have minted: "triple (inv_at L me c s ps)
     (bind_io (trusted container op) (\<lambda>after. bind_io (wrap_history x ctx me v1 ps after fresh) (\<lambda>(v2, fresh').
        bind_io (pass_result ctx v2 (ok_ring after) plan True fresh' after) (\<lambda>r. ret (Done r))))) (\<lambda>_. safe_at L me) (safe_at L me)" for container op v1 plan
    apply (rule triple_bind [OF triple_conseq [OF trusted_log [of "pass_inv L me c s ps"]]], assumption, erule conjunct2, erule pass_inv_safe)
    apply (rule triple_bind [OF wrap_history_safe [OF rb c L]])
    subgoal for after r using res by (cases r) simp
    done
  show ?thesis
    unfolding finish_write_def
    apply (rule triple_bind [OF sent])
    subgoal for r
      using minted res [THEN triple_pre, OF pass_inv_safe]
      by (cases r; cases sweep) (auto simp: Let_def simp del: io_simps intro!: triple_ret)
    done
qed

lemma write_sweep_safe:
  assumes rb: "\<not> snd (guardContainer c s)" and c: "px_container ctx = c" and L: "x_lib x = L"
  shows "triple (inv_at L me c s (ok_pins opened)) (write_sweep x ctx me attempt v opened sweep) (\<lambda>_. safe_at L me) (safe_at L me)"
proof -
  let ?ps = "ok_pins opened"
  let ?post = "\<lambda>(rows, ps', fresh') w. ((length (ok_fresh opened) < length fresh' \<or> ps' = ?ps) \<and>
     (\<forall>row \<in> set rows. sealed_with L me (c_id c) ps' row)) \<and> inv_at L me c s ?ps w"
  have seal: "triple (inv_at L me c s ?ps) (sealAll x (c_id c) me grants ?ps (ok_fresh opened) []) ?post (safe_at L me)" for grants
    by (rule sealAll_inv [OF L])
  have quiet: "triple (inv_at L me c s ?ps) (lift_result r) (\<lambda>_. inv_at L me c s ?ps) (safe_at L me)"
      "triple (inv_at L me c s ?ps) draw_random (\<lambda>_. inv_at L me c s ?ps) (safe_at L me)" for r :: "bytes result"
    by (rule triple_lift, assumption, erule pass_inv_safe)
      (rule triple_conseq [OF quiet_log(1) [of "pass_inv L me c s ?ps"]], simp_all add: pass_inv_safe)
  have stop: "triple (ok_at L me c s) (bind_io (stopped x ctx v plan fresh) (\<lambda>r. ret (Done r))) (\<lambda>_. safe_at L me) (safe_at L me)" for plan fresh
    by (rule triple_bind_ret [OF stopped_ok]) (rule log_ok_safe)
  show ?thesis
    unfolding write_sweep_def c
  proof (rule triple_bind)
    show "triple (inv_at L me c s ?ps) (case sweep of
         SweepMint recipients \<Rightarrow> bind_io draw_random (\<lambda>bs. bind_io (lift_result (newContainerKey bs)) (\<lambda>key.
             sealAll x (c_id c) me (map (\<lambda>member. (member, keyGeneration (v_container v) + 1, Some key)) recipients) ?ps (ok_fresh opened) []))
       | SweepWrap grants \<Rightarrow> sealAll x (c_id c) me (grants_with (ok_ring opened) grants) ?ps (ok_fresh opened) []
       | _ \<Rightarrow> throw TypeError) ?post (safe_at L me)"
    proof (cases sweep)
      case (SweepMint recipients)
      show ?thesis unfolding SweepMint sweep_plan.case by (rule triple_bind [OF quiet(2)], rule triple_bind [OF quiet(1)], rule seal)
    next
      case (SweepWrap grants)
      show ?thesis unfolding SweepWrap sweep_plan.case by (rule seal)
    qed (simp_all only: sweep_plan.case, (rule triple_throw, erule pass_inv_safe)+)
    fix r :: "envelope_row list \<times> pins \<times> member_key list"
    obtain rows ps' fresh' where r: "r = (rows, ps', fresh')" by (cases r)
    show "triple (?post r) (case r of (rows, ps, fresh) \<Rightarrow>
       bind_io (if length fresh > length (ok_fresh opened) then bind_io (add_fresh x ps) (\<lambda>r. ret (pinFailure ctx r)) else ret None) (\<lambda>sealedFor.
         case sealedFor of Some plan \<Rightarrow> bind_io (stopped x ctx v plan (ok_fresh opened)) (\<lambda>r. ret (Done r))
         | None \<Rightarrow> finish_write x ctx me attempt v ps opened sweep rows fresh)) (\<lambda>_. safe_at L me) (safe_at L me)"
      unfolding r prod.case
      apply (rule triple_pull)
      apply (rule triple_bind [OF keep_pins [OF rb]], simp)
      subgoal for f using stop finish_write_safe [OF rb c L] by (cases f) auto
      done
  qed
qed

section \<open>First contact\<close>

lemma accept_fresh: "ok_fresh (snd (accept L g key st)) = ok_fresh st"
  by (simp add: accept_def Let_def)

definition fresh_pins :: "pins \<Rightarrow> opened_keyring \<Rightarrow> bool" where
  "fresh_pins ps st \<longleftrightarrow> (ok_fresh st = [] \<longrightarrow> ok_pins st = ps)"

lemma fresh_accept: "fresh_pins ps st \<Longrightarrow> fresh_pins ps (snd (accept L g key st))"
  by (simp add: fresh_pins_def accept_fresh accept_other)

lemma fresh_accept_current: "fresh_pins ps st \<Longrightarrow> fresh_pins ps (accept_current L g key first st)"
proof -
  assume f: "fresh_pins ps st"
  obtain b st' where a: "accept L g key st = (b, st')" by (cases "accept L g key st")
  with fresh_accept [OF f, of L g key] show ?thesis
    by (cases b; cases first) (auto simp: accept_current_def Let_def fresh_pins_def)
qed

lemma fresh_judged: "fresh_pins ps st \<Longrightarrow> fresh_pins ps (fst (judged_row L me c row env view st later))"
  by (auto simp: judged_row_def Let_def note_changed_def fresh_accept_current fresh_pins_def
      split: sender_view.splits option.splits sum.splits)
    (simp_all add: fresh_accept_current [unfolded fresh_pins_def])

lemma fresh_current: "fresh_pins ps (fst acc) \<Longrightarrow> fresh_pins ps (fst (current_row L me c members row acc))"
  by (auto simp: current_row_def Let_def fresh_judged split: prod.splits sum.splits)

lemma fresh_history: "fresh_pins ps st \<Longrightarrow> fresh_pins ps (history_row L me c ks d st)"
  by (auto simp: history_row_def fresh_accept split: prod.splits list.splits)

lemma fold_keeps: "P s \<Longrightarrow> (\<And>a s. P s \<Longrightarrow> P (f a s)) \<Longrightarrow> P (fold f xs s)"
  by (induction xs arbitrary: s) auto

text \<open>What holds at the start and is kept by every row holds of the opened ring.\<close>

lemma open_ring_keeps:
  assumes start: "\<And>st. ok_pins st = ps \<Longrightarrow> ok_fresh st = [] \<Longrightarrow> ok_changed st = [] \<Longrightarrow> P st"
    and accept: "\<And>g key st. P st \<Longrightarrow> P (snd (accept (x_lib x) g key st))"
    and current: "\<And>me row acc. P (fst acc) \<Longrightarrow> P (fst (current_row (x_lib x) me (c_id (px_container c)) (px_members c) row acc))"
    and history: "\<And>me ks d st. P st \<Longrightarrow> P (history_row (x_lib x) me (c_id (px_container c)) ks d st)"
  shows "P (open_ring x c ps rows ring)"
proof -
  let ?in = "\<lparr>i_containerID = c_id (px_container c), i_envelopes = rows, i_me = me_of (x_caller x), i_members = px_members c, i_pins = ps,
    i_known = px_known c, i_held = (case ring of Some r \<Rightarrow> r | None \<Rightarrow> x_held x)\<rparr>"
  let ?st = "fold (\<lambda>(g, key) st. snd (accept (x_lib x) g key st)) (i_held ?in) (opened_start ?in)"
  have st: "P ?st" by (rule fold_keeps) (auto intro: start accept simp: opened_start_def)
  have "P (openKeyring (x_lib x) ?in)"
  proof (cases "me_of (x_caller x)")
    case None
    with st show ?thesis by (simp add: openKeyring_def Let_def)
  next
    case (Some me)
    obtain st1 later where row: "fold (current_row (x_lib x) me (c_id (px_container c)) (px_members c)) rows (?st, []) = (st1, later)"
      by (cases "fold (current_row (x_lib x) me (c_id (px_container c)) (px_members c)) rows (?st, [])")
    have "P (fst (fold (current_row (x_lib x) me (c_id (px_container c)) (px_members c)) rows (?st, [])))"
      by (rule fold_keeps [where P = "\<lambda>acc. P (fst acc)"]) (simp_all only: fst_conv st current)
    with row have "P st1" by simp
    then have "P (fold (history_row (x_lib x) me (c_id (px_container c)) (pinned_keys ps)) later st1)"
      by (rule fold_keeps) (rule history)
    then show ?thesis using row Some by (simp add: openKeyring_def Let_def)
  qed
  then show ?thesis by (simp add: open_ring_def)
qed

lemma open_ring_fresh:
  assumes "ok_fresh (open_ring x c ps rows ring) = []"
  shows "ok_pins (open_ring x c ps rows ring) = ps"
proof -
  have "fresh_pins ps (open_ring x c ps rows ring)"
    by (rule open_ring_keeps) (simp_all add: fresh_accept fresh_current fresh_history, simp add: fresh_pins_def)
  with assms show ?thesis by (simp add: fresh_pins_def)
qed

lemma after_settled_safe:
  assumes rb: "\<not> snd (guardContainer c s)" and c: "px_container ctx = c" and L: "x_lib x = L"
    and me: "me_of (x_caller x) = Some me \<or> me_of (x_caller x) = None" and op: "opened = open_ring x ctx ps (px_envelopes ctx) None"
  shows "triple (inv_at L me c s ps) (after_settled x ctx attempt opened sweep v) (\<lambda>_. safe_at L me) (safe_at L me)"
proof -
  have first: "triple (inv_at L me c s ps) (if ok_fresh opened \<noteq> [] then bind_io (add_fresh x (ok_pins opened)) (\<lambda>r. ret (pinFailure ctx r)) else ret None)
     (\<lambda>f w. case f of None \<Rightarrow> inv_at L me c s (ok_pins opened) w | Some _ \<Rightarrow> ok_at L me c s w) (safe_at L me)"
    using keep_pins [OF rb, of 0 "length (ok_fresh opened)" "ok_pins opened" ps L me x ctx] open_ring_fresh [of x ctx ps "px_envelopes ctx" None] op
    by (auto simp del: io_simps)
  have stop: "triple (ok_at L me c s) (bind_io (stopped x ctx v plan fresh) (\<lambda>r. ret (Done r))) (\<lambda>_. safe_at L me) (safe_at L me)" for plan fresh
    by (rule triple_bind_ret [OF stopped_ok]) (rule log_ok_safe)
  have res: "triple (inv_at L me c s qs) (bind_io (pass_result ctx v1 ring plan m fr op) (\<lambda>r. ret (Done r))) (\<lambda>_. safe_at L me) (safe_at L me)" for qs v1 ring plan m fr op
    by (rule triple_bind_ret [OF pass_result_log [of "pass_inv L me c s qs"]]) (rule pass_inv_safe)
  have rest: "triple (inv_at L me c s (ok_pins opened)) (bind_io (trusted (v_container v) opened) (\<lambda>_. case (sweep, me_of (x_caller x)) of
       (SweepMint _, Some me) \<Rightarrow> write_sweep x ctx me attempt v opened sweep
     | (SweepWrap _, Some me) \<Rightarrow> write_sweep x ctx me attempt v opened sweep
     | _ \<Rightarrow> bind_io (pass_result ctx v (ok_ring opened) (Planned sweep) False (ok_fresh opened) opened) (\<lambda>r. ret (Done r))))
     (\<lambda>_. safe_at L me) (safe_at L me)"
    apply (rule triple_bind [OF triple_conseq [OF trusted_log [of "pass_inv L me c s (ok_pins opened)"]]], assumption, erule conjunct2, erule pass_inv_safe)
    using me write_sweep_safe [OF rb c L] res by (cases sweep) auto
  show ?thesis
    unfolding after_settled_def
    apply (rule triple_bind [OF first])
    subgoal for f using stop rest by (cases f) auto
    done
qed

section \<open>A whole pass\<close>

lemma rollback_pass_safe: "triple (inv_at L me c s ps) (rollback_pass x ctx opened) (\<lambda>_. safe_at L me) (safe_at L me)"
  unfolding rollback_pass_def
proof (rule triple_bind_ret)
  show "triple (inv_at L me c s ps) (if ok_fresh opened \<noteq> [] then persistedOnly x ctx else trusted (px_container ctx) opened)
      (\<lambda>_. ok_at L me c s) (safe_at L me)"
    by (rule triple_if)
      (rule triple_pre [OF persistedOnly_ok], erule pass_inv_ok,
       rule triple_conseq [OF trusted_log [of "pass_inv L me c s ps"]], assumption, auto simp: pass_inv_ok pass_inv_safe)
qed (rule log_ok_safe)

lemma pass_rest_safe:
  assumes c: "px_container ctx = c" and L: "x_lib x = L" and me: "me_of (x_caller x) = Some me \<or> me_of (x_caller x) = None"
    and rb: "rollback = snd (guardContainer c s)"
  shows "triple (ok_at L me c s) (pass_rest x ctx rollback attempt) (\<lambda>_. safe_at L me) (safe_at L me)"
  unfolding pass_rest_def
proof (rule triple_bind [OF load_pins_inv])
  fix ps
  define opened where "opened = open_ring x ctx ps (px_envelopes ctx) None"
  obtain sweep deferred where plan: "plan_sweep x ctx (px_container ctx) opened (px_envelopes ctx) = (sweep, deferred)"
    by (cases "plan_sweep x ctx (px_container ctx) opened (px_envelopes ctx)")
  define v where "v = \<lparr>v_container = px_container ctx, v_changed = [], v_seen = px_envelopes ctx, v_deferred = deferred\<rparr>"
  have go: "triple (inv_at L me c s ps) (bind_io (settle_changes (length (px_members ctx)) x ctx ps opened sweep v) (\<lambda>r. case r of
       OutOfFuel \<Rightarrow> ret NoFuel | Stopped r \<Rightarrow> ret (Done r) | Settled ps' opened' sweep' v' \<Rightarrow> after_settled x ctx attempt opened' sweep' v'))
       (\<lambda>_. safe_at L me) (safe_at L me)" if "\<not> rollback"
  proof -
    have rb': "\<not> snd (guardContainer c s)" using that rb by simp
    show ?thesis
    proof (rule triple_bind [OF settle_changes_inv [OF rb' opened_def]])
      fix r
      show "triple (\<lambda>w. settled_post L me c s x ctx r (k_log w)) (case r of
         OutOfFuel \<Rightarrow> ret NoFuel | Stopped r \<Rightarrow> ret (Done r) | Settled ps' opened' sweep' v' \<Rightarrow> after_settled x ctx attempt opened' sweep' v')
         (\<lambda>_. safe_at L me) (safe_at L me)"
      proof (cases r)
        case (Settled ps' opened' sweep' v')
        show ?thesis
          unfolding Settled settled.case settled_post.simps conj_commute [of "pass_inv L me c s ps' _"]
          by (rule triple_pull) (rule after_settled_safe [OF rb' c L me], simp)
      qed (auto intro!: triple_ret simp: log_ok_safe simp del: io_simps)
    qed (simp add: v_def)
  qed
  show "triple (inv_at L me c s ps) (let opened = open_ring x ctx ps (px_envelopes ctx) None in
     if rollback then rollback_pass x ctx opened
     else let (sweep, deferred) = plan_sweep x ctx (px_container ctx) opened (px_envelopes ctx);
              v = \<lparr>v_container = px_container ctx, v_changed = [], v_seen = px_envelopes ctx, v_deferred = deferred\<rparr> in
       bind_io (settle_changes (length (px_members ctx)) x ctx ps opened sweep v) (\<lambda>r. case r of
         OutOfFuel \<Rightarrow> ret NoFuel | Stopped r \<Rightarrow> ret (Done r) | Settled ps' opened' sweep' v' \<Rightarrow> after_settled x ctx attempt opened' sweep' v'))
     (\<lambda>_. safe_at L me) (safe_at L me)"
    unfolding Let_def opened_def [symmetric] plan prod.case v_def [symmetric]
    by (rule triple_if) (rule rollback_pass_safe, rule go)
qed

lemma read_identities_ok: "triple (ok_at L me c s) (read_identities x ms) (\<lambda>_. ok_at L me c s) (safe_at L me)"
proof (induction ms)
  case Nil
  show ?case unfolding read_identities.simps by (rule triple_ret)
next
  case (Cons m ms)
  show ?case
    unfolding read_identities.simps
    by (rule triple_bind [where R = "\<lambda>_. ok_at L me c s"], rule triple_if, rule triple_ret, assumption, rule outside_ok)
      (rule triple_bind_ret [OF Cons.IH])
qed

lemma key_pass_once_safe:
  assumes L: "x_lib x = L" and me: "me_of (x_caller x) = Some me \<or> me_of (x_caller x) = None"
  shows "triple (safe_at L me) (key_pass_once x attempt) (\<lambda>_. safe_at L me) (safe_at L me)"
  unfolding key_pass_once_def
proof (rule triple_bind)
  let ?Q = "\<lambda>c es. safe_log L me es \<and> (\<exists>xs. es = xs @ [Reported c])"
  show "triple (safe_at L me) (logged (\<lambda>c. [Reported c]) (outside (api_container (x_api x) (x_containerID x))))
      (\<lambda>c w. ?Q c (k_log w)) (safe_at L me)"
    by (rule logged_log [OF outside_log [of "safe_log L me"]]) simp
  fix c :: keyed_container
  show "triple (\<lambda>w. ?Q c (k_log w)) (bind_io (logged (\<lambda>s. [Remembered s]) (outside (st_loadKeyState (x_store x) (c_id c)))) (\<lambda>prior.
       let rollback = snd (guardContainer c prior); known = raiseFloor prior c in
       bind_io (on_floor x (c_id c) \<lparr>shared = shared known, generation = generation known\<rparr>) (\<lambda>_.
       bind_io (if shared known \<noteq> shared prior \<or> generation known \<noteq> generation prior then save_state x (c_id c) known else ret False) (\<lambda>_.
       bind_io (note_event (ReadingEnvelopes (c_id c))) (\<lambda>_.
       bind_io (outside (api_envelopes (x_api x) (c_id c))) (\<lambda>envelopes.
       bind_io (outside (api_members (x_api x) (c_id c))) (\<lambda>listed.
       bind_io (read_identities x listed) (\<lambda>members.
         pass_rest x \<lparr>px_container = c, px_known = known, px_envelopes = envelopes, px_members = members\<rparr> rollback attempt))))))))
     (\<lambda>_. safe_at L me) (safe_at L me)"
  proof (rule triple_bind)
    show "triple (\<lambda>w. ?Q c (k_log w)) (logged (\<lambda>s. [Remembered s]) (outside (st_loadKeyState (x_store x) (c_id c))))
        (\<lambda>s w. ok_at L me c s w) (safe_at L me)"
      by (rule triple_conseq [OF logged_log [OF outside_log [of "?Q c"], where Q = "\<lambda>s. log_ok L me c s"]])
        (auto simp: log_ok_def in_pass_read)
    fix s :: key_state
    let ?f = "\<lparr>shared = shared (raiseFloor s c), generation = generation (raiseFloor s c)\<rparr>"
    let ?F = "\<lambda>es. log_ok L me c s es \<and> Floored (c_id c) ?f \<in> set es"
    have floored: "triple (ok_at L me c s) (on_floor x (c_id c) ?f) (\<lambda>_ w. ?F (k_log w)) (safe_at L me)"
      by (rule triple_pre [OF on_floor_log [of ?F]]) (simp add: log_ok_snoc)
    have saved: "triple (\<lambda>w. ?F (k_log w)) (if b then save_state x (c_id c) k else ret False) (\<lambda>_ w. ?F (k_log w)) (safe_at L me)" for b k
      by (rule triple_if, rule triple_pre [OF save_state_log [of ?F]], simp add: log_ok_snoc, rule triple_ret)
    have reading: "triple (\<lambda>w. ?F (k_log w)) (note_event (ReadingEnvelopes (c_id c))) (\<lambda>_. ok_at L me c s) (safe_at L me)"
      by (rule triple_pre [OF note_log [of "log_ok L me c s"]]) (auto simp: log_ok_def)
    show "triple (ok_at L me c s) (let rollback = snd (guardContainer c s); known = raiseFloor s c in
       bind_io (on_floor x (c_id c) \<lparr>shared = shared known, generation = generation known\<rparr>) (\<lambda>_.
       bind_io (if shared known \<noteq> shared s \<or> generation known \<noteq> generation s then save_state x (c_id c) known else ret False) (\<lambda>_.
       bind_io (note_event (ReadingEnvelopes (c_id c))) (\<lambda>_.
       bind_io (outside (api_envelopes (x_api x) (c_id c))) (\<lambda>envelopes.
       bind_io (outside (api_members (x_api x) (c_id c))) (\<lambda>listed.
       bind_io (read_identities x listed) (\<lambda>members.
         pass_rest x \<lparr>px_container = c, px_known = known, px_envelopes = envelopes, px_members = members\<rparr> rollback attempt)))))))
       (\<lambda>_. safe_at L me) (safe_at L me)"
      unfolding Let_def
      by (rule triple_bind [OF floored], rule triple_bind [OF saved], rule triple_bind [OF reading], rule triple_bind [OF outside_ok],
          rule triple_bind [OF outside_ok], rule triple_bind [OF read_identities_ok], rule pass_rest_safe [OF _ L me]) simp_all
  qed
qed

lemma save_latest_safe: "triple (safe_at L me) (save_latest x) (\<lambda>_. safe_at L me) E"
proof (rule tripleI)
  fix w :: "'a key_world"
  assume safe: "safe_at L me w"
  show "case save_latest x w of (Inr _, w') \<Rightarrow> safe_at L me w' | (Inl e, w') \<Rightarrow> E w'"
  proof (cases "k_latest w")
    case (Some cs)
    obtain cid st where cs: "cs = (cid, st)" by (cases cs)
    obtain r w' where run: "save_state x cid st w = (r, w')" by (cases "save_state x cid st w")
    have "triple (\<lambda>w. safe_log L me (k_log w @ [Saving cid st])) (save_state x cid st) (\<lambda>_. safe_at L me) (\<lambda>_. False)"
      by (rule save_state_log)
    with safe run have "case r of Inr _ \<Rightarrow> safe_at L me w' | Inl e \<Rightarrow> False" by (fastforce simp: triple_def split: sum.splits)
    with Some cs run show ?thesis by (auto simp: save_latest_def split: sum.splits)
  qed (simp add: save_latest_def safe)
qed

lemma key_attempt_safe:
  assumes "x_lib x = L" "me_of (x_caller x) = Some me \<or> me_of (x_caller x) = None"
  shows "triple (safe_at L me) (key_attempt x n) (\<lambda>_. safe_at L me) (safe_at L me)"
  unfolding key_attempt_def
  apply (rule triple_bind [OF quiet_log(5) [of "safe_log L me"]])
  apply (rule triple_bind [where R = "\<lambda>_. safe_at L me"])
   apply (rule triple_catch [OF key_pass_once_safe [OF assms]])
   apply (rule triple_bind [OF save_latest_safe], rule triple_throw, assumption)
  apply (rule triple_bind_ret [OF save_latest_safe])
  apply assumption
  done

section \<open>The confirmation loop ends\<close>

definition members_ok :: "member_key list \<Rightarrow> bool" where
  "members_ok ms \<longleftrightarrow> distinct (map userId ms)"

lemma same_member: "members_ok ms \<Longrightarrow> m \<in> set ms \<Longrightarrow> n \<in> set ms \<Longrightarrow> userId m = userId n \<Longrightarrow> m = n"
  unfolding members_ok_def by (auto simp: distinct_map inj_on_def)

definition differs :: "pins \<Rightarrow> member_key \<Rightarrow> bool" where
  "differs ps m \<longleftrightarrow> (\<exists>i p. m_identity m = Some i \<and> map_of ps (userId m) = Some p \<and> \<not> sameKey p (idn_key i))"

text \<open>Pins met while a ring is opened are old ones or a member's own valid key, so what is reported as changed differs from an old pin.\<close>

definition changed_ok :: "pins \<Rightarrow> member_key list \<Rightarrow> opened_keyring \<Rightarrow> bool" where
  "changed_ok ps ms st \<longleftrightarrow>
     (\<forall>u k. map_of (ok_pins st) u = Some k \<longrightarrow> map_of ps u = Some k \<or>
        (\<exists>m \<in> set ms. \<exists>i. userId m = u \<and> m_identity m = Some i \<and> k = idn_key i \<and> validKey k)) \<and>
     (\<forall>ch \<in> set (ok_changed st). pc_member ch \<in> set ms \<and> differs ps (pc_member ch))"

lemma changed_ok_same: "changed_ok ps ms st \<Longrightarrow> ok_pins st' = ok_pins st \<Longrightarrow> ok_changed st' = ok_changed st \<Longrightarrow> changed_ok ps ms st'"
  by (simp add: changed_ok_def)

lemma accept_changed: "ok_changed (snd (accept L g key st)) = ok_changed st"
  by (simp add: accept_def Let_def)

lemma changed_accept: "changed_ok ps ms st \<Longrightarrow> changed_ok ps ms (snd (accept L g key st))"
  by (erule changed_ok_same) (simp_all add: accept_other accept_changed)

lemma changed_accept_current:
  assumes "changed_ok ps ms st"
    and "\<And>m i. first = Some (m, i) \<Longrightarrow> m \<in> set ms \<and> m_identity m = Some i \<and> validKey (idn_key i)"
  shows "changed_ok ps ms (accept_current L g key first st)"
proof -
  obtain b st' where a: "accept L g key st = (b, st')" by (cases "accept L g key st")
  have st': "changed_ok ps ms st'" using changed_accept [OF assms(1), of L g key] a by simp
  show ?thesis
  proof (cases "b \<and> first \<noteq> None")
    case True
    then obtain m i where f: "first = Some (m, i)" by (cases first) auto
    with True st' assms(2) [OF f] a show ?thesis
      by (auto simp: accept_current_def changed_ok_def Let_def)
  next
    case False
    then have "ok_pins (accept_current L g key first st) = ok_pins st'" "ok_changed (accept_current L g key first st) = ok_changed st'"
      using a by (cases b; cases first; simp add: accept_current_def Let_def)+
    with st' show ?thesis by (rule changed_ok_same)
  qed
qed

lemma sender_Steward:
  assumes "sender_of me ms ps sender = Steward m i pinned"
  shows "m \<in> set ms \<and> m_identity m = Some i \<and> pinned = map_of ps (userId m)"
  using assms by (auto simp: sender_of_def dest: find_SomeD split: if_splits option.splits)

lemma changed_note:
  assumes "changed_ok ps ms st" "members_ok ms" "m \<in> set ms" "m_identity m = Some i" "map_of (ok_pins st) (userId m) = Some p" "\<not> sameKey p (idn_key i)"
  shows "changed_ok ps ms (note_changed m p st)"
proof -
  have "map_of ps (userId m) = Some p"
  proof (rule ccontr)
    assume "map_of ps (userId m) \<noteq> Some p"
    with assms(1,5) obtain n j where n: "n \<in> set ms" "userId n = userId m" "m_identity n = Some j" "p = idn_key j" "validKey p"
      unfolding changed_ok_def by blast
    with same_member [OF assms(2) n(1) assms(3)] assms(4,6) show False by (simp add: sameKey_refl)
  qed
  with assms show ?thesis by (auto simp: changed_ok_def note_changed_def differs_def)
qed

lemma changed_judged:
  assumes ok: "changed_ok ps ms st" "members_ok ms" and view: "view = sender_of me ms (ok_pins st) sender"
  shows "changed_ok ps ms (fst (judged_row L me c row env view st later))"
proof (cases view)
  case (Steward m i pinned)
  note s = sender_Steward [OF Steward [unfolded view]]
  show ?thesis
  proof (cases "pinned \<noteq> None \<and> \<not> sameKey (the pinned) (idn_key i)")
    case True
    then have "changed_ok ps ms (note_changed m (the pinned) st)" using s ok by (intro changed_note) auto
    with True Steward show ?thesis by (simp add: judged_row_def Let_def)
  next
    case False
    with Steward s ok show ?thesis
      by (auto simp: judged_row_def Let_def validKey_iff intro!: changed_accept_current split: sum.splits option.splits)
  qed
qed (use ok in \<open>auto simp: judged_row_def Let_def intro!: changed_accept_current split: option.splits\<close>)

lemma changed_current:
  "changed_ok ps ms (fst acc) \<Longrightarrow> members_ok ms \<Longrightarrow> changed_ok ps ms (fst (current_row L me c ms row acc))"
  by (auto simp: current_row_def Let_def changed_judged split: prod.splits sum.splits)

lemma changed_history: "changed_ok ps ms st \<Longrightarrow> changed_ok ps ms (history_row L me c ks d st)"
  by (auto simp: history_row_def changed_accept split: prod.splits list.splits)

lemma open_ring_changed:
  assumes "members_ok (px_members c)" "ch \<in> set (ok_changed (open_ring x c ps rows ring))"
  shows "pc_member ch \<in> set (px_members c)" "differs ps (pc_member ch)"
proof -
  have "changed_ok ps (px_members c) (open_ring x c ps rows ring)"
    by (rule open_ring_keeps) (auto simp: changed_accept changed_current [OF _ assms(1)] changed_history, simp add: changed_ok_def)
  with assms(2) show "pc_member ch \<in> set (px_members c)" "differs ps (pc_member ch)" by (auto simp: changed_ok_def)
qed

lemma targets_members: "set (targets x (fst (plan_sweep x c container opened rows))) \<subseteq> set (px_members c)"
proof -
  have planned: "set (case planSweep container u ms rows ring rec of SweepMint recipients \<Rightarrow> recipients | SweepWrap grants \<Rightarrow> map fst grants | _ \<Rightarrow> []) \<subseteq> set ms"
    for u ms ring rec
    by (auto simp: planSweep_def missing_generations_def Let_def split: option.splits if_splits)
  have worked: "set (case plan_work x c container opened rows of SweepMint recipients \<Rightarrow> recipients | SweepWrap grants \<Rightarrow> map fst grants | _ \<Rightarrow> []) \<subseteq> set (px_members c)"
    using planned [of "cl_userId (x_caller x)" "px_members c" "ok_ring opened" "cl_recoverable (x_caller x)"]
    by (cases "planSweep container (cl_userId (x_caller x)) (px_members c) rows (ok_ring opened) (cl_recoverable (x_caller x))")
      (auto simp: plan_work_def Let_def)
  show ?thesis
    using worked by (auto simp: targets_def plan_sweep_def Let_def split: sweep_plan.splits)
qed

lemma uniqueBy_set: "set (uniqueBy f xs) \<subseteq> set xs"
  by (auto simp: uniqueBy_def)

lemma waiting_differ:
  assumes "members_ok (px_members c)" "opened = open_ring x c ps (px_envelopes c) None" "sweep = fst (plan_sweep x c container opened rows)"
    and "ch \<in> set (pending_changes x ps opened sweep)"
  shows "pc_member ch \<in> set (px_members c) \<and> differs ps (pc_member ch)"
proof -
  have "ch \<in> set (ok_changed opened) \<or> ch \<in> set (snd (comparePins ps (targets x sweep)))"
    using assms(4) uniqueBy_set by (fastforce simp: pending_changes_def)
  then show ?thesis
  proof
    assume "ch \<in> set (ok_changed opened)"
    with open_ring_changed [OF assms(1)] assms(2) show ?thesis by blast
  next
    assume "ch \<in> set (snd (comparePins ps (targets x sweep)))"
    then have "pc_member ch \<in> set (filter (is_changed ps) (targets x sweep))"
      by (metis comparePins_spec(2) image_eqI list.set_map)
    with targets_members [of x c container opened rows] assms(3) show ?thesis
      by (auto simp: is_changed_def differs_def)
  qed
qed

definition pinned_to :: "pins \<Rightarrow> pin_change \<Rightarrow> bool" where
  "pinned_to ps ch \<longleftrightarrow> (\<exists>i. m_identity (pc_member ch) = Some i \<and> validKey (idn_key i) \<and> map_of ps (userId (pc_member ch)) = Some (idn_key i))"

lemma pinned_not_differs: "pinned_to ps ch \<Longrightarrow> \<not> differs ps (pc_member ch)"
  by (auto simp: pinned_to_def differs_def sameKey_refl)

lemma pinned_kept:
  assumes ok: "members_ok ms" "\<forall>d \<in> set (ch # changes). pc_member d \<in> set ms"
    and f: "pf_pins f = AList.update (userId (pc_member ch)) (pf_key f) ps" "m_identity (pc_member ch) = Some i" "pf_key f = idn_key i" "validKey (idn_key i)"
    and rest: "\<forall>u. u \<notin> (\<lambda>ch. userId (pc_member ch)) ` set changes \<longrightarrow> map_of ps' u = map_of (pf_pins f) u" "\<forall>d \<in> set changes. pinned_to ps' d"
  shows "pinned_to ps' ch"
proof (cases "userId (pc_member ch) \<in> (\<lambda>ch. userId (pc_member ch)) ` set changes")
  case True
  then obtain d where d: "d \<in> set changes" "userId (pc_member d) = userId (pc_member ch)" by auto
  with same_member [OF ok(1)] ok(2) have "pc_member d = pc_member ch" by auto
  with rest(2) d(1) show ?thesis by (auto simp: pinned_to_def)
next
  case False
  with rest(1) f show ?thesis by (simp add: pinned_to_def)
qed

lemma confirm_all_pins:
  assumes "members_ok ms" "\<forall>ch \<in> set changes. pc_member ch \<in> set ms"
  shows "triple (\<lambda>_. True) (confirm_all x changes ps)
    (\<lambda>r _. \<forall>ps'. r = Some ps' \<longrightarrow> (\<forall>u. u \<notin> (\<lambda>ch. userId (pc_member ch)) ` set changes \<longrightarrow> map_of ps' u = map_of ps u) \<and> (\<forall>ch \<in> set changes. pinned_to ps' ch)) (\<lambda>_. True)"
  using assms(2)
proof (induction changes arbitrary: ps)
  case Nil
  show ?case unfolding confirm_all.simps by (rule triple_ret) simp
next
  case (Cons ch changes)
  let ?m = "pc_member ch"
  have any: "triple (\<lambda>_. True) (confirm_pin x f e) (\<lambda>_ _. True) (\<lambda>_. True)" for f e by (simp add: triple_def split: prod.splits sum.splits)
  have mint: "triple (\<lambda>_. True) (mint_confirmation ps ?m)
      (\<lambda>f _. pf_pins f = AList.update (userId ?m) (pf_key f) ps \<and> (\<exists>i. m_identity ?m = Some i \<and> pf_key f = idn_key i \<and> validKey (idn_key i))) (\<lambda>_. True)"
    by (rule triple_conseq [OF mint_log [of "\<lambda>_. True"]]) auto
  show ?case
    unfolding confirm_all.simps
    apply (rule triple_bind [OF mint])
    apply (rule triple_pull [where P = "\<lambda>_. True", simplified])
    apply (rule triple_bind [OF any])
    apply (rule triple_if, rule triple_ret, simp)
    subgoal for f ok
    proof (rule triple_conseq [OF Cons.IH [of "pf_pins f"]])
      assume f: "pf_pins f = AList.update (userId ?m) (pf_key f) ps \<and> (\<exists>i. m_identity ?m = Some i \<and> pf_key f = idn_key i \<and> validKey (idn_key i))"
      show "\<forall>ch \<in> set changes. pc_member ch \<in> set ms" using Cons.prems by simp
      fix r
      assume rest: "\<forall>ps'. r = Some ps' \<longrightarrow> (\<forall>u. u \<notin> (\<lambda>ch. userId (pc_member ch)) ` set changes \<longrightarrow> map_of ps' u = map_of (pf_pins f) u) \<and>
          (\<forall>ch \<in> set changes. pinned_to ps' ch)"
      show "\<forall>ps'. r = Some ps' \<longrightarrow> (\<forall>u. u \<notin> (\<lambda>ch. userId (pc_member ch)) ` set (ch # changes) \<longrightarrow> map_of ps' u = map_of ps u) \<and>
          (\<forall>ch \<in> set (ch # changes). pinned_to ps' ch)"
      proof (intro allI impI conjI)
        fix ps'
        assume r: "r = Some ps'"
        obtain i where i: "m_identity ?m = Some i" "pf_key f = idn_key i" "validKey (idn_key i)" using f by blast
        from rest r have tail: "\<forall>u. u \<notin> (\<lambda>ch. userId (pc_member ch)) ` set changes \<longrightarrow> map_of ps' u = map_of (pf_pins f) u"
          "\<forall>ch \<in> set changes. pinned_to ps' ch" by blast+
        show "map_of ps' u = map_of ps u" if "u \<notin> (\<lambda>ch. userId (pc_member ch)) ` set (ch # changes)" for u
          using tail(1) f that by simp
        show "\<forall>ch \<in> set (ch # changes). pinned_to ps' ch" using pinned_kept [OF assms(1) Cons.prems conjunct1 [OF f] i tail] tail(2) by simp
      qed
    qed simp_all
    done
qed

definition differing :: "pins \<Rightarrow> member_key list \<Rightarrow> string set" where
  "differing ps ms = userId ` {m \<in> set ms. differs ps m}"

lemma finite_differing [simp]: "finite (differing ps ms)"
  by (simp add: differing_def)

lemma round_shrinks:
  assumes ok: "members_ok ms" and waiting: "waiting \<noteq> []" "\<And>ch. ch \<in> set waiting \<Longrightarrow> pc_member ch \<in> set ms \<and> differs ps (pc_member ch)"
    and kept: "\<forall>u. u \<notin> (\<lambda>ch. userId (pc_member ch)) ` set waiting \<longrightarrow> map_of ps' u = map_of ps u" "\<forall>ch \<in> set waiting. pinned_to ps' ch"
  shows "card (differing ps' ms) < card (differing ps ms)"
proof (rule psubset_card_mono)
  have old: "differs ps m" if m: "m \<in> set ms" "differs ps' m" for m
  proof (cases "userId m \<in> (\<lambda>ch. userId (pc_member ch)) ` set waiting")
    case True
    then obtain ch where ch: "ch \<in> set waiting" "userId (pc_member ch) = userId m" by auto
    with same_member [OF ok _ m(1), of "pc_member ch"] waiting(2) have "pc_member ch = m" by blast
    with pinned_not_differs [of ps' ch] kept(2) ch(1) m(2) show ?thesis by blast
  next
    case False
    with kept(1) m(2) show ?thesis by (auto simp: differs_def)
  qed
  obtain ch where ch: "ch \<in> set waiting" using waiting(1) by (cases waiting) auto
  have gone: "userId (pc_member ch) \<notin> differing ps' ms"
  proof
    assume "userId (pc_member ch) \<in> differing ps' ms"
    then obtain m where m: "m \<in> set ms" "differs ps' m" "userId m = userId (pc_member ch)" by (auto simp: differing_def)
    with same_member [OF ok m(1), of "pc_member ch"] waiting(2) [OF ch] have "m = pc_member ch" by auto
    with pinned_not_differs kept(2) ch m(2) show False by blast
  qed
  have "userId (pc_member ch) \<in> differing ps ms" using waiting(2) [OF ch] by (auto simp: differing_def)
  with gone old show "differing ps' ms \<subset> differing ps ms" by (auto simp: differing_def)
qed simp

lemma settle_enough_fuel:
  assumes ok: "members_ok (px_members c)"
    and "opened = open_ring x c ps (px_envelopes c) None" "sweep = fst (plan_sweep x c container opened rows)"
    and "card (differing ps (px_members c)) \<le> fuel"
  shows "triple (\<lambda>_. True) (settle_changes fuel x c ps opened sweep v) (\<lambda>r _. r \<noteq> OutOfFuel) (\<lambda>_. True)"
  using assms(2-4)
proof (induction fuel arbitrary: ps opened sweep container rows v)
  case 0
  then have "\<not> differs ps m" if "m \<in> set (px_members c)" for m using that by (auto simp: differing_def)
  with waiting_differ [OF ok 0(1,2)] have "pending_changes x ps opened sweep = []" by (metis list.set_intros(1) neq_Nil_conv)
  then have "settle_changes 0 x c ps opened sweep v = ret (Settled ps opened sweep v)" by (subst settle_changes.simps) (simp add: Let_def del: io_simps)
  then show ?case by (simp add: triple_def)
next
  case (Suc n)
  define waiting where "waiting = pending_changes x ps opened sweep"
  define v1 where "v1 = v\<lparr>v_changed := v_changed v @ waiting\<rparr>"
  have differ: "pc_member ch \<in> set (px_members c) \<and> differs ps (pc_member ch)" if "ch \<in> set waiting" for ch
    using waiting_differ [OF ok Suc.prems(1,2)] that by (simp add: waiting_def)
  have any: "triple P m (\<lambda>_ _. True) (\<lambda>_. True)" for P and m :: "('a key_world, 'b) io" by (simp add: triple_def split: prod.splits sum.splits)
  have stop: "triple P (bind_io (stopped x c v1 plan []) (\<lambda>r. ret (Stopped r))) (\<lambda>r _. r \<noteq> OutOfFuel) (\<lambda>_. True)" for P plan
    by (rule triple_bind_ret [where R = "\<lambda>_. True"]) (simp_all add: triple_def split: prod.splits sum.splits)
  have again: "triple (\<lambda>_. (\<forall>u. u \<notin> (\<lambda>ch. userId (pc_member ch)) ` set waiting \<longrightarrow> map_of ps' u = map_of ps u) \<and> (\<forall>ch \<in> set waiting. pinned_to ps' ch))
      (let opened' = open_ring x c ps' (px_envelopes c) None; (sweep', deferred) = plan_sweep x c (v_container v1) opened' (px_envelopes c) in
       settle_changes n x c ps' opened' sweep' (v1\<lparr>v_deferred := deferred\<rparr>)) (\<lambda>r _. r \<noteq> OutOfFuel) (\<lambda>_. True)" if w: "waiting \<noteq> []" for ps'
  proof (rule triple_pull [where P = "\<lambda>_. True", simplified])
    assume kept: "(\<forall>u. u \<notin> (\<lambda>ch. userId (pc_member ch)) ` set waiting \<longrightarrow> map_of ps' u = map_of ps u) \<and> (\<forall>ch \<in> set waiting. pinned_to ps' ch)"
    have "card (differing ps' (px_members c)) \<le> n"
      using round_shrinks [OF ok w differ conjunct1 [OF kept] conjunct2 [OF kept]] Suc.prems(3) by simp
    then show "triple (\<lambda>_. True) (let opened' = open_ring x c ps' (px_envelopes c) None; (sweep', deferred) = plan_sweep x c (v_container v1) opened' (px_envelopes c) in
       settle_changes n x c ps' opened' sweep' (v1\<lparr>v_deferred := deferred\<rparr>)) (\<lambda>r _. r \<noteq> OutOfFuel) (\<lambda>_. True)"
      unfolding Let_def case_prod_beta by (intro Suc.IH [OF refl refl])
  qed
  show ?case
    unfolding settle_changes.simps [of "Suc n"] Let_def waiting_def [symmetric] v1_def [symmetric] nat.case
    apply (rule triple_if, rule triple_ret, simp)
    apply (rule triple_bind [OF outside_log [of "\<lambda>_. True"]])
    apply (rule triple_if, rule stop)
    apply (rule triple_bind [OF confirm_all_pins [OF ok]], use differ in blast)
    subgoal for yes kept using stop again [simplified Let_def] by (cases kept) auto
    done
qed

lemma differing_bound: "card (differing ps ms) \<le> length ms"
proof -
  have "differing ps ms \<subseteq> userId ` set ms" by (auto simp: differing_def)
  then have "card (differing ps ms) \<le> card (userId ` set ms)" by (intro card_mono) simp_all
  also have "\<dots> \<le> length ms" by (rule order_trans [OF card_image_le]) (simp_all add: card_length)
  finally show ?thesis .
qed

definition conclusive :: "nat \<Rightarrow> attempt_outcome \<Rightarrow> bool" where
  "conclusive attempt r \<longleftrightarrow> r \<noteq> NoFuel \<and> (attempt > 0 \<longrightarrow> r \<noteq> Retry)"

lemma any_triple: "triple P m (\<lambda>_ _. True) (\<lambda>_. True)"
  by (simp add: triple_def split: prod.splits sum.splits)

lemma done_conclusive: "triple P (bind_io m (\<lambda>r. ret (Done r))) (\<lambda>r _. conclusive n r) (\<lambda>_. True)"
  by (rule triple_bind_ret [where R = "\<lambda>_. True"]) (simp_all add: triple_def conclusive_def split: prod.splits sum.splits)

lemma finish_write_conclusive:
  "triple (\<lambda>_. True) (finish_write x c me n v ps opened sweep rows fresh) (\<lambda>r _. conclusive n r) (\<lambda>_. True)"
proof -
  have sent: "triple (\<lambda>_. True) (catch_io (bind_io (send_rows x c v sweep rows) (\<lambda>container. ret (Some container)))
      (\<lambda>e. if err_code e \<noteq> Some ''already_exists'' \<or> n > 0 then throw e else bind_io (push_carried fresh) (\<lambda>_. ret None)))
      (\<lambda>r _. n > 0 \<longrightarrow> r \<noteq> None) (\<lambda>_. True)"
    apply (rule triple_catch [where R = "\<lambda>_. True"])
     apply (rule triple_bind_ret [where R = "\<lambda>_. True", OF any_triple], simp)
    apply (rule triple_if, rule triple_throw, simp, rule triple_bind_ret [where R = "\<lambda>_. True", OF any_triple], simp)
    done
  show ?thesis
    unfolding finish_write_def
  proof (rule triple_bind [OF sent])
    fix r
    show "triple (\<lambda>_. n > 0 \<longrightarrow> r \<noteq> None) (case r of None \<Rightarrow> ret Retry | Some container \<Rightarrow>
         let v1 = v\<lparr>v_container := container, v_seen := px_envelopes c @ rows\<rparr> in
         (case sweep of
            SweepWrap _ \<Rightarrow> bind_io (pass_result c v1 (ok_ring opened) (Planned sweep) False fresh opened) (\<lambda>r. ret (Done r))
          | _ \<Rightarrow> bind_io (trusted container (open_ring x c ps (v_seen v1) (Some (ok_ring opened)))) (\<lambda>after.
              bind_io (wrap_history x c me v1 ps after fresh) (\<lambda>(v2, fresh').
              bind_io (pass_result c v2 (ok_ring after) (Planned sweep) True fresh' after) (\<lambda>r. ret (Done r)))))) (\<lambda>r _. conclusive n r) (\<lambda>_. True)"
      by (cases r; cases sweep)
        (auto simp: Let_def case_prod_beta simp del: io_simps intro!: triple_ret done_conclusive triple_bind [OF any_triple],
         auto simp: conclusive_def)
  qed
qed

lemma after_settled_conclusive:
  "triple (\<lambda>_. True) (after_settled x c n opened sweep v) (\<lambda>r _. conclusive n r) (\<lambda>_. True)"
proof -
  have ws: "triple (\<lambda>_. True) (write_sweep x c me n v opened sweep) (\<lambda>r _. conclusive n r) (\<lambda>_. True)" for me sweep
    unfolding write_sweep_def
    apply (rule triple_bind [OF any_triple])
    subgoal for r
      apply (cases r, simp only: prod.case)
      apply (rule triple_bind [OF any_triple])
      subgoal for rows ps fresh f using finish_write_conclusive done_conclusive by (cases f) auto
      done
    done
  show ?thesis
    unfolding after_settled_def
    apply (rule triple_bind [OF any_triple])
    subgoal for f
      apply (cases f)
       apply (simp only: option.case, rule triple_bind [OF any_triple])
       apply (cases sweep; cases "me_of (x_caller x)"; simp only: prod.case sweep_plan.case option.case)
              apply ((rule ws | rule done_conclusive)+)[8]
      apply (simp only: option.case, rule done_conclusive)
      done
    done
qed

lemma pass_rest_conclusive:
  assumes "members_ok (px_members c)"
  shows "triple (\<lambda>_. True) (pass_rest x c rollback n) (\<lambda>r _. conclusive n r) (\<lambda>_. True)"
  unfolding pass_rest_def
proof (rule triple_bind [OF any_triple])
  fix ps
  define opened where "opened = open_ring x c ps (px_envelopes c) None"
  obtain sweep deferred where plan: "plan_sweep x c (px_container c) opened (px_envelopes c) = (sweep, deferred)"
    by (cases "plan_sweep x c (px_container c) opened (px_envelopes c)")
  have settle: "triple (\<lambda>_. True) (settle_changes (length (px_members c)) x c ps opened sweep v) (\<lambda>r _. r \<noteq> OutOfFuel) (\<lambda>_. True)" for v
    by (rule settle_enough_fuel [OF assms opened_def _ differing_bound, where container = "px_container c" and rows = "px_envelopes c"]) (simp add: plan)
  have rollback: "triple (\<lambda>_. True) (rollback_pass x c opened) (\<lambda>r _. conclusive n r) (\<lambda>_. True)"
    unfolding rollback_pass_def by (rule triple_bind_ret [where R = "\<lambda>_. True", OF any_triple]) (simp add: conclusive_def)
  show "triple (\<lambda>_. True) (let opened = open_ring x c ps (px_envelopes c) None in
     if rollback then rollback_pass x c opened
     else let (sweep, deferred) = plan_sweep x c (px_container c) opened (px_envelopes c);
              v = \<lparr>v_container = px_container c, v_changed = [], v_seen = px_envelopes c, v_deferred = deferred\<rparr> in
       bind_io (settle_changes (length (px_members c)) x c ps opened sweep v) (\<lambda>r. case r of
         OutOfFuel \<Rightarrow> ret NoFuel | Stopped r \<Rightarrow> ret (Done r) | Settled ps' opened' sweep' v' \<Rightarrow> after_settled x c n opened' sweep' v'))
     (\<lambda>r _. conclusive n r) (\<lambda>_. True)"
    unfolding Let_def opened_def [symmetric] plan prod.case
    apply (rule triple_if, rule rollback)
    apply (rule triple_bind [OF settle])
    subgoal for r
      apply (cases r; simp only: settled.case)
        apply (rule triple_pre [OF after_settled_conclusive], simp)
       apply (rule triple_ret, simp add: conclusive_def)
      apply (simp add: triple_def)
      done
    done
qed

lemma read_identities_ids: "triple (\<lambda>_. True) (read_identities x ms) (\<lambda>r _. map userId r = map userId ms) (\<lambda>_. True)"
proof (induction ms)
  case Nil
  show ?case unfolding read_identities.simps by (rule triple_ret) simp
next
  case (Cons m ms)
  show ?case
    unfolding read_identities.simps
    by (rule triple_bind [OF any_triple], rule triple_bind [OF Cons.IH], rule triple_ret) simp
qed

lemma key_pass_once_conclusive:
  assumes "\<And>cid w ms w'. api_members (x_api x) cid w = (Inr ms, w') \<Longrightarrow> distinct (map userId ms)"
  shows "triple (\<lambda>_. True) (key_pass_once x n) (\<lambda>r _. conclusive n r) (\<lambda>_. True)"
proof -
  have listed: "triple (\<lambda>_. True) (outside (api_members (x_api x) cid)) (\<lambda>ms _. distinct (map userId ms)) (\<lambda>_. True)" for cid
    using assms by (auto simp: triple_def outside_def Let_def split: prod.splits sum.splits)
  have members: "triple (\<lambda>_. distinct (map userId ms)) (read_identities x ms) (\<lambda>r _. members_ok r) (\<lambda>_. True)" for ms
    by (rule triple_pull [where P = "\<lambda>_. True", simplified], rule triple_conseq [OF read_identities_ids]) (simp_all add: members_ok_def)
  show ?thesis
    unfolding key_pass_once_def Let_def
    apply (rule triple_bind [OF any_triple], rule triple_bind [OF any_triple], rule triple_bind [OF any_triple])
    apply (rule triple_bind [OF any_triple], rule triple_bind [OF any_triple], rule triple_bind [OF any_triple])
    apply (rule triple_bind [OF listed], rule triple_bind [OF members])
    apply (rule triple_pull [where P = "\<lambda>_. True", simplified], rule pass_rest_conclusive)
    apply simp
    done
qed

section \<open>A concrete pass\<close>

definition demo_self :: member_key where
  "demo_self = \<lparr>userId = ''u'', username = ''u'', role = ''owner'', keyResetAt = None, approved = None, pendingRole = None, m_identity = None\<rparr>"

definition demo_key_api :: "unit key_api" where
  "demo_key_api = \<lparr>api_container = (\<lambda>_ w. (Inr \<lparr>c_id = demo_cnt, keyGeneration = 0, sharedGeneration = 0\<rparr>, w)),
     api_envelopes = (\<lambda>_ w. (Inr [], w)), api_members = (\<lambda>_ w. (Inr [demo_self], w)), api_userIdentity = (\<lambda>_ w. (Inr None, w)),
     api_stepUp = (\<lambda>w. (Inr (), w)), api_putEnvelopes = (\<lambda>_ _ w. (Inr (), w)), api_rotate = (\<lambda>_ _ _ w. (Inl (Error ''offline''), w))\<rparr>"

definition demo_pin_store :: "unit pin_store" where
  "demo_pin_store = \<lparr>st_load = (\<lambda>w. (Inr [], w)), st_addFresh = (\<lambda>_ w. (Inr PinsOk, w)), st_confirm = (\<lambda>_ _ _ w. (Inr True, w)),
     st_loadKeyState = (\<lambda>_ w. (Inr no_state, w)), st_saveKeyState = (\<lambda>_ _ w. (Inr True, w))\<rparr>"

definition demo_env :: "unit sync_env" where
  "demo_env = \<lparr>x_lib = demo_lib, x_api = demo_key_api, x_containerID = demo_cnt,
     x_caller = \<lparr>cl_userId = ''u'', cl_identity = Some (demo_identity\<lparr>deviceId := demo_dev (CHR ''a'')\<rparr>), cl_canWrap = True, cl_recoverable = True\<rparr>,
     x_store = demo_pin_store, x_confirmChanged = (\<lambda>_ w. (Inr True, w)), x_held = [], x_onFloor = (\<lambda>_ _ w. w)\<rparr>"

definition demo_world :: "unit key_world" where
  "demo_world = \<lparr>k_outside = (), k_minted = [], k_random = (\<lambda>_. replicate 32 7), k_drawn = 0, k_latest = None, k_carried = [], k_log = []\<rparr>"

lemma sync_safe:
  assumes "me_of (x_caller x) = Some me"
  shows "triple (safe_at (x_lib x) me) (syncContainerKeys x) (\<lambda>_. safe_at (x_lib x) me) (safe_at (x_lib x) me)"
proof -
  note attempt = key_attempt_safe [OF refl disjI1 [OF assms]]
  have last_attempt: "triple (safe_at (x_lib x) me) (bind_io (key_attempt x 1) (\<lambda>(second, kept'). case second of
      Done r \<Rightarrow> ret (r, kept') | NoFuel \<Rightarrow> throw (Error ''endless confirmation'') | Retry \<Rightarrow> throw TypeError))
      (\<lambda>_. safe_at (x_lib x) me) (safe_at (x_lib x) me)"
    apply (rule triple_bind [OF attempt])
    subgoal for r by (cases r; cases "fst r") (auto intro: triple_ret triple_throw simp del: io_simps)
    done
  show ?thesis
    unfolding syncContainerKeys_def
    apply (rule triple_bind [OF attempt])
    subgoal for r using last_attempt by (cases r; cases "fst r") (auto intro: triple_ret triple_throw simp del: io_simps)
    done
qed

lemma sync_log:
  assumes "me_of (x_caller x) = Some me" "k_log w = []" "syncContainerKeys x w = (r, w')" "k_log w' = xs @ e # ys"
  shows "allowed_last (x_lib x) me xs e"
proof -
  have "safe_at (x_lib x) me w'"
    using tripleD [OF sync_safe [OF assms(1)], of w _ w'] assms(2,3) by (cases r) auto
  with assms(4) show ?thesis by (auto simp: safe_log_def)
qed

fun writes :: "key_event \<Rightarrow> bool" where
  "writes (Sending _ _) = True"
| "writes (PinsAdding _) = True"
| "writes (Confirming _) = True"
| "writes _ = False"

fun is_sending :: "key_event \<Rightarrow> bool" where
  "is_sending (Sending _ _) = True"
| "is_sending _ = False"

definition demo_me :: me where
  "demo_me = \<lparr>publicKey = publicKey demo_identity, privateKey = privateKey demo_identity, deviceId = demo_dev (CHR ''a''), me_userId = ''u''\<rparr>"

lemma demo_me_of: "me_of (x_caller demo_env) = Some demo_me" "k_log demo_world = []"
  by (simp_all add: me_of_def demo_env_def demo_me_def demo_world_def)

definition demo_keyed :: member_key where
  "demo_keyed = demo_self\<lparr>m_identity := Some \<lparr>idn_device = demo_dev (CHR ''a''), idn_key = base64 (publicKey demo_identity)\<rparr>\<rparr>"

lemma demo_seal_self: "\<exists>row. sealFor demo_lib (replicate 32 7) demo_keyed demo_cnt 1 (replicate 32 7) demo_me [] = Inr (row, [], [])"
proof -
  have "\<exists>bs. wrapEnvelope demo_lib (replicate 32 7) (replicate 32 7) (publicKey demo_identity) demo_cnt 1 (demo_dev (CHR ''a'')) demo_me = Inr bs"
    by (intro demo_wrap_works) (simp_all add: demo_ids crockford_def demo_me_def demo_identity_def)
  then show ?thesis
    by (auto simp: sealFor_def demo_keyed_def demo_self_def demo_me_def demo_identity_def sameKey_refl validKey_iff)
qed

definition demo_container :: keyed_container where
  "demo_container = \<lparr>c_id = demo_cnt, keyGeneration = 0, sharedGeneration = 0\<rparr>"

definition demo_ctx :: pass_ctx where
  "demo_ctx = \<lparr>px_container = demo_container, px_known = raiseFloor no_state demo_container, px_envelopes = [], px_members = [demo_keyed]\<rparr>"

definition demo_opened :: opened_keyring where
  "demo_opened = \<lparr>ok_ring = [], ok_pins = [], ok_fresh = [], ok_changed = [], ok_conflicts = [], ok_known = raiseFloor no_state demo_container\<rparr>"

lemma demo_open: "open_ring demo_env demo_ctx [] [] None = demo_opened"
  by (simp add: open_ring_def openKeyring_def demo_env_def me_of_def demo_ctx_def demo_opened_def opened_start_def raiseFloor_def no_state_def)

lemma demo_plan: "plan_sweep demo_env demo_ctx demo_container demo_opened [] = (SweepMint [demo_keyed], False)"
  by (simp add: plan_sweep_def plan_work_def planSweep_def demo_env_def me_of_def demo_ctx_def demo_keyed_def demo_self_def isSteward_def demo_container_def)

lemma demo_pending: "pending_changes demo_env [] demo_opened (SweepMint [demo_keyed]) = []"
  by (simp add: pending_changes_def targets_def demo_env_def demo_keyed_def demo_self_def demo_opened_def uniqueBy_def)

lemma demo_parts:
  "x_lib demo_env = demo_lib" "me_of (x_caller demo_env) = Some demo_me" "px_container demo_ctx = demo_container" "px_envelopes demo_ctx = []"
  "px_members demo_ctx = [demo_keyed]" "ok_pins demo_opened = []" "ok_fresh demo_opened = []" "c_id demo_container = demo_cnt"
  "keyGeneration demo_container = 0" "api_stepUp (x_api demo_env) = (\<lambda>w. (Inr (), w))"
  "api_rotate (x_api demo_env) cid g rows = (\<lambda>w. (Inl (Error ''offline''), w))" "st_load (x_store demo_env) = (\<lambda>w. (Inr [], w))"
  by (simp_all add: demo_env_def demo_key_api_def demo_pin_store_def demo_ctx_def demo_opened_def demo_container_def me_of_def demo_me_def)

lemma demo_rest:
  fixes w :: "unit key_world"
  assumes "k_random w = (\<lambda>_. replicate 32 7)"
  obtains row w' where "pass_rest demo_env demo_ctx False n w = (Inl (Error ''offline''), w')"
    "k_log w' = k_log w @ [PinsRead [], Sending demo_cnt [row]]" "k_latest w' = Some (demo_cnt, raiseFloor no_state demo_container)"
proof -
  obtain row where row: "sealFor demo_lib (replicate 32 7) demo_keyed demo_cnt 1 (replicate 32 7) demo_me [] = Inr (row, [], [])"
    using demo_seal_self by blast
  have settle: "settle_changes n demo_env demo_ctx [] demo_opened (SweepMint [demo_keyed]) v = ret (Settled [] demo_opened (SweepMint [demo_keyed]) v)" for n v
    by (subst settle_changes.simps) (simp add: demo_pending del: io_simps)
  have known: "raiseFloor (ok_known demo_opened) demo_container = raiseFloor no_state demo_container"
    by (simp add: demo_opened_def raiseFloor_def demo_container_def no_state_def)
  show ?thesis
    apply (rule that)
      apply (simp add: pass_rest_def load_pins_def logged_def outside_def bind_io_def demo_parts demo_open demo_plan settle after_settled_def trusted_def
        set_latest_def write_sweep_def draw_random_def newContainerKey_def asContentKey_def row assms known finish_write_def catch_io_def send_rows_def note_event_def err_code_def)
     apply simp_all
    done
qed

lemma demo_once:
  fixes w :: "unit key_world"
  assumes "k_random w = (\<lambda>_. replicate 32 7)"
  obtains row w' where "key_pass_once demo_env n w = (Inl (Error ''offline''), w')"
    "k_log w' = k_log w @ [Reported demo_container, Remembered no_state, Floored demo_cnt \<lparr>shared = Some 0, generation = Some 0\<rparr>,
       Saving demo_cnt (raiseFloor no_state demo_container), ReadingEnvelopes demo_cnt, PinsRead [], Sending demo_cnt [row]]"
    "k_latest w' = Some (demo_cnt, raiseFloor no_state demo_container)"
proof -
  define w1 where "w1 = w\<lparr>k_log := k_log w @ [Reported demo_container, Remembered no_state, Floored demo_cnt \<lparr>shared = Some 0, generation = Some 0\<rparr>,
    Saving demo_cnt (raiseFloor no_state demo_container), ReadingEnvelopes demo_cnt]\<rparr>"
  have "k_random w1 = (\<lambda>_. replicate 32 7)" by (simp add: w1_def assms)
  then obtain row w' where run: "pass_rest demo_env demo_ctx False n w1 = (Inl (Error ''offline''), w')"
    "k_log w' = k_log w1 @ [PinsRead [], Sending demo_cnt [row]]" "k_latest w' = Some (demo_cnt, raiseFloor no_state demo_container)"
    by (rule demo_rest)
  have floor: "shared (raiseFloor no_state demo_container) = Some 0" "generation (raiseFloor no_state demo_container) = Some 0"
    "shared no_state = None" "\<not> snd (guardContainer demo_container no_state)"
    by (simp_all add: raiseFloor_def no_state_def demo_container_def guardContainer_def)
  have calls: "api_container (x_api demo_env) cid = (\<lambda>w. (Inr demo_container, w))" "st_loadKeyState (x_store demo_env) cid = (\<lambda>w. (Inr no_state, w))"
    "api_envelopes (x_api demo_env) cid = (\<lambda>w. (Inr [], w))" "api_members (x_api demo_env) cid = (\<lambda>w. (Inr [demo_self], w))"
    "st_saveKeyState (x_store demo_env) cid st = (\<lambda>w. (Inr True, w))" "x_onFloor demo_env cid f = (\<lambda>w. w)" for cid st f
    by (simp_all add: demo_env_def demo_key_api_def demo_pin_store_def demo_container_def)
  have ids: "read_identities demo_env [demo_self] u = (Inr [demo_keyed], u)" for u
    by (simp add: bind_io_def own_identity_def demo_env_def demo_self_def demo_keyed_def)
  have unit_world: "u\<lparr>k_outside := ()\<rparr> = u" for u :: "unit key_world" by (cases u) simp
  have "key_pass_once demo_env n w = pass_rest demo_env demo_ctx False n w1"
    by (simp add: key_pass_once_def bind_io_def logged_def outside_def on_floor_def note_event_def save_state_def catch_io_def calls floor ids
        demo_parts w1_def Let_def unit_world demo_ctx_def del: read_identities.simps)
  with run that show ?thesis by (simp add: w1_def)
qed

lemma demo_log:
  obtains row where "k_log (snd (syncContainerKeys demo_env demo_world)) =
    [Reported demo_container, Remembered no_state, Floored demo_cnt \<lparr>shared = Some 0, generation = Some 0\<rparr>,
     Saving demo_cnt (raiseFloor no_state demo_container), ReadingEnvelopes demo_cnt, PinsRead []] @ Sending demo_cnt [row] #
     [Saving demo_cnt (raiseFloor no_state demo_container)]"
proof -
  have "k_random (demo_world\<lparr>k_latest := None\<rparr>) = (\<lambda>_. replicate 32 7)" by (simp add: demo_world_def)
  then obtain row w' where run: "key_pass_once demo_env 0 (demo_world\<lparr>k_latest := None\<rparr>) = (Inl (Error ''offline''), w')"
    "k_log w' = k_log (demo_world\<lparr>k_latest := None\<rparr>) @ [Reported demo_container, Remembered no_state, Floored demo_cnt \<lparr>shared = Some 0, generation = Some 0\<rparr>,
       Saving demo_cnt (raiseFloor no_state demo_container), ReadingEnvelopes demo_cnt, PinsRead [], Sending demo_cnt [row]]"
    "k_latest w' = Some (demo_cnt, raiseFloor no_state demo_container)"
    by (rule demo_once)
  have save: "st_saveKeyState (x_store demo_env) cid st = (\<lambda>w. (Inr True, w))" for cid st by (simp add: demo_env_def demo_pin_store_def)
  show ?thesis
    by (rule that [of row])
      (simp add: syncContainerKeys_def key_attempt_def bind_io_def catch_io_def reset_latest_def run save_latest_def save_state_def note_event_def outside_def save,
       simp add: demo_world_def)
qed

definition demo_guest :: "unit sync_env" where
  "demo_guest = demo_env\<lparr>x_caller := \<lparr>cl_userId = ''u'', cl_identity = None, cl_canWrap = False, cl_recoverable = False\<rparr>,
     x_api := demo_key_api\<lparr>api_members := (\<lambda>_ w. (Inr [], w))\<rparr>\<rparr>"

lemma demo_guest_parts:
  "api_container (x_api demo_guest) cid = (\<lambda>w. (Inr demo_container, w))" "st_loadKeyState (x_store demo_guest) cid = (\<lambda>w. (Inr no_state, w))"
  "api_envelopes (x_api demo_guest) cid = (\<lambda>w. (Inr [], w))" "api_members (x_api demo_guest) cid = (\<lambda>w. (Inr [], w))"
  "st_saveKeyState (x_store demo_guest) cid st = (\<lambda>w. (Inr True, w))" "x_onFloor demo_guest cid f = (\<lambda>w. w)"
  "st_load (x_store demo_guest) = (\<lambda>w. (Inr [], w))" "me_of (x_caller demo_guest) = None" "x_held demo_guest = []"
  by (simp_all add: demo_guest_def demo_env_def demo_key_api_def demo_pin_store_def demo_container_def me_of_def)

lemma demo_guest_run: "\<exists>outcome kept w'. key_attempt demo_guest 1 demo_world = (Inr (outcome, kept), w')"
proof -
  have settle: "settle_changes n demo_guest c p opened SweepIdle v = ret (Settled p opened SweepIdle v)" if "ok_changed opened = []" for n c p opened v
    by (subst settle_changes.simps) (simp add: pending_changes_def targets_def that uniqueBy_def del: io_simps)
  have opened: "ok_changed (open_ring demo_guest c ps [] None) = []" "ok_fresh (open_ring demo_guest c ps [] None) = []" for c ps
    by (simp_all add: open_ring_def openKeyring_def demo_guest_parts opened_start_def)
  have floor: "\<not> snd (guardContainer demo_container no_state)" "shared no_state = None" "shared (raiseFloor no_state demo_container) = Some 0"
    by (simp_all add: raiseFloor_def no_state_def demo_container_def guardContainer_def)
  show ?thesis
    by (simp add: key_attempt_def key_pass_once_def pass_rest_def bind_io_def catch_io_def reset_latest_def save_latest_def save_state_def note_event_def
      outside_def logged_def on_floor_def load_pins_def Let_def demo_guest_parts floor plan_sweep_def settle opened after_settled_def trusted_def set_latest_def
      pass_result_def get_carried_def) blast
qed

section \<open>Properties\<close>

text \<open>C5: whatever the server answers and other tabs do, every envelope a key pass sends was sealed for this user's own identity, or
  for a member whose key equals a pin that this device had read from, added to or had the user confirm in its local
  store before the call, and only for the container just reported.\<close>

theorem sync_sends_only_vouched:
  assumes "me_of (x_caller x) = Some me" "k_log w = []" "syncContainerKeys x w = (r, w')" "k_log w' = xs @ Sending cid rows # ys"
  shows "(\<exists>c s. in_pass xs c s \<and> cid = c_id c) \<and> (\<forall>row \<in> set rows. sealed_row (x_lib x) me cid xs row)"
  using sync_log [OF assms] by auto

theorem sync_sends_only_vouched_witness:
  "\<exists>xs cid rows ys. k_log (snd (syncContainerKeys demo_env demo_world)) = xs @ Sending cid rows # ys \<and>
    (\<exists>c s. in_pass xs c s \<and> cid = c_id c) \<and> (\<forall>row \<in> set rows. sealed_row demo_lib demo_me cid xs row)"
proof (rule demo_log)
  fix xs row ys
  assume log: "k_log (snd (syncContainerKeys demo_env demo_world)) = xs @ Sending demo_cnt [row] # ys"
  from sync_sends_only_vouched [OF demo_me_of prod.collapse [symmetric] log] log show ?thesis
    unfolding demo_parts by blast
qed





end
