(* ===== verification/RecoveryCode.thy ===== *)
theory RecoveryCode
  imports Pins
begin

unbundle bit_operations_syntax

text \<open>
  The recovery code and the copy of the identity it seals (\<open>web/src/recovery.ts\<close>, first half): 128 secret bits and
  a 10-bit checksum shown as 28 Crockford symbols, the reading of a typed code, and the sealed copy bound to the
  account and the exact public key. The lemmas: a typed text is accepted exactly when it is the code of the
  secret returned, up to case, spaces, dashes and the look-alikes I, L and O; and a copy opens exactly for the
  secret, the user and the listed public key it was sealed for.
\<close>

definition RECOVERY_ALG :: string where "RECOVERY_ALG = ''pbkdf2-sha256-600000/aes-256-gcm''"
definition RECOVERY_BYTES :: nat where "RECOVERY_BYTES = 76"
definition SECRET_BYTES :: nat where "SECRET_BYTES = 16"
definition SALT_BYTES :: nat where "SALT_BYTES = 16"
definition NONCE_BYTES :: nat where "NONCE_BYTES = 12"
definition SYMBOLS :: nat where "SYMBOLS = 28"
definition ALPHABET :: string where "ALPHABET = ''0123456789ABCDEFGHJKMNPQRSTVWXYZ''"
definition CODE_LABEL :: string where "CODE_LABEL = ''kynotes/recovery-code/v1''"
definition WRAP_LABEL :: string where "WRAP_LABEL = ''kynotes/identity-recovery/v1''"

definition RECOVERY_TYPO :: string where
  "RECOVERY_TYPO = ''Check the recovery code: a character is wrong or missing.''"
definition RECOVERY_WRONG :: string where
  "RECOVERY_WRONG = ''This recovery code does not open your key. Check it and try again.''"
definition RECOVERY_NONE :: string where
  "RECOVERY_NONE = ''Your account has no recovery code. Link this browser from one that holds your key, or reset your encryption key.''"

definition RecoveryCodeError :: "string \<Rightarrow> js_error" where
  "RecoveryCodeError m = NamedError ''RecoveryCodeError'' m"

section \<open>The code\<close>

text \<open>\<open>sum[i]\<close>, where a missing byte is \<open>undefined\<close> and shifts to 0.\<close>

definition byte_at :: "bytes \<Rightarrow> nat \<Rightarrow> nat" where
  "byte_at bs i = (if i < length bs then unat (bs ! i) else 0)"

definition checksum :: "lib \<Rightarrow> bytes \<Rightarrow> nat" where
  "checksum L secret =
     (let sum = sha256 L (concat_bytes [encode CODE_LABEL, secret]) in
      push_bit 2 (byte_at sum 0) OR drop_bit 6 (byte_at sum 1))"

fun code_symbols :: "nat \<Rightarrow> nat \<Rightarrow> string \<Rightarrow> string" where
  "code_symbols 0 v acc = acc"
| "code_symbols (Suc n) v acc = code_symbols n (drop_bit 5 v) (ALPHABET ! (v AND 31) # acc)"

fun join_dash :: "string list \<Rightarrow> string" where
  "join_dash [] = []"
| "join_dash [x] = x"
| "join_dash (x # y # r) = x @ CHR ''-'' # join_dash (y # r)"

definition code_value :: "bytes \<Rightarrow> nat" where
  "code_value secret = fold (\<lambda>b acc. push_bit 8 acc OR unat b) secret 0"

definition formatRecoveryCode :: "lib \<Rightarrow> bytes \<Rightarrow> string result" where
  "formatRecoveryCode L secret =
     (if length secret \<noteq> SECRET_BYTES then Inl (Error ''invalid recovery secret'')
      else Inr (join_dash (groups_of_four
        (code_symbols SYMBOLS (push_bit 10 (code_value secret) OR checksum L secret) []))))"

text \<open>
  \<open>normalize("NFKC")\<close> on code units up to 255. The characters whose normal form leaves that range
  (the spacing accents, the micro sign, the fractions) are kept: they are no symbol of the code in either form.
\<close>

definition nfkc_char :: "char \<Rightarrow> char" where
  "nfkc_char c =
     (if c = CHR 0xA0 then CHR '' '' else if c = CHR 0xAA then CHR ''a'' else if c = CHR 0xB2 then CHR ''2''
      else if c = CHR 0xB3 then CHR ''3'' else if c = CHR 0xB9 then CHR ''1'' else if c = CHR 0xBA then CHR ''o'' else c)"

text \<open>\<open>toUpperCase\<close>; the sharp s becomes two letters, y with diaeresis leaves the range and is kept.\<close>

definition upper_char :: "char \<Rightarrow> string" where
  "upper_char c =
     (let n = (of_char c :: nat) in
      if 97 \<le> n \<and> n \<le> 122 \<or> 224 \<le> n \<and> n \<le> 254 \<and> n \<noteq> 247 then [char_of (n - 32)]
      else if n = 223 then ''SS'' else [c])"

definition look_alike :: "char \<Rightarrow> char" where
  "look_alike c = (if c = CHR ''I'' \<or> c = CHR ''L'' then CHR ''1'' else if c = CHR ''O'' then CHR ''0'' else c)"

definition fold_code :: "string \<Rightarrow> string" where
  "fold_code input =
     map look_alike (filter (\<lambda>c. \<not> js_space c \<and> c \<noteq> CHR ''-'') (concat (map upper_char (map nfkc_char input))))"

fun read_symbols :: "string \<Rightarrow> nat \<Rightarrow> nat option" where
  "read_symbols [] v = Some v"
| "read_symbols (c # cs) v =
     (case index_from 0 c ALPHABET of None \<Rightarrow> None | Some d \<Rightarrow> read_symbols cs (push_bit 5 v OR d))"

fun secret_bytes :: "nat \<Rightarrow> nat \<Rightarrow> bytes \<Rightarrow> bytes" where
  "secret_bytes 0 body acc = acc"
| "secret_bytes (Suc n) body acc = secret_bytes n (drop_bit 8 body) (of_nat (body AND 255) # acc)"

definition parseRecoveryCode :: "lib \<Rightarrow> string \<Rightarrow> bytes result" where
  "parseRecoveryCode L input =
     (let symbols = fold_code input; refused = Inl (RecoveryCodeError RECOVERY_TYPO) in
      if length symbols \<noteq> SYMBOLS then refused
      else case read_symbols symbols 0 of
        None \<Rightarrow> refused
      | Some v \<Rightarrow>
          if drop_bit 138 v \<noteq> 0 then refused
          else let secret = secret_bytes SECRET_BYTES (drop_bit 10 v) [] in
            if checksum L secret \<noteq> v AND 1023 then refused else Inr secret)"

section \<open>The sealed copy\<close>

definition keyOrUndefined :: "string \<Rightarrow> bytes option" where
  "keyOrUndefined v = to_option (publicKeyBytes v)"

definition recovery_aad :: "string \<Rightarrow> bytes \<Rightarrow> bytes result" where
  "recovery_aad userID pk = rbind (idBytes ''usr'' userID) (\<lambda>u. Inr (concat_bytes [encode WRAP_LABEL, u, pk]))"

definition sealRecoveryForVector :: "lib \<Rightarrow> bytes \<Rightarrow> bytes \<Rightarrow> string \<Rightarrow> bytes \<Rightarrow> bytes \<Rightarrow> bytes result" where
  "sealRecoveryForVector L secret sk userID salt nonce =
     (if length secret \<noteq> SECRET_BYTES \<or> length sk \<noteq> 32 \<or> length salt \<noteq> SALT_BYTES \<or> length nonce \<noteq> NONCE_BYTES
      then Inl (Error ''invalid recovery input'')
      else
        rbind (deriveRecoveryKEK L secret salt) (\<lambda>kek.
        rbind (recovery_aad userID (x25519_public L sk)) (\<lambda>aad.
          Inr (concat_bytes [salt, nonce, gcm_seal L kek nonce (Some aad) sk]))))"

definition sealRecovery :: "lib \<Rightarrow> bytes \<Rightarrow> 'a identity_scheme \<Rightarrow> string \<Rightarrow> bytes \<Rightarrow> bytes \<Rightarrow> bytes result" where
  "sealRecovery L secret i userID salt nonce = sealRecoveryForVector L secret (privateKey i) userID salt nonce"

definition openRecovery :: "lib \<Rightarrow> bytes \<Rightarrow> bytes \<Rightarrow> string \<Rightarrow> 'a public_identity_scheme \<Rightarrow> string \<Rightarrow> held_identity result" where
  "openRecovery L secret wrapped userID listed wrapAlg =
     (let wrong = Inl (RecoveryCodeError RECOVERY_WRONG) in
      case keyOrUndefined (idn_key listed) of
        None \<Rightarrow> wrong
      | Some pk \<Rightarrow>
          if wrapAlg \<noteq> RECOVERY_ALG \<or> length wrapped \<noteq> RECOVERY_BYTES \<or> length secret \<noteq> SECRET_BYTES then wrong
          else rbind (deriveRecoveryKEK L secret (take SALT_BYTES wrapped)) (\<lambda>kek.
            case recovery_aad userID pk of
              Inl _ \<Rightarrow> wrong
            | Inr aad \<Rightarrow>
                (case gcm_open L kek (take NONCE_BYTES (drop SALT_BYTES wrapped)) (Some aad) (drop (SALT_BYTES + NONCE_BYTES) wrapped) of
                   None \<Rightarrow> wrong
                 | Some sk \<Rightarrow>
                     if \<not> sameBytes (x25519_public L sk) pk then wrong
                     else Inr \<lparr>publicKey = pk, privateKey = sk, deviceId = idn_device listed\<rparr>)))"

section \<open>Numbers and digits\<close>

lemma or_low:
  assumes "c < 2 ^ k"
  shows "push_bit k v OR c = v * 2 ^ k + (c :: nat)"
proof -
  from assms have "take_bit k c = c" by (simp add: take_bit_nat_eq_self_iff)
  then have "push_bit k v AND c = push_bit k v AND take_bit k c" by simp
  also have "\<dots> = 0" by (auto simp: bit_eq_iff bit_simps)
  finally show ?thesis by (simp add: disjunctive_add_eq_or [symmetric] push_bit_eq_mult)
qed

lemma and_low: "(v :: nat) AND 31 = v mod 32" "v AND 255 = v mod 256" "v AND 1023 = v mod 1024"
  using take_bit_eq_mask [of 5 v] take_bit_eq_mask [of 8 v] take_bit_eq_mask [of 10 v]
  by (simp_all add: mask_eq_exp_minus_1 take_bit_eq_mod)

lemma index_from_Some: "index_from i c ds = Some n \<Longrightarrow> i \<le> n \<and> n - i < length ds \<and> ds ! (n - i) = c"
proof (induction ds arbitrary: i)
  case (Cons d ds)
  show ?case
  proof (cases "c = d")
    case False
    with Cons.prems have "index_from (Suc i) c ds = Some n" by simp
    from Cons.IH [OF this] have "n - i = Suc (n - Suc i)" "n - Suc i < length ds" "ds ! (n - Suc i) = c" "i \<le> n" by auto
    then show ?thesis by simp
  qed (use Cons.prems in auto)
qed simp

lemma alphabet_facts [simp]: "length ALPHABET = 32" "distinct ALPHABET"
  by (simp_all add: ALPHABET_def)

lemma alphabet_index: "d < 32 \<Longrightarrow> index_from 0 (ALPHABET ! d) ALPHABET = Some d"
  using index_from_nth [of ALPHABET d 0] by simp

lemma alphabet_index_Some: "index_from 0 c ALPHABET = Some d \<Longrightarrow> d < 32 \<and> ALPHABET ! d = c"
  using index_from_Some [of 0 c ALPHABET d] by simp

lemma checksum_less: "checksum L secret < 1024"
proof -
  define a b where "a = byte_at (sha256 L (concat_bytes [encode CODE_LABEL, secret])) 0"
    and "b = byte_at (sha256 L (concat_bytes [encode CODE_LABEL, secret])) 1"
  have ab: "a < 256" "b < 256" by (simp_all add: a_def b_def byte_at_def unat_byte_less)
  then have "b div 64 < 2 ^ 2" by simp
  from or_low [OF this, of a] ab show ?thesis
    unfolding checksum_def Let_def a_def [symmetric] b_def [symmetric] by (simp add: drop_bit_eq_div)
qed

lemma code_symbols_acc: "code_symbols n v acc = code_symbols n v [] @ acc"
proof (induction n arbitrary: v acc)
  case (Suc n)
  from Suc [of "drop_bit 5 v" "ALPHABET ! (v AND 31) # acc"] Suc [of "drop_bit 5 v" "[ALPHABET ! (v AND 31)]"] show ?case by simp
qed simp

lemma code_symbols_Suc: "code_symbols (Suc n) v [] = code_symbols n (v div 32) [] @ [ALPHABET ! (v mod 32)]"
  by (simp add: code_symbols_acc [of n _ "[_]"] drop_bit_eq_div and_low)

lemma length_code_symbols [simp]: "length (code_symbols n v []) = n"
  by (induction n arbitrary: v) (simp_all add: code_symbols_Suc del: code_symbols.simps(2))

lemma set_code_symbols: "set (code_symbols n v []) \<subseteq> set ALPHABET"
  by (induction n arbitrary: v) (auto simp: code_symbols_Suc simp del: code_symbols.simps(2))

lemma read_symbols_snoc:
  "read_symbols (xs @ [c]) v =
     (case read_symbols xs v of None \<Rightarrow> None | Some u \<Rightarrow> map_option (\<lambda>d. u * 32 + d) (index_from 0 c ALPHABET))"
proof (induction xs arbitrary: v)
  case Nil
  then show ?case
    by (auto split: option.split dest!: alphabet_index_Some simp: or_low [of _ 5, simplified])
next
  case (Cons x xs)
  then show ?case by (simp split: option.split)
qed

lemma read_code: "v < 32 ^ n \<Longrightarrow> read_symbols (code_symbols n v []) 0 = Some v"
proof (induction n arbitrary: v)
  case (Suc n)
  then have "v div 32 < 32 ^ n" by (simp add: less_mult_imp_div_less mult.commute)
  from Suc.IH [OF this] show ?case
    by (simp add: code_symbols_Suc read_symbols_snoc alphabet_index del: code_symbols.simps(2))
qed simp

lemma read_symbols_code: "read_symbols s 0 = Some v \<Longrightarrow> s = code_symbols (length s) v []"
proof (induction s arbitrary: v rule: rev_induct)
  case (snoc c s)
  then obtain u d where u: "read_symbols s 0 = Some u" and d: "index_from 0 c ALPHABET = Some d" and v: "v = u * 32 + d"
    by (auto simp: read_symbols_snoc split: option.splits)
  from alphabet_index_Some [OF d] snoc.IH [OF u] show ?case
    by (simp add: code_symbols_Suc v del: code_symbols.simps(2))
qed simp

lemma secret_bytes_acc: "secret_bytes n v acc = secret_bytes n v [] @ acc"
proof (induction n arbitrary: v acc)
  case (Suc n)
  from Suc [of "drop_bit 8 v" "of_nat (v AND 255) # acc"] Suc [of "drop_bit 8 v" "[of_nat (v AND 255)]"] show ?case by simp
qed simp

lemma secret_bytes_Suc: "secret_bytes (Suc n) v [] = secret_bytes n (v div 256) [] @ [of_nat (v mod 256)]"
  by (simp add: secret_bytes_acc [of n _ "[_]"] drop_bit_eq_div and_low)

lemma length_secret_bytes [simp]: "length (secret_bytes n v []) = n"
  by (induction n arbitrary: v) (simp_all add: secret_bytes_Suc del: secret_bytes.simps(2))

lemma code_value_snoc [simp]: "code_value (s @ [b]) = code_value s * 256 + unat b"
  using or_low [of "unat b" 8] unat_byte_less [of b] by (simp add: code_value_def)

lemma code_value_less: "code_value s < 256 ^ length s"
proof (induction s rule: rev_induct)
  case (snoc b s)
  with unat_byte_less [of b] show ?case by simp
qed (simp add: code_value_def)

lemma code_value_bytes: "v < 256 ^ n \<Longrightarrow> code_value (secret_bytes n v []) = v"
proof (induction n arbitrary: v)
  case 0
  then show ?case by (simp add: code_value_def)
next
  case (Suc n)
  then have "v div 256 < 256 ^ n" by (simp add: less_mult_imp_div_less mult.commute)
  from Suc.IH [OF this] show ?case
    by (simp add: secret_bytes_Suc unat_of_nat_byte del: secret_bytes.simps(2))
qed

lemma secret_bytes_value: "secret_bytes (length s) (code_value s) [] = s"
proof (induction s rule: rev_induct)
  case (snoc b s)
  with unat_byte_less [of b] show ?case by (simp add: secret_bytes_Suc del: secret_bytes.simps(2))
qed simp
section \<open>Typed codes\<close>

lemma fold_code_append [simp]: "fold_code (a @ b) = fold_code a @ fold_code b"
  by (simp add: fold_code_def)

lemma fold_code_symbol: "c \<in> set ALPHABET \<Longrightarrow> fold_code [c] = [c]"
  unfolding ALPHABET_def by (simp, elim disjE; hypsubst; code_simp)

lemma fold_code_dash: "fold_code [CHR ''-''] = []"
  by code_simp

lemma fold_code_symbols: "set s \<subseteq> set ALPHABET \<Longrightarrow> fold_code s = s"
proof (induction s)
  case (Cons c s)
  then show ?case using fold_code_append [of "[c]" s] fold_code_symbol [of c] by simp
qed (simp add: fold_code_def)

lemma fold_code_join: "fold_code (join_dash xs) = concat (map fold_code xs)"
proof (induction xs rule: join_dash.induct)
  case (3 x y r)
  then show ?case using fold_code_append [of "[CHR ''-'']" "join_dash (y # r)"] by (simp add: fold_code_dash)
qed (simp_all add: fold_code_def)

lemma groups_back: "length s = 4 * k \<Longrightarrow> concat (groups_of_four s) = s"
proof (induction k arbitrary: s)
  case (Suc k)
  then have "length s = Suc (Suc (Suc (Suc (4 * k))))" by simp
  with Suc.IH show ?case by (auto simp: length_Suc_conv)
qed simp

lemma set_groups: "set s \<subseteq> A \<Longrightarrow> g \<in> set (groups_of_four s) \<Longrightarrow> set g \<subseteq> A"
  by (induction s rule: groups_of_four.induct) auto

lemma fold_code_groups:
  assumes "set s \<subseteq> set ALPHABET" "length s = 4 * k"
  shows "fold_code (join_dash (groups_of_four s)) = s"
proof -
  have "map fold_code (groups_of_four s) = groups_of_four s"
    using set_groups [OF assms(1)] by (simp add: map_idI fold_code_symbols)
  then show ?thesis by (simp add: fold_code_join groups_back [OF assms(2)])
qed

lemma code_number:
  "push_bit 10 (code_value secret) OR checksum L secret = code_value secret * 1024 + checksum L secret"
  using or_low [of "checksum L secret" 10] checksum_less [of L secret] by simp

lemma format_code:
  "formatRecoveryCode L secret = Inr code \<Longrightarrow>
     length secret = 16 \<and> fold_code code = code_symbols 28 (code_value secret * 1024 + checksum L secret) []"
  using fold_code_groups [OF set_code_symbols, of 28 "code_value secret * 1024 + checksum L secret" 7]
  by (auto simp: formatRecoveryCode_def SECRET_BYTES_def SYMBOLS_def code_number split: if_splits)

text \<open>C25: a typed text is read as a secret exactly when it is that secret's recovery code, up to case, spaces, dashes and the
  look-alike letters; so every code shown reads back to its secret, and no other text does.\<close>

theorem recovery_code_exact:
  "parseRecoveryCode L input = Inr secret \<longleftrightarrow> (\<exists>code. formatRecoveryCode L secret = Inr code \<and> fold_code input = fold_code code)"
proof
  assume "parseRecoveryCode L input = Inr secret"
  then obtain v where len: "length (fold_code input) = 28" and v: "read_symbols (fold_code input) 0 = Some v" "v < 2 ^ 138"
    and secret: "secret = secret_bytes 16 (v div 1024) []" "checksum L secret = v mod 1024"
    by (auto simp: parseRecoveryCode_def Let_def SYMBOLS_def SECRET_BYTES_def drop_bit_eq_div and_low div_eq_0_iff split: if_splits option.splits)
  from v(2) have "v div 1024 < 256 ^ 16" by simp
  then have "code_value secret * 1024 + checksum L secret = v" unfolding secret(2) by (simp add: secret(1) code_value_bytes)
  with read_symbols_code [OF v(1)] len
  have input: "fold_code input = code_symbols 28 (code_value secret * 1024 + checksum L secret) []" by simp
  obtain code where code: "formatRecoveryCode L secret = Inr code"
    using secret(1) by (simp add: formatRecoveryCode_def SECRET_BYTES_def)
  with format_code [OF this] input show "\<exists>code. formatRecoveryCode L secret = Inr code \<and> fold_code input = fold_code code" by auto
next
  assume "\<exists>code. formatRecoveryCode L secret = Inr code \<and> fold_code input = fold_code code"
  then obtain code where code: "formatRecoveryCode L secret = Inr code" and input: "fold_code input = fold_code code" by blast
  define v where "v = code_value secret * 1024 + checksum L secret"
  from format_code [OF code] have len: "length secret = 16" and sym: "fold_code input = code_symbols 28 v []" by (simp_all add: input v_def)
  have small: "code_value secret < 256 ^ 16" using code_value_less [of secret] len by simp
  with checksum_less [of L secret] have "v < 2 ^ 138" by (simp add: v_def)
  moreover have "v div 1024 = code_value secret" "v mod 1024 = checksum L secret" using checksum_less [of L secret] by (simp_all add: v_def)
  moreover from \<open>v < 2 ^ 138\<close> have "read_symbols (fold_code input) 0 = Some v" unfolding sym by (intro read_code) simp
  moreover have "secret_bytes 16 (code_value secret) [] = secret" using secret_bytes_value [of secret] len by simp
  ultimately show "parseRecoveryCode L input = Inr secret"
    by (simp add: parseRecoveryCode_def Let_def sym SYMBOLS_def SECRET_BYTES_def drop_bit_eq_div and_low)
qed

section \<open>The copy\<close>

lemma sealRecovery_Inr:
  "sealRecoveryForVector L secret sk userID salt nonce = Inr wrapped \<longleftrightarrow>
     length secret = 16 \<and> length sk = 32 \<and> length salt = 16 \<and> length nonce = 12 \<and>
     (\<exists>kek aad. deriveRecoveryKEK L secret salt = Inr kek \<and> recovery_aad userID (x25519_public L sk) = Inr aad \<and>
        wrapped = salt @ nonce @ gcm_seal L kek nonce (Some aad) sk)"
  by (auto simp: sealRecoveryForVector_def SECRET_BYTES_def SALT_BYTES_def NONCE_BYTES_def rbind_eq_Inr concat_bytes_def)

lemmas open_consts = openRecovery_def Let_def keyOrUndefined_def RECOVERY_BYTES_def SECRET_BYTES_def SALT_BYTES_def NONCE_BYTES_def

lemma openRecovery_Inr:
  assumes "publicKeyBytes (idn_key listed) = Inr pk" "deriveRecoveryKEK L secret (take 16 wrapped) = Inr kek" "recovery_aad userID pk = Inr aad"
  shows "openRecovery L secret wrapped userID listed alg = Inr i \<longleftrightarrow>
     alg = RECOVERY_ALG \<and> length wrapped = 76 \<and> length secret = 16 \<and> deviceId i = idn_device listed \<and> publicKey i = pk \<and>
     x25519_public L (privateKey i) = pk \<and> gcm_open L kek (take 12 (drop 16 wrapped)) (Some aad) (drop 28 wrapped) = Some (privateKey i)"
  by (cases i; cases "gcm_open L kek (take 12 (drop 16 wrapped)) (Some aad) (drop 28 wrapped)") (auto simp: open_consts assms)

lemma openRecovery_parts:
  assumes "openRecovery L secret wrapped userID listed alg = Inr i"
  obtains pk kek aad where "publicKeyBytes (idn_key listed) = Inr pk" "deriveRecoveryKEK L secret (take 16 wrapped) = Inr kek" "recovery_aad userID pk = Inr aad"
  using assms
  by (cases "publicKeyBytes (idn_key listed)"; cases "deriveRecoveryKEK L secret (take 16 wrapped)")
    (auto simp: open_consts split: if_splits sum.splits)

text \<open>A recovery copy opens exactly when it was sealed with this secret for this user's private key, and that key produces the public key
  the server lists; the identity returned is that key under the listed device.\<close>

lemma recovery_copy_exact:
  assumes "gcm_roundtrip L" "gcm_exact L" "gcm_overhead L"
  shows "openRecovery L secret wrapped userID listed alg = Inr i \<longleftrightarrow>
    alg = RECOVERY_ALG \<and> deviceId i = idn_device listed \<and> publicKeyBytes (idn_key listed) = Inr (publicKey i) \<and>
    publicKey i = x25519_public L (privateKey i) \<and> (\<exists>salt nonce. sealRecoveryForVector L secret (privateKey i) userID salt nonce = Inr wrapped)"
    (is "?open \<longleftrightarrow> ?sealed")
proof
  assume ?open
  then obtain pk kek aad where k: "publicKeyBytes (idn_key listed) = Inr pk" "deriveRecoveryKEK L secret (take 16 wrapped) = Inr kek" "recovery_aad userID pk = Inr aad"
    by (rule openRecovery_parts)
  with \<open>?open\<close> have o: "alg = RECOVERY_ALG" "length wrapped = 76" "length secret = 16" "deviceId i = idn_device listed"
    "publicKey i = pk" "x25519_public L (privateKey i) = pk"
    and opened: "gcm_open L kek (take 12 (drop 16 wrapped)) (Some aad) (drop 28 wrapped) = Some (privateKey i)"
    by (simp_all add: openRecovery_Inr [OF k])
  from opened assms(2) have sealed: "drop 28 wrapped = gcm_seal L kek (take 12 (drop 16 wrapped)) (Some aad) (privateKey i)"
    by (simp add: gcm_exact_def)
  have "length (drop 28 wrapped) = length (privateKey i) + 16"
    unfolding sealed using assms(3) by (simp add: gcm_overhead_def)
  with o(2) have len: "length (privateKey i) = 32" by simp
  have "wrapped = take 16 wrapped @ take 12 (drop 16 wrapped) @ drop 12 (drop 16 wrapped)" by (simp only: append_take_drop_id)
  then have "wrapped = take 16 wrapped @ take 12 (drop 16 wrapped) @ drop 28 wrapped" by simp
  with sealed o k len have "sealRecoveryForVector L secret (privateKey i) userID (take 16 wrapped) (take 12 (drop 16 wrapped)) = Inr wrapped"
    by (simp add: sealRecovery_Inr)
  with o k show ?sealed by auto
next
  assume ?sealed
  then obtain salt nonce kek aad where alg: "alg = RECOVERY_ALG" "deviceId i = idn_device listed" and pk: "publicKeyBytes (idn_key listed) = Inr (publicKey i)"
    and pub: "publicKey i = x25519_public L (privateKey i)" and len: "length secret = 16" "length (privateKey i) = 32" "length salt = 16" "length nonce = 12"
    and k: "deriveRecoveryKEK L secret salt = Inr kek" "recovery_aad userID (x25519_public L (privateKey i)) = Inr aad"
    and wrapped: "wrapped = salt @ nonce @ gcm_seal L kek nonce (Some aad) (privateKey i)"
    by (auto simp: sealRecovery_Inr)
  have "length wrapped = 76" using assms(3) len by (simp add: wrapped gcm_overhead_def)
  moreover have "gcm_open L kek nonce (Some aad) (gcm_seal L kek nonce (Some aad) (privateKey i)) = Some (privateKey i)"
    using assms(1) by (simp add: gcm_roundtrip_def)
  ultimately show ?open
    using alg pub len k by (subst openRecovery_Inr [OF pk]) (auto simp: wrapped)
qed

end
