(* ===== verification/Recovery.thy ===== *)
theory Recovery
  imports RecoveryCode Identity
begin

text \<open>
  Making, saving, restoring and resetting with a recovery code (\<open>web/src/recovery.ts\<close>, second half). The codes the
  user typed back (the \<open>WeakSet\<close> \<open>kept\<close>) are part of the world; a prepared code is an object with an identity of its
  own, its serial number. Zeroing byte arrays has no effect on values and is left out, as are the texts
  \<open>recoveryRefusal\<close> picks. The lemmas speak of any sequence of these operations, whatever the server and the vault
  answer: a copy or a reset leaves only for a code typed back since it was last spent, a reset only after the phrase,
  the audited copy is fetched only after a step-up, and the vault is never written over another key.
\<close>

section \<open>Records and calls\<close>

record recovery_copy =
  rc_deviceId :: string
  rc_publicKey :: string
  rc_recoveryId :: string
  rc_wrapAlg :: string
  rc_wrappedKey :: string

record replace_input =
  ri_publicKey :: string
  ri_wrapAlg :: string
  ri_wrappedPrivateKey :: "string option"
  ri_expectedDeviceId :: string
  ri_recoveryAlg :: string
  ri_recoveryKey :: string

record put_recovery =
  pu_deviceId :: string
  pu_expectedRecoveryId :: string
  pu_wrapAlg :: string
  pu_wrappedKey :: string

record 'o recovery_api =
  ra_myIdentity :: "('o, live_identity option) io"
  ra_putRecovery :: "put_recovery \<Rightarrow> ('o, string) io"
  ra_fetchRecovery :: "('o, recovery_copy option) io"
  ra_replaceIdentity :: "replace_input \<Rightarrow> ('o, string) io"

record prepared =
  pr_serial :: nat
  pr_code :: string
  pr_check :: nat
  pr_identity :: identity
  pr_userID :: string
  pr_wrappedKey :: string

datatype rec_event =
    RLoaded "held_identity option"
  | RSaving held_identity "held_identity option option"
  | RListed "live_identity option"
  | RTyped prepared string
  | RSpent prepared
  | RPutting prepared put_recovery
  | RReplacing prepared string replace_input
  | RSteppedUp
  | RFetching

record 'o rec_world = "('o, rec_event) traced" +
  r_kept :: "prepared list"
  r_made :: nat

definition CONFIRM_FIRST :: string where "CONFIRM_FIRST = ''Type the asked group of your saved recovery code first.''"
definition RECOVERY_MOVED :: string where
  "RECOVERY_MOVED = ''Your recovery code was changed in another tab or browser, so this one was not saved. Make a new code here only if you no longer have that one.''"
definition RECOVERY_STALE :: string where
  "RECOVERY_STALE = ''The server'' @ [CHR 0x27] @ ''s recovery copy is not for your account'' @ [CHR 0x27] @ ''s current key. Reload and try again.''"
definition RECOVERY_NEWER :: string where
  "RECOVERY_NEWER = ''This recovery code was saved by a newer version of KyNotes. Update this browser'' @ [CHR 0x27] @ ''s page and try again.''"
definition RESET_PHRASE :: string where "RESET_PHRASE = ''RESET''"
definition RESET_UNCONFIRMED :: string where "RESET_UNCONFIRMED = ''Type '' @ RESET_PHRASE @ '' to confirm the reset.''"
definition RESET_UNCERTAIN :: string where
  "RESET_UNCERTAIN = ''The connection failed, so this browser cannot tell whether the reset finished. Keep the code you saved and try again: the retry sends the same new key.''"
definition OTHER_COPY :: string where "OTHER_COPY = ''This browser holds another copy of your key. Use Forget this device first.''"
definition OTHER_KEY :: string where "OTHER_KEY = ''This recovery code was made for another key. Start again.''"

definition LinkStorageError :: js_error where
  "LinkStorageError = NamedError ''LinkStorageError'' ''This browser cannot keep an encryption key (site storage is blocked or unavailable), so it cannot be linked.''"
definition ResetUncertainError :: js_error where "ResetUncertainError = NamedError ''ResetUncertainError'' RESET_UNCERTAIN"

text \<open>The identity the error carries for the screen is the last one listed in the log.\<close>

definition RecoveryMovedError :: js_error where "RecoveryMovedError = NamedError ''RecoveryMovedError'' RECOVERY_MOVED"

definition resetConfirmed :: "string option \<Rightarrow> bool" where
  "resetConfirmed typed = (case typed of None \<Rightarrow> False | Some t \<Rightarrow> js_trim t = RESET_PHRASE)"

definition rec_load :: "'o identity_store \<Rightarrow> ('o rec_world, held_identity option) io" where
  "rec_load store = noting (\<lambda>i. [RLoaded i]) (call (is_load store))"

definition rec_save :: "'o identity_store \<Rightarrow> held_identity \<Rightarrow> held_identity option option \<Rightarrow> ('o rec_world, bool) io" where
  "rec_save store i expected = bind_io (log_event (RSaving i expected)) (\<lambda>_. call (is_save store i expected))"

definition rec_listed :: "'o recovery_api \<Rightarrow> ('o rec_world, live_identity option) io" where
  "rec_listed api = noting (\<lambda>l. [RListed l]) (call (ra_myIdentity api))"

definition keep_code :: "prepared \<Rightarrow> string \<Rightarrow> ('o rec_world, unit) io" where
  "keep_code p typed w = (Inr (), w\<lparr>r_kept := p # r_kept w, t_log := t_log w @ [RTyped p typed]\<rparr>)"

definition spend_code :: "prepared \<Rightarrow> ('o rec_world, unit) io" where
  "spend_code p w = (Inr (), w\<lparr>r_kept := filter (\<lambda>q. q \<noteq> p) (r_kept w), t_log := t_log w @ [RSpent p]\<rparr>)"

definition is_kept :: "prepared \<Rightarrow> ('o rec_world, bool) io" where
  "is_kept p w = (Inr (p \<in> set (r_kept w)), w)"

definition make_prepared ::
  "string \<Rightarrow> nat \<Rightarrow> identity \<Rightarrow> string \<Rightarrow> string \<Rightarrow> ('o rec_world, prepared) io" where
  "make_prepared code check i userID wrapped w =
     (Inr \<lparr>pr_serial = r_made w, pr_code = code, pr_check = check, pr_identity = i, pr_userID = userID, pr_wrappedKey = wrapped\<rparr>,
      w\<lparr>r_made := Suc (r_made w)\<rparr>)"

section \<open>Preparing and typing back\<close>

text \<open>Rejection sampling over the stream from position \<open>at\<close>: the group and the next position.\<close>

partial_function (option) pick_from :: "(nat \<Rightarrow> byte) \<Rightarrow> nat \<Rightarrow> nat option \<Rightarrow> (nat \<times> nat) option" where
  "pick_from stream at exclude =
     (let b = unat (stream at) in
      if b \<ge> 252 then pick_from stream (Suc at) exclude
      else let g = b mod 7 + 1 in
        if Some g \<noteq> exclude then Some (g, Suc at) else pick_from stream (Suc at) exclude)"

text \<open>A stream that never offers an acceptable byte would loop for ever; the error stands for that.\<close>

definition pickGroup :: "nat option \<Rightarrow> ('o rec_world, nat) io" where
  "pickGroup exclude w =
     (case pick_from (t_random w) (t_drawn w) exclude of
        None \<Rightarrow> (Inl (Error ''pickGroup does not return''), w)
      | Some (g, at) \<Rightarrow> (Inr g, w\<lparr>t_drawn := at\<rparr>))"

definition prepareRecovery :: "lib \<Rightarrow> identity \<Rightarrow> string \<Rightarrow> ('o rec_world, prepared) io" where
  "prepareRecovery L i userID =
     bind_io (draw SECRET_BYTES) (\<lambda>secret.
     bind_io (lift_result (formatRecoveryCode L secret)) (\<lambda>code.
     bind_io (pickGroup None) (\<lambda>check.
     bind_io (draw SALT_BYTES) (\<lambda>salt. bind_io (draw NONCE_BYTES) (\<lambda>nonce.
     bind_io (lift_result (sealRecovery L secret i userID salt nonce)) (\<lambda>wrapped.
       make_prepared code check i userID (base64 wrapped)))))))"

definition recheck :: "prepared \<Rightarrow> ('o rec_world, prepared) io" where
  "recheck p =
     bind_io (pickGroup (Some (pr_check p))) (\<lambda>check.
       make_prepared (pr_code p) check (pr_identity p) (pr_userID p) (pr_wrappedKey p))"

fun split_dash :: "string \<Rightarrow> string \<Rightarrow> string list" where
  "split_dash [] acc = [rev acc]"
| "split_dash (c # cs) acc = (if c = CHR ''-'' then rev acc # split_dash cs [] else split_dash cs (c # acc))"

definition asked_group :: "prepared \<Rightarrow> string option" where
  "asked_group p =
     (let parts = split_dash (pr_code p) [] in
      if pr_check p = 0 \<or> pr_check p - 1 \<ge> length parts then None else Some (parts ! (pr_check p - 1)))"

definition confirmRecoverySaved :: "prepared \<Rightarrow> string \<Rightarrow> ('o rec_world, bool) io" where
  "confirmRecoverySaved p typed =
     (let ok = Some (fold_code typed) = asked_group p in
      if ok then bind_io (keep_code p typed) (\<lambda>_. ret True) else ret False)"

section \<open>Saving, restoring and resetting\<close>

definition saveRecovery :: "'o recovery_api \<Rightarrow> prepared \<Rightarrow> held_identity \<Rightarrow> string \<Rightarrow> ('o rec_world, string) io" where
  "saveRecovery api p held expectedRecoveryId =
     bind_io (is_kept p) (\<lambda>kept.
       if \<not> kept then throw (Error CONFIRM_FIRST)
       else if \<not> sameBytes (publicKey (pr_identity p)) (publicKey held) then throw (Error OTHER_KEY)
       else let input = \<lparr>pu_deviceId = deviceId held, pu_expectedRecoveryId = expectedRecoveryId, pu_wrapAlg = RECOVERY_ALG,
                  pu_wrappedKey = pr_wrappedKey p\<rparr> in
         catch_io
           (bind_io (log_event (RPutting p input)) (\<lambda>_.
            bind_io (call (ra_putRecovery api input)) (\<lambda>rid.
            bind_io (spend_code p) (\<lambda>_. ret rid))))
           (\<lambda>e.
             if err_code e \<noteq> Some ''already_exists'' then throw e
             else bind_io (spend_code p) (\<lambda>_.
               bind_io (catch_io (rec_listed api) (\<lambda>_. ret None)) (\<lambda>_. throw RecoveryMovedError))))"

definition keep_restored :: "'o identity_store \<Rightarrow> held_identity option \<Rightarrow> held_identity \<Rightarrow> ('o rec_world, held_identity) io" where
  "keep_restored store before i =
     bind_io (rec_save store i (Some before)) (\<lambda>ok.
       if ok then ret i
       else bind_io (rec_load store) (\<lambda>now.
         case now of
           Some n \<Rightarrow> if sameBytes (publicKey n) (publicKey i) then ret n else throw (Error OTHER_COPY)
         | None \<Rightarrow> throw LinkStorageError))"

definition open_copy :: "lib \<Rightarrow> bytes \<Rightarrow> string \<Rightarrow> live_identity \<Rightarrow> bytes \<Rightarrow> recovery_copy option \<Rightarrow> held_identity result" where
  "open_copy L secret userID live listed copy =
     (case copy of
        None \<Rightarrow> Inl (Error RECOVERY_NONE)
      | Some c \<Rightarrow>
          if rc_wrapAlg c \<noteq> RECOVERY_ALG then Inl (Error RECOVERY_NEWER)
          else if idn_device live \<noteq> rc_deviceId c \<or>
                  \<not> sameBytes listed (case keyOrUndefined (rc_publicKey c) of Some k \<Rightarrow> k | None \<Rightarrow> [])
          then Inl (RecoveryCodeError RECOVERY_STALE)
          else case fromBase64 (rc_wrappedKey c) of
            Inl _ \<Rightarrow> Inl (RecoveryCodeError RECOVERY_WRONG)
          | Inr wrapped \<Rightarrow> openRecovery L secret wrapped userID live (rc_wrapAlg c))"

definition restoreIdentity ::
  "lib \<Rightarrow> 'o recovery_api \<Rightarrow> 'o identity_store \<Rightarrow> string \<Rightarrow> string \<Rightarrow> ('o, unit) io \<Rightarrow> ('o rec_world, held_identity) io" where
  "restoreIdentity L api store userID input stepUp =
     bind_io (lift_result (parseRecoveryCode L input)) (\<lambda>secret.
     bind_io (rec_load store) (\<lambda>before.
     bind_io (rec_listed api) (\<lambda>live.
       case (live, Option.bind live (\<lambda>l. keyOrUndefined (idn_key l))) of
         (Some l, Some listed) \<Rightarrow>
           if (case before of Some b \<Rightarrow> \<not> sameBytes (publicKey b) listed | None \<Rightarrow> False) then throw (Error OTHER_COPY)
           else if (case before of Some b \<Rightarrow> deviceId b = idn_device l | None \<Rightarrow> False) then ret (the before)
           else
             bind_io (call stepUp) (\<lambda>_. bind_io (log_event RSteppedUp) (\<lambda>_.
             bind_io (log_event RFetching) (\<lambda>_.
             bind_io (call (ra_fetchRecovery api)) (\<lambda>copy.
             bind_io (lift_result (open_copy L secret userID l listed copy)) (keep_restored store before)))))
       | _ \<Rightarrow> throw (Error RECOVERY_NONE))))"

definition replace_with ::
  "'o recovery_api \<Rightarrow> prepared \<Rightarrow> string \<Rightarrow> string \<Rightarrow> string \<times> string option \<Rightarrow> ('o rec_world, string) io" where
  "replace_with api p expectedDeviceId typed wrap =
     (let input = \<lparr>ri_publicKey = base64 (publicKey (pr_identity p)), ri_wrapAlg = fst wrap, ri_wrappedPrivateKey = snd wrap,
            ri_expectedDeviceId = expectedDeviceId, ri_recoveryAlg = RECOVERY_ALG, ri_recoveryKey = pr_wrappedKey p\<rparr> in
      bind_io (log_event (RReplacing p typed input)) (\<lambda>_. call (ra_replaceIdentity api input)))"

definition reset_wrap ::
  "lib \<Rightarrow> prepared \<Rightarrow> (login_keys \<times> (string \<Rightarrow> ('o, unit) io)) option \<Rightarrow> ('o rec_world, string \<times> string option) io" where
  "reset_wrap L p password =
     (case password of
        None \<Rightarrow> ret (DEVICE_ONLY_WRAP, None)
      | Some (keys, stepUp) \<Rightarrow>
          bind_io (call (stepUp (authSecret keys))) (\<lambda>_.
          bind_io (draw 12) (\<lambda>nonce.
          bind_io (lift_result (wrapIdentity L nonce (userKEK keys) (privateKey (pr_identity p)) (pr_userID p))) (\<lambda>wrapped.
            ret (IDENTITY_WRAP_ALG, Some (base64 wrapped))))))"

definition reset_lost :: "'o recovery_api \<Rightarrow> prepared \<Rightarrow> js_error \<Rightarrow> ('o rec_world, string) io" where
  "reset_lost api p e =
     bind_io (catch_io (rec_listed api) (\<lambda>_. throw ResetUncertainError)) (\<lambda>live.
       case (live, Option.bind live (\<lambda>l. keyOrUndefined (idn_key l))) of
         (Some l, Some listed) \<Rightarrow> if sameBytes listed (publicKey (pr_identity p)) then ret (idn_device l) else throw e
       | _ \<Rightarrow> throw e)"

definition resetIdentity ::
  "lib \<Rightarrow> 'o recovery_api \<Rightarrow> 'o identity_store \<Rightarrow> prepared \<Rightarrow> string \<Rightarrow> string \<Rightarrow> (login_keys \<times> (string \<Rightarrow> ('o, unit) io)) option
    \<Rightarrow> ('o rec_world, held_identity \<times> bool) io" where
  "resetIdentity L api store p expectedDeviceId typed password =
     (if \<not> resetConfirmed (Some typed) then throw (Error RESET_UNCONFIRMED)
      else bind_io (is_kept p) (\<lambda>kept.
        if \<not> kept then throw (Error CONFIRM_FIRST)
        else bind_io (reset_wrap L p password) (\<lambda>wrap.
          bind_io (case is_noteReset store of None \<Rightarrow> ret () | Some f \<Rightarrow> catch_io (call (f (publicKey (pr_identity p)))) (\<lambda>_. ret ())) (\<lambda>_.
          bind_io
            (catch_io
              (catch_io (replace_with api p expectedDeviceId typed wrap)
                (\<lambda>e. if err_code e \<noteq> Some ''device_only_required'' then throw e
                     else replace_with api p expectedDeviceId typed (DEVICE_ONLY_WRAP, None)))
              (reset_lost api p)) (\<lambda>d.
          bind_io (spend_code p) (\<lambda>_.
            let i = with_device (pr_identity p) d in
            bind_io (rec_save store i None) (\<lambda>ok. ret (i, ok))))))))"

section \<open>Which group is asked\<close>

text \<open>Rejection sampling returns as soon as the stream offers an acceptable byte, with a group from 1 to 7 that is not the excluded one.\<close>

definition acceptable :: "nat option \<Rightarrow> byte \<Rightarrow> bool" where
  "acceptable exclude b \<longleftrightarrow> unat b < 252 \<and> Some (unat b mod 7 + 1) \<noteq> exclude"

lemma pick_from_returns:
  "acceptable exclude (stream (at + n)) \<Longrightarrow> \<exists>g next. pick_from stream at exclude = Some (g, next) \<and> 1 \<le> g \<and> g \<le> 7 \<and> Some g \<noteq> exclude"
proof (induction n arbitrary: at)
  case 0
  then show ?case by (subst pick_from.simps) (auto simp: acceptable_def Let_def)
next
  case (Suc n)
  from Suc.IH [of "Suc at"] Suc.prems have "\<exists>g next. pick_from stream (Suc at) exclude = Some (g, next) \<and> 1 \<le> g \<and> g \<le> 7 \<and> Some g \<noteq> exclude" by simp
  then show ?case by (subst pick_from.simps) (auto simp: Let_def)
qed

section \<open>The order of the calls\<close>

fun live_after :: "prepared \<Rightarrow> rec_event \<Rightarrow> bool \<Rightarrow> bool" where
  "live_after p (RTyped q _) b \<longleftrightarrow> b \<or> q = p"
| "live_after p (RSpent q) b \<longleftrightarrow> b \<and> q \<noteq> p"
| "live_after p _ b \<longleftrightarrow> b"

text \<open>The code was typed back and not spent since.\<close>

definition typed_live :: "rec_event list \<Rightarrow> prepared \<Rightarrow> bool" where
  "typed_live es p \<longleftrightarrow> fold (live_after p) es False"

lemma typed_live_append [simp]: "typed_live (es @ fs) p \<longleftrightarrow> fold (live_after p) fs (typed_live es p)"
  by (simp add: typed_live_def)

fun rec_allowed :: "rec_event list \<Rightarrow> rec_event \<Rightarrow> bool" where
  "rec_allowed es (RPutting p input) \<longleftrightarrow> typed_live es p \<and> pu_wrappedKey input = pr_wrappedKey p"
| "rec_allowed es (RReplacing p typed input) \<longleftrightarrow> typed_live es p \<and> js_trim typed = RESET_PHRASE \<and>
     ri_publicKey input = base64 (publicKey (pr_identity p)) \<and> ri_recoveryKey input = pr_wrappedKey p"
| "rec_allowed es (RTyped p typed) \<longleftrightarrow> Some (fold_code typed) = asked_group p"
| "rec_allowed es RFetching \<longleftrightarrow> RSteppedUp \<in> set es"
| "rec_allowed es (RSaving i None) \<longleftrightarrow> (\<exists>p. RSpent p \<in> set es \<and> publicKey i = publicKey (pr_identity p))"
| "rec_allowed es (RSaving i (Some before)) \<longleftrightarrow> RLoaded before \<in> set es \<and> (before = None \<or> publicKey (the before) = publicKey i)"
| "rec_allowed es _ \<longleftrightarrow> True"

definition rec_inv :: "rec_event list \<Rightarrow> prepared list \<Rightarrow> bool" where
  "rec_inv es kept \<longleftrightarrow> every_event rec_allowed es \<and> (\<forall>p \<in> set kept. typed_live es p)"

abbreviation rec_at :: "'o rec_world \<Rightarrow> bool" where
  "rec_at w \<equiv> rec_inv (t_log w) (r_kept w)"

lemma rec_inv_quiet: "rec_inv es kept \<Longrightarrow> tail_ok rec_allowed es fs \<Longrightarrow> (\<And>p. fold (live_after p) fs = id) \<Longrightarrow> rec_inv (es @ fs) kept"
  by (simp add: rec_inv_def)

lemma quiet_events [simp]: "live_after p (RLoaded l) = id" "live_after p (RSaving i e) = id" "live_after p (RListed v) = id"
  "live_after p RSteppedUp = id" "live_after p RFetching = id" "live_after p (RReplacing q t inp) = id" "live_after p (RPutting q put) = id"
  by (auto simp: fun_eq_iff)

lemma wp_codes [wps]:
  "wp (keep_code p typed) Q E w = Q () (w\<lparr>r_kept := p # r_kept w, t_log := t_log w @ [RTyped p typed]\<rparr>)"
  "wp (spend_code p) Q E w = Q () (w\<lparr>r_kept := filter (\<lambda>q. q \<noteq> p) (r_kept w), t_log := t_log w @ [RSpent p]\<rparr>)"
  "wp (is_kept p) Q' E w = Q' (p \<in> set (r_kept w)) w"
  by (simp_all add: wp_def keep_code_def spend_code_def is_kept_def)

lemma wp_make_prepared [wps]:
  "wp (make_prepared code check i userID wrapped) Q E w =
     Q \<lparr>pr_serial = r_made w, pr_code = code, pr_check = check, pr_identity = i, pr_userID = userID, pr_wrappedKey = wrapped\<rparr> (w\<lparr>r_made := Suc (r_made w)\<rparr>)"
  by (simp add: wp_def make_prepared_def)

lemma wp_pickGroup [wps]:
  "wp (pickGroup exclude) Q E w = (case pick_from (t_random w) (t_drawn w) exclude of
     None \<Rightarrow> E (Error ''pickGroup does not return'') w | Some (g, at) \<Rightarrow> Q g (w\<lparr>t_drawn := at\<rparr>))"
  by (simp add: wp_def pickGroup_def split: option.split prod.split)

lemmas rec_calls = rec_load_def rec_save_def rec_listed_def

abbreviation keeps_inv :: "('o rec_world, 'a) io \<Rightarrow> bool" where
  "keeps_inv m \<equiv> (\<forall>w. rec_at w \<longrightarrow> wp m (\<lambda>_. rec_at) (\<lambda>_. rec_at) w)"

lemma prepare_inv: "keeps_inv (prepareRecovery L i userID)" "keeps_inv (recheck p)"
  by (auto simp: prepareRecovery_def recheck_def wps rec_inv_def split: sum.split option.split)

lemma confirm_inv: "keeps_inv (confirmRecoverySaved p typed)"
  by (auto simp: confirmRecoverySaved_def wps rec_inv_def Let_def)

lemma saveRecovery_inv: "keeps_inv (saveRecovery api p held expected)"
  by (auto simp: saveRecovery_def wps rec_calls rec_inv_def Let_def split: sum.split)

lemma openRecovery_key:
  assumes "openRecovery L secret wrapped userID listed alg = Inr i"
  shows "publicKeyBytes (idn_key listed) = Inr (publicKey i)"
  using assms by (rule openRecovery_parts) (use assms in \<open>simp add: openRecovery_Inr\<close>)

lemma open_copy_key:
  "open_copy L secret userID live listed copy = Inr i \<Longrightarrow> publicKeyBytes (idn_key live) = Inr (publicKey i)"
  by (auto simp: open_copy_def dest: openRecovery_key split: option.splits if_splits sum.splits)

lemma keyOrUndefined_Some [simp]: "keyOrUndefined k = Some b \<longleftrightarrow> publicKeyBytes k = Inr b"
  by (simp add: keyOrUndefined_def)

text \<open>What is restored is the key the server listed in this run.\<close>

definition restored_ok :: "rec_event list \<Rightarrow> held_identity \<Rightarrow> bool" where
  "restored_ok es i \<longleftrightarrow> (\<exists>l. RListed (Some l) \<in> set es \<and> publicKeyBytes (idn_key l) = Inr (publicKey i))"

lemma keep_restored_ok:
  assumes "rec_at w" "RLoaded before \<in> set (t_log w)" "before = None \<or> publicKey (the before) = publicKey i" "restored_ok (t_log w) i"
  shows "wp (keep_restored store before i) (\<lambda>r w. rec_at w \<and> restored_ok (t_log w) r) (\<lambda>_. rec_at) w"
  using assms by (auto simp: keep_restored_def wps rec_calls rec_inv_def restored_ok_def split: sum.split option.split)

lemma restoreIdentity_inv:
  "rec_at w \<Longrightarrow> wp (restoreIdentity L api store userID input stepUp) (\<lambda>r w. rec_at w \<and> restored_ok (t_log w) r) (\<lambda>_. rec_at) w"
  unfolding restoreIdentity_def
  by (auto simp: wps rec_calls bind_eq_Some_conv restored_ok_def dest: open_copy_key split: sum.split option.split if_splits
    intro!: rec_inv_quiet keep_restored_ok [unfolded restored_ok_def])

lemma reset_lost_inv: "rec_at w \<Longrightarrow> typed_live (t_log w) p \<Longrightarrow>
    wp (reset_lost api p e) (\<lambda>_ w. rec_at w \<and> typed_live (t_log w) p) (\<lambda>_. rec_at) w"
  by (auto simp: reset_lost_def wps rec_calls rec_inv_def split: sum.split option.split)

lemma replace_with_inv: "rec_at w \<Longrightarrow> typed_live (t_log w) p \<Longrightarrow> js_trim typed = RESET_PHRASE \<Longrightarrow>
    wp (replace_with api p d typed wrap) (\<lambda>_ w. rec_at w \<and> typed_live (t_log w) p) (\<lambda>_ w. rec_at w \<and> typed_live (t_log w) p) w"
  by (auto simp: replace_with_def wps rec_inv_def Let_def split: sum.split)

text \<open>The request of a reset: sent at most twice, then settled by what the server lists.\<close>

lemma reset_request_inv:
  assumes "rec_at w" "typed_live (t_log w) p" "js_trim typed = RESET_PHRASE"
  shows "wp (catch_io (catch_io (replace_with api p d typed wrap)
      (\<lambda>e. if err_code e \<noteq> Some ''device_only_required'' then throw e else replace_with api p d typed (DEVICE_ONLY_WRAP, None)))
      (reset_lost api p)) (\<lambda>_ w. rec_at w \<and> typed_live (t_log w) p) (\<lambda>_. rec_at) w"
  unfolding wp_catch
  by (rule wp_mono [OF replace_with_inv [OF assms]])
    (auto simp: wps intro!: reset_lost_inv wp_mono [OF replace_with_inv [OF _ _ assms(3)]])

lemma resetIdentity_inv: "keeps_inv (resetIdentity L api store p d typed password)"
proof (intro allI impI)
  fix w :: "'a rec_world"
  assume inv: "rec_at w"
  show "wp (resetIdentity L api store p d typed password) (\<lambda>_. rec_at) (\<lambda>_. rec_at) w"
  proof (cases "js_trim typed = RESET_PHRASE \<and> p \<in> set (r_kept w)")
    case False
    with inv show ?thesis by (auto simp: resetIdentity_def resetConfirmed_def wps)
  next
    case True
    with inv have live: "typed_live (t_log w) p" by (simp add: rec_inv_def)
    have last: "wp (bind_io (spend_code p) (\<lambda>_. let i = with_device (pr_identity p) x in bind_io (rec_save store i None) (\<lambda>ok. ret (i, ok))))
        (\<lambda>_. rec_at) (\<lambda>_. rec_at) v" if "rec_at v" for x and v :: "'a rec_world"
      using that by (auto simp: wps rec_calls rec_inv_def Let_def with_device_def split: sum.split)
    have sent: "wp (bind_io (catch_io (catch_io (replace_with api p d typed wrap)
        (\<lambda>e. if err_code e \<noteq> Some ''device_only_required'' then throw e else replace_with api p d typed (DEVICE_ONLY_WRAP, None)))
        (reset_lost api p)) (\<lambda>d. bind_io (spend_code p) (\<lambda>_. let i = with_device (pr_identity p) d in bind_io (rec_save store i None) (\<lambda>ok. ret (i, ok)))))
        (\<lambda>_. rec_at) (\<lambda>_. rec_at) v" if "rec_at v" "typed_live (t_log v) p" for wrap and v :: "'a rec_world"
      by (rule wp_request [OF reset_request_inv]) (use that True last in auto)
    have reset: "wp (bind_io (case is_noteReset store of None \<Rightarrow> ret () | Some f \<Rightarrow> catch_io (call (f (publicKey (pr_identity p)))) (\<lambda>_. ret ())) (\<lambda>_.
        bind_io (catch_io (catch_io (replace_with api p d typed wrap)
        (\<lambda>e. if err_code e \<noteq> Some ''device_only_required'' then throw e else replace_with api p d typed (DEVICE_ONLY_WRAP, None)))
        (reset_lost api p)) (\<lambda>d. bind_io (spend_code p) (\<lambda>_. let i = with_device (pr_identity p) d in bind_io (rec_save store i None) (\<lambda>ok. ret (i, ok))))))
        (\<lambda>_. rec_at) (\<lambda>_. rec_at) v" if "rec_at v" "typed_live (t_log v) p" for wrap and v :: "'a rec_world"
      by (rule wp_request [where P = "\<lambda>w. rec_at w \<and> typed_live (t_log w) p", OF _ sent])
        (use that in \<open>auto simp: wps split: sum.split option.split\<close>)
    have "wp (reset_wrap L p password) (\<lambda>_ w. rec_at w \<and> typed_live (t_log w) p) (\<lambda>_. rec_at) w"
      using inv live by (auto simp: reset_wrap_def wps split: sum.split option.split prod.split)
    from wp_request [OF this reset] True show ?thesis
      by (simp add: resetIdentity_def resetConfirmed_def wp_if wp_bind wp_codes)
  qed
qed

section \<open>Any sequence of operations\<close>

datatype 'o rec_op =
    OpPrepare identity string
  | OpRecheck prepared
  | OpType prepared string
  | OpSave prepared held_identity string
  | OpRestore string string "('o, unit) io"
  | OpReset prepared string string "(login_keys \<times> (string \<Rightarrow> ('o, unit) io)) option"

fun rec_step :: "lib \<Rightarrow> 'o recovery_api \<Rightarrow> 'o identity_store \<Rightarrow> 'o rec_op \<Rightarrow> 'o rec_world \<Rightarrow> 'o rec_world" where
  "rec_step L api store (OpPrepare i userID) w = snd (prepareRecovery L i userID w)"
| "rec_step L api store (OpRecheck p) w = snd (recheck p w)"
| "rec_step L api store (OpType p typed) w = snd (confirmRecoverySaved p typed w)"
| "rec_step L api store (OpSave p held expected) w = snd (saveRecovery api p held expected w)"
| "rec_step L api store (OpRestore userID input stepUp) w = snd (restoreIdentity L api store userID input stepUp w)"
| "rec_step L api store (OpReset p d typed password) w = snd (resetIdentity L api store p d typed password w)"

lemma wp_snd: "wp m (\<lambda>_. P) (\<lambda>_. P) w \<Longrightarrow> P (snd (m w))"
  by (rule wp_run) (auto simp: prod_eq_iff)

lemma rec_step_inv: "rec_at w \<Longrightarrow> rec_at (rec_step L api store op w)"
proof (cases op)
  case (OpRestore userID input stepUp)
  assume "rec_at w"
  have "wp (restoreIdentity L api store userID input stepUp) (\<lambda>_. rec_at) (\<lambda>_. rec_at) w"
    by (rule wp_mono [OF restoreIdentity_inv [OF \<open>rec_at w\<close>]]) auto
  from wp_snd [OF this] show ?thesis by (simp add: OpRestore)
qed (auto intro!: wp_snd [where P = rec_at] prepare_inv [rule_format] confirm_inv [rule_format] saveRecovery_inv [rule_format] resetIdentity_inv [rule_format])

lemma rec_steps_inv: "rec_at w \<Longrightarrow> rec_at (fold (rec_step L api store) ops w)"
  by (induction ops arbitrary: w) (simp_all add: rec_step_inv)


definition demo_prepared :: prepared where
  "demo_prepared = \<lparr>pr_serial = 0, pr_code = ''AB10-CD23'', pr_check = 2, pr_identity = \<lparr>publicKey = [1], privateKey = [2]\<rparr>, pr_userID = ''u'', pr_wrappedKey = ''k''\<rparr>"

definition demo_rec_api :: "unit recovery_api" where
  "demo_rec_api = \<lparr>ra_myIdentity = (\<lambda>w. (Inr None, w)), ra_putRecovery = (\<lambda>_ w. (Inr ''r'', w)), ra_fetchRecovery = (\<lambda>w. (Inr None, w)),
     ra_replaceIdentity = (\<lambda>_ w. (Inr ''d'', w))\<rparr>"

definition demo_rec_world :: "unit rec_world" where
  "demo_rec_world = \<lparr>t_outside = (), t_random = (\<lambda>_. 7), t_drawn = 0, t_log = [], r_kept = [], r_made = 1\<rparr>"

lemma demo_rec_log:
  "t_log (fold (rec_step L demo_rec_api demo_store)
     [OpType demo_prepared '' cd-23'', OpSave demo_prepared \<lparr>publicKey = [1], privateKey = [2], deviceId = ''d''\<rparr> []] demo_rec_world) =
   [RTyped demo_prepared '' cd-23''] @
     RPutting demo_prepared \<lparr>pu_deviceId = ''d'', pu_expectedRecoveryId = [], pu_wrapAlg = RECOVERY_ALG, pu_wrappedKey = ''k''\<rparr> # [RSpent demo_prepared]"
proof -
  have group: "Some (fold_code '' cd-23'') = asked_group demo_prepared" by code_simp
  show ?thesis
    by (simp add: confirmRecoverySaved_def group keep_code_def bind_io_def saveRecovery_def is_kept_def demo_rec_world_def log_event_def call_def
        spend_code_def catch_io_def demo_rec_api_def demo_prepared_def)
qed


text \<open>What a typed recovery code restores is the key the server lists for the account in that run, kept here or already held.\<close>

lemma restored_key_is_listed:
  assumes "t_log w = []" "r_kept w = []" "restoreIdentity L api store userID input stepUp w = (Inr i, w')"
  shows "\<exists>l. RListed (Some l) \<in> set (t_log w') \<and> publicKeyBytes (idn_key l) = Inr (publicKey i)"
proof -
  have "rec_at w" by (simp add: rec_inv_def assms(1,2))
  from wpD(1) [OF restoreIdentity_inv [OF this] assms(3)] show ?thesis by (simp add: restored_ok_def)
qed

text \<open>Choosing the group to type back returns as soon as the random stream offers an acceptable byte, and the group is one of the seven
  and not the excluded one.\<close>

lemma pick_group_returns:
  assumes "acceptable exclude (t_random w (t_drawn w + n))"
  shows "\<exists>g w'. pickGroup exclude w = (Inr g, w') \<and> 1 \<le> g \<and> g \<le> 7 \<and> Some g \<noteq> exclude"
  using pick_from_returns [of exclude "t_random w" "t_drawn w" n, OF assms] by (auto simp: pickGroup_def)

end
