(* ===== verification/Linking.thy ===== *)
theory Linking
  imports Recovery
begin

text \<open>
  Linking a new browser to the account's key (\<open>web/src/linking.ts\<close> and \<open>web/src/linkFlow.ts\<close>, with the two link
  gates of \<open>outbound.ts\<close>). One-time keys, the approver key pinned to each, and the confirmations of check codes are
  objects known by identity (\<open>WeakSet\<close>, \<open>WeakMap\<close>); here they are lists in the world and every object carries a
  serial number. One operation runs to its end before the next starts. The lemmas: a sealed bundle opens for its
  context, the context determines every bound value, a one-time key is pinned and revealed once, a bundle is opened
  only after the user confirmed the pinned code and sent only after the typed code matched, and the vault is never
  written over another key. \<open>linkRefusal\<close> only picks texts and is left out.
\<close>

definition LINK_LABEL :: string where "LINK_LABEL = ''kynotes/link/v2''"
definition COMMIT_LABEL :: string where "COMMIT_LABEL = ''kynotes/link-commit/v1''"
definition CHECK_LABEL :: string where "CHECK_LABEL = ''kynotes/link-check/v1''"
definition LINK_VERSION :: byte where "LINK_VERSION = 2"
definition LINK_BUNDLE_BYTES :: nat where "LINK_BUNDLE_BYTES = 81"

section \<open>Commitment, check code and bundle\<close>

record link_context =
  lx_userID :: string
  lx_requestID :: string
  lx_identityDeviceID :: string
  lx_approverKey :: bytes
  lx_newcomerKey :: bytes

definition key32 :: "bytes \<Rightarrow> bytes result" where
  "key32 k = (if length k \<noteq> 32 then Inl (Error ''invalid link key'') else Inr k)"

definition linkCommitment :: "lib \<Rightarrow> bytes \<Rightarrow> bytes result" where
  "linkCommitment L k = rbind (key32 k) (\<lambda>k. Inr (sha256 L (concat_bytes [encode COMMIT_LABEL, k])))"

text \<open>\<open>String(n).padStart(6, "0")\<close> for a number below a million.\<close>

definition six_digits :: "nat \<Rightarrow> string" where
  "six_digits n = map (\<lambda>k. ''0123456789'' ! (n div 10 ^ k mod 10)) [5, 4, 3, 2, 1, 0]"

definition uint32 :: "bytes \<Rightarrow> nat" where
  "uint32 bs = byte_at bs 0 * 16777216 + byte_at bs 1 * 65536 + byte_at bs 2 * 256 + byte_at bs 3"

definition checkCode :: "lib \<Rightarrow> string \<Rightarrow> string \<Rightarrow> bytes \<Rightarrow> bytes \<Rightarrow> string result" where
  "checkCode L userID requestID approverKey newcomerKey =
     rbind (idBytes ''usr'' userID) (\<lambda>u.
     rbind (idBytes ''lnk'' requestID) (\<lambda>r.
     rbind (key32 approverKey) (\<lambda>a.
     rbind (key32 newcomerKey) (\<lambda>n.
       let digest = sha256 L (concat_bytes [encode CHECK_LABEL, u, r, a, n]) in
       if length digest < 4 then Inl (NamedError ''RangeError'' ''Invalid DataView length 4'')
       else let d = six_digits (uint32 digest mod 1000000) in Inr (take 3 d @ '' '' @ drop 3 d)))))"

definition linkInfo :: "link_context \<Rightarrow> bytes result" where
  "linkInfo c =
     rbind (idBytes ''usr'' (lx_userID c)) (\<lambda>u.
     rbind (idBytes ''lnk'' (lx_requestID c)) (\<lambda>r.
     rbind (idBytes ''dev'' (lx_identityDeviceID c)) (\<lambda>d.
     rbind (key32 (lx_approverKey c)) (\<lambda>a.
     rbind (key32 (lx_newcomerKey c)) (\<lambda>n.
       Inr (concat_bytes [encode LINK_LABEL, u, r, d, a, n]))))))"

definition sealLinkBundle :: "lib \<Rightarrow> bytes \<Rightarrow> bytes \<Rightarrow> 'a identity_scheme \<Rightarrow> link_context \<Rightarrow> bytes result" where
  "sealLinkBundle L seed identityPrivateKey approver c =
     (if length identityPrivateKey \<noteq> 32 \<or> \<not> sameBytes (publicKey approver) (lx_approverKey c) then Inl (Error ''invalid link input'')
      else
        rbind (key32 (lx_newcomerKey c)) (\<lambda>recipient.
        rbind (hpkeKeyPair L (privateKey approver)) (\<lambda>sender.
        rbind (linkInfo c) (\<lambda>info.
          let (enc, ct) = hpke_seal L recipient (privateKey sender) info seed identityPrivateKey in
          Inr (concat_bytes [[LINK_VERSION], enc, ct])))))"

definition link_refused :: "string \<Rightarrow> js_error" where
  "link_refused reason = Error (''link bundle refused: '' @ reason)"

definition openLinkBundle :: "lib \<Rightarrow> bytes \<Rightarrow> 'a identity_scheme \<Rightarrow> link_context \<Rightarrow> bytes result" where
  "openLinkBundle L bundle newcomer c =
     (if length bundle \<noteq> LINK_BUNDLE_BYTES \<or> hd bundle \<noteq> LINK_VERSION \<or> length (lx_approverKey c) \<noteq> 32 then Inl (link_refused ''format'')
      else if \<not> sameBytes (publicKey newcomer) (lx_newcomerKey c) then Inl (link_refused ''newcomer-key'')
      else if x25519_shared L (privateKey newcomer) (lx_approverKey c) = None then Inl (link_refused ''low-order'')
      else case rbind (hpkeKeyPair L (privateKey newcomer)) (\<lambda>k. rbind (linkInfo c) (\<lambda>info. Inr (k, info))) of
        Inl _ \<Rightarrow> Inl (link_refused ''aead'')
      | Inr (k, info) \<Rightarrow>
          (case hpke_open L (privateKey k) (lx_approverKey c) (take 32 (drop 1 bundle)) info (drop 33 bundle) of
             None \<Rightarrow> Inl (link_refused ''aead'') | Some sk \<Rightarrow> Inr sk))"

section \<open>One-time keys and confirmations\<close>

record link_key = identity +
  lk_serial :: nat

record link_confirmation =
  lc_serial :: nat
  lc_requestID :: string
  lc_code :: string

datatype link_event =
    LCreating bytes
  | LClaiming link_key
  | LCollecting link_key
  | LPinned link_key bytes string
  | LRevealing link_key
  | LEnded link_key
  | LConfirmed link_confirmation
  | LTyped link_confirmation string
  | LListed "live_identity option"
  | LLoaded "held_identity option"
  | LOpening link_key string
  | LSaving held_identity "held_identity option option"
  | LSending link_confirmation string

record 'o link_world = "('o, link_event) traced" +
  lw_live :: "link_key list"
  lw_pins :: "(link_key \<times> bytes \<times> string) list"
  lw_confirmations :: "link_confirmation list"
  lw_typed :: "link_confirmation list"
  lw_made :: nat

definition newLinkKey :: "lib \<Rightarrow> ('o link_world, link_key) io" where
  "newLinkKey L =
     bind_io (draw 32) (\<lambda>sk w.
       let k = \<lparr>publicKey = x25519_public L sk, privateKey = sk, lk_serial = lw_made w\<rparr> in
       (Inr k, w\<lparr>lw_live := k # lw_live w, lw_made := Suc (lw_made w)\<rparr>))"

definition discardLinkKey :: "link_key \<Rightarrow> ('o link_world, unit) io" where
  "discardLinkKey k w =
     (Inr (), if k \<in> set (lw_live w)
              then w\<lparr>lw_live := filter (\<lambda>j. j \<noteq> k) (lw_live w), t_log := t_log w @ [LEnded k]\<rparr> else w)"

definition isLiveLinkKey :: "link_key \<Rightarrow> ('o link_world, bool) io" where
  "isLiveLinkKey k w = (Inr (k \<in> set (lw_live w)), w)"

definition confirmCheckCode :: "string \<Rightarrow> string \<Rightarrow> ('o link_world, link_confirmation) io" where
  "confirmCheckCode requestID code w =
     (let c = \<lparr>lc_serial = lw_made w, lc_requestID = requestID, lc_code = code\<rparr> in
      (Inr c, w\<lparr>lw_confirmations := c # lw_confirmations w, lw_made := Suc (lw_made w), t_log := t_log w @ [LConfirmed c]\<rparr>))"

definition isCheckCodeConfirmation :: "link_confirmation \<Rightarrow> string \<Rightarrow> ('o link_world, bool) io" where
  "isCheckCodeConfirmation c requestID w = (Inr (c \<in> set (lw_confirmations w) \<and> lc_requestID c = requestID), w)"

definition squash :: "string \<Rightarrow> string" where
  "squash code = filter (\<lambda>c. \<not> js_space c) (map nfkc_char code)"

definition WRONG_CODE :: string where
  "WRONG_CODE = ''That is not the code the other browser shows. Type it again; if the codes differ, cancel.''"

definition confirmTypedCheckCode :: "string \<Rightarrow> string \<Rightarrow> string \<Rightarrow> ('o link_world, link_confirmation) io" where
  "confirmTypedCheckCode requestID shown entered =
     (if shown = [] \<or> squash entered \<noteq> squash shown then throw (Error WRONG_CODE)
      else bind_io (confirmCheckCode requestID shown) (\<lambda>c w.
        (Inr c, w\<lparr>lw_typed := c # lw_typed w, t_log := t_log w @ [LTyped c entered]\<rparr>)))"

definition isTypedCheckCodeConfirmation :: "link_confirmation \<Rightarrow> string \<Rightarrow> ('o link_world, bool) io" where
  "isTypedCheckCodeConfirmation c requestID =
     bind_io (isCheckCodeConfirmation c requestID) (\<lambda>ok w. (Inr (ok \<and> c \<in> set (lw_typed w)), w))"

section \<open>The attempt\<close>

definition LinkTamperedError :: js_error where
  "LinkTamperedError = NamedError ''LinkTamperedError'' (''The other browser'' @ [CHR 0x27] @ ''s key changed while linking. Nothing was linked; start again on both browsers.'')"
definition LinkEndedError :: js_error where
  "LinkEndedError = NamedError ''LinkEndedError'' ''This link attempt ended. Nothing was linked; start again on both browsers.''"
definition LinkNoIdentityError :: js_error where
  "LinkNoIdentityError = NamedError ''LinkNoIdentityError'' ''Your account has no encryption key yet, so there is nothing to link. Set one up first, or link this browser from one that holds it.''"
definition ACCOUNT_CHANGED :: string where
  "ACCOUNT_CHANGED = ''The signed-in account changed while linking. Nothing was linked; start again on both browsers.''"
definition COMPARE_FIRST :: string where "COMPARE_FIRST = ''Compare the check codes on both screens first.''"

definition live_link :: "link_key \<Rightarrow> string \<Rightarrow> string \<Rightarrow> ('o link_world, unit) io" where
  "live_link k owner userID =
     bind_io (isLiveLinkKey k) (\<lambda>alive.
       if \<not> alive then throw LinkEndedError
       else if userID \<noteq> owner then bind_io (discardLinkKey k) (\<lambda>_. throw (Error ACCOUNT_CHANGED))
       else ret ())"

definition orEnd :: "link_key \<Rightarrow> ('o link_world, 'a) io \<Rightarrow> ('o link_world, 'a) io" where
  "orEnd k step = catch_io step (\<lambda>e. bind_io (discardLinkKey k) (\<lambda>_. throw e))"

record newcomer_link =
  nl_id :: string
  nl_userID :: string
  nl_key :: link_key
  nl_expiresAt :: string
  nl_approverKey :: "bytes option"
  nl_code :: "string option"

record link_state =
  ls_approverKey :: "string option"
  ls_bundle :: "string option"

record 'o newcomer_api =
  na_create :: "string \<Rightarrow> ('o, string \<times> string) io"
  na_collect :: "string \<Rightarrow> ('o, link_state) io"
  na_reveal :: "string \<Rightarrow> string \<Rightarrow> ('o, unit) io"
  na_myIdentity :: "('o, live_identity option) io"

definition nonempty_text :: "string option \<Rightarrow> string option" where
  "nonempty_text s = (if s = Some [] then None else s)"

definition link_load :: "'o identity_store \<Rightarrow> ('o link_world, held_identity option) io" where
  "link_load store = noting (\<lambda>i. [LLoaded i]) (call (is_load store))"

definition link_listed :: "'o newcomer_api \<Rightarrow> ('o link_world, live_identity option) io" where
  "link_listed api = noting (\<lambda>l. [LListed l]) (call (na_myIdentity api))"

definition otherCopyHeld :: "'o newcomer_api \<Rightarrow> 'o identity_store \<Rightarrow> ('o link_world, bool) io" where
  "otherCopyHeld api store =
     bind_io (link_load store) (\<lambda>local.
       case local of
         None \<Rightarrow> ret False
       | Some i \<Rightarrow> bind_io (link_listed api) (\<lambda>listed.
           case listed of
             None \<Rightarrow> ret True
           | Some l \<Rightarrow> lift_result (rbind (publicKeyBytes (idn_key l)) (\<lambda>pk. Inr (\<not> sameBytes (publicKey i) pk)))))"

definition startNewcomerLink :: "lib \<Rightarrow> 'o newcomer_api \<Rightarrow> ('o, bool) io \<Rightarrow> string \<Rightarrow> ('o link_world, newcomer_link) io" where
  "startNewcomerLink L api canKeep userID =
     bind_io (call canKeep) (\<lambda>can.
       if \<not> can then throw LinkStorageError
       else bind_io (newLinkKey L) (\<lambda>k.
         bind_io (catch_io (orEnd k
             (bind_io (lift_result (linkCommitment L (publicKey k))) (\<lambda>c.
              bind_io (log_event (LCreating c)) (\<lambda>_. call (na_create api (base64 c))))))
           (\<lambda>e. throw (if err_code e = Some ''not_found'' then LinkNoIdentityError else e))) (\<lambda>(lid, expiresAt).
         ret \<lparr>nl_id = lid, nl_userID = userID, nl_key = k, nl_expiresAt = expiresAt, nl_approverKey = None, nl_code = None\<rparr>)))"

text \<open>\<open>collectLinkBundle\<close> of \<open>outbound.ts\<close>: only an attempt that still holds its one-time key collects.\<close>

definition collectLinkBundle :: "'o newcomer_api \<Rightarrow> link_key \<Rightarrow> string \<Rightarrow> ('o link_world, link_state) io" where
  "collectLinkBundle api k requestID =
     bind_io (isLiveLinkKey k) (\<lambda>alive.
       if \<not> alive then throw (Error ''This link attempt ended. Start again on both browsers.'')
       else bind_io (log_event (LCollecting k)) (\<lambda>_. call (na_collect api requestID)))"

definition get_pin :: "link_key \<Rightarrow> ('o link_world, (bytes \<times> string) option) io" where
  "get_pin k w = (Inr (map_of (lw_pins w) k), w)"

definition set_pin :: "link_key \<Rightarrow> bytes \<Rightarrow> string \<Rightarrow> ('o link_world, unit) io" where
  "set_pin k approverKey code w =
     (Inr (), w\<lparr>lw_pins := AList.update k (approverKey, code) (lw_pins w), t_log := t_log w @ [LPinned k approverKey code]\<rparr>)"

definition pin_approver :: "lib \<Rightarrow> 'o newcomer_api \<Rightarrow> newcomer_link \<Rightarrow> string \<Rightarrow> ('o link_world, newcomer_link) io" where
  "pin_approver L api link shown =
     orEnd (nl_key link)
       (bind_io (lift_result (publicKeyBytes shown)) (\<lambda>approverKey.
        bind_io (lift_result (checkCode L (nl_userID link) (nl_id link) approverKey (publicKey (nl_key link)))) (\<lambda>code.
        bind_io (set_pin (nl_key link) approverKey code) (\<lambda>_.
        bind_io (log_event (LRevealing (nl_key link))) (\<lambda>_.
        bind_io (call (na_reveal api (nl_id link) (base64 (publicKey (nl_key link))))) (\<lambda>_.
          ret (link\<lparr>nl_approverKey := Some approverKey, nl_code := Some code\<rparr>)))))))"

definition poll_answer :: "lib \<Rightarrow> 'o newcomer_api \<Rightarrow> newcomer_link \<Rightarrow> link_state \<Rightarrow> ('o link_world, newcomer_link \<times> bytes option) io" where
  "poll_answer L api link state =
     bind_io (get_pin (nl_key link)) (\<lambda>pinned.
       case pinned of
         Some (approverKey, code) \<Rightarrow>
           bind_io (lift_result (case nonempty_text (ls_approverKey state) of
               None \<Rightarrow> Inr True | Some a \<Rightarrow> rbind (publicKeyBytes a) (\<lambda>k. Inr (sameBytes k approverKey)))) (\<lambda>same.
             if \<not> same then bind_io (discardLinkKey (nl_key link)) (\<lambda>_. throw LinkTamperedError)
             else bind_io (lift_result (case nonempty_text (ls_bundle state) of
                 None \<Rightarrow> Inr None | Some b \<Rightarrow> rbind (fromBase64 b) (\<lambda>bs. Inr (Some bs)))) (\<lambda>bundle.
               ret (link\<lparr>nl_approverKey := Some approverKey, nl_code := Some code\<rparr>, bundle)))
       | None \<Rightarrow>
           (case nonempty_text (ls_approverKey state) of
              None \<Rightarrow> ret (link, None)
            | Some shown \<Rightarrow> bind_io (pin_approver L api link shown) (\<lambda>link'. ret (link', None))))"

definition pollNewcomerLink :: "lib \<Rightarrow> 'o newcomer_api \<Rightarrow> newcomer_link \<Rightarrow> string \<Rightarrow> ('o link_world, newcomer_link \<times> bytes option) io" where
  "pollNewcomerLink L api link userID =
     bind_io (live_link (nl_key link) (nl_userID link) userID) (\<lambda>_.
     bind_io (collectLinkBundle api (nl_key link) (nl_id link)) (poll_answer L api link))"

section \<open>Waiting for the bundle\<close>

definition NEWCOMER_POLL_MS :: int where "NEWCOMER_POLL_MS = 4000"
definition POLL_BACKOFF_MAX_MS :: int where "POLL_BACKOFF_MAX_MS = 30000"
definition LINK_TTL_MS :: int where "LINK_TTL_MS = 10 * 60000"

definition transient_error :: "js_error \<Rightarrow> bool" where
  "transient_error e = (case e of APIRequestError _ status \<Rightarrow> status = Some 429 | TypeError \<Rightarrow> True | _ \<Rightarrow> False)"

record 'o link_screen =
  sc_wanted :: "('o, bool) io"
  sc_shown :: "newcomer_link \<Rightarrow> ('o, unit) io"
  sc_wait :: "int \<Rightarrow> ('o, unit) io"
  sc_now :: "('o, int) io"

text \<open>The loop has no bound of its own: \<open>StillWaiting\<close> is the state after the given number of polls.\<close>

datatype awaited = StillWaiting | Awaited "bytes option"

definition poll_round ::
  "lib \<Rightarrow> 'o newcomer_api \<Rightarrow> 'o link_screen \<Rightarrow> newcomer_link \<Rightarrow> string \<Rightarrow> ('o link_world, bytes option option) io" where
  "poll_round L api sc link userID =
     bind_io (pollNewcomerLink L api link userID) (\<lambda>(next, bundle).
     bind_io (call (sc_wanted sc)) (\<lambda>wanted.
       if \<not> wanted then ret (Some None)
       else bind_io (call (sc_shown sc next)) (\<lambda>_. ret (if bundle = None then None else Some bundle))))"

definition back_off ::
  "'o link_screen \<Rightarrow> link_key \<Rightarrow> int \<Rightarrow> int option \<Rightarrow> js_error \<Rightarrow> ('o link_world, int \<times> int) io" where
  "back_off sc k delay failingSince e =
     bind_io (isLiveLinkKey k) (\<lambda>alive.
       if \<not> transient_error e \<or> \<not> alive then throw e
       else bind_io (case failingSince of Some s \<Rightarrow> ret s | None \<Rightarrow> call (sc_now sc)) (\<lambda>since.
         bind_io (call (sc_now sc)) (\<lambda>now.
           if now - since \<ge> LINK_TTL_MS then bind_io (discardLinkKey k) (\<lambda>_. throw LinkEndedError)
           else ret (min (delay * 2) POLL_BACKOFF_MAX_MS, since))))"

fun awaitLinkBundle ::
  "nat \<Rightarrow> lib \<Rightarrow> 'o newcomer_api \<Rightarrow> 'o link_screen \<Rightarrow> newcomer_link \<Rightarrow> string \<Rightarrow> int \<Rightarrow> int option \<Rightarrow> ('o link_world, awaited) io" where
  "awaitLinkBundle 0 L api sc link userID delay failingSince = ret StillWaiting"
| "awaitLinkBundle (Suc n) L api sc link userID delay failingSince =
     bind_io (call (sc_wait sc delay)) (\<lambda>_.
     bind_io (call (sc_wanted sc)) (\<lambda>wanted.
       if \<not> wanted then ret (Awaited None)
       else bind_io (catch_io (bind_io (poll_round L api sc link userID) (\<lambda>r. ret (Inr r)))
           (\<lambda>e. bind_io (back_off sc (nl_key link) delay failingSince e) (\<lambda>r. ret (Inl r)))) (\<lambda>step.
         case step of
           Inr (Some bundle) \<Rightarrow> ret (Awaited bundle)
         | Inr None \<Rightarrow> awaitLinkBundle n L api sc link userID NEWCOMER_POLL_MS None
         | Inl (delay', since) \<Rightarrow> awaitLinkBundle n L api sc link userID delay' (Some since))))"

declare awaitLinkBundle.simps [simp del]

section \<open>Finishing on the new browser\<close>

definition finally_io :: "('w, 'a) io \<Rightarrow> ('w, unit) io \<Rightarrow> ('w, 'a) io" where
  "finally_io m f = bind_io (catch_io m (\<lambda>e. bind_io f (\<lambda>_. throw e))) (\<lambda>x. bind_io f (\<lambda>_. ret x))"

definition NOT_YOUR_KEY :: string where
  "NOT_YOUR_KEY = ''The key sent is not your account'' @ [CHR 0x27] @ ''s encryption key. Nothing was linked.''"

definition keep_linked :: "'o identity_store \<Rightarrow> held_identity \<Rightarrow> ('o link_world, held_identity) io" where
  "keep_linked store i =
     bind_io (link_load store) (\<lambda>current.
       if (case current of Some c \<Rightarrow> \<not> sameBytes (publicKey c) (publicKey i) | None \<Rightarrow> False) then throw (Error OTHER_COPY)
       else if (case current of Some c \<Rightarrow> deviceId c = deviceId i | None \<Rightarrow> False) then ret (the current)
       else bind_io (log_event (LSaving i (Some current))) (\<lambda>_.
         bind_io (call (is_save store i (Some current))) (\<lambda>ok.
           if \<not> ok then throw LinkStorageError else ret i)))"

definition open_linked :: "lib \<Rightarrow> newcomer_link \<Rightarrow> bytes \<Rightarrow> bytes \<Rightarrow> live_identity \<Rightarrow> held_identity result" where
  "open_linked L link bundle approverKey l =
     rbind (openLinkBundle L bundle (nl_key link) \<lparr>lx_userID = nl_userID link, lx_requestID = nl_id link, lx_identityDeviceID = idn_device l,
       lx_approverKey = approverKey, lx_newcomerKey = publicKey (nl_key link)\<rparr>) (\<lambda>sk.
     rbind (publicKeyBytes (idn_key l)) (\<lambda>listed.
       if \<not> sameBytes (x25519_public L sk) listed then Inl (Error NOT_YOUR_KEY)
       else Inr \<lparr>publicKey = x25519_public L sk, privateKey = sk, deviceId = idn_device l\<rparr>))"

definition finishNewcomerLink ::
  "lib \<Rightarrow> newcomer_link \<Rightarrow> bytes \<Rightarrow> link_confirmation \<Rightarrow> string \<Rightarrow> 'o newcomer_api \<Rightarrow> 'o identity_store \<Rightarrow> ('o link_world, held_identity) io" where
  "finishNewcomerLink L link bundle confirmation userID api store =
     bind_io (live_link (nl_key link) (nl_userID link) userID) (\<lambda>_.
     bind_io (get_pin (nl_key link)) (\<lambda>pin.
     bind_io (isCheckCodeConfirmation confirmation (nl_id link)) (\<lambda>confirmed.
       case pin of
         None \<Rightarrow> throw (Error COMPARE_FIRST)
       | Some (approverKey, code) \<Rightarrow>
           if \<not> confirmed \<or> lc_code confirmation \<noteq> code then throw (Error COMPARE_FIRST)
           else finally_io
             (bind_io (link_listed api) (\<lambda>listed.
                case listed of
                  None \<Rightarrow> throw (Error ''Your account has no encryption key to link.'')
                | Some l \<Rightarrow>
                    bind_io (log_event (LOpening (nl_key link) code)) (\<lambda>_.
                    bind_io (lift_result (open_linked L link bundle approverKey l)) (keep_linked store))))
             (discardLinkKey (nl_key link)))))"

section \<open>The trusted browser\<close>

record approver_link =
  al_id :: string
  al_userID :: string
  al_key :: link_key
  al_commitment :: bytes
  al_newcomerKey :: "bytes option"
  al_code :: "string option"

record link_row =
  lr_id :: string
  lr_commitment :: string
  lr_newcomerKey :: string

record 'o approver_api =
  aa_claim :: "string \<Rightarrow> string \<Rightarrow> ('o, unit) io"
  aa_approve :: "string \<Rightarrow> string \<Rightarrow> ('o, unit) io"

definition claimLink :: "lib \<Rightarrow> 'o approver_api \<Rightarrow> link_row \<Rightarrow> string \<Rightarrow> ('o link_world, approver_link) io" where
  "claimLink L api row userID =
     bind_io (lift_result (fromBase64 (lr_commitment row))) (\<lambda>commitment.
       if length commitment \<noteq> 32 then throw LinkTamperedError
       else bind_io (newLinkKey L) (\<lambda>k.
         bind_io (orEnd k (bind_io (log_event (LClaiming k)) (\<lambda>_. call (aa_claim api (lr_id row) (base64 (publicKey k)))))) (\<lambda>_.
           ret \<lparr>al_id = lr_id row, al_userID = userID, al_key = k, al_commitment = commitment, al_newcomerKey = None, al_code = None\<rparr>)))"

definition revealedLink :: "lib \<Rightarrow> approver_link \<Rightarrow> link_row option \<Rightarrow> string \<Rightarrow> ('o link_world, approver_link) io" where
  "revealedLink L link row userID =
     bind_io (live_link (al_key link) (al_userID link) userID) (\<lambda>_.
       case row of
         None \<Rightarrow> ret link
       | Some r \<Rightarrow>
           if al_newcomerKey link \<noteq> None \<or> lr_id r \<noteq> al_id link \<or> lr_newcomerKey r = [] then ret link
           else let key = (case publicKeyBytes (lr_newcomerKey r) of Inr k \<Rightarrow> k | Inl _ \<Rightarrow> []) in
             if length key \<noteq> 32 then bind_io (discardLinkKey (al_key link)) (\<lambda>_. throw LinkTamperedError)
             else bind_io (lift_result (linkCommitment L key)) (\<lambda>c.
               if \<not> sameBytes c (al_commitment link) then bind_io (discardLinkKey (al_key link)) (\<lambda>_. throw LinkTamperedError)
               else bind_io (lift_result (checkCode L (al_userID link) (al_id link) (publicKey (al_key link)) key)) (\<lambda>code.
                 ret (link\<lparr>al_newcomerKey := Some key, al_code := Some code\<rparr>))))"

definition confirmTypedCode :: "approver_link \<Rightarrow> string \<Rightarrow> ('o link_world, link_confirmation) io" where
  "confirmTypedCode link entered =
     confirmTypedCheckCode (al_id link) (case al_code link of None \<Rightarrow> [] | Some c \<Rightarrow> c) entered"

text \<open>\<open>sendLinkBundle\<close> of \<open>outbound.ts\<close>: the gate in front of the request.\<close>

definition sendLinkBundle :: "'o approver_api \<Rightarrow> link_confirmation \<Rightarrow> string \<Rightarrow> bytes \<Rightarrow> ('o link_world, unit) io" where
  "sendLinkBundle api confirmation requestID bundle =
     bind_io (isTypedCheckCodeConfirmation confirmation requestID) (\<lambda>typed.
       if \<not> typed then throw (Error COMPARE_FIRST)
       else bind_io (log_event (LSending confirmation requestID)) (\<lambda>_. call (aa_approve api requestID (base64 bundle))))"

definition approveLink ::
  "lib \<Rightarrow> 'o approver_api \<Rightarrow> approver_link \<Rightarrow> link_confirmation \<Rightarrow> held_identity \<Rightarrow> string \<Rightarrow> ('o, unit) io \<Rightarrow> ('o link_world, unit) io" where
  "approveLink L api link confirmation i userID stepUp =
     bind_io (live_link (al_key link) (al_userID link) userID) (\<lambda>_.
       case (al_newcomerKey link, nonempty_text (al_code link)) of
         (Some newcomerKey, Some code) \<Rightarrow>
           bind_io (isTypedCheckCodeConfirmation confirmation (al_id link)) (\<lambda>typed.
             if \<not> typed \<or> lc_code confirmation \<noteq> code then throw (Error ''Type the code the other browser shows first.'')
             else bind_io (draw 32) (\<lambda>seed.
               bind_io (lift_result (sealLinkBundle L seed (privateKey i) (al_key link) \<lparr>lx_userID = al_userID link, lx_requestID = al_id link,
                 lx_identityDeviceID = deviceId i, lx_approverKey = publicKey (al_key link), lx_newcomerKey = newcomerKey\<rparr>)) (\<lambda>bundle.
               bind_io (call stepUp) (\<lambda>_.
               bind_io (sendLinkBundle api confirmation (al_id link) bundle) (\<lambda>_.
                 discardLinkKey (al_key link))))))
       | _ \<Rightarrow> throw (Error ''The other browser has not answered yet.''))"

definition keepClaim :: "('o link_world, approver_link) io \<Rightarrow> ('o, bool) io \<Rightarrow> (string \<Rightarrow> ('o, unit) io) \<Rightarrow> ('o link_world, approver_link option) io" where
  "keepClaim claim wanted cancel =
     bind_io claim (\<lambda>link.
     bind_io (call wanted) (\<lambda>yes.
       if yes then ret (Some link)
       else bind_io (discardLinkKey (al_key link)) (\<lambda>_.
         bind_io (catch_io (call (cancel (al_id link))) (\<lambda>_. ret ())) (\<lambda>_. ret None))))"

section \<open>The order of the calls\<close>

definition typed_back :: "link_event list \<Rightarrow> link_confirmation \<Rightarrow> bool" where
  "typed_back es c \<longleftrightarrow> (\<exists>entered. LTyped c entered \<in> set es \<and> squash entered = squash (lc_code c))"

fun link_allowed :: "link_event list \<Rightarrow> link_event \<Rightarrow> bool" where
  "link_allowed es (LCollecting k) \<longleftrightarrow> LEnded k \<notin> set es"
| "link_allowed es (LPinned k a c) \<longleftrightarrow> (\<forall>a' c'. LPinned k a' c' \<notin> set es) \<and> LRevealing k \<notin> set es"
| "link_allowed es (LRevealing k) \<longleftrightarrow> (\<exists>a c. LPinned k a c \<in> set es) \<and> LRevealing k \<notin> set es"
| "link_allowed es (LOpening k code) \<longleftrightarrow> LEnded k \<notin> set es \<and> (\<exists>a. LPinned k a code \<in> set es) \<and> (\<exists>c. LConfirmed c \<in> set es \<and> lc_code c = code)"
| "link_allowed es (LSaving i expected) \<longleftrightarrow> (\<exists>before l. expected = Some before \<and> LLoaded before \<in> set es \<and>
     (before = None \<or> publicKey (the before) = publicKey i) \<and> LListed (Some l) \<in> set es \<and> publicKeyBytes (idn_key l) = Inr (publicKey i)) \<and>
     (\<exists>k code. LOpening k code \<in> set es)"
| "link_allowed es (LSending c requestID) \<longleftrightarrow> lc_requestID c = requestID \<and> typed_back es c"
| "link_allowed es _ \<longleftrightarrow> True"

definition link_inv ::
  "link_event list \<Rightarrow> link_key list \<Rightarrow> (link_key \<times> bytes \<times> string) list \<Rightarrow> link_confirmation list \<Rightarrow> link_confirmation list \<Rightarrow> nat \<Rightarrow> bool" where
  "link_inv es alive ps cs ts made \<longleftrightarrow>
     every_event link_allowed es \<and>
     (\<forall>k \<in> set alive. LEnded k \<notin> set es \<and> lk_serial k < made) \<and>
     (\<forall>k. LEnded k \<in> set es \<longrightarrow> lk_serial k < made) \<and>
     (\<forall>k a c. LPinned k a c \<in> set es \<longleftrightarrow> map_of ps k = Some (a, c)) \<and>
     (\<forall>k. LRevealing k \<in> set es \<longrightarrow> map_of ps k \<noteq> None) \<and>
     (\<forall>c \<in> set cs. LConfirmed c \<in> set es) \<and> (\<forall>c \<in> set ts. typed_back es c)"

abbreviation link_at :: "'o link_world \<Rightarrow> bool" where
  "link_at w \<equiv> link_inv (t_log w) (lw_live w) (lw_pins w) (lw_confirmations w) (lw_typed w) (lw_made w)"

interpretation link: inside "link_at :: 'o link_world \<Rightarrow> bool"
  by unfold_locales simp_all

lemma typed_back_append [simp]: "typed_back es c \<Longrightarrow> typed_back (es @ fs) c"
  by (auto simp: typed_back_def)

text \<open>Events that touch none of the sets the invariant speaks of.\<close>

fun plain_event :: "link_event \<Rightarrow> bool" where
  "plain_event (LPinned _ _ _) = False"
| "plain_event (LRevealing _) = False"
| "plain_event (LEnded _) = False"
| "plain_event _ = True"

lemma link_inv_plain:
  "link_inv es alive ps cs ts made \<Longrightarrow> plain_event e \<Longrightarrow> link_allowed es e \<Longrightarrow> link_inv (es @ [e]) alive ps cs ts made"
  by (cases e) (auto simp: link_inv_def)

lemma link_discard [keepers]: "keeps link_at (discardLinkKey k)"
  by (auto simp: keeps_def wp_def discardLinkKey_def link_inv_def)

lemma link_isLive [keepers]: "keeps link_at (isLiveLinkKey k)"
  by (simp add: keeps_def wp_def isLiveLinkKey_def)

lemma link_newKey [keepers]: "keeps link_at (newLinkKey L)"
proof (rule keepsI)
  fix w :: "'a link_world"
  assume "link_at w"
  moreover from this have "LEnded \<lparr>publicKey = p, privateKey = s, lk_serial = lw_made w\<rparr> \<notin> set (t_log w)" for p s
    by (auto simp: link_inv_def)
  ultimately show "wp (newLinkKey L) (\<lambda>_. link_at) (\<lambda>_. link_at) w"
    by (auto simp: newLinkKey_def wps) (auto simp: wp_def link_inv_def Let_def)
qed

lemma link_orEnd [keepers]: "keeps link_at m \<Longrightarrow> keeps link_at (orEnd k m)"
  unfolding orEnd_def by (intro keepers)

lemma link_live_link [keepers]: "keeps link_at (live_link k owner userID)"
  unfolding live_link_def by (intro keepers)

lemma link_reads [keepers]: "keeps link_at (link_load store)" "keeps link_at (link_listed api)" "keeps link_at (get_pin k)"
  by (auto simp: keeps_def link_load_def link_listed_def wps link_inv_plain split: sum.split) (simp add: wp_def get_pin_def)

lemma link_confirm [keepers]: "keeps link_at (confirmCheckCode requestID code)" "keeps link_at (isCheckCodeConfirmation c requestID)"
  by (auto simp: keeps_def wp_def confirmCheckCode_def isCheckCodeConfirmation_def Let_def link_inv_def)

lemma link_isTyped [keepers]: "keeps link_at (isTypedCheckCodeConfirmation c requestID)"
  unfolding isTypedCheckCodeConfirmation_def by (auto simp: keeps_def wp_def bind_io_def isCheckCodeConfirmation_def)

lemma link_confirmTyped [keepers]: "keeps link_at (confirmTypedCheckCode requestID shown entered)"
  by (auto simp: keeps_def wp_def confirmTypedCheckCode_def bind_io_def confirmCheckCode_def Let_def link_inv_def typed_back_def)

lemma wp_links [wps]:
  "wp (get_pin k) Q1 E w = Q1 (map_of (lw_pins w) k) w"
  "wp (set_pin k a c) Q2 E w = Q2 () (w\<lparr>lw_pins := AList.update k (a, c) (lw_pins w), t_log := t_log w @ [LPinned k a c]\<rparr>)"
  "wp (isLiveLinkKey k) Q3 E w = Q3 (k \<in> set (lw_live w)) w"
  "wp (isCheckCodeConfirmation cf r) Q3 E w = Q3 (cf \<in> set (lw_confirmations w) \<and> lc_requestID cf = r) w"
  by (simp_all add: wp_def get_pin_def set_pin_def isLiveLinkKey_def isCheckCodeConfirmation_def)

lemma wp_isTyped [wps]:
  "wp (isTypedCheckCodeConfirmation cf r) Q E w = Q ((cf \<in> set (lw_confirmations w) \<and> lc_requestID cf = r) \<and> cf \<in> set (lw_typed w)) w"
  unfolding isTypedCheckCodeConfirmation_def by (simp add: wps) (simp add: wp_def)

text \<open>\<open>live_link\<close> returns only while the one-time key is live.\<close>

lemma wp_live_link:
  assumes "link_at w"
  shows "wp (live_link k owner userID) (\<lambda>_ w. link_at w \<and> k \<in> set (lw_live w)) (\<lambda>_. link_at) w"
  using assms keepsD [OF link_discard assms, of k]
  by (auto simp: live_link_def wps intro: wp_mono)

lemma link_collect [keepers]: "keeps link_at (collectLinkBundle api k requestID)"
proof (rule keepsI)
  fix w :: "'a link_world"
  assume w: "link_at w"
  then have "k \<in> set (lw_live w) \<Longrightarrow> LEnded k \<notin> set (t_log w)" by (simp add: link_inv_def)
  with w show "wp (collectLinkBundle api k requestID) (\<lambda>_. link_at) (\<lambda>_. link_at) w"
    by (auto simp: collectLinkBundle_def wps link_inv_plain split: sum.split)
qed

lemma link_pinned:
  assumes "link_at w" "map_of (lw_pins w) k = None"
  shows "link_inv (t_log w @ [LPinned k a c, LRevealing k]) (lw_live w) (AList.update k (a, c) (lw_pins w)) (lw_confirmations w) (lw_typed w) (lw_made w)"
  using assms unfolding link_inv_def by (auto simp: split: if_splits)

lemma wp_orEnd: "wp m (\<lambda>_. link_at) (\<lambda>_. link_at) w \<Longrightarrow> wp (orEnd k m) (\<lambda>_. link_at) (\<lambda>_. link_at) w"
  unfolding orEnd_def wp_catch
  by (erule wp_mono) (auto intro!: keepsD [where I = link_at] keepers)

lemma pin_approver_inv:
  assumes "link_at w" "map_of (lw_pins w) (nl_key link) = None"
  shows "wp (pin_approver L api link shown) (\<lambda>_. link_at) (\<lambda>_. link_at) w"
  unfolding pin_approver_def using assms
  by (intro wp_orEnd) (auto simp: wps link_pinned split: sum.split)

lemma link_answer [keepers]: "keeps link_at (poll_answer L api link state)"
proof (rule keepsI)
  fix w :: "'a link_world"
  assume w: "link_at w"
  then show "wp (poll_answer L api link state) (\<lambda>_. link_at) (\<lambda>_. link_at) w"
    using keepsD [OF link_discard w, of "nl_key link"]
    by (cases "map_of (lw_pins w) (nl_key link)")
      (auto simp: poll_answer_def wps split: option.split sum.split intro!: wp_mono [OF pin_approver_inv] elim: wp_mono)
qed

lemma link_poll [keepers]: "keeps link_at (pollNewcomerLink L api link userID)"
  unfolding pollNewcomerLink_def by (intro keepers)

lemma keep_linked_inv:
  assumes "link_at w" "LListed (Some l) \<in> set (t_log w)" "publicKeyBytes (idn_key l) = Inr (publicKey i)" "LOpening k code \<in> set (t_log w)"
  shows "wp (keep_linked store i) (\<lambda>_. link_at) (\<lambda>_. link_at) w"
proof -
  have plain: "link_inv (t_log w @ [LLoaded b]) (lw_live w) (lw_pins w) (lw_confirmations w) (lw_typed w) (lw_made w)" for b
    using assms(1) by (simp add: link_inv_plain)
  have "link_inv (t_log w @ [LLoaded b, LSaving i (Some b)]) (lw_live w) (lw_pins w) (lw_confirmations w) (lw_typed w) (lw_made w)"
    if "b = None \<or> publicKey (the b) = publicKey i" for b
    using link_inv_plain [OF plain, of "LSaving i (Some b)" b] assms(2-4) that by auto
  with plain assms(1) show ?thesis
    by (auto simp: keep_linked_def link_load_def wps split: sum.split option.split)
qed

lemma open_linked_key: "open_linked L link bundle a l = Inr i \<Longrightarrow> publicKeyBytes (idn_key l) = Inr (publicKey i)"
  by (auto simp: open_linked_def rbind_eq_Inr split: if_splits)

lemma keeps_finally [keepers]: "keeps I m \<Longrightarrow> keeps I f \<Longrightarrow> keeps I (finally_io m f)"
  unfolding finally_io_def by (intro keepers)

lemma link_finish [keepers]: "keeps link_at (finishNewcomerLink L link bundle confirmation userID api store)"
proof (rule keepsI)
  fix w :: "'a link_world"
  assume w: "link_at w"
  let ?k = "nl_key link"
  have opened: "wp (bind_io (link_listed api) (\<lambda>listed.
                case listed of
                  None \<Rightarrow> throw (Error ''Your account has no encryption key to link.'')
                | Some l \<Rightarrow>
                    bind_io (log_event (LOpening ?k code)) (\<lambda>_.
                    bind_io (lift_result (open_linked L link bundle approverKey l)) (keep_linked store))))
       (\<lambda>_. link_at) (\<lambda>_. link_at) v"
    if v: "link_at v" and alive: "?k \<in> set (lw_live v)" and pin: "map_of (lw_pins v) ?k = Some (approverKey, code)"
      and cf: "confirmation \<in> set (lw_confirmations v)" "lc_code confirmation = code" for code approverKey and v :: "'a link_world"
  proof -
    have listed: "link_inv (t_log v @ [LListed x]) (lw_live v) (lw_pins v) (lw_confirmations v) (lw_typed v) (lw_made v)" for x
      using v by (simp add: link_inv_plain)
    have "link_allowed (t_log v @ [LListed x]) (LOpening ?k code)" for x
      using v alive pin cf unfolding link_inv_def by auto
    from link_inv_plain [OF listed _ this]
    have "link_inv (t_log v @ [LListed x, LOpening ?k code]) (lw_live v) (lw_pins v) (lw_confirmations v) (lw_typed v) (lw_made v)" for x by simp
    with listed v show ?thesis
      by (auto simp: link_listed_def wps dest: open_linked_key split: sum.split option.split intro!: keep_linked_inv [where k = ?k and code = code])
  qed
  have finish: "wp (finally_io m (discardLinkKey ?k)) (\<lambda>_. link_at) (\<lambda>_. link_at) v"
    if "wp m (\<lambda>_. link_at) (\<lambda>_. link_at) v" for m :: "('a link_world, held_identity) io" and v
    unfolding finally_io_def wp_bind wp_catch
    using that by (rule wp_mono) (auto simp: wps intro!: wp_mono [OF keepsD [OF link_discard]])
  show "wp (finishNewcomerLink L link bundle confirmation userID api store) (\<lambda>_. link_at) (\<lambda>_. link_at) w"
    unfolding finishNewcomerLink_def
    by (rule wp_request [OF wp_live_link [OF w]]) (auto simp: wps split: option.split intro!: finish opened)
qed

lemmas link_outside [keepers] = link.keeps_outside

lemma link_notes [keepers]: "keeps link_at (log_event (LCreating c))" "keeps link_at (log_event (LClaiming k))"
  by (auto simp: keeps_def wps link_inv_plain)

lemma link_start [keepers]: "keeps link_at (startNewcomerLink L api canKeep userID)"
  unfolding startNewcomerLink_def by (intro keepers)

lemma link_other [keepers]: "keeps link_at (otherCopyHeld api store)"
  unfolding otherCopyHeld_def by (intro keepers)

lemma link_await [keepers]: "keeps link_at (awaitLinkBundle n L api sc link userID delay failingSince)"
proof (induction n arbitrary: delay failingSince)
  case 0
  show ?case unfolding awaitLinkBundle.simps by (intro keepers)
next
  case (Suc n)
  show ?case unfolding awaitLinkBundle.simps poll_round_def back_off_def by (intro keepers Suc.IH)
qed

lemma link_claim [keepers]: "keeps link_at (claimLink L api row userID)"
  unfolding claimLink_def by (intro keepers)

lemma link_revealed [keepers]: "keeps link_at (revealedLink L l row userID)"
  unfolding revealedLink_def by (intro keepers)

lemma link_typed_code [keepers]: "keeps link_at (confirmTypedCode l entered)"
  unfolding confirmTypedCode_def by (intro keepers)

lemma link_send [keepers]: "keeps link_at (sendLinkBundle api c requestID bundle)"
proof (rule keepsI)
  fix w :: "'a link_world"
  assume w: "link_at w"
  then have "c \<in> set (lw_typed w) \<Longrightarrow> typed_back (t_log w) c" by (simp add: link_inv_def)
  with w show "wp (sendLinkBundle api c requestID bundle) (\<lambda>_. link_at) (\<lambda>_. link_at) w"
    by (auto simp: sendLinkBundle_def wps link_inv_plain split: sum.split)
qed

lemma link_approve [keepers]: "keeps link_at (approveLink L api l c i userID stepUp)"
  unfolding approveLink_def by (intro keepers)

lemma link_keepClaim [keepers]: "keeps link_at claim \<Longrightarrow> keeps link_at (keepClaim claim wanted cancel)"
  unfolding keepClaim_def by (intro keepers)

section \<open>Bundles\<close>

lemma sealLinkBundle_Inr:
  "sealLinkBundle L seed sk a c = Inr bs \<longleftrightarrow>
     length sk = 32 \<and> publicKey a = lx_approverKey c \<and> length (lx_newcomerKey c) = 32 \<and> length (privateKey a) = 32 \<and>
     (\<exists>info enc ct. linkInfo c = Inr info \<and> hpke_seal L (lx_newcomerKey c) (privateKey a) info seed sk = (enc, ct) \<and> bs = LINK_VERSION # enc @ ct)"
  by (cases "linkInfo c") (auto simp: sealLinkBundle_def key32_def hpkeKeyPair_def generateIdentity_def concat_bytes_def Let_def split: prod.splits)

lemma linkInfo_fields:
  assumes "linkInfo c = Inr info"
  shows "prefixed_id ''usr'' (lx_userID c) \<and> prefixed_id ''lnk'' (lx_requestID c) \<and> prefixed_id ''dev'' (lx_identityDeviceID c) \<and>
    length (lx_approverKey c) = 32 \<and> length (lx_newcomerKey c) = 32 \<and>
    info = encode LINK_LABEL @ encode (lx_userID c) @ encode (lx_requestID c) @ encode (lx_identityDeviceID c) @ lx_approverKey c @ lx_newcomerKey c"
  using assms by (auto simp: linkInfo_def idBytes_def key32_def rbind_eq_Inr concat_bytes_def split: if_splits)

lemma linkInfo_inj:
  assumes "linkInfo c = Inr info" "linkInfo d = Inr info"
  shows "c = d"
proof -
  note fc = linkInfo_fields [OF assms(1)] and fd = linkInfo_fields [OF assms(2)]
  have lens: "length (encode (lx_userID c)) = length (encode (lx_userID d))" "length (encode (lx_requestID c)) = length (encode (lx_requestID d))"
    "length (encode (lx_identityDeviceID c)) = length (encode (lx_identityDeviceID d))" "length (lx_approverKey c) = length (lx_approverKey d)"
    using fc fd by (simp_all add: id_length)
  have "encode (lx_userID c) @ encode (lx_requestID c) @ encode (lx_identityDeviceID c) @ lx_approverKey c @ lx_newcomerKey c =
    encode (lx_userID d) @ encode (lx_requestID d) @ encode (lx_identityDeviceID d) @ lx_approverKey d @ lx_newcomerKey d"
    using fc fd by simp
  with lens show ?thesis by (cases c; cases d) simp
qed

text \<open>The bundle an approver seals for a context opens on the new browser, with its own one-time key and the same context, to the identity's
  private key; and the HPKE context determines the account, the request, the identity's device and both one-time keys.\<close>

lemma link_bundle_roundtrip:
  assumes "hpke_laws L" "length (privateKey newcomer) = 32" "publicKey newcomer = x25519_public L (privateKey newcomer)"
    and "publicKey approver = x25519_public L (privateKey approver)" "lx_newcomerKey c = publicKey newcomer"
    and "x25519_shared L (privateKey newcomer) (lx_approverKey c) \<noteq> None"
    and "sealLinkBundle L seed sk approver c = Inr bundle"
  shows "length bundle = LINK_BUNDLE_BYTES \<and> openLinkBundle L bundle newcomer c = Inr sk \<and>
    (\<forall>d info. linkInfo c = Inr info \<and> linkInfo d = Inr info \<longrightarrow> d = c)"
proof -
  from assms(7) obtain info enc ct where len: "length sk = 32" "length (privateKey approver) = 32" and pk: "publicKey approver = lx_approverKey c"
    and info: "linkInfo c = Inr info" and sealed: "hpke_seal L (lx_newcomerKey c) (privateKey approver) info seed sk = (enc, ct)"
    and parts: "bundle = LINK_VERSION # enc @ ct"
    by (auto simp: sealLinkBundle_Inr)
  have "hpke_seal L (x25519_public L (privateKey newcomer)) (privateKey approver) info seed sk = (enc, ct)"
    using sealed assms(3,5) by simp
  note opened = hpke_lawsD [OF assms(1,2) len(2) this]
  have "openLinkBundle L bundle newcomer c = Inr sk"
    using opened len info assms(2,4-6) pk linkInfo_fields [OF info]
    by (auto simp: openLinkBundle_def parts LINK_BUNDLE_BYTES_def hpkeKeyPair_def generateIdentity_def)
  moreover have "length bundle = LINK_BUNDLE_BYTES" using opened len by (simp add: parts LINK_BUNDLE_BYTES_def)
  ultimately show ?thesis using linkInfo_inj by blast
qed

definition demo_context :: link_context where
  "demo_context = \<lparr>lx_userID = demo_usr (CHR ''1''), lx_requestID = ''lnk_00000000000000000000000000'', lx_identityDeviceID = demo_dev (CHR ''a''),
     lx_approverKey = x25519_public demo_lib (replicate 32 4), lx_newcomerKey = x25519_public demo_lib (replicate 32 5)\<rparr>"

lemma demo_linkInfo: "\<exists>info. linkInfo demo_context = Inr info"
proof -
  have "prefixed_id ''lnk'' ''lnk_00000000000000000000000000''" by code_simp
  moreover have "prefixed_id ''usr'' (demo_usr (CHR ''1''))" "prefixed_id ''dev'' (demo_dev (CHR ''a''))" by (simp_all add: demo_ids crockford_def)
  ultimately show ?thesis
    using demo_lib_hpke(2) by (simp add: linkInfo_def demo_context_def idBytes_def key32_def x25519_length_def)
qed

section \<open>Any sequence of link operations\<close>

datatype 'o link_op =
    OpOther "'o newcomer_api"
  | OpStart "'o newcomer_api" "('o, bool) io" string
  | OpAwait nat "'o newcomer_api" "'o link_screen" newcomer_link string int "int option"
  | OpConfirm string string
  | OpFinish newcomer_link bytes link_confirmation string "'o newcomer_api"
  | OpClaim "'o approver_api" link_row string "('o, bool) io" "string \<Rightarrow> ('o, unit) io"
  | OpRevealed approver_link "link_row option" string
  | OpTypeCode approver_link string
  | OpApprove "'o approver_api" approver_link link_confirmation held_identity string "('o, unit) io"
  | OpEnd link_key

fun link_step :: "lib \<Rightarrow> 'o identity_store \<Rightarrow> 'o link_op \<Rightarrow> 'o link_world \<Rightarrow> 'o link_world" where
  "link_step L store (OpOther api) w = snd (otherCopyHeld api store w)"
| "link_step L store (OpStart api canKeep userID) w = snd (startNewcomerLink L api canKeep userID w)"
| "link_step L store (OpAwait n api sc l userID delay since) w = snd (awaitLinkBundle n L api sc l userID delay since w)"
| "link_step L store (OpConfirm requestID code) w = snd (confirmCheckCode requestID code w)"
| "link_step L store (OpFinish l bundle c userID api) w = snd (finishNewcomerLink L l bundle c userID api store w)"
| "link_step L store (OpClaim api row userID wanted cancel) w = snd (keepClaim (claimLink L api row userID) wanted cancel w)"
| "link_step L store (OpRevealed l row userID) w = snd (revealedLink L l row userID w)"
| "link_step L store (OpTypeCode l entered) w = snd (confirmTypedCode l entered w)"
| "link_step L store (OpApprove api l c i userID stepUp) w = snd (approveLink L api l c i userID stepUp w)"
| "link_step L store (OpEnd k) w = snd (discardLinkKey k w)"

lemma link_step_inv: "link_at w \<Longrightarrow> link_at (link_step L store op w)"
  by (cases op) (auto intro!: keeps_snd [where I = link_at] keepers)

lemma link_steps_inv: "link_at w \<Longrightarrow> link_at (fold (link_step L store) ops w)"
  by (induction ops arbitrary: w) (simp_all add: link_step_inv)

text \<open>C27: in any sequence of link operations on this browser, whatever the server, the vault and the screens answer: a one-time key is pinned to
  one approver key and revealed once, after the pin; nothing is collected with a key that was ended; a bundle is opened only with a live key and
  after the user confirmed the pinned code; what is kept is the key the server lists, never over another one; and a bundle is sent only for a
  request whose code the user typed from the other screen.\<close>

theorem link_calls_ordered:
  assumes "t_log w = []" "lw_live w = []" "lw_pins w = []" "lw_confirmations w = []" "lw_typed w = []"
    and "t_log (fold (link_step L store) ops w) = xs @ e # ys"
  shows "link_allowed xs e"
proof -
  have "link_at w" by (simp add: link_inv_def assms)
  from link_steps_inv [OF this] have "every_event link_allowed (t_log (fold (link_step L store) ops w))" by (simp add: link_inv_def)
  then show ?thesis using assms(6) by (rule every_eventD)
qed

definition demo_newcomer :: "unit newcomer_api" where
  "demo_newcomer = \<lparr>na_create = (\<lambda>_ w. (Inr (''r'', ''e''), w)), na_collect = (\<lambda>_ w. (Inr \<lparr>ls_approverKey = None, ls_bundle = None\<rparr>, w)),
     na_reveal = (\<lambda>_ _ w. (Inr (), w)), na_myIdentity = (\<lambda>w. (Inr None, w))\<rparr>"

definition demo_screen :: "unit link_screen" where
  "demo_screen = \<lparr>sc_wanted = (\<lambda>w. (Inr True, w)), sc_shown = (\<lambda>_ w. (Inr (), w)), sc_wait = (\<lambda>_ w. (Inr (), w)), sc_now = (\<lambda>w. (Inr 0, w))\<rparr>"

definition demo_link_world :: "unit link_world" where
  "demo_link_world = \<lparr>t_outside = (), t_random = (\<lambda>_. 7), t_drawn = 0, t_log = [], lw_live = [], lw_pins = [], lw_confirmations = [], lw_typed = [], lw_made = 0\<rparr>"

definition demo_link_key :: link_key where
  "demo_link_key = \<lparr>publicKey = x25519_public demo_lib (map (\<lambda>_. 7) [0..<32]), privateKey = map (\<lambda>_. 7) [0..<32], lk_serial = 0\<rparr>"

definition demo_link :: newcomer_link where
  "demo_link = \<lparr>nl_id = ''r'', nl_userID = ''u'', nl_key = demo_link_key, nl_expiresAt = ''e'', nl_approverKey = None, nl_code = None\<rparr>"

lemma demo_started:
  "\<exists>c. link_step demo_lib demo_store (OpStart demo_newcomer (\<lambda>w. (Inr True, w)) ''u'') demo_link_world =
     demo_link_world\<lparr>t_drawn := 32, lw_live := [demo_link_key], lw_made := 1, t_log := [LCreating c]\<rparr>"
proof -
  have "length (publicKey demo_link_key) = 32" using demo_lib_hpke(2) by (simp add: demo_link_key_def x25519_length_def)
  then obtain c where "linkCommitment demo_lib (publicKey demo_link_key) = Inr c" by (simp add: linkCommitment_def key32_def)
  then show ?thesis
    by (simp add: startNewcomerLink_def bind_io_def call_def newLinkKey_def draw_def orEnd_def catch_io_def log_event_def demo_newcomer_def demo_link_world_def
        demo_link_key_def Let_def del: upt.simps)
qed

lemma demo_polled:
  "t_log (link_step demo_lib demo_store (OpAwait 1 demo_newcomer demo_screen demo_link ''u'' 0 None)
     (demo_link_world\<lparr>t_drawn := 32, lw_live := [demo_link_key], lw_made := 1, t_log := [LCreating c]\<rparr>)) = [LCreating c] @ LCollecting demo_link_key # []"
proof -
  have k: "nl_key demo_link = demo_link_key" "nl_userID demo_link = ''u''" by (simp_all add: demo_link_def)
  show ?thesis
    by (simp add: awaitLinkBundle.simps poll_round_def pollNewcomerLink_def live_link_def isLiveLinkKey_def collectLinkBundle_def log_event_def poll_answer_def
        get_pin_def nonempty_text_def bind_io_def call_def catch_io_def demo_screen_def demo_newcomer_def demo_link_world_def k)
qed

theorem link_calls_ordered_witness:
  "\<exists>xs ys. t_log (fold (link_step demo_lib demo_store)
     [OpStart demo_newcomer (\<lambda>w. (Inr True, w)) ''u'', OpAwait 1 demo_newcomer demo_screen demo_link ''u'' 0 None] demo_link_world) =
       xs @ LCollecting demo_link_key # ys \<and> LEnded demo_link_key \<notin> set xs"
proof -
  obtain c where start: "link_step demo_lib demo_store (OpStart demo_newcomer (\<lambda>w. (Inr True, w)) ''u'') demo_link_world =
     demo_link_world\<lparr>t_drawn := 32, lw_live := [demo_link_key], lw_made := 1, t_log := [LCreating c]\<rparr>" using demo_started by blast
  have log: "t_log (fold (link_step demo_lib demo_store)
     [OpStart demo_newcomer (\<lambda>w. (Inr True, w)) ''u'', OpAwait 1 demo_newcomer demo_screen demo_link ''u'' 0 None] demo_link_world) =
       [LCreating c] @ LCollecting demo_link_key # []"
    using demo_polled by (simp only: fold.simps comp_apply id_apply start)
  have "link_allowed [LCreating c] (LCollecting demo_link_key)"
    by (rule link_calls_ordered [OF _ _ _ _ _ log]) (simp_all add: demo_link_world_def)
  with log show ?thesis unfolding link_allowed.simps by blast
qed

end
