(* ===== verification/Content.thy ===== *)
theory Content
  imports Pages NoteStore Floors Trace
begin

text \<open>
  What is put into the ciphertexts and what may leave (\<open>web/src/crypto.ts\<close> from \<open>openJSON\<close> on, \<open>drain.ts\<close> and the
  ciphertext gate of \<open>outbound.ts\<close>): container names with the migration marker, comments, share labels, attachment
  metadata and objects as JSON; the queue's decision to send, re-seal or wait; and the one gate in front of every
  upload. Random nonces are arguments. Malformed UTF-8, which the browser would read with replacement characters, is
  a syntax error here. The lemmas: sealed objects, names and labels read back, the marker is read only from the current
  form, what the queue hands out is sealed for the current write key in the current form with the edit's own
  content, and no upload passes the gate at another generation.
\<close>

section \<open>JSON in ciphertexts\<close>

definition SyntaxError :: js_error where "SyntaxError = NamedError ''SyntaxError'' ''JSON''"

definition read_json :: "bytes \<Rightarrow> json result" where
  "read_json bs = (case decode bs of None \<Rightarrow> Inl SyntaxError | Some s \<Rightarrow> parse s)"

definition json_bytes :: "json \<Rightarrow> bytes" where
  "json_bytes v = encode (stringify v)"

definition openJSON :: "lib \<Rightarrow> bytes \<Rightarrow> string \<Rightarrow> string \<Rightarrow> content_kind \<Rightarrow> string \<Rightarrow> bytes \<Rightarrow> bool \<Rightarrow> json result" where
  "openJSON L key containerID boundID kind v1Label bs v1 =
     rbind (openContent L key containerID boundID kind v1Label bs v1) (\<lambda>opened. read_json (fst opened))"

definition meta_json :: "string \<Rightarrow> bool \<Rightarrow> json" where
  "meta_json nm migrated =
     JObj ([(''name'', JStr nm)] @ (if migrated then [(''objects'', JNum 2)] else []))"

definition encryptContainerMeta :: "lib \<Rightarrow> bytes \<Rightarrow> bytes \<Rightarrow> string \<Rightarrow> string \<Rightarrow> bool \<Rightarrow> bytes result" where
  "encryptContainerMeta L iv key containerID nm migrated =
     sealContent L iv key containerID containerID ContainerMeta (json_bytes (meta_json nm migrated))"

text \<open>The name, and whether the marker \<open>objects: 2\<close> was read.\<close>

definition decryptContainerMeta :: "lib \<Rightarrow> bytes \<Rightarrow> string \<Rightarrow> bytes \<Rightarrow> bool \<Rightarrow> (string \<times> bool) result" where
  "decryptContainerMeta L key containerID bs v1 =
     (if length bs < 13 then Inl (Error ''Encrypted workspace metadata is too short'')
      else rbind (openContent L key containerID containerID ContainerMeta ''kynotes/container-meta/v1'' bs v1) (\<lambda>(pt, older).
        rbind (read_json pt) (\<lambda>v.
          case v of
            JNull \<Rightarrow> Inl TypeError
          | _ \<Rightarrow> (case str_of (field ''name'' v) of
              None \<Rightarrow> Inl (Error ''Invalid workspace metadata'')
            | Some nm \<Rightarrow> Inr (nm, \<not> older \<and> field ''objects'' v = Some (JNum 2))))))"

definition encryptComment :: "lib \<Rightarrow> bytes \<Rightarrow> bytes \<Rightarrow> string \<Rightarrow> string \<Rightarrow> string \<Rightarrow> string \<Rightarrow> bytes result" where
  "encryptComment L iv key containerID pageID body section =
     sealContent L iv key containerID pageID Comment (json_bytes (JObj [(''body'', JStr body), (''section'', JStr section)]))"

definition decryptComment :: "lib \<Rightarrow> bytes \<Rightarrow> string \<Rightarrow> string \<Rightarrow> bytes \<Rightarrow> bool \<Rightarrow> json result" where
  "decryptComment L key containerID pageID bs v1 = openJSON L key containerID pageID Comment ''kynotes/comment/v1'' bs v1"

definition encryptShareLabel :: "lib \<Rightarrow> bytes \<Rightarrow> bytes \<Rightarrow> string \<Rightarrow> string \<Rightarrow> string \<Rightarrow> string \<Rightarrow> bytes result" where
  "encryptShareLabel L iv key containerID linkID title notebook =
     sealContent L iv key containerID linkID ShareLabel (json_bytes (JObj [(''title'', JStr title), (''notebook'', JStr notebook)]))"

definition decryptShareLabel :: "lib \<Rightarrow> bytes \<Rightarrow> string \<Rightarrow> string \<Rightarrow> bytes \<Rightarrow> json result" where
  "decryptShareLabel L key containerID linkID bs = openJSON L key containerID linkID ShareLabel ''kynotes/share-label/v1'' bs False"

record attachment_file =
  af_name :: string
  af_type :: string
  af_size :: int

definition file_json :: "attachment_file \<Rightarrow> json" where
  "file_json f = JObj [(''name'', JStr (af_name f)), (''type'', JStr (af_type f)), (''size'', JNum (af_size f))]"

definition encryptAttachmentMetadata :: "lib \<Rightarrow> bytes \<Rightarrow> bytes \<Rightarrow> string \<Rightarrow> string \<Rightarrow> json \<Rightarrow> bytes result" where
  "encryptAttachmentMetadata L iv key containerID pageID metadata =
     sealContent L iv key containerID pageID AttachmentMeta (json_bytes metadata)"

definition decryptAttachmentMetadata :: "lib \<Rightarrow> bytes \<Rightarrow> string \<Rightarrow> string \<Rightarrow> bytes \<Rightarrow> bool \<Rightarrow> json result" where
  "decryptAttachmentMetadata L key containerID pageID bs v1 =
     openJSON L key containerID pageID AttachmentMeta ''kynotes/attachment-meta/v1'' bs v1"

definition encryptNote :: "lib \<Rightarrow> bytes \<Rightarrow> bytes \<Rightarrow> string \<Rightarrow> string \<Rightarrow> json \<Rightarrow> bytes result" where
  "encryptNote L iv key containerID objectID note =
     sealContent L iv key containerID objectID Object (json_bytes note)"

definition decryptNote :: "lib \<Rightarrow> bytes \<Rightarrow> string \<Rightarrow> string \<Rightarrow> bytes \<Rightarrow> bool \<Rightarrow> json result" where
  "decryptNote L key containerID objectID bs v1 =
     (if length bs < 13 then Inl (Error ''Encrypted note is too short'')
      else openJSON L key containerID objectID Object ''kynotes/object/v1'' bs v1)"

definition openObject :: "lib \<Rightarrow> bytes \<Rightarrow> string \<Rightarrow> string \<Rightarrow> bytes \<Rightarrow> bool \<Rightarrow> (object_payload option \<times> bool) result" where
  "openObject L key containerID objectID bs v1 =
     (if length bs < 13 then Inl (Error ''Encrypted data is too short'')
      else rbind (openContent L key containerID objectID Object ''kynotes/object/v1'' bs v1) (\<lambda>(pt, older).
        rbind (read_json pt) (\<lambda>v. Inr (parseObjectPayload v, older))))"

definition decryptObject :: "lib \<Rightarrow> bytes \<Rightarrow> string \<Rightarrow> string \<Rightarrow> bytes \<Rightarrow> bool \<Rightarrow> object_payload option result" where
  "decryptObject L key containerID objectID bs v1 = rbind (openObject L key containerID objectID bs v1) (\<lambda>r. Inr (fst r))"

definition encryptSharePayload :: "lib \<Rightarrow> bytes \<Rightarrow> bytes \<Rightarrow> json \<Rightarrow> (bytes \<times> string) result" where
  "encryptSharePayload L iv rawKey note =
     rbind (encryptWithKey L iv rawKey (json_bytes note) None) (\<lambda>sealed. Inr (sealed, base64url rawKey))"

definition decryptSharePayload :: "lib \<Rightarrow> bytes \<Rightarrow> string \<Rightarrow> json result" where
  "decryptSharePayload L bs encodedKey =
     rbind (base64urlDecode encodedKey) (\<lambda>key. rbind (decryptWithKey L key bs None) read_json)"

section \<open>The queue\<close>

datatype queue_step = Send | Reseal | Wait

definition queuedSaveStep :: "key_floor option \<Rightarrow> int option \<Rightarrow> write_key option \<Rightarrow> queue_step" where
  "queuedSaveStep floor gen write =
     (case (write, floor) of
        (Some w, Some _) \<Rightarrow> if gen = Some (w_generation w) then Send else Reseal
      | _ \<Rightarrow> Wait)"

definition readyToSend ::
  "lib \<Rightarrow> bytes \<Rightarrow> pending_save \<Rightarrow> int \<Rightarrow> key_floor option \<Rightarrow> write_key option \<Rightarrow> keyring \<Rightarrow> bytes option \<Rightarrow> pending_save option result" where
  "readyToSend L iv item containerShared floor write ring waiting =
     (let step = queuedSaveStep floor (n_keyGeneration item) write in
      case (step, floor, write) of
        (Wait, _, _) \<Rightarrow> Inr None
      | (_, Some fl, Some w) \<Rightarrow>
          rbind (openFirst (ownCopyKeys containerShared ring (n_keyGeneration item) fl waiting)
            (\<lambda>key. openObject L key (n_containerID item) (n_id item) (n_payload item) True)) (\<lambda>(payload, older).
            if step = Send \<and> \<not> older then Inr (Some item)
            else case payload of
              None \<Rightarrow> Inr None
            | Some p \<Rightarrow>
                rbind (encryptNote L iv (w_key w) (n_containerID item) (n_id item) (payload_json p)) (\<lambda>bs.
                  Inr (Some (item\<lparr>n_payload := bs, n_keyGeneration := Some (w_generation w)\<rparr>))))
      | _ \<Rightarrow> Inr None)"

definition sealAttachment ::
  "lib \<Rightarrow> bytes \<Rightarrow> bytes \<Rightarrow> write_key \<Rightarrow> string \<Rightarrow> string \<Rightarrow> bytes \<Rightarrow> json \<Rightarrow> (bytes \<times> string \<times> int) result" where
  "sealAttachment L iv iv' write containerID pageID plaintext file =
     rbind (encryptAttachment L iv (w_key write) containerID pageID plaintext) (\<lambda>payload.
     rbind (encryptAttachmentMetadata L iv' (w_key write) containerID pageID file) (\<lambda>meta.
       Inr (payload, base64 meta, w_generation write)))"

datatype attachment_step = ASend | AWait | AReseal bytes json

definition attachmentStep ::
  "lib \<Rightarrow> pending_upload \<Rightarrow> int \<Rightarrow> key_floor option \<Rightarrow> write_key option \<Rightarrow> keyring \<Rightarrow> bytes option \<Rightarrow> attachment_step result" where
  "attachmentStep L job containerShared floor write ring waiting =
     (let step = queuedSaveStep floor (Some (u_keyGeneration job)) write;
          open_meta = (\<lambda>v1 key. rbind (fromBase64 (u_metadataCiphertext job)) (\<lambda>meta.
            decryptAttachmentMetadata L key (u_containerID job) (u_objectID job) meta v1)) in
      case (step, floor) of
        (Wait, _) \<Rightarrow> Inr AWait
      | (_, None) \<Rightarrow> Inr AWait
      | (_, Some fl) \<Rightarrow>
          let keys = ownCopyKeys containerShared ring (Some (u_keyGeneration job)) fl waiting;
              v2 = (step = Send \<and> (case openFirst keys (open_meta False) of Inr _ \<Rightarrow> True | Inl _ \<Rightarrow> False)) in
          if v2 then Inr ASend
          else
            rbind (openFirst keys (\<lambda>key. decryptAttachment L key (u_containerID job) (u_objectID job) (u_payload job) True)) (\<lambda>plaintext.
            rbind (openFirst keys (open_meta True)) (\<lambda>file. Inr (AReseal plaintext file))))"

section \<open>The gate\<close>

record sealed =
  se_container :: keyed_container
  se_generation :: int

definition KeysWaitingError :: js_error where
  "KeysWaitingError = NamedError ''KeysWaitingError'' (''This notebook'' @ [CHR 0x27] @ ''s keys changed or are not shared yet; the change stays on this device until they are.'')"

text \<open>The write key source is a closure of the mounted workspace: it reads the outside. It is known by its serial number.\<close>

record 'o out_world = "('o, sealed) traced" +
  ow_source :: "(nat \<times> (keyed_container \<Rightarrow> 'o \<Rightarrow> write_key option)) option"
  ow_made :: nat
  ow_tab :: tab

definition setWriteKeySource :: "(keyed_container \<Rightarrow> 'o \<Rightarrow> write_key option) \<Rightarrow> ('o out_world, nat) io" where
  "setWriteKeySource f w = (Inr (ow_made w), w\<lparr>ow_source := Some (ow_made w, f), ow_made := Suc (ow_made w)\<rparr>)"

definition dropWriteKeySource :: "nat \<Rightarrow> ('o out_world, unit) io" where
  "dropWriteKeySource n w =
     (Inr (), case ow_source w of Some (m, f) \<Rightarrow> if m = n then w\<lparr>ow_source := None\<rparr> else w | None \<Rightarrow> w)"

definition current_write :: "'o out_world \<Rightarrow> keyed_container \<Rightarrow> write_key option" where
  "current_write w c = (case ow_source w of None \<Rightarrow> None | Some (_, f) \<Rightarrow> f c (t_outside w))"

definition sendCiphertext :: "sealed \<Rightarrow> ('o out_world, unit) io" where
  "sendCiphertext s w =
     (if queuedSaveStep (floorOf (ow_tab w) (c_id (se_container s))) (Some (se_generation s)) (current_write w (se_container s)) \<noteq> Send
      then (Inl KeysWaitingError, w) else (Inr (), w))"

definition upload_request :: "sealed \<Rightarrow> ('o, 'a) io \<Rightarrow> ('o out_world, 'a) io" where
  "upload_request s m = bind_io (log_event s) (\<lambda>_. call m)"

record ('o, 'a) upload_api =
  up_saveObject :: "string \<Rightarrow> bytes \<Rightarrow> int \<Rightarrow> int \<Rightarrow> string \<Rightarrow> ('o, 'a) io"
  up_updateContainer :: "string \<Rightarrow> string \<Rightarrow> int \<Rightarrow> int \<Rightarrow> ('o, 'a) io"
  up_createComment :: "string \<Rightarrow> string \<Rightarrow> int \<Rightarrow> string list \<Rightarrow> ('o, 'a) io"
  up_createUpload :: "string \<Rightarrow> int \<Rightarrow> string \<Rightarrow> ('o, 'a) io"
  up_uploadChunk :: "string \<Rightarrow> int \<Rightarrow> bytes \<Rightarrow> ('o, 'a) io"
  up_finalizeUpload :: "string \<Rightarrow> string \<Rightarrow> int \<Rightarrow> ('o, 'a) io"

definition idempotency_key :: "string \<Rightarrow> int \<Rightarrow> int \<Rightarrow> string \<Rightarrow> string" where
  "idempotency_key objectID baseVersion gen digest = objectID @ '':'' @ int_text baseVersion @ '':'' @ int_text gen @ '':'' @ digest"

definition sendObject :: "lib \<Rightarrow> ('o, 'a) upload_api \<Rightarrow> sealed \<Rightarrow> string \<Rightarrow> bytes \<Rightarrow> int \<Rightarrow> ('o out_world, 'a) io" where
  "sendObject L api s objectID bs baseVersion =
     bind_io (lift_result (digestSha256Hex L bs)) (\<lambda>digest.
     bind_io (sendCiphertext s) (\<lambda>_.
       upload_request s (up_saveObject api objectID bs baseVersion (se_generation s) (idempotency_key objectID baseVersion (se_generation s) digest))))"

definition sendContainerName :: "('o, 'a) upload_api \<Rightarrow> sealed \<Rightarrow> string \<Rightarrow> int \<Rightarrow> ('o out_world, 'a) io" where
  "sendContainerName api s metaCiphertext baseVersion =
     bind_io (sendCiphertext s) (\<lambda>_. upload_request s (up_updateContainer api (c_id (se_container s)) metaCiphertext baseVersion (se_generation s)))"

definition sendComment :: "('o, 'a) upload_api \<Rightarrow> sealed \<Rightarrow> string \<Rightarrow> string \<Rightarrow> string list \<Rightarrow> ('o out_world, 'a) io" where
  "sendComment api s objectID bodyCiphertext mentions =
     bind_io (sendCiphertext s) (\<lambda>_. upload_request s (up_createComment api objectID bodyCiphertext (se_generation s) mentions))"

definition sendUploadStart :: "('o, 'a) upload_api \<Rightarrow> sealed \<Rightarrow> int \<Rightarrow> string \<Rightarrow> ('o out_world, 'a) io" where
  "sendUploadStart api s declaredBytes expectedDigest =
     bind_io (sendCiphertext s) (\<lambda>_. upload_request s (up_createUpload api (c_id (se_container s)) declaredBytes expectedDigest))"

definition sendUploadChunk :: "('o, 'a) upload_api \<Rightarrow> sealed \<Rightarrow> string \<Rightarrow> int \<Rightarrow> bytes \<Rightarrow> ('o out_world, 'a) io" where
  "sendUploadChunk api s uploadID index bs =
     bind_io (sendCiphertext s) (\<lambda>_. upload_request s (up_uploadChunk api uploadID index bs))"

definition sendUploadFinal :: "('o, 'a) upload_api \<Rightarrow> sealed \<Rightarrow> string \<Rightarrow> string \<Rightarrow> ('o out_world, 'a) io" where
  "sendUploadFinal api s uploadID metadataCiphertext =
     bind_io (sendCiphertext s) (\<lambda>_. upload_request s (up_finalizeUpload api uploadID metadataCiphertext (se_generation s)))"

section \<open>Sealed JSON reads back\<close>

lemma read_json_bytes [simp]: "wf_json v \<Longrightarrow> read_json (json_bytes v) = Inr v"
  by (simp add: read_json_def json_bytes_def)

lemma sealed_json_opens:
  assumes "gcm_roundtrip L" "gcm_overhead L" "length iv = 12" "sealContent L iv key c b k (json_bytes v) = Inr bs"
  shows "openContent L key c b k label bs v1 = Inr (json_bytes v, False)"
  using openV2_sealContent [OF assms] sealContent_v2 [OF assms(4)] by (simp add: openContent_current)

lemma sealed_length:
  assumes "gcm_overhead L" "length iv = 12" "sealContent L iv key c b k pt = Inr bs"
  shows "13 \<le> length bs"
  using assms by (auto simp: sealContent_Inr encryptWithKey_Inr gcm_overhead_def)

lemma wf_meta [simp]: "wf_json (meta_json nm migrated)"
  by (simp add: meta_json_def)

lemma openObject_sealed:
  assumes "gcm_roundtrip L" "gcm_overhead L" "length iv = 12" "payload_ok p" "encryptNote L iv key c oid (payload_json p) = Inr bs"
  shows "openObject L key c oid bs v1 = Inr (Some p, False)"
proof -
  note s = assms(5) [unfolded encryptNote_def]
  from sealed_json_opens [OF assms(1-3) s] sealed_length [OF assms(2,3) s] wf_payload [OF assms(4)] payload_narrows [OF assms(4)]
  show ?thesis by (simp add: openObject_def)
qed

lemma openObject_current: "openObject L key c oid bs v1 = Inr (p, False) \<Longrightarrow> openObject L key c oid bs False = Inr (p, False)"
proof -
  assume "openObject L key c oid bs v1 = Inr (p, False)"
  then obtain pt v where "\<not> length bs < 13" "openContent L key c oid Object ''kynotes/object/v1'' bs v1 = Inr (pt, False)" "read_json pt = Inr v"
    "p = parseObjectPayload v" by (auto simp: openObject_def rbind_eq_Inr split: if_splits)
  moreover from this(2) have "openContent L key c oid Object ''kynotes/object/v1'' bs False = Inr (pt, False)" by (simp add: openContent_current)
  ultimately show ?thesis by (simp add: openObject_def)
qed

lemma openObject_ok: "openObject L key c oid bs v1 = Inr (Some p, older) \<Longrightarrow> payload_ok p"
  by (auto simp: openObject_def rbind_eq_Inr intro: narrowed_ok split: if_splits)

text \<open>The name of a notebook and its migration marker read back as written, and the marker is read only from a name sealed in the
  current form for this very notebook under this key.\<close>

lemma migration_marker_authentic:
  assumes "gcm_roundtrip L" "gcm_exact L" "gcm_overhead L"
  shows "(length iv = 12 \<and> encryptContainerMeta L iv key cid nm migrated = Inr bs \<longrightarrow> decryptContainerMeta L key cid bs v1 = Inr (nm, migrated)) \<and>
    (decryptContainerMeta L key cid bs v1 = Inr (nm, True) \<longrightarrow>
      (\<exists>iv v. length iv = 12 \<and> (\<exists>pt. sealContent L iv key cid cid ContainerMeta pt = Inr bs \<and> read_json pt = Inr v) \<and>
        field ''name'' v = Some (JStr nm) \<and> field ''objects'' v = Some (JNum 2)))"
proof (intro conjI impI)
  assume "length iv = 12 \<and> encryptContainerMeta L iv key cid nm migrated = Inr bs"
  then have iv: "length iv = 12" and s: "sealContent L iv key cid cid ContainerMeta (json_bytes (meta_json nm migrated)) = Inr bs"
    by (simp_all add: encryptContainerMeta_def)
  from sealed_json_opens [OF assms(1,3) iv s] sealed_length [OF assms(3) iv s] show "decryptContainerMeta L key cid bs v1 = Inr (nm, migrated)"
    by (simp add: decryptContainerMeta_def) (simp add: meta_json_def field_def)
next
  assume "decryptContainerMeta L key cid bs v1 = Inr (nm, True)"
  then obtain pt v where o: "openContent L key cid cid ContainerMeta ''kynotes/container-meta/v1'' bs v1 = Inr (pt, False)" and v: "read_json pt = Inr v"
    and f: "str_of (field ''name'' v) = Some nm" "field ''objects'' v = Some (JNum 2)"
    by (auto simp: decryptContainerMeta_def rbind_eq_Inr split: if_splits option.splits json.splits)
  from f(1) have "field ''name'' v = Some (JStr nm)" by (cases "field ''name'' v" rule: str_of.cases) auto
  moreover from o obtain iv where "length iv = 12" "sealContent L iv key cid cid ContainerMeta pt = Inr bs"
    using openV2_exact [OF assms(2), of key cid cid ContainerMeta bs pt] unfolding openContent_current by blast
  ultimately show "\<exists>iv v. length iv = 12 \<and> (\<exists>pt. sealContent L iv key cid cid ContainerMeta pt = Inr bs \<and> read_json pt = Inr v) \<and>
        field ''name'' v = Some (JStr nm) \<and> field ''objects'' v = Some (JNum 2)" using v f(2) by blast
qed

section \<open>What leaves\<close>

text \<open>C8: what the queue hands out for upload carries the current write generation and, without the older form, opens for its own notebook and
  object to exactly the content the queued edit holds.\<close>

theorem queue_sends_current:
  assumes "gcm_roundtrip L" "gcm_overhead L" "length iv = 12"
    and "readyToSend L iv item containerShared floor write ring waiting = Inr (Some r)"
  shows "\<exists>w fl p older key key'. write = Some w \<and> floor = Some fl \<and> n_keyGeneration r = Some (w_generation w) \<and>
    n_id r = n_id item \<and> n_containerID r = n_containerID item \<and> p_owner r = p_owner item \<and>
    key \<in> set (ownCopyKeys containerShared ring (n_keyGeneration item) fl waiting) \<and>
    openObject L key (n_containerID item) (n_id item) (n_payload item) True = Inr (p, older) \<and>
    (key' = w_key w \<or> r = item \<and> key' = key) \<and> openObject L key' (n_containerID r) (n_id r) (n_payload r) False = Inr (p, False)"
proof -
  from assms(4) obtain w fl where w: "write = Some w" "floor = Some fl"
    by (auto simp: readyToSend_def queuedSaveStep_def Let_def split: option.splits if_splits)
  with assms(4) obtain p older where first: "openFirst (ownCopyKeys containerShared ring (n_keyGeneration item) fl waiting)
      (\<lambda>key. openObject L key (n_containerID item) (n_id item) (n_payload item) True) = Inr (p, older)"
    and rest: "(if n_keyGeneration item = Some (w_generation w) \<and> \<not> older then Inr (Some item)
       else case p of None \<Rightarrow> Inr None
         | Some q \<Rightarrow> rbind (encryptNote L iv (w_key w) (n_containerID item) (n_id item) (payload_json q)) (\<lambda>bs.
             Inr (Some (item\<lparr>n_payload := bs, n_keyGeneration := Some (w_generation w)\<rparr>)))) = Inr (Some r)"
    by (auto simp: readyToSend_def queuedSaveStep_def rbind_eq_Inr Let_def split: if_splits)
  from openFirst_Inr [OF first] obtain key where key: "key \<in> set (ownCopyKeys containerShared ring (n_keyGeneration item) fl waiting)"
    "openObject L key (n_containerID item) (n_id item) (n_payload item) True = Inr (p, older)" by blast
  show ?thesis
  proof (cases "n_keyGeneration item = Some (w_generation w) \<and> \<not> older")
    case True
    with rest have "r = item" by simp
    moreover from True key(2) have "openObject L key (n_containerID item) (n_id item) (n_payload item) False = Inr (p, False)" by (auto intro: openObject_current)
    ultimately show ?thesis using w key True by blast
  next
    case False
    with rest obtain q bs where q: "p = Some q" and bs: "encryptNote L iv (w_key w) (n_containerID item) (n_id item) (payload_json q) = Inr bs"
      and r: "r = item\<lparr>n_payload := bs, n_keyGeneration := Some (w_generation w)\<rparr>"
      by (auto simp: rbind_eq_Inr split: option.splits)
    from key(2) q have "payload_ok q" by (simp add: openObject_ok)
    from openObject_sealed [OF assms(1-3) this bs] q
    have "openObject L (w_key w) (n_containerID item) (n_id item) bs False = Inr (p, False)" by simp
    with w key r show ?thesis by fastforce
  qed
qed

lemma demo_seals: "\<exists>bs. sealContent demo_lib (replicate 12 1) (replicate 32 7) ''cnt_1'' ''cnt_1'' ContainerMeta pt = Inr bs"
    "\<exists>bs. sealContent demo_lib (replicate 12 1) (replicate 32 7) ''cnt_1'' ''obj_1'' Object pt = Inr bs"
  by (simp_all add: sealContent_def deriveObjectKeyBytes_def contentAAD_def aad_fields_def CONTENT_V2_def encode_def
      utf8_char_def Let_def encryptWithKey_def importAES256_def subtle_def demo_lib_def be16_def)

theorem queue_sends_current_witness:
  "\<exists>item r p. readyToSend demo_lib (replicate 12 1) item 1 (Some \<lparr>shared = Some 1, generation = Some 2\<rparr>)
       (Some \<lparr>w_key = replicate 32 7, w_generation = 2\<rparr>) [] (Some (replicate 32 7)) = Inr (Some r) \<and>
     n_keyGeneration r = Some 2 \<and> openObject demo_lib (replicate 32 7) (n_containerID r) (n_id r) (n_payload r) False = Inr (p, False)"
proof -
  let ?p = "SectionPayload \<lparr>sp_title = ''Plan'', sp_color = ''blue'', sp_order = None, sp_group = None\<rparr>"
  obtain bs where bs: "encryptNote demo_lib (replicate 12 1) (replicate 32 7) ''cnt_1'' ''obj_1'' (payload_json ?p) = Inr bs"
    unfolding encryptNote_def using demo_seals(2) by blast
  let ?item = "(demo_row ''usr_1'' ''t'')\<lparr>n_payload := bs, n_keyGeneration := Some WAITING_GENERATION\<rparr>"
  have op: "openObject demo_lib (replicate 32 7) ''cnt_1'' ''obj_1'' bs True = Inr (Some ?p, False)"
    by (rule openObject_sealed [OF demo_lib_laws(1,3) _ _ bs]) (simp_all add: structure_ok_def SECTION_COLORS_def)
  have ready: "readyToSend demo_lib (replicate 12 1) ?item 1 (Some \<lparr>shared = Some 1, generation = Some 2\<rparr>)
       (Some \<lparr>w_key = replicate 32 7, w_generation = 2\<rparr>) [] (Some (replicate 32 7)) = Inr (Some (?item\<lparr>n_payload := bs, n_keyGeneration := Some 2\<rparr>))"
    using op bs by (simp add: readyToSend_def queuedSaveStep_def demo_row_def WAITING_GENERATION_def ownCopyKeys_def openFirst_def Let_def)
  have keys: "ownCopyKeys 1 [] (n_keyGeneration ?item) \<lparr>shared = Some 1, generation = Some 2\<rparr> (Some (replicate 32 7)) = [replicate 32 7]"
    by (simp add: ownCopyKeys_def)
  from queue_sends_current [OF demo_lib_laws(1,3) _ ready] keys show ?thesis
    by (intro exI [of _ ?item] exI [of _ "?item\<lparr>n_payload := bs, n_keyGeneration := Some 2\<rparr>"]) (use ready in auto)
qed

datatype upload =
    UObject string bytes int
  | UName string int
  | UComment string string "string list"
  | UStart int string
  | UChunk string int bytes
  | UFinal string string

fun run_upload :: "lib \<Rightarrow> ('o, 'a) upload_api \<Rightarrow> sealed \<Rightarrow> upload \<Rightarrow> ('o out_world, 'a) io" where
  "run_upload L api s (UObject i bs v) = sendObject L api s i bs v"
| "run_upload L api s (UName m v) = sendContainerName api s m v"
| "run_upload L api s (UComment i b ms) = sendComment api s i b ms"
| "run_upload L api s (UStart n d) = sendUploadStart api s n d"
| "run_upload L api s (UChunk i k bs) = sendUploadChunk api s i k bs"
| "run_upload L api s (UFinal i m) = sendUploadFinal api s i m"

definition gate_open :: "sealed \<Rightarrow> 'o out_world \<Rightarrow> bool" where
  "gate_open s w \<longleftrightarrow> (\<exists>k fl. current_write w (se_container s) = Some k \<and> w_generation k = se_generation s \<and>
     floorOf (ow_tab w) (c_id (se_container s)) = Some fl)"

lemma sendCiphertext_gate: "sendCiphertext s w = (if gate_open s w then Inr () else Inl KeysWaitingError, w)"
  by (auto simp: sendCiphertext_def queuedSaveStep_def gate_open_def split: option.splits)

lemma upload_request_log: "t_log (snd (upload_request s m w)) = t_log w @ [s]"
  by (simp add: upload_request_def bind_io_def log_event_def call_def Let_def split: prod.split)

text \<open>One call of the gate: closed, it leaves everything as it was; open, one request leaves.\<close>

lemma gated_request:
  "bind_io (sendCiphertext s) (\<lambda>_. upload_request s m) w =
     (if gate_open s w then upload_request s m w else (Inl KeysWaitingError, w))"
  by (simp add: bind_io_def sendCiphertext_gate)

text \<open>C9: an upload of any kind leaves at most one request, and only while the key source of the mounted workspace hands out a write
  key of exactly the generation it was sealed with and this tab knows the container's floor; otherwise it fails with
  \<open>KeysWaitingError\<close> (or because the digest could not be computed) and neither a request nor a change of state is made.\<close>

theorem uploads_pass_gate:
  "(gate_open s w \<and> t_log (snd (run_upload L api s u w)) = t_log w @ [s]) \<or>
   (run_upload L api s u w = (Inl KeysWaitingError, w)) \<or>
   (\<exists>e i bs v. u = UObject i bs v \<and> digestSha256Hex L bs = Inl e \<and> run_upload L api s u w = (Inl e, w))"
proof (cases u)
  case (UObject i bs v)
  then show ?thesis
    by (cases "digestSha256Hex L bs") (simp_all add: sendObject_def gated_request upload_request_log bind_io_def [of "lift_result _"])
qed (simp_all add: sendContainerName_def sendComment_def sendUploadStart_def sendUploadChunk_def sendUploadFinal_def gated_request upload_request_log)

text \<open>A workspace that unmounts takes away only its own source.\<close>

lemma dropWriteKeySource_own:
  assumes "setWriteKeySource f w = (Inr n, w1)"
  shows "ow_source (snd (dropWriteKeySource n w1)) = None"
    and "m < n \<Longrightarrow> snd (dropWriteKeySource m w1) = w1"
  using assms by (auto simp: setWriteKeySource_def dropWriteKeySource_def)

end
