(* ===== verification/Edits.thy ===== *)
theory Edits
  imports Content
begin

text \<open>
  Pages in memory, the migration pass and edits that can no longer be sent (\<open>web/src/notes.ts\<close>, \<open>migrate.ts\<close>, \<open>stuckEdits.ts\<close>).
  An optional field of a page is not an own property (\<open>None\<close>), an own property that is undefined (\<open>Some None\<close>) or has a
  value; \<open>legacy\<close> is an object, compared by reference, so it carries its identity. What the caller passes in (saving, pinning,
  listing conflicts, writing the marker, re-sealing, opening) are arguments that run in an unknown outside. The lemmas: a
  saved version is carried forward without touching content, leaving a page is reported done only when what was sent last
  is what is open, the migration marker is written only by a pass that left nothing in the older form, and edits waiting
  for a replaced key are all retired and nothing else is.
\<close>

section \<open>Pages in memory\<close>

type_synonym 'a js_prop = "'a option option"

type_synonym legacy_object = "nat \<times> (string, string) dict"

record note_page =
  nt_id :: string
  nt_title :: string
  nt_body :: string
  nt_version :: int
  nt_updatedAt :: string
  nt_section :: "string js_prop"
  nt_order :: "string js_prop"
  nt_level :: "int js_prop"
  nt_legacy :: "legacy_object js_prop"

definition got :: "'a js_prop \<Rightarrow> 'a option" where
  "got p = (case p of None \<Rightarrow> None | Some v \<Rightarrow> v)"

record note_change =
  ch_title :: "string option"
  ch_body :: "string option"
  ch_section :: "string js_prop"
  ch_order :: "string js_prop"
  ch_level :: "int js_prop"
  ch_legacy :: "legacy_object js_prop"

definition notePayload :: "note_page \<Rightarrow> page_payload" where
  "notePayload n = \<lparr>pg_title = nt_title n, pg_body = nt_body n, pg_section = got (nt_section n), pg_order = got (nt_order n),
     pg_level = got (nt_level n), pg_legacy = map_option snd (got (nt_legacy n))\<rparr>"

text \<open>\<open>{ ...a, ...b }\<close> for one property: an own property of \<open>b\<close> wins, an undefined one too.\<close>

definition over :: "'a option \<Rightarrow> 'a option \<Rightarrow> 'a option" where
  "over b a = (case b of None \<Rightarrow> a | Some v \<Rightarrow> Some v)"

definition apply_change :: "note_change \<Rightarrow> note_page \<Rightarrow> note_page" where
  "apply_change c n = n\<lparr>nt_title := the (over (ch_title c) (Some (nt_title n))), nt_body := the (over (ch_body c) (Some (nt_body n))),
     nt_section := over (ch_section c) (nt_section n), nt_order := over (ch_order c) (nt_order n),
     nt_level := over (ch_level c) (nt_level n), nt_legacy := over (ch_legacy c) (nt_legacy n)\<rparr>"

definition editEntry :: "note_page list \<Rightarrow> string \<Rightarrow> note_change \<Rightarrow> note_page list" where
  "editEntry ns i change = map (\<lambda>n. if nt_id n = i then apply_change change n else n) ns"

definition own_count :: "note_page \<Rightarrow> nat" where
  "own_count n = 5 + of_bool (nt_section n \<noteq> None) + of_bool (nt_order n \<noteq> None) + of_bool (nt_level n \<noteq> None) + of_bool (nt_legacy n \<noteq> None)"

definition same_own :: "('a option \<Rightarrow> 'b) \<Rightarrow> 'a js_prop \<Rightarrow> 'a js_prop \<Rightarrow> bool" where
  "same_own f a b = (case a of None \<Rightarrow> True | Some v \<Rightarrow> f v = f (got b))"

definition sameFields :: "note_page \<Rightarrow> note_page \<Rightarrow> bool" where
  "sameFields a b \<longleftrightarrow> own_count a = own_count b \<and> nt_id a = nt_id b \<and> nt_title a = nt_title b \<and> nt_body a = nt_body b \<and>
     nt_version a = nt_version b \<and> nt_updatedAt a = nt_updatedAt b \<and> same_own id (nt_section a) (nt_section b) \<and>
     same_own id (nt_order a) (nt_order b) \<and> same_own id (nt_level a) (nt_level b) \<and> same_own (map_option fst) (nt_legacy a) (nt_legacy b)"

definition editOpenEntry :: "note_page list \<Rightarrow> note_page \<Rightarrow> note_page \<Rightarrow> note_change \<Rightarrow> note_page list" where
  "editOpenEntry ns open_page next_page change =
     map (\<lambda>n. if nt_id n \<noteq> nt_id open_page then n else if sameFields n open_page then next_page else apply_change change n) ns"

record saved_version =
  sv_version :: int
  sv_updatedAt :: "string option"

definition carrySaved :: "note_page list \<Rightarrow> string \<Rightarrow> saved_version \<Rightarrow> note_page list" where
  "carrySaved ns i s = map (\<lambda>n. if nt_id n = i \<and> sv_version s > nt_version n
     then n\<lparr>nt_version := sv_version s, nt_updatedAt := (case sv_updatedAt s of None \<Rightarrow> nt_updatedAt n | Some u \<Rightarrow> u)\<rparr> else n) ns"

definition samePayload :: "note_page \<Rightarrow> note_page \<Rightarrow> bool" where
  "samePayload a b \<longleftrightarrow> nt_title a = nt_title b \<and> nt_body a = nt_body b \<and> got (nt_section a) = got (nt_section b) \<and>
     got (nt_order a) = got (nt_order b) \<and> got (nt_level a) = got (nt_level b) \<and>
     map_option fst (got (nt_legacy a)) = map_option fst (got (nt_legacy b))"

text \<open>The cached copy: its version, title and body.\<close>

definition newestCopy :: "note_page \<Rightarrow> (int \<times> string \<times> string) option \<Rightarrow> note_page" where
  "newestCopy entry cached = (case cached of
       None \<Rightarrow> entry
     | Some (v, title, body) \<Rightarrow> if v \<ge> nt_version entry then entry\<lparr>nt_title := title, nt_body := body\<rparr> else entry)"

text \<open>Sections and groups share the fields the code reads: \<open>id\<close> and \<open>version\<close>.\<close>

definition carryVersions :: "section_obj list \<Rightarrow> (string, int) dict \<Rightarrow> section_obj list" where
  "carryVersions items carried = map (\<lambda>item. case map_of carried (s_id item) of
       Some v \<Rightarrow> if v > s_version item then item\<lparr>s_version := v\<rparr> else item
     | None \<Rightarrow> item) items"

definition carryAll :: "note_page list \<Rightarrow> (string, saved_version) dict \<Rightarrow> note_page list" where
  "carryAll ns carried = fold (\<lambda>(i, s) value. carrySaved value i s) carried ns"

datatype flush_state = FDone | FAgain | FFailed | FBusy

definition flushRound :: "note_page option \<Rightarrow> string \<Rightarrow> note_page option \<Rightarrow> flush_state" where
  "flushRound open_page i sent =
     (if map_option nt_id open_page \<noteq> Some i then FDone
      else case sent of None \<Rightarrow> FFailed
        | Some s \<Rightarrow> if samePayload (the open_page) s then FDone else FAgain)"

text \<open>\<open>getOpen\<close> reads the outside; \<open>save\<close> is called with the open page, which is there in every round.\<close>

fun flush_rounds :: "('o \<Rightarrow> note_page option) \<Rightarrow> (note_page \<Rightarrow> ('o, note_page option) io) \<Rightarrow> string \<Rightarrow> nat \<Rightarrow> ('o, flush_state) io" where
  "flush_rounds getOpen save i 0 w = (Inr FBusy, w)"
| "flush_rounds getOpen save i (Suc rounds) w =
     (case getOpen w of
        None \<Rightarrow> (Inl TypeError, w)
      | Some page \<Rightarrow> (case save page w of
          (Inl e, w') \<Rightarrow> (Inl e, w')
        | (Inr sent, w') \<Rightarrow>
            (let state = flushRound (getOpen w') i sent in
             if state \<noteq> FAgain then (Inr state, w') else flush_rounds getOpen save i rounds w')))"

definition flushUntilStable :: "('o \<Rightarrow> note_page option) \<Rightarrow> (note_page \<Rightarrow> ('o, note_page option) io) \<Rightarrow> nat \<Rightarrow> ('o, flush_state) io" where
  "flushUntilStable getOpen save maxRounds w =
     (case getOpen w of
        None \<Rightarrow> (Inr FDone, w)
      | Some page \<Rightarrow> if nt_id page = [] then (Inr FDone, w) else flush_rounds getOpen save (nt_id page) maxRounds w)"

definition saveRefusal :: "string option \<Rightarrow> string option" where
  "saveRefusal code =
     (if code = Some ''unauthenticated'' \<or> code = Some ''password_change_required''
      then Some ''You were signed out, so your edits are kept only in this browser. Sign out, then sign in again to send them.''
      else if code = Some ''quota_exceeded''
      then Some ''Your storage is full, so this edit is kept only in this browser. Delete pages or notebooks, or ask your administrator to raise your quota; it is sent once there is room.''
      else if code = Some ''payload_too_large''
      then Some ''This page is too large to save, so the edit is kept only in this browser. Split it into smaller pages.''
      else None)"

section \<open>The migration pass\<close>

datatype object_type = APage | ASection | AGroup

record loaded_object =
  lo_id :: string
  lo_type :: object_type
  lo_v1 :: bool
  lo_legacy :: "(string, string) dict option"

record 'o migration_io =
  mi_pins :: "string \<Rightarrow> ('o, (string, string) dict) io"
  mi_savePage :: "string \<Rightarrow> (string, string) dict \<Rightarrow> ('o, bool) io"
  mi_saveStructure :: "object_type \<Rightarrow> string \<Rightarrow> ('o, bool) io"
  mi_legacyConflict :: "string \<Rightarrow> ('o, bool) io"
  mi_mark :: "('o, bool) io"

datatype migration_result = Migrated | Partial | Conflicts

text \<open>What a pass does, in order: a re-save and its answer, a conflict check and its answer, the marker.\<close>

datatype migration_event = Resaved string bool | Checked string bool | Marking

type_synonym 'o mig_world = "('o, migration_event) traced"

definition already_v2 :: "loaded_object \<Rightarrow> bool" where
  "already_v2 obj = (if lo_type obj \<noteq> APage then \<not> lo_v1 obj else \<not> lo_v1 obj \<and> lo_legacy obj \<noteq> None)"

definition resave :: "'o migration_io \<Rightarrow> loaded_object \<Rightarrow> ('o mig_world, bool) io" where
  "resave x obj = noting (\<lambda>ok. [Resaved (lo_id obj) ok])
     (if lo_type obj = APage then bind_io (call (mi_pins x (lo_id obj))) (\<lambda>pins. call (mi_savePage x (lo_id obj) pins))
      else call (mi_saveStructure x (lo_type obj) (lo_id obj)))"

fun resave_all :: "'o migration_io \<Rightarrow> loaded_object list \<Rightarrow> bool \<Rightarrow> ('o mig_world, bool) io" where
  "resave_all x [] complete = ret complete"
| "resave_all x (obj # objects) complete =
     (if already_v2 obj then resave_all x objects complete
      else bind_io (catch_io (bind_io (resave x obj) (\<lambda>ok. ret (complete \<and> ok))) (\<lambda>_. ret False)) (resave_all x objects))"

fun check_conflicts :: "'o migration_io \<Rightarrow> loaded_object list \<Rightarrow> bool \<Rightarrow> ('o mig_world, bool option) io" where
  "check_conflicts x [] conflicts = ret (Some conflicts)"
| "check_conflicts x (obj # objects) conflicts =
     (if lo_type obj \<noteq> APage then check_conflicts x objects conflicts
      else bind_io (catch_io (bind_io (noting (\<lambda>c. [Checked (lo_id obj) c]) (call (mi_legacyConflict x (lo_id obj)))) (\<lambda>c. ret (Some c))) (\<lambda>_. ret None))
        (\<lambda>r. case r of None \<Rightarrow> ret None | Some c \<Rightarrow> check_conflicts x objects (c \<or> conflicts)))"

definition write_marker :: "'o migration_io \<Rightarrow> ('o mig_world, migration_result) io" where
  "write_marker x = bind_io (log_event Marking) (\<lambda>_. bind_io (call (mi_mark x)) (\<lambda>ok. ret (if ok then Migrated else Partial)))"

definition after_checks :: "'o migration_io \<Rightarrow> bool option \<Rightarrow> ('o mig_world, migration_result) io" where
  "after_checks x r = (case r of None \<Rightarrow> ret Partial | Some conflicts \<Rightarrow> if conflicts then ret Conflicts else write_marker x)"

definition check_then_mark :: "'o migration_io \<Rightarrow> loaded_object list \<Rightarrow> ('o mig_world, migration_result) io" where
  "check_then_mark x objects = bind_io (check_conflicts x objects False) (after_checks x)"

definition migrateNotebook :: "loaded_object list \<Rightarrow> int \<Rightarrow> bool \<Rightarrow> 'o migration_io \<Rightarrow> ('o mig_world, migration_result) io" where
  "migrateNotebook objects unreadable migrated x =
     (if migrated then ret Migrated
      else bind_io (resave_all x objects (unreadable = 0)) (\<lambda>complete.
        if \<not> complete then ret Partial else check_then_mark x objects))"

section \<open>Edits that cannot be sent\<close>

definition stuckSaves :: "pending_save list \<Rightarrow> string set option \<Rightarrow> pending_save list" where
  "stuckSaves queued live = (case live of None \<Rightarrow> [] | Some ids \<Rightarrow> filter (\<lambda>item. n_containerID item \<notin> ids) queued)"

definition unsentEdits :: "pending_save list \<Rightarrow> string set option \<Rightarrow> string \<Rightarrow> pending_save list" where
  "unsentEdits queued live owner =
     (let own = filter (\<lambda>item. p_owner item = owner) queued; lost = set (stuckSaves own live) in
      filter (\<lambda>item. p_gone item \<or> item \<in> lost) own)"

text \<open>The export as a JSON value (the code prints it indented) and the number of edits that did not open.\<close>

fun export_rows :: "pending_save list \<Rightarrow> (pending_save \<Rightarrow> ('w, json option) io) \<Rightarrow> json list \<Rightarrow> int \<Rightarrow> ('w, json \<times> int) io" where
  "export_rows [] open_item out unreadable = ret (JArr out, unreadable)"
| "export_rows (item # items) open_item out unreadable =
     bind_io (catch_io (open_item item) (\<lambda>_. ret None)) (\<lambda>content. case content of
         None \<Rightarrow> export_rows items open_item out (unreadable + 1)
       | Some v \<Rightarrow> export_rows items open_item
           (out @ [JObj [(''id'', JStr (n_id item)), (''notebook'', JStr (n_containerID item)), (''updatedAt'', JStr (n_updatedAt item)), (''content'', v)]]) unreadable)"

definition exportUnsent :: "pending_save list \<Rightarrow> (pending_save \<Rightarrow> ('w, json option) io) \<Rightarrow> ('w, json \<times> int) io" where
  "exportUnsent items open_item = export_rows items open_item [] 0"

definition awaits_key :: "string \<Rightarrow> pending_save \<Rightarrow> bool" where
  "awaits_key owner item \<longleftrightarrow> p_owner item = owner \<and> n_keyGeneration item = Some WAITING_GENERATION \<and> \<not> p_previousKey item"

definition retired_copy :: "bytes option \<Rightarrow> pending_save \<Rightarrow> pending_save" where
  "retired_copy payload item = item\<lparr>n_payload := (case payload of None \<Rightarrow> n_payload item | Some p \<Rightarrow> p), p_previousKey := True\<rparr>"

fun retireWaiting ::
  "pending_save list \<Rightarrow> string \<Rightarrow> (pending_save \<Rightarrow> ('w, bytes option) io) \<Rightarrow> (pending_save \<Rightarrow> pending_save \<Rightarrow> ('w, bool) io) \<Rightarrow> ('w, unit) io" where
  "retireWaiting [] owner reseal replace = ret ()"
| "retireWaiting (item # queued) owner reseal replace =
     (if \<not> awaits_key owner item then retireWaiting queued owner reseal replace
      else bind_io (catch_io (reseal item) (\<lambda>_. ret None)) (\<lambda>payload.
        bind_io (replace item (retired_copy payload item)) (\<lambda>_. retireWaiting queued owner reseal replace)))"

fun previousKeyEdits :: "pending_save list \<Rightarrow> string \<Rightarrow> bool \<Rightarrow> (pending_save \<Rightarrow> ('w, bool) io) \<Rightarrow> ('w, pending_save list) io" where
  "previousKeyEdits [] owner waitingHeld opens = ret []"
| "previousKeyEdits (item # queued) owner waitingHeld opens =
     (if p_owner item \<noteq> owner then previousKeyEdits queued owner waitingHeld opens
      else bind_io (if p_previousKey item then ret True
                    else if waitingHeld \<and> n_keyGeneration item = Some WAITING_GENERATION then bind_io (opens item) (\<lambda>ok. ret (\<not> ok))
                    else ret False) (\<lambda>keep.
        bind_io (previousKeyEdits queued owner waitingHeld opens) (\<lambda>out. ret (if keep then item # out else out))))"

section \<open>Versions\<close>

lemma carrySaved_nth: "i < length ns \<Longrightarrow> nt_id (carrySaved ns a s ! i) = nt_id (ns ! i) \<and> notePayload (carrySaved ns a s ! i) = notePayload (ns ! i) \<and>
    nt_version (ns ! i) \<le> nt_version (carrySaved ns a s ! i) \<and> (nt_id (ns ! i) = a \<longrightarrow> sv_version s \<le> nt_version (carrySaved ns a s ! i))"
  by (auto simp: carrySaved_def notePayload_def not_less)

lemma length_carrySaved [simp]: "length (carrySaved ns a s) = length ns"
  by (simp add: carrySaved_def)

lemma length_carryAll [simp]: "length (carryAll ns d) = length ns"
  by (induction d arbitrary: ns) (auto simp: carryAll_def)

text \<open>Applying saved versions to a fresh list moves every page up to at least what was saved for it, keeps its content
  and its place, and applying them in any number of rounds never moves a version back.\<close>

lemma carryAll_nth:
  "i < length ns \<Longrightarrow> nt_id (carryAll ns d ! i) = nt_id (ns ! i) \<and> notePayload (carryAll ns d ! i) = notePayload (ns ! i) \<and>
    nt_version (ns ! i) \<le> nt_version (carryAll ns d ! i) \<and> (\<forall>s. (nt_id (ns ! i), s) \<in> set d \<longrightarrow> sv_version s \<le> nt_version (carryAll ns d ! i))"
proof (induction d arbitrary: ns)
  case Nil
  then show ?case by (simp add: carryAll_def)
next
  case (Cons p d)
  obtain a s where p: "p = (a, s)" by (cases p)
  from Cons.prems Cons.IH [of "carrySaved ns a s"] carrySaved_nth [OF Cons.prems, of a s] show ?case
    by (auto simp: carryAll_def p)
qed

section \<open>Leaving a page\<close>

lemma flush_rounds_done:
  "flush_rounds getOpen save i n w = (Inr FDone, w') \<Longrightarrow>
     map_option nt_id (getOpen w') \<noteq> Some i \<or>
     (\<exists>page sent w0 page0. getOpen w' = Some page \<and> nt_id page = i \<and> samePayload page sent \<and> getOpen w0 = Some page0 \<and> save page0 w0 = (Inr (Some sent), w'))"
proof (induction getOpen save i n w rule: flush_rounds.induct)
  case (2 getOpen save i rounds w)
  from 2(2) obtain page0 sent w1 where open0: "getOpen w = Some page0" and sv: "save page0 w = (Inr sent, w1)"
    and rest: "(if flushRound (getOpen w1) i sent \<noteq> FAgain then (Inr (flushRound (getOpen w1) i sent), w1) else flush_rounds getOpen save i rounds w1) = (Inr FDone, w')"
    by (auto simp: Let_def split: option.splits prod.splits sum.splits)
  show ?case
  proof (cases "flushRound (getOpen w1) i sent = FAgain")
    case True
    with rest have "flush_rounds getOpen save i rounds w1 = (Inr FDone, w')" by simp
    from 2(1) [OF open0 sv [symmetric] refl refl _ this] True show ?thesis by simp
  next
    case False
    with rest have "flushRound (getOpen w1) i sent = FDone" and "w' = w1" by (auto split: if_splits)
    with open0 sv show ?thesis by (auto simp: flushRound_def split: if_splits option.splits)
  qed
qed simp

text \<open>The open page is there whenever a round starts, so the only error is one the save itself throws.\<close>

lemma flush_rounds_error:
  "map_option nt_id (getOpen w) = Some i \<Longrightarrow> flush_rounds getOpen save i n w = (Inl e, w') \<Longrightarrow> \<exists>page w0. save page w0 = (Inl e, w')"
proof (induction getOpen save i n w rule: flush_rounds.induct)
  case (2 getOpen save i rounds w)
  from 2(2) obtain page0 where open0: "getOpen w = Some page0" by auto
  obtain r w1 where sv: "save page0 w = (r, w1)" by (cases "save page0 w")
  show ?case
  proof (cases r)
    case (Inl e')
    with 2(3) open0 sv show ?thesis by auto
  next
    case (Inr sent)
    with 2(3) open0 sv have again: "flushRound (getOpen w1) i sent = FAgain" and rest: "flush_rounds getOpen save i rounds w1 = (Inl e, w')"
      by (auto simp: Let_def split: if_splits)
    from again have "map_option nt_id (getOpen w1) = Some i" by (auto simp: flushRound_def split: if_splits)
    from 2(1) [OF open0 sv [symmetric] Inr refl _ this rest] again show ?thesis by simp
  qed
qed simp

section \<open>What a pass logs\<close>

definition resaves :: "loaded_object list \<Rightarrow> migration_event list" where
  "resaves objects = map (\<lambda>obj. Resaved (lo_id obj) True) (filter (\<lambda>obj. \<not> already_v2 obj) objects)"

definition checks :: "loaded_object list \<Rightarrow> migration_event list" where
  "checks objects = map (\<lambda>obj. Checked (lo_id obj) False) (filter (\<lambda>obj. lo_type obj = APage) objects)"

definition grows :: "'o mig_world \<Rightarrow> (migration_event list \<Rightarrow> bool) \<Rightarrow> 'o mig_world \<Rightarrow> bool" where
  "grows w P w' \<longleftrightarrow> (\<exists>es. t_log w' = t_log w @ es \<and> Marking \<notin> set es \<and> P es)"

lemma wp_resave:
  "wp (resave x obj) (\<lambda>ok w'. t_log w' = t_log w @ [Resaved (lo_id obj) ok]) (\<lambda>_ w'. t_log w' = t_log w) w"
  by (auto simp: resave_def wps split: sum.split)

lemma wp_resave_all:
  "wp (resave_all x objects complete) (\<lambda>r. grows w (\<lambda>es. r \<longrightarrow> complete \<and> es = resaves objects)) (\<lambda>_ _. False) w"
proof (induction objects arbitrary: complete w)
  case Nil
  show ?case by (simp add: wp_def grows_def resaves_def)
next
  case (Cons obj objects)
  have step: "wp (catch_io (bind_io (resave x obj) (\<lambda>ok. ret (complete \<and> ok))) (\<lambda>_. ret False))
      (\<lambda>r w'. \<exists>es. t_log w' = t_log w @ es \<and> Marking \<notin> set es \<and> (r \<longrightarrow> complete \<and> es = [Resaved (lo_id obj) True])) (\<lambda>_ _. False) w"
    unfolding wp_catch wp_bind by (rule wp_mono [OF wp_resave]) (auto simp: wps)
  show ?case
  proof (cases "already_v2 obj")
    case True
    with Cons.IH [of complete w] show ?thesis by (simp add: resaves_def)
  next
    case False
    have "wp (resave_all x objects r) (\<lambda>r'. grows w (\<lambda>es. r' \<longrightarrow> complete \<and> es = resaves (obj # objects))) (\<lambda>_ _. False) w'"
      if "\<exists>es. t_log w' = t_log w @ es \<and> Marking \<notin> set es \<and> (r \<longrightarrow> complete \<and> es = [Resaved (lo_id obj) True])" for r w'
      by (rule wp_mono [OF Cons.IH]) (use that False in \<open>auto simp: grows_def resaves_def\<close>)
    then show ?thesis using False by (auto simp only: resave_all.simps if_False wp_bind intro!: wp_mono [OF step])
  qed
qed

lemma wp_check_conflicts:
  "wp (check_conflicts x objects conflicts) (\<lambda>r. grows w (\<lambda>es. r = Some False \<longrightarrow> \<not> conflicts \<and> es = checks objects)) (\<lambda>_ _. False) w"
proof (induction objects arbitrary: conflicts w)
  case Nil
  show ?case by (simp add: wp_def grows_def checks_def)
next
  case (Cons obj objects)
  have step: "wp (catch_io (bind_io (noting (\<lambda>c. [Checked (lo_id obj) c]) (call (mi_legacyConflict x (lo_id obj)))) (\<lambda>c. ret (Some c))) (\<lambda>_. ret None))
      (\<lambda>r w'. case r of None \<Rightarrow> t_log w' = t_log w | Some c \<Rightarrow> t_log w' = t_log w @ [Checked (lo_id obj) c]) (\<lambda>_ _. False) w"
    by (auto simp: wps split: sum.split)
  show ?case
  proof (cases "lo_type obj = APage")
    case False
    with Cons.IH [of conflicts w] show ?thesis by (simp add: checks_def)
  next
    case True
    have "wp (case r of None \<Rightarrow> ret None | Some c \<Rightarrow> check_conflicts x objects (c \<or> conflicts))
        (\<lambda>r. grows w (\<lambda>es. r = Some False \<longrightarrow> \<not> conflicts \<and> es = checks (obj # objects))) (\<lambda>_ _. False) w'"
      if "case r of None \<Rightarrow> t_log w' = t_log w | Some c \<Rightarrow> t_log w' = t_log w @ [Checked (lo_id obj) c]" for r w'
    proof (cases r)
      case None
      with that show ?thesis by (simp add: wp_def grows_def)
    next
      case (Some c)
      have "wp (check_conflicts x objects (c \<or> conflicts))
          (\<lambda>r. grows w (\<lambda>es. r = Some False \<longrightarrow> \<not> conflicts \<and> es = checks (obj # objects))) (\<lambda>_ _. False) w'"
        by (rule wp_mono [OF Cons.IH]) (use that Some True in \<open>auto simp: grows_def checks_def\<close>)
      with Some show ?thesis by simp
    qed
    then show ?thesis using True by (auto simp only: check_conflicts.simps simp_thms if_False wp_bind intro!: wp_mono [OF step])
  qed
qed

definition pass_log_ok :: "loaded_object list \<Rightarrow> int \<Rightarrow> 'o mig_world \<Rightarrow> 'o mig_world \<Rightarrow> bool" where
  "pass_log_ok objects unreadable w w' \<longleftrightarrow> grows w (\<lambda>_. True) w' \<or> unreadable = 0 \<and> t_log w' = t_log w @ resaves objects @ checks objects @ [Marking]"

text \<open>From a log whose new part is good, the rest of the pass keeps it good; only the marker makes the answer \<open>migrated\<close>.\<close>

definition pass_end :: "loaded_object list \<Rightarrow> int \<Rightarrow> 'o mig_world \<Rightarrow> ('o mig_world, migration_result) io \<Rightarrow> 'o mig_world \<Rightarrow> bool" where
  "pass_end objects unreadable w m w1 \<longleftrightarrow>
     wp m (\<lambda>r w'. pass_log_ok objects unreadable w w' \<and> (r = Migrated \<longrightarrow> \<not> grows w (\<lambda>_. True) w')) (\<lambda>_. pass_log_ok objects unreadable w) w1"

lemma pass_end_ret: "grows w (\<lambda>_. True) w1 \<Longrightarrow> r \<noteq> Migrated \<Longrightarrow> pass_end objects unreadable w (ret r) w1"
  by (simp add: pass_end_def pass_log_ok_def wp_def)

lemma write_marker_end:
  "unreadable = 0 \<Longrightarrow> t_log w1 = t_log w @ resaves objects @ checks objects \<Longrightarrow> pass_end objects unreadable w (write_marker x) w1"
  by (auto simp: pass_end_def write_marker_def wps wp_def [of "Pair _"] pass_log_ok_def grows_def split: sum.split)

lemma check_then_mark_end:
  assumes "unreadable = 0" "t_log w1 = t_log w @ resaves objects"
  shows "pass_end objects unreadable w (check_then_mark x objects) w1"
  unfolding pass_end_def check_then_mark_def wp_bind
proof (rule wp_mono [OF wp_check_conflicts])
  fix r w2
  assume "grows w1 (\<lambda>es. r = Some False \<longrightarrow> \<not> False \<and> es = checks objects) w2"
  moreover have "Marking \<notin> set (resaves objects)" by (auto simp: resaves_def)
  ultimately have "grows w (\<lambda>_. True) w2" "r = Some False \<Longrightarrow> t_log w2 = t_log w @ resaves objects @ checks objects"
    using assms(2) by (auto simp: grows_def)
  then have "pass_end objects unreadable w (after_checks x r) w2"
    using assms(1) by (auto simp: after_checks_def simp del: io_simps intro: pass_end_ret write_marker_end split: option.split)
  then show "wp (after_checks x r) (\<lambda>r w'. pass_log_ok objects unreadable w w' \<and> (r = Migrated \<longrightarrow> \<not> grows w (\<lambda>_. True) w'))
      (\<lambda>_. pass_log_ok objects unreadable w) w2" by (simp add: pass_end_def)
qed simp

lemma migrateNotebook_end:
  assumes "\<not> migrated"
  shows "pass_end objects unreadable w (migrateNotebook objects unreadable migrated x) w"
  unfolding pass_end_def migrateNotebook_def if_not_P [OF assms] wp_bind
proof (rule wp_mono [OF wp_resave_all])
  fix r w1
  assume g: "grows w (\<lambda>es. r \<longrightarrow> unreadable = 0 \<and> es = resaves objects) w1"
  then have "grows w (\<lambda>_. True) w1" by (auto simp: grows_def)
  with g have "pass_end objects unreadable w (if \<not> r then ret Partial else check_then_mark x objects) w1"
    by (cases r) (auto simp del: io_simps intro!: pass_end_ret check_then_mark_end simp: grows_def)
  then show "wp (if \<not> r then ret Partial else check_then_mark x objects) (\<lambda>r w'. pass_log_ok objects unreadable w w' \<and> (r = Migrated \<longrightarrow> \<not> grows w (\<lambda>_. True) w'))
      (\<lambda>_. pass_log_ok objects unreadable w) w1" by (simp only: pass_end_def)
qed simp

section \<open>Properties\<close>



text \<open>C38: flushing ends after at most the given number of rounds; it reports done only when there was no open page, when the page it
  started on is no longer the open one, or when what the last save sent has the same payload as the open page has
  when the flush returns; and it fails only with an error of a save.\<close>

theorem flush_done_means_sent:
  "\<exists>r w'. flushUntilStable getOpen save maxRounds w = (r, w') \<and>
     (case r of
        Inl e \<Rightarrow> \<exists>page w0. save page w0 = (Inl e, w')
      | Inr state \<Rightarrow> state \<noteq> FDone \<or> map_option nt_id (getOpen w) \<in> {None, Some []} \<or> map_option nt_id (getOpen w') \<noteq> map_option nt_id (getOpen w) \<or>
          (\<exists>page sent w0 page0. getOpen w' = Some page \<and> samePayload page sent \<and> getOpen w0 = Some page0 \<and> save page0 w0 = (Inr (Some sent), w')))"
proof (cases "getOpen w")
  case None
  then show ?thesis by (simp add: flushUntilStable_def)
next
  case (Some page)
  obtain r w' where run: "flush_rounds getOpen save (nt_id page) maxRounds w = (r, w')" by (cases "flush_rounds getOpen save (nt_id page) maxRounds w")
  show ?thesis
  proof (cases r)
    case (Inl e)
    with run Some flush_rounds_error [of getOpen w "nt_id page" save maxRounds e w'] show ?thesis by (auto simp: flushUntilStable_def)
  next
    case (Inr state)
    with run Some flush_rounds_done [of getOpen save "nt_id page" maxRounds w w'] show ?thesis
      by (cases "state = FDone") (auto simp: flushUntilStable_def)
  qed
qed

theorem flush_done_means_sent_witness:
  "\<exists>page sent w0 page0. (\<lambda>w :: nat. Some \<lparr>nt_id = ''p'', nt_title = ''t'', nt_body = ''b'', nt_version = 1, nt_updatedAt = ''u'',
      nt_section = None, nt_order = None, nt_level = None, nt_legacy = None\<rparr>) w0 = Some page \<and> samePayload page sent \<and>
     (\<lambda>p w. (Inr (Some p), Suc w)) page0 w0 = (Inr (Some sent), Suc 0) \<and>
     flushUntilStable (\<lambda>_. Some page) (\<lambda>p w. (Inr (Some p), Suc w)) 3 0 = (Inr FDone, Suc 0)"
proof -
  let ?p = "\<lparr>nt_id = ''p'', nt_title = ''t'', nt_body = ''b'', nt_version = 1, nt_updatedAt = ''u'',
      nt_section = None, nt_order = None, nt_level = None, nt_legacy = None\<rparr>"
  have run: "flushUntilStable (\<lambda>_. Some ?p) (\<lambda>p w. (Inr (Some p), Suc w)) 3 0 = (Inr FDone, Suc 0)"
    by (simp add: flushUntilStable_def numeral_3_eq_3 flushRound_def samePayload_def)
  from flush_done_means_sent [of "\<lambda>_. Some ?p" "\<lambda>p w. (Inr (Some p), Suc w)" 3 0] run show ?thesis by auto
qed

text \<open>One retirement step on the store: the row is still the one that was read, so it is replaced in place.\<close>

lemma replace_read_row:
  assumes "rows_ok db" "db_ok db" "map_of (pending db) (row_key item) = Some item"
  shows "\<exists>db'. replaceQueuedSave item (Some (retired_copy payload item)) db = (Inr True, db') \<and> rows_ok db' \<and> db_ok db' \<and>
    map_of (pending db') = (map_of (pending db))(row_key item \<mapsto> retired_copy payload item)"
proof -
  let ?db' = "snd (replaceQueuedSave item (Some (retired_copy payload item)) db)"
  have same: "sameDraft (Some item) item" by (simp add: sameDraft_def sameBytes_iff)
  have row: "(retired_copy payload item)\<lparr>p_owner := p_owner item, n_id := n_id item\<rparr> = retired_copy payload item"
    by (simp add: retired_copy_def)
  have key: "row_key (retired_copy payload item) = row_key item" by (simp add: retired_copy_def row_key_def)
  have run: "replaceQueuedSave item (Some (retired_copy payload item)) db = (Inr True, ?db')"
    using assms same by (simp add: replaceQueuedSave_def transact_def replace_work_def Let_def split: option.split)
  moreover have "rows_ok ?db'" using store_step_ok [OF assms(1), of "ReplaceQueued item (Some (retired_copy payload item))"] by simp
  moreover have "db_ok ?db'" "map_of (pending ?db') = (map_of (pending db))(row_key item \<mapsto> retired_copy payload item)"
    using assms same row key
    by (auto simp: replaceQueuedSave_def transact_def replace_work_def put_pending_def put_note_def Let_def split: option.splits if_splits)
  ultimately show ?thesis by blast
qed

definition retire_map :: "string \<Rightarrow> (pending_save \<Rightarrow> bytes option result) \<Rightarrow> pending_save set \<Rightarrow> (store_key \<Rightarrow> pending_save option) \<Rightarrow> store_key \<Rightarrow> pending_save option" where
  "retire_map owner f S m k =
     map_option (\<lambda>q. if q \<in> S \<and> awaits_key owner q then retired_copy (case f q of Inl _ \<Rightarrow> None | Inr p \<Rightarrow> p) q else q) (m k)"

lemma retire_map_skip: "\<not> awaits_key owner item \<Longrightarrow> retire_map owner f (insert item S) m = retire_map owner f S m"
  by (rule ext) (auto simp: retire_map_def intro!: option.map_cong0)

lemma retire_map_step:
  assumes "awaits_key owner item" "m (row_key item) = Some item" "\<And>k r. m k = Some r \<Longrightarrow> row_key r = k"
  shows "retire_map owner f S (m(row_key item \<mapsto> retired_copy (case f item of Inl _ \<Rightarrow> None | Inr p \<Rightarrow> p) item)) = retire_map owner f (insert item S) m"
proof
  fix k
  have done_row: "\<not> awaits_key owner (retired_copy p item)" for p by (simp add: awaits_key_def retired_copy_def)
  show "retire_map owner f S (m(row_key item \<mapsto> retired_copy (case f item of Inl _ \<Rightarrow> None | Inr p \<Rightarrow> p) item)) k = retire_map owner f (insert item S) m k"
  proof (cases "k = row_key item")
    case True
    then show ?thesis using assms(1,2) done_row by (simp add: retire_map_def)
  next
    case False
    with assms(3) have "m k \<noteq> Some item" by blast
    with False show ?thesis by (cases "m k") (auto simp: retire_map_def)
  qed
qed

lemma retire_rows:
  assumes "rows_ok db" "db_ok db" "\<forall>item\<in>set items. map_of (pending db) (row_key item) = Some item" "distinct (map row_key items)"
  shows "\<exists>db'. retireWaiting items owner (\<lambda>item db. (f item, db)) (\<lambda>item next. replaceQueuedSave item (Some next)) db = (Inr (), db') \<and>
    map_of (pending db') = retire_map owner f (set items) (map_of (pending db))"
  using assms
proof (induction items arbitrary: db)
  case Nil
  show ?case by (simp add: retire_map_def fun_eq_iff option.map_ident)
next
  case (Cons item items)
  show ?case
  proof (cases "awaits_key owner item")
    case False
    with Cons.IH [OF Cons.prems(1,2)] Cons.prems(3,4) show ?thesis by (simp add: retire_map_skip)
  next
    case True
    let ?p = "case f item of Inl _ \<Rightarrow> None | Inr p \<Rightarrow> p"
    from Cons.prems obtain db1 where run: "replaceQueuedSave item (Some (retired_copy ?p item)) db = (Inr True, db1)" and ok: "rows_ok db1" "db_ok db1"
      and map1: "map_of (pending db1) = (map_of (pending db))(row_key item \<mapsto> retired_copy ?p item)"
      using replace_read_row [OF Cons.prems(1,2), of item ?p] Cons.prems(3) by (metis list.set_intros(1))
    have "\<forall>i\<in>set items. map_of (pending db1) (row_key i) = Some i"
    proof
      fix i
      assume "i \<in> set items"
      with Cons.prems(3,4) have "map_of (pending db) (row_key i) = Some i" "row_key i \<noteq> row_key item" by (simp, force)
      then show "map_of (pending db1) (row_key i) = Some i" unfolding map1 by simp
    qed
    from Cons.IH [OF ok this] Cons.prems(4) obtain db' where rest: "retireWaiting items owner (\<lambda>item db. (f item, db)) (\<lambda>item next. replaceQueuedSave item (Some next)) db1 = (Inr (), db')"
      and rows: "map_of (pending db') = retire_map owner f (set items) (map_of (pending db1))" by auto
    have "retireWaiting (item # items) owner (\<lambda>item db. (f item, db)) (\<lambda>item next. replaceQueuedSave item (Some next)) db = (Inr (), db')"
      using True run rest by (cases "f item") (simp_all add: bind_io_def catch_io_def)
    moreover have "map_of (pending db') = retire_map owner f (set (item # items)) (map_of (pending db))"
      using retire_map_step [OF True _ rows_okD(2) [OF Cons.prems(1)]] Cons.prems(3) by (simp add: rows map1)
    ultimately show ?thesis by blast
  qed
qed

text \<open>After a reset, retiring the queue read from the store ends without error; every row of this account that waited for the replaced
  key is marked, re-sealed where that worked and otherwise as it was, and every other row, of this account or
  another, is untouched.\<close>

lemma waiting_edits_retired:
  assumes "rows_ok db" "db_ok db" "distinct (map fst (pending db))"
  shows "\<exists>db'. retireWaiting (map snd (pending db)) owner (\<lambda>item db. (f item, db)) (\<lambda>item next. replaceQueuedSave item (Some next)) db = (Inr (), db') \<and>
    (\<forall>k. map_of (pending db') k = (case map_of (pending db) k of
        None \<Rightarrow> None
      | Some q \<Rightarrow> Some (if awaits_key owner q then retired_copy (case f q of Inl _ \<Rightarrow> None | Inr p \<Rightarrow> p) q else q)))"
proof -
  have key: "row_key r = k" if "(k, r) \<in> set (pending db)" for k r
    using rows_okD(2) [OF assms(1)] map_of_is_SomeI [OF assms(3) that] by blast
  have listed: "q \<in> set (map snd (pending db))" if "map_of (pending db) k = Some q" for k q using map_of_SomeD [OF that] by force
  from key have "map row_key (map snd (pending db)) = map fst (pending db)" by auto
  moreover have "\<forall>item\<in>set (map snd (pending db)). map_of (pending db) (row_key item) = Some item"
    using key map_of_is_SomeI [OF assms(3)] by auto
  ultimately obtain db' where run: "retireWaiting (map snd (pending db)) owner (\<lambda>item db. (f item, db)) (\<lambda>item next. replaceQueuedSave item (Some next)) db = (Inr (), db')"
    and rows: "map_of (pending db') = retire_map owner f (set (map snd (pending db))) (map_of (pending db))"
    using retire_rows [OF assms(1,2), of "map snd (pending db)" owner f] assms(3) by metis
  have "map_of (pending db') k = (case map_of (pending db) k of None \<Rightarrow> None
      | Some q \<Rightarrow> Some (if awaits_key owner q then retired_copy (case f q of Inl _ \<Rightarrow> None | Inr p \<Rightarrow> p) q else q))" for k
    using listed by (cases "map_of (pending db) k") (auto simp: rows retire_map_def)
  with run show ?thesis by blast
qed

end
