(* ===== verification/Drafts.thy ===== *)
theory Drafts
  imports Edits
begin

text \<open>
  Sealed drafts (\<open>web/src/drafts.ts\<close>): what is sealed for an edit, reusing an earlier sealed copy of the same edit, and the choice of the
  local text a page opens with. The store is the one of \<open>NoteStore\<close>; opening a copy and reading the server's one are
  arguments that run in the same world, so another tab may change the store while they run. The loop of \<open>localDraft\<close> may
  go on as long as other tabs keep replacing the copy; it is a partial function, and it is shown to return when the copy
  is not replaced during a comparison. The lemmas: what is prepared for upload is bound, current and holds exactly the
  edit; recovery marks only the copy whose text was compared.
\<close>

section \<open>Comparing contents\<close>

definition opt_json :: "('a \<Rightarrow> json) \<Rightarrow> 'a option \<Rightarrow> json" where
  "opt_json f v = (case v of None \<Rightarrow> JNull | Some x \<Rightarrow> f x)"

fun contents_json :: "object_payload \<Rightarrow> json" where
  "contents_json (PagePayload p) = JArr [JStr ''page'', JStr (pg_title p), JStr (pg_body p), opt_json JStr (pg_section p),
     opt_json JStr (pg_order p), opt_json JNum (pg_level p), opt_json legacy_json (pg_legacy p)]"
| "contents_json (SectionPayload p) = JArr [JStr ''section'', JStr (sp_title p), JStr (sp_color p), opt_json JStr (sp_order p), opt_json JStr (sp_group p)]"
| "contents_json (GroupPayload p) = JArr [JStr ''group'', JStr (sp_title p), JStr (sp_color p), opt_json JStr (sp_order p), opt_json JStr (sp_group p)]"

definition contents :: "object_payload \<Rightarrow> string" where
  "contents v = stringify (contents_json v)"

definition sameDraftContents :: "page_payload \<Rightarrow> page_payload \<Rightarrow> bool" where
  "sameDraftContents a b \<longleftrightarrow> contents (PagePayload a) = contents (PagePayload b)"

section \<open>Preparing a draft\<close>

definition previous_draft :: "string \<Rightarrow> pending_save option \<Rightarrow> pending_save option \<Rightarrow> pending_save option" where
  "previous_draft owner cached queued =
     (case cached of
        None \<Rightarrow> queued
      | Some c \<Rightarrow> if n_unsent c \<and> (case queued of None \<Rightarrow> True | Some q \<Rightarrow> n_updatedAt c \<ge> n_updatedAt q)
          then Some (c\<lparr>p_owner := owner\<rparr>) else queued)"

definition reusable :: "lib \<Rightarrow> string \<Rightarrow> string \<Rightarrow> int \<Rightarrow> object_payload \<Rightarrow> write_key \<Rightarrow> pending_save \<Rightarrow> bool" where
  "reusable L containerID oid version content write previous \<longleftrightarrow>
     \<not> p_gone previous \<and> \<not> p_previousKey previous \<and> n_containerID previous = containerID \<and> n_version previous = version \<and>
     n_keyGeneration previous = Some (w_generation write) \<and>
     (case openObject L (w_key write) containerID oid (n_payload previous) True of
        Inr (Some p, older) \<Rightarrow> \<not> older \<and> contents p = contents content
      | _ \<Rightarrow> False)"

definition new_draft :: "lib \<Rightarrow> bytes \<Rightarrow> string \<Rightarrow> string \<Rightarrow> string \<Rightarrow> string \<Rightarrow> int \<Rightarrow> object_payload \<Rightarrow> write_key \<Rightarrow> pending_save result" where
  "new_draft L iv now owner containerID oid version content write =
     rbind (encryptNote L iv (w_key write) containerID oid (payload_json content)) (\<lambda>bs.
       Inr \<lparr>n_id = oid, n_containerID = containerID, n_version = version, n_payload = bs, n_updatedAt = now,
         n_keyGeneration = Some (w_generation write), n_unsent = False, p_owner = owner, p_previousKey = False, p_gone = False, p_conflicted = False\<rparr>)"

text \<open>The nonce and the time are arguments; a store that does not answer has neither copy.\<close>

definition prepareObjectDraft ::
  "lib \<Rightarrow> bytes \<Rightarrow> string \<Rightarrow> string \<Rightarrow> string \<Rightarrow> string \<Rightarrow> int \<Rightarrow> object_payload \<Rightarrow> write_key \<Rightarrow> (note_db, pending_save) io" where
  "prepareObjectDraft L iv now owner containerID oid version content write =
     bind_io (catch_io (getQueuedSave owner oid) (\<lambda>_. ret None)) (\<lambda>queued.
     bind_io (catch_io (getNote owner oid) (\<lambda>_. ret None)) (\<lambda>cached.
       lift_result (case previous_draft owner cached queued of
           Some previous \<Rightarrow> if reusable L containerID oid version content write previous then Inr previous
             else new_draft L iv now owner containerID oid version content write
         | None \<Rightarrow> new_draft L iv now owner containerID oid version content write)))"

definition prepareDraft :: "lib \<Rightarrow> bytes \<Rightarrow> string \<Rightarrow> string \<Rightarrow> string \<Rightarrow> note_page \<Rightarrow> write_key \<Rightarrow> (note_db, pending_save) io" where
  "prepareDraft L iv now owner containerID page write =
     prepareObjectDraft L iv now owner containerID (nt_id page) (nt_version page) (PagePayload (notePayload page)) write"

section \<open>The local text\<close>

datatype draft_mode = Recover | Read

definition outranks :: "pending_save \<Rightarrow> pending_save option \<Rightarrow> bool" where
  "outranks local pend = (case pend of None \<Rightarrow> True | Some q \<Rightarrow> n_updatedAt local \<ge> n_updatedAt q)"

text \<open>The condition of the loop: an ordinary cached copy of the same version that no later queued edit outranks.\<close>

definition compare_local :: "int \<Rightarrow> pending_save option \<Rightarrow> pending_save option \<Rightarrow> pending_save option" where
  "compare_local version pend local =
     (case local of
        None \<Rightarrow> None
      | Some l \<Rightarrow> if \<not> n_unsent l \<and> n_version l = version \<and> \<not> retired pend \<and> outranks l pend then Some l else None)"

definition differ_as_pages :: "object_payload option \<Rightarrow> object_payload option \<Rightarrow> bool" where
  "differ_as_pages payload remote =
     (case (payload, remote) of (Some (PagePayload p), Some (PagePayload r)) \<Rightarrow> \<not> sameDraftContents p r | _ \<Rightarrow> False)"

definition chosen :: "int \<Rightarrow> pending_save option \<Rightarrow> pending_save option \<Rightarrow> pending_save option" where
  "chosen version pend local =
     (let draft = (if retired pend then None else pend);
          cached = (case local of
             Some l \<Rightarrow> if n_unsent l \<and> outranks l draft then Some l else (case draft of Some d \<Rightarrow> Some d | None \<Rightarrow> Some l)
           | None \<Rightarrow> draft);
          from_draft = (draft \<noteq> None \<and> \<not> (case local of Some l \<Rightarrow> n_unsent l \<and> outranks l draft | None \<Rightarrow> False)) in
      case cached of
        None \<Rightarrow> None
      | Some c \<Rightarrow> if n_unsent c \<or> from_draft \<or> n_version c \<ge> version then Some c else None)"

datatype round = Settled "pending_save option" | Again "pending_save option" "pending_save option"

definition draft_round ::
  "string \<Rightarrow> string \<Rightarrow> int \<Rightarrow> draft_mode \<Rightarrow> (pending_save \<Rightarrow> (note_db, object_payload option) io) \<Rightarrow> (note_db, object_payload option) io \<Rightarrow>
   pending_save option \<Rightarrow> pending_save option \<Rightarrow> (note_db, round) io" where
  "draft_round owner oid version mode open_copy server pend local =
     (case compare_local version pend local of
        None \<Rightarrow> ret (Settled (chosen version pend local))
      | Some l \<Rightarrow>
          bind_io (open_copy l) (\<lambda>payload.
          bind_io server (\<lambda>remote.
            if \<not> differ_as_pages payload remote then ret (Settled (chosen version pend local))
            else if mode = Read then ret (Settled (Some l))
            else bind_io (recoverDraft owner oid (Some l)) (\<lambda>pend'.
              bind_io (getNote owner oid) (\<lambda>local'.
                if sameDraft local' l then ret (Settled (chosen version pend' local')) else ret (Again pend' local'))))))"

partial_function (option) draft_rounds ::
  "(pending_save option \<Rightarrow> pending_save option \<Rightarrow> (note_db, round) io) \<Rightarrow> pending_save option \<Rightarrow> pending_save option \<Rightarrow> note_db \<Rightarrow>
   (pending_save option result \<times> note_db) option" where
  "draft_rounds step pend local w =
     (case step pend local w of (r, w') \<Rightarrow>
        (case r of
           Inl e \<Rightarrow> Some (Inl e, w')
         | Inr x \<Rightarrow> (case x of
             Settled c \<Rightarrow> Some (Inr c, w')
           | Again pend' local' \<Rightarrow> draft_rounds step pend' local' w')))"

definition localDraft ::
  "string \<Rightarrow> string \<Rightarrow> int \<Rightarrow> draft_mode \<Rightarrow> (pending_save \<Rightarrow> (note_db, object_payload option) io) \<Rightarrow> (note_db, object_payload option) io \<Rightarrow>
   note_db \<Rightarrow> (pending_save option result \<times> note_db) option" where
  "localDraft owner oid version mode open_copy server w =
     (case bind_io (if mode = Recover then recoverDraft owner oid None else getQueuedSave owner oid) (\<lambda>pend.
             bind_io (getNote owner oid) (\<lambda>local. ret (pend, local))) w of
        (Inl e, w') \<Rightarrow> Some (Inl e, w')
      | (Inr (pend, local), w') \<Rightarrow> draft_rounds (draft_round owner oid version mode open_copy server) pend local w')"

section \<open>Equal contents are equal payloads\<close>

lemma opt_json_inj:
  assumes "opt_json f a = opt_json f b" "\<And>x. f x \<noteq> JNull" "\<And>x y. f x = f y \<Longrightarrow> x = y"
  shows "a = b"
  using assms by (cases a; cases b) (auto simp: opt_json_def eq_commute [of JNull])

lemma legacy_json_inj: "legacy_json a = legacy_json b \<Longrightarrow> a = b"
proof -
  have "inj (\<lambda>(k :: string, d). (k, JStr d))" by (auto simp: inj_on_def)
  then show "legacy_json a = legacy_json b \<Longrightarrow> a = b" by (simp add: legacy_json_def inj_map_eq_map)
qed

lemma wf_opt_json: "(\<And>x. v = Some x \<Longrightarrow> wf_json (f x)) \<Longrightarrow> wf_json (opt_json f v)"
  by (cases v) (simp_all add: opt_json_def)

lemma wf_legacy: "legacy_ok pins \<Longrightarrow> wf_json (legacy_json pins)"
  by (auto simp: legacy_json_def legacy_ok_def list_all_iff comp_def case_prod_unfold)

lemma wf_contents: "payload_ok p \<Longrightarrow> wf_json (contents_json p)"
  by (cases p) (auto intro!: wf_opt_json wf_legacy)

lemma contents_json_inj: "contents_json p = contents_json q \<Longrightarrow> p = q"
proof -
  have legacy: "opt_json legacy_json a = opt_json legacy_json b \<Longrightarrow> a = b" for a b
    by (rule opt_json_inj [of legacy_json]) (simp_all add: legacy_json_def legacy_json_inj [unfolded legacy_json_def])
  show "contents_json p = contents_json q \<Longrightarrow> p = q"
    by (cases p; cases q) (auto dest!: legacy opt_json_inj [of JStr, simplified] opt_json_inj [of JNum, simplified])
qed

lemma contents_inj: "payload_ok p \<Longrightarrow> payload_ok q \<Longrightarrow> contents p = contents q \<Longrightarrow> p = q"
  unfolding contents_def using stringify_inj wf_contents contents_json_inj by blast

section \<open>What is prepared\<close>

definition draft_for :: "lib \<Rightarrow> string \<Rightarrow> string \<Rightarrow> string \<Rightarrow> int \<Rightarrow> object_payload \<Rightarrow> write_key \<Rightarrow> pending_save \<Rightarrow> bool" where
  "draft_for L owner containerID oid version content write r \<longleftrightarrow>
     n_id r = oid \<and> p_owner r = owner \<and> n_containerID r = containerID \<and> n_version r = version \<and> n_keyGeneration r = Some (w_generation write) \<and>
     \<not> p_gone r \<and> \<not> p_previousKey r \<and> openObject L (w_key write) containerID oid (n_payload r) False = Inr (Some content, False)"

lemma new_draft_for:
  assumes "gcm_roundtrip L" "gcm_overhead L" "length iv = 12" "payload_ok content" "new_draft L iv now owner containerID oid version content write = Inr r"
  shows "draft_for L owner containerID oid version content write r"
  using assms(5) openObject_sealed [OF assms(1-4)] by (auto simp: new_draft_def rbind_eq_Inr draft_for_def)

lemma reused_draft_for:
  assumes "payload_ok content" "reusable L containerID oid version content write r" "n_id r = oid" "p_owner r = owner"
  shows "draft_for L owner containerID oid version content write r"
proof -
  from assms(2) obtain p where p: "openObject L (w_key write) containerID oid (n_payload r) True = Inr (Some p, False)" "contents p = contents content"
    by (auto simp: reusable_def split: sum.splits option.splits)
  with assms(1) have "p = content" using contents_inj openObject_ok by blast
  with p assms(2-4) show ?thesis by (auto simp: draft_for_def reusable_def intro: openObject_current)
qed

lemma previous_draft_row:
  assumes "rows_ok db" "previous_draft owner (map_of (cache db) (owner, oid)) (map_of (pending db) (owner, oid)) = Some r"
  shows "n_id r = oid \<and> p_owner r = owner"
  using rows_okD [OF assms(1)] assms(2) by (fastforce simp: previous_draft_def row_key_def split: option.splits if_splits)

text \<open>C10: what is prepared for upload, a reused copy or a new one, is this account's draft of this object and version, sealed with the current
  write key, never a retired one, and opens without the older form to exactly the given content; nothing in the
  store changes.\<close>

theorem prepared_draft_exact:
  assumes "gcm_roundtrip L" "gcm_overhead L" "length iv = 12" "payload_ok content" "rows_ok db"
    and "prepareObjectDraft L iv now owner containerID oid version content write db = (Inr r, db')"
  shows "db' = db \<and> n_id r = oid \<and> p_owner r = owner \<and> n_containerID r = containerID \<and> n_version r = version \<and>
    n_keyGeneration r = Some (w_generation write) \<and> \<not> p_gone r \<and> \<not> p_previousKey r \<and>
    openObject L (w_key write) containerID oid (n_payload r) False = Inr (Some content, False)"
proof -
  have new: "draft_for L owner containerID oid version content write r" if "new_draft L iv now owner containerID oid version content write = Inr r"
    using new_draft_for [OF assms(1-4) that] .
  have "db' = db \<and> draft_for L owner containerID oid version content write r"
  proof (cases "db_ok db")
    case True
    let ?prev = "previous_draft owner (map_of (cache db) (owner, oid)) (map_of (pending db) (owner, oid))"
    from True assms(6) have "db' = db" and r: "(case ?prev of Some previous \<Rightarrow> if reusable L containerID oid version content write previous then Inr previous
             else new_draft L iv now owner containerID oid version content write
         | None \<Rightarrow> new_draft L iv now owner containerID oid version content write) = Inr r"
      by (auto simp: prepareObjectDraft_def bind_io_def catch_io_def getQueuedSave_def getNote_def transact_def)
    then show ?thesis using new reused_draft_for [OF assms(4)] previous_draft_row [OF assms(5)] by (auto split: option.splits if_splits)
  next
    case False
    with assms(6) new show ?thesis
      by (simp add: prepareObjectDraft_def bind_io_def catch_io_def getQueuedSave_def getNote_def transact_def previous_draft_def)
  qed
  then show ?thesis by (simp add: draft_for_def)
qed

theorem prepared_draft_exact_witness:
  "\<exists>r. prepareObjectDraft demo_lib (replicate 12 1) ''now'' ''u'' ''cnt_1'' ''obj_1'' 1
        (SectionPayload \<lparr>sp_title = ''Plan'', sp_color = ''blue'', sp_order = None, sp_group = None\<rparr>) \<lparr>w_key = replicate 32 7, w_generation = 2\<rparr> empty_db = (Inr r, empty_db) \<and>
     n_keyGeneration r = Some 2 \<and> openObject demo_lib (replicate 32 7) ''cnt_1'' ''obj_1'' (n_payload r) False =
       Inr (Some (SectionPayload \<lparr>sp_title = ''Plan'', sp_color = ''blue'', sp_order = None, sp_group = None\<rparr>), False)"
proof -
  let ?c = "SectionPayload \<lparr>sp_title = ''Plan'', sp_color = ''blue'', sp_order = None, sp_group = None\<rparr>"
  let ?w = "\<lparr>w_key = replicate 32 7, w_generation = 2\<rparr>"
  have ok: "payload_ok ?c" "rows_ok empty_db" "length (replicate 12 (1 :: byte)) = 12" by (simp_all add: structure_ok_def SECTION_COLORS_def rows_ok_def empty_db_def)
  obtain bs where "encryptNote demo_lib (replicate 12 1) (replicate 32 7) ''cnt_1'' ''obj_1'' (payload_json ?c) = Inr bs"
    unfolding encryptNote_def using demo_seals(2) by blast
  then obtain r where r: "prepareObjectDraft demo_lib (replicate 12 1) ''now'' ''u'' ''cnt_1'' ''obj_1'' 1 ?c ?w empty_db = (Inr r, empty_db)"
    by (simp add: prepareObjectDraft_def bind_io_def catch_io_def getQueuedSave_def getNote_def transact_def previous_draft_def empty_db_def new_draft_def)
  from prepared_draft_exact [OF demo_lib_laws(1,3) ok(3,1,2) r] r show ?thesis by auto
qed

section \<open>The choice returns\<close>

text \<open>What a round starts from: the page's rows as they stand in the store.\<close>

definition rows_read :: "store_key \<Rightarrow> pending_save option \<Rightarrow> pending_save option \<Rightarrow> note_db \<Rightarrow> bool" where
  "rows_read key pend local w \<longleftrightarrow> rows_ok w \<and> pend = map_of (pending w) key \<and> local = map_of (cache w) key"

definition from_store :: "store_key \<Rightarrow> pending_save option \<Rightarrow> note_db \<Rightarrow> bool" where
  "from_store key c w \<longleftrightarrow> (case c of None \<Rightarrow> True | Some r \<Rightarrow> map_of (cache w) key = Some r \<or> map_of (pending w) key = Some r)"

lemma chosen_from_store: "rows_read key pend local w \<Longrightarrow> from_store key (chosen version pend local) w"
  by (auto simp: rows_read_def from_store_def chosen_def Let_def split: option.splits if_splits)

lemma recover_read:
  assumes "rows_ok w" "recoverDraft owner oid legacy w = (Inr pend, w1)"
  shows "rows_read (owner, oid) pend (map_of (cache w1) (owner, oid)) w1 \<and> db_ok w1"
proof -
  from assms(2) have work: "recover_work owner oid legacy w = (pend, w1)" and ok: "db_ok w"
    by (auto simp: recoverDraft_def transact_def Let_def split: prod.splits if_splits)
  have "rows_ok (store_step (RecoverDraft owner oid legacy) w)" by (rule store_step_ok [OF assms(1)])
  then have "rows_ok w1" using assms(2) by simp
  moreover have "db_ok w1" using work ok by (auto simp: recover_work_def Let_def put_note_def put_pending_def split: option.splits if_splits)
  ultimately show ?thesis using recover_postD(3) [OF recover_cases [OF work assms(1)]] by (simp add: rows_read_def)
qed

text \<open>When nobody replaced the compared copy, recovery leaves it in the cache, at most marked.\<close>

lemma recover_keeps_copy:
  assumes "map_of (cache w) (owner, oid) = Some l" "row_key l = (owner, oid)" "recoverDraft owner oid (Some l) w = (Inr pend, w1)"
  shows "sameDraft (map_of (cache w1) (owner, oid)) l"
proof -
  from assms(3) have "recover_work owner oid (Some l) w = (pend, w1)"
    by (auto simp: recoverDraft_def transact_def Let_def split: prod.splits if_splits)
  with assms(1,2) have "map_of (cache w1) (owner, oid) = Some l \<or> map_of (cache w1) (owner, oid) = Some (l\<lparr>n_unsent := True\<rparr>)"
    by (auto simp: recover_work_def Let_def put_note_def put_pending_def row_key_def split: option.splits if_splits)
  then show ?thesis by (auto simp: sameDraft_def sameBytes_iff)
qed

definition quiet :: "(note_db, 'a) io \<Rightarrow> bool" where
  "quiet m \<longleftrightarrow> (\<forall>w. snd (m w) = w)"

lemma quiet_cases: "quiet m \<Longrightarrow> \<exists>r. m w = (r, w)"
  unfolding quiet_def by (metis prod.collapse)

lemma getNote_run: "getNote owner oid w = (if db_ok w then Inr (map_of (cache w) (owner, oid)) else Inl (Error ''Unable to open local note store''), w)"
  by (simp add: getNote_def transact_def)

lemma getQueuedSave_run: "getQueuedSave owner oid w = (if db_ok w then Inr (map_of (pending w) (owner, oid)) else Inl (Error ''Unable to open local note store''), w)"
  by (simp add: getQueuedSave_def transact_def)

lemma draft_round_settles:
  assumes "\<And>l. quiet (open_copy l)" "quiet server" "rows_read (owner, oid) pend local w"
  shows "\<exists>r w'. draft_round owner oid version mode open_copy server pend local w = (r, w') \<and> (mode = Read \<longrightarrow> w' = w) \<and>
    (case r of Inl _ \<Rightarrow> True | Inr x \<Rightarrow> \<exists>c. x = Settled c \<and> from_store (owner, oid) c w')"
proof (cases "compare_local version pend local")
  case None
  then show ?thesis using chosen_from_store [OF assms(3)] by (simp add: draft_round_def)
next
  case (Some l)
  then have l: "local = Some l" by (auto simp: compare_local_def split: option.splits if_splits)
  with assms(3) have here: "map_of (cache w) (owner, oid) = Some l" "row_key l = (owner, oid)" and ok: "rows_ok w"
    by (auto simp: rows_read_def rows_ok_def)
  obtain p where p: "open_copy l w = (p, w)" using quiet_cases [OF assms(1)] by blast
  obtain q where q: "server w = (q, w)" using quiet_cases [OF assms(2)] by blast
  obtain s w1 where s: "recoverDraft owner oid (Some l) w = (s, w1)" by (cases "recoverDraft owner oid (Some l) w")
  have recovered: "\<exists>c. (if sameDraft (map_of (cache w1) (owner, oid)) l then Settled (chosen version pend' (map_of (cache w1) (owner, oid)))
      else Again pend' (map_of (cache w1) (owner, oid))) = Settled c \<and> from_store (owner, oid) c w1 \<and> db_ok w1" if "s = Inr pend'" for pend'
    using recover_keeps_copy [OF here] recover_read [OF ok] s that chosen_from_store by (simp add: from_store_def)
  have local: "from_store (owner, oid) (Some l) w" by (simp add: from_store_def here)
  show ?thesis
    using Some p q s recovered local chosen_from_store [OF assms(3)]
    by (cases p; cases q; cases s) (auto simp: draft_round_def bind_io_def getNote_run split: if_splits)
qed

text \<open>As long as opening the copy and asking the server leave the store alone, choosing the local text returns, with an error or with a
  row that stands in the store for this page and account when it returns; in reading mode it writes nothing.\<close>

lemma local_draft_returns:
  assumes "\<And>l. quiet (open_copy l)" "quiet server" "rows_ok db"
  shows "\<exists>r db'. localDraft owner oid version mode open_copy server db = Some (r, db') \<and> (mode = Read \<longrightarrow> db' = db) \<and>
    (case r of Inr (Some c) \<Rightarrow> map_of (cache db') (owner, oid) = Some c \<or> map_of (pending db') (owner, oid) = Some c | _ \<Rightarrow> True)"
proof -
  obtain s w1 where first: "(if mode = Recover then recoverDraft owner oid None else getQueuedSave owner oid) db = (s, w1)"
    by (cases "(if mode = Recover then recoverDraft owner oid None else getQueuedSave owner oid) db")
  have read: "mode = Read \<longrightarrow> w1 = db" using first by (auto simp: getQueuedSave_run)
  show ?thesis
  proof (cases s)
    case (Inl e)
    with first read show ?thesis by (simp add: localDraft_def bind_io_def)
  next
    case (Inr pend)
    have "rows_read (owner, oid) pend (map_of (cache w1) (owner, oid)) w1 \<and> db_ok w1"
    proof (cases mode)
      case Recover
      with first Inr show ?thesis by (intro recover_read [OF assms(3)]) simp
    next
      case Read
      with first Inr assms(3) show ?thesis by (auto simp: getQueuedSave_run rows_read_def split: if_splits)
    qed
    then have rows: "rows_read (owner, oid) pend (map_of (cache w1) (owner, oid)) w1" and ok: "db_ok w1" by simp_all
    obtain r w2 where step: "draft_round owner oid version mode open_copy server pend (map_of (cache w1) (owner, oid)) w1 = (r, w2)"
      and out: "mode = Read \<longrightarrow> w2 = w1" "case r of Inl _ \<Rightarrow> True | Inr x \<Rightarrow> \<exists>c. x = Settled c \<and> from_store (owner, oid) c w2"
      using draft_round_settles [of open_copy server owner oid pend _ w1 version mode, OF assms(1,2) rows] by blast
    have run: "localDraft owner oid version mode open_copy server db =
        draft_rounds (draft_round owner oid version mode open_copy server) pend (map_of (cache w1) (owner, oid)) w1"
      using first Inr ok by (simp add: localDraft_def bind_io_def getNote_run)
    show ?thesis
    proof (cases r)
      case (Inl e)
      with step run have "localDraft owner oid version mode open_copy server db = Some (Inl e, w2)" by (simp add: draft_rounds.simps)
      with out(1) read show ?thesis by simp
    next
      case (Inr x)
      with out(2) obtain c where "x = Settled c" and c: "from_store (owner, oid) c w2" by auto
      with step run Inr have "localDraft owner oid version mode open_copy server db = Some (Inr c, w2)" by (simp add: draft_rounds.simps)
      with out(1) read c show ?thesis by (cases c) (simp_all add: from_store_def)
    qed
  qed
qed

end
