(* ===== verification/Zip.thy ===== *)
theory Zip
  imports Bytes
begin

text \<open>
  Stored archives (\<open>web/src/zip.ts\<close>): the CRC table, the checksum and the archive writer with its two limits. Headers are
  the fields a \<open>DataView\<close> sets in order of position; bytes never set are zero, and \<open>setUint16\<close>, \<open>setUint32\<close> keep the low bits.
  The lemmas: the table-driven checksum is the bit-by-bit shift register of the standard, and a reader that starts from
  the end record, follows the central directory and checks every checksum gets back exactly the files written.
\<close>

section \<open>Checksum\<close>

definition crc_shift :: "32 word \<Rightarrow> 32 word" where
  "crc_shift c = (if bit c 0 then 0xedb88320 XOR drop_bit 1 c else drop_bit 1 c)"

definition CRC_TABLE :: "32 word list" where
  "CRC_TABLE = map (\<lambda>n. (crc_shift ^^ 8) (of_nat n)) [0..<256]"

definition crc_byte :: "32 word \<Rightarrow> byte \<Rightarrow> 32 word" where
  "crc_byte crc b = CRC_TABLE ! unat ((crc XOR ucast b) AND 0xff) XOR drop_bit 8 crc"

definition crc32 :: "bytes \<Rightarrow> 32 word" where
  "crc32 data = fold (\<lambda>b crc. crc_byte crc b) data 0xffffffff XOR 0xffffffff"

section \<open>Archives\<close>

record zip_entry =
  z_path :: string
  z_data :: bytes

text \<open>The parts of a local \<open>Date\<close> the writer reads; months count from 0.\<close>

record zip_date =
  zd_year :: nat
  zd_month :: nat
  zd_day :: nat
  zd_hours :: nat
  zd_minutes :: nat
  zd_seconds :: nat

fun le_bytes :: "nat \<Rightarrow> nat \<Rightarrow> bytes" where
  "le_bytes 0 v = []"
| "le_bytes (Suc n) v = of_nat v # le_bytes n (v div 256)"

definition zip_time :: "zip_date \<Rightarrow> nat" where
  "zip_time d = push_bit 11 (zd_hours d) OR push_bit 5 (zd_minutes d) OR drop_bit 1 (zd_seconds d)"

definition zip_day :: "zip_date \<Rightarrow> nat" where
  "zip_day d = push_bit 9 (zd_year d - 1980) OR push_bit 5 (zd_month d + 1) OR zd_day d"

definition local_header :: "nat \<Rightarrow> nat \<Rightarrow> bytes \<Rightarrow> bytes \<Rightarrow> bytes" where
  "local_header time date name data =
     le_bytes 4 0x04034b50 @ le_bytes 2 20 @ le_bytes 2 0x0800 @ le_bytes 2 0 @ le_bytes 2 time @ le_bytes 2 date @
     le_bytes 4 (unat (crc32 data)) @ le_bytes 4 (length data) @ le_bytes 4 (length data) @ le_bytes 2 (length name) @ le_bytes 2 0 @ name"

definition central_header :: "nat \<Rightarrow> nat \<Rightarrow> bytes \<Rightarrow> bytes \<Rightarrow> nat \<Rightarrow> bytes" where
  "central_header time date name data offset =
     le_bytes 4 0x02014b50 @ le_bytes 2 20 @ le_bytes 2 20 @ le_bytes 2 0x0800 @ le_bytes 2 0 @ le_bytes 2 time @ le_bytes 2 date @
     le_bytes 4 (unat (crc32 data)) @ le_bytes 4 (length data) @ le_bytes 4 (length data) @ le_bytes 2 (length name) @
     le_bytes 2 0 @ le_bytes 2 0 @ le_bytes 2 0 @ le_bytes 2 0 @ le_bytes 4 0 @ le_bytes 4 offset @ name"

definition end_record :: "nat \<Rightarrow> nat \<Rightarrow> nat \<Rightarrow> bytes" where
  "end_record n centralSize offset =
     le_bytes 4 0x06054b50 @ le_bytes 2 0 @ le_bytes 2 0 @ le_bytes 2 n @ le_bytes 2 n @ le_bytes 4 centralSize @ le_bytes 4 offset @ le_bytes 2 0"

fun zip_entries :: "nat \<Rightarrow> nat \<Rightarrow> zip_entry list \<Rightarrow> nat \<Rightarrow> (bytes \<times> bytes \<times> nat) result" where
  "zip_entries time date [] offset = Inr ([], [], offset)"
| "zip_entries time date (entry # entries) offset =
     (let name = encode (z_path entry); data = z_data entry; here = 30 + length name in
      if offset + here + length data > 0xffffffff then Inl (Error ''Export is larger than 4 GiB'')
      else rbind (zip_entries time date entries (offset + here + length data)) (\<lambda>(parts, central, end_offset).
        Inr (local_header time date name data @ data @ parts, central_header time date name data offset @ central, end_offset)))"

definition zip_archive :: "zip_entry list \<Rightarrow> zip_date \<Rightarrow> bytes result" where
  "zip_archive entries when =
     (if length entries > 0xffff then Inl (Error ''Too many files for one zip'')
      else rbind (zip_entries (zip_time when) (zip_day when) entries 0) (\<lambda>(parts, central, offset).
        Inr (parts @ central @ end_record (length entries) (length central) offset)))"

section \<open>A reader\<close>

fun le_value :: "bytes \<Rightarrow> nat" where
  "le_value [] = 0"
| "le_value (b # bs) = unat b + 256 * le_value bs"

definition slice :: "nat \<Rightarrow> nat \<Rightarrow> bytes \<Rightarrow> bytes" where
  "slice i n bs = take n (drop i bs)"

definition field_at :: "nat \<Rightarrow> nat \<Rightarrow> bytes \<Rightarrow> nat" where
  "field_at i n bs = le_value (slice i n bs)"

text \<open>One file: its central record at the head of \<open>h\<close>, its local record and data at the head of \<open>l\<close>.\<close>

definition read_file :: "bytes \<Rightarrow> bytes \<Rightarrow> zip_entry option" where
  "read_file h l =
     (let n = field_at 28 2 h; name = slice 46 n h; data = slice (30 + field_at 26 2 l) (field_at 24 4 h) l in
      if field_at 0 4 h = 0x02014b50 \<and> field_at 0 4 l = 0x04034b50 \<and> field_at 8 2 l = 0 \<and> slice 30 (field_at 26 2 l) l = name \<and>
         field_at 18 4 l = field_at 24 4 h \<and> field_at 14 4 l = field_at 16 4 h \<and> field_at 16 4 h = unat (crc32 data)
      then map_option (\<lambda>path. \<lparr>z_path = path, z_data = data\<rparr>) (decode name) else None)"

fun read_directory :: "bytes \<Rightarrow> nat \<Rightarrow> nat \<Rightarrow> zip_entry list option" where
  "read_directory bs 0 pos = Some []"
| "read_directory bs (Suc k) pos =
     (let h = drop pos bs in
      case read_file h (drop (field_at 42 4 h) bs) of
        None \<Rightarrow> None
      | Some file \<Rightarrow> map_option ((#) file) (read_directory bs k (pos + 46 + field_at 28 2 h)))"

definition read_zip :: "bytes \<Rightarrow> zip_entry list option" where
  "read_zip bs =
     (let e = drop (length bs - 22) bs in
      if length bs < 22 \<or> field_at 0 4 e \<noteq> 0x06054b50 then None
      else read_directory bs (field_at 10 2 e) (field_at 16 4 e))"

section \<open>The table is the shift register\<close>

lemma crc_shift_alt: "crc_shift c = (if bit c 0 then 0xedb88320 else 0) XOR drop_bit 1 c"
  by (simp add: crc_shift_def)

lemma crc_shift_xor: "crc_shift (a XOR b) = crc_shift a XOR crc_shift b"
  by (simp add: crc_shift_alt bit_xor_iff drop_bit_xor ac_simps)

lemma crc_shifts_xor: "(crc_shift ^^ n) (a XOR b) = (crc_shift ^^ n) a XOR (crc_shift ^^ n) b"
  by (induction n) (simp_all add: crc_shift_xor)

text \<open>Bits that have not reached the low end are only shifted.\<close>

lemma crc_shifts_high: "\<forall>i<n. \<not> bit c i \<Longrightarrow> (crc_shift ^^ n) c = drop_bit n c"
  by (induction n) (simp_all add: crc_shift_def bit_simps)

text \<open>The reference: the bits of the message, low bit of each byte first, enter the shift register one at a time.\<close>

definition crc_bit :: "bool \<Rightarrow> 32 word \<Rightarrow> 32 word" where
  "crc_bit b reg = (if bit reg 0 \<noteq> b then 0xedb88320 XOR drop_bit 1 reg else drop_bit 1 reg)"

definition message_bits :: "bytes \<Rightarrow> bool list" where
  "message_bits data = concat (map (\<lambda>b. map (bit b) [0..<8]) data)"

definition crc_reference :: "bytes \<Rightarrow> 32 word" where
  "crc_reference data = fold crc_bit (message_bits data) 0xffffffff XOR 0xffffffff"

lemma drop_bit_of_bool: "drop_bit (Suc 0) (of_bool b :: 32 word) = 0"
  by (cases b) simp_all

lemma crc_bit_shift: "crc_bit b reg = crc_shift (reg XOR of_bool b)"
  by (simp add: crc_bit_def crc_shift_def bit_simps drop_bit_of_bool)

lemma crc_shifts_pushed: "(crc_shift ^^ n) (push_bit n (of_bool b)) = drop_bit n (push_bit n (of_bool b))"
  by (rule crc_shifts_high) (simp add: bit_simps)

lemma take_bit_Suc_xor: "take_bit (Suc n) c = take_bit n c XOR push_bit n (of_bool (bit c n))" for c :: "32 word"
  by (rule bit_word_eqI) (auto simp: bit_simps less_Suc_eq)

lemma crc_bits_shifts: "n < 32 \<Longrightarrow> fold crc_bit (map (bit c) [0..<n]) reg = (crc_shift ^^ n) (reg XOR take_bit n c)" for c :: "32 word"
proof (induction n)
  case 0
  show ?case by simp
next
  case (Suc n)
  from Suc.prems have "drop_bit n (push_bit n (of_bool (bit c n))) = (of_bool (bit c n) :: 32 word)"
    by (intro bit_word_eqI) (auto simp: bit_simps)
  with Suc show ?case
    by (simp add: crc_bit_shift crc_shifts_xor crc_shifts_pushed take_bit_Suc_xor ac_simps del: upt_Suc add: upt_Suc_append)
qed

lemma low_byte: "x AND 0xff = take_bit 8 (x :: 32 word)"
  by (simp add: take_bit_eq_mask mask_numeral)

lemma crc_table: "CRC_TABLE ! unat (take_bit 8 x) = (crc_shift ^^ 8) (take_bit 8 x)" for x :: "32 word"
proof -
  have "unat (take_bit 8 x) < 256" by (simp add: unsigned_take_bit_eq take_bit_nat_less_exp [of 8, simplified])
  then show ?thesis by (simp add: CRC_TABLE_def del: upt.simps)
qed

lemma split_low_byte: "x = take_bit 8 x XOR push_bit 8 (drop_bit 8 x)" for x :: "32 word"
proof (rule bit_word_eqI)
  fix n
  show "bit x n = bit (take_bit 8 x XOR push_bit 8 (drop_bit 8 x)) n"
    by (cases "n < 8") (auto simp: bit_simps dest: bit_imp_le_length)
qed

lemma crc_byte_shifts: "crc_byte reg b = (crc_shift ^^ 8) (reg XOR ucast b)"
proof -
  let ?x = "reg XOR ucast b"
  have split: "?x = take_bit 8 ?x XOR push_bit 8 (drop_bit 8 ?x)" by (rule split_low_byte)
  have "(crc_shift ^^ 8) (push_bit 8 (drop_bit 8 ?x)) = drop_bit 8 (push_bit 8 (drop_bit 8 ?x))"
    by (rule crc_shifts_high) (simp add: bit_simps)
  also have "\<dots> = drop_bit 8 reg"
    by (rule bit_word_eqI) (auto simp: bit_simps dest: bit_imp_le_length)
  finally have "(crc_shift ^^ 8) ?x = (crc_shift ^^ 8) (take_bit 8 ?x) XOR drop_bit 8 reg"
    by (subst split) (simp only: crc_shifts_xor)
  then show ?thesis by (simp only: crc_byte_def crc_table low_byte)
qed

lemma crc_byte_bits: "fold crc_bit (map (bit b) [0..<8]) reg = crc_byte reg b"
proof -
  have "map (bit b) [0..<8] = map (bit (ucast b :: 32 word)) [0..<8]" by (simp add: bit_simps del: upt.simps)
  moreover have "take_bit 8 (ucast b) = (ucast b :: 32 word)"
    by (rule bit_word_eqI) (auto simp: bit_simps dest: bit_imp_le_length)
  ultimately show ?thesis using crc_bits_shifts [of 8 "ucast b" reg] by (simp only: crc_byte_shifts)
qed

lemma crc_fold: "fold crc_bit (message_bits data) reg = fold (\<lambda>b crc. crc_byte crc b) data reg"
  by (induction data arbitrary: reg) (simp_all add: message_bits_def crc_byte_bits del: upt.simps)

section \<open>Reading back\<close>

lemma length_le_bytes [simp]: "length (le_bytes n v) = n"
  by (induction n arbitrary: v) simp_all

lemma le_value_bytes: "le_value (le_bytes n v) = v mod 256 ^ n"
  by (induction n arbitrary: v) (simp_all add: unat_of_nat mod_mult2_eq [of _ 256])

text \<open>Fields at the head of a sequence of little-endian numbers are read off or skipped.\<close>

lemma slice_skip: "m \<le> i \<Longrightarrow> slice i n (le_bytes m v @ bs) = slice (i - m) n bs"
  by (simp add: slice_def)

lemma slice_prefix: "slice 0 (length bs) (bs @ cs) = bs" "slice (length bs + i) n (bs @ cs) = slice i n cs"
  by (simp_all add: slice_def)

lemma field_skip: "m \<le> i \<Longrightarrow> field_at i n (le_bytes m v @ bs) = field_at (i - m) n bs"
  by (simp add: field_at_def slice_skip)

lemma field_here: "field_at 0 n (le_bytes n v @ bs) = v mod 256 ^ n"
  by (simp add: field_at_def slice_def le_value_bytes)

lemmas reading = slice_skip slice_prefix field_skip field_here

lemma header_lengths: "length (local_header t d name data) = 30 + length name" "length (central_header t d name data off) = 46 + length name"
    "length (end_record k s off) = 22"
  by (simp_all add: local_header_def central_header_def end_record_def)

lemma unat_crc_small: "unat (crc32 data) mod 4294967296 = unat (crc32 data)"
  using unsigned_less [where 'a = nat, of "crc32 data"] by simp

lemma local_fields:
  fixes name data t d rest
  defines "l \<equiv> local_header t d name data @ rest"
  shows "field_at 0 4 l = 0x04034b50" "field_at 8 2 l = 0" "field_at 14 4 l = unat (crc32 data)" "field_at 18 4 l = length data mod 4294967296"
    "field_at 26 2 l = length name mod 65536" "slice 30 n l = slice 0 n (name @ rest)" "slice (30 + m) n l = slice m n (name @ rest)"
  by (simp_all add: l_def local_header_def reading unat_crc_small)

lemma central_fields:
  fixes name data t d off rest
  defines "h \<equiv> central_header t d name data off @ rest"
  shows "field_at 0 4 h = 0x02014b50" "field_at 16 4 h = unat (crc32 data)" "field_at 24 4 h = length data mod 4294967296"
    "field_at 28 2 h = length name mod 65536" "field_at 42 4 h = off mod 4294967296" "slice 46 n h = slice 0 n (name @ rest)"
  by (simp_all add: h_def central_header_def reading unat_crc_small)

lemma end_fields: "field_at 0 4 (end_record k s off) = 0x06054b50" "field_at 10 2 (end_record k s off) = k mod 65536"
    "field_at 16 4 (end_record k s off) = off mod 4294967296"
  by (simp_all add: end_record_def reading)

lemma read_file_written:
  assumes "length name < 65536" "length data < 4294967296"
  shows "read_file (central_header t d name data off @ xs) (local_header t d name data @ data @ ys) =
    map_option (\<lambda>path. \<lparr>z_path = path, z_data = data\<rparr>) (decode name)"
proof -
  have "slice (length name) (length data) (name @ data @ ys) = data" using slice_prefix(2) [of name 0] by (simp add: slice_prefix)
  with assms show ?thesis by (simp add: read_file_def Let_def local_fields central_fields slice_prefix)
qed

lemma zip_entries_offset:
  "zip_entries t d es off = Inr (parts, central, off') \<Longrightarrow> off' = off + length parts \<and> (off \<le> 0xffffffff \<longrightarrow> off' \<le> 0xffffffff)"
proof (induction es arbitrary: off parts central)
  case (Cons e es)
  then show ?case by (auto simp: Let_def rbind_eq_Inr header_lengths split: if_splits) fastforce+
qed simp

lemma read_directory_written:
  assumes "zip_entries t d es (length pre) = Inr (parts, central, off')" "\<forall>e\<in>set es. length (encode (z_path e)) < 65536"
  shows "read_directory (pre @ parts @ mid @ central @ suf) (length es) (length pre + length parts + length mid) = Some es"
  using assms
proof (induction es arbitrary: pre parts mid central)
  case (Cons e es)
  let ?name = "encode (z_path e)" and ?data = "z_data e"
  let ?l = "local_header t d ?name ?data" and ?h = "central_header t d ?name ?data (length pre)"
  from Cons.prems(1) obtain parts' central' where fits: "length pre + 30 + length ?name + length ?data \<le> 0xffffffff"
    and rest: "zip_entries t d es (length (pre @ ?l @ ?data)) = Inr (parts', central', off')"
    and parts: "parts = ?l @ ?data @ parts'" and central: "central = ?h @ central'"
    by (auto simp: Let_def rbind_eq_Inr header_lengths add.assoc not_less split: if_splits)
  let ?bs = "pre @ parts @ mid @ central @ suf"
  have at: "drop (length pre + length parts + length mid) ?bs = ?h @ central' @ suf" by (simp add: central)
  have l: "drop (length pre) ?bs = ?l @ ?data @ parts' @ mid @ central @ suf" by (simp add: parts)
  from Cons.prems(2) have small: "length ?name < 65536" by simp
  have next_file: "read_directory ?bs (length es) (length pre + length parts + length mid + 46 + length ?name) = Some es"
    using Cons.IH [OF rest, of "mid @ ?h"] Cons.prems(2) by (simp add: parts central header_lengths ac_simps)
  have "read_file (?h @ central' @ suf) (?l @ ?data @ parts' @ mid @ central @ suf) = Some e"
    using read_file_written [OF small] fits by simp
  moreover have "field_at 42 4 (?h @ central' @ suf) = length pre" "field_at 28 2 (?h @ central' @ suf) = length ?name"
    using fits small by (simp_all add: central_fields)
  ultimately show ?case using next_file by (simp only: list.size(4) add_Suc_right Nat.add_0_right read_directory.simps Let_def at l) simp
qed simp

section \<open>Properties\<close>

text \<open>The checksum computed from the table is the checksum of the bit-serial shift register, for every message.\<close>

lemma crc32_equiv: "crc32 data = crc_reference data"
  by (simp add: crc32_def crc_reference_def crc_fold)

text \<open>C37: what the writer produces, whatever the clock says, is read back file for file by
  a reader that follows the end record and the central directory and checks every checksum, as long as no name exceeds
  the 65535 bytes its field can hold.\<close>

theorem zip_roundtrip:
  assumes "zip_archive entries when = Inr bs" "\<forall>e\<in>set entries. length (encode (z_path e)) < 65536"
  shows "read_zip bs = Some entries"
proof -
  from assms(1) obtain parts central off where few: "length entries \<le> 0xffff"
    and loop: "zip_entries (zip_time when) (zip_day when) entries 0 = Inr (parts, central, off)"
    and bs: "bs = parts @ central @ end_record (length entries) (length central) off"
    by (auto simp: zip_archive_def rbind_eq_Inr split: if_splits)
  from zip_entries_offset [OF loop] have off: "off = length parts" "off \<le> 0xffffffff" by simp_all
  have tail: "drop (length bs - 22) bs = end_record (length entries) (length central) off" by (simp add: bs header_lengths)
  have "read_directory bs (length entries) off = Some entries"
    using read_directory_written [of _ _ entries "[]", OF _ assms(2), where mid = "[]"] loop by (simp add: bs off(1))
  with few off(2) show ?thesis by (simp only: read_zip_def Let_def tail end_fields) (simp add: bs header_lengths)
qed

theorem zip_roundtrip_witness:
  "\<exists>bs. zip_archive [\<lparr>z_path = ''a.txt'', z_data = [1, 2]\<rparr>] \<lparr>zd_year = 2026, zd_month = 0, zd_day = 2, zd_hours = 3, zd_minutes = 4, zd_seconds = 5\<rparr> = Inr bs \<and>
     read_zip bs = Some [\<lparr>z_path = ''a.txt'', z_data = [1, 2]\<rparr>]"
proof -
  obtain bs where "zip_archive [\<lparr>z_path = ''a.txt'', z_data = [1, 2]\<rparr>]
     \<lparr>zd_year = 2026, zd_month = 0, zd_day = 2, zd_hours = 3, zd_minutes = 4, zd_seconds = 5\<rparr> = Inr bs"
    by (simp add: zip_archive_def Let_def encode_def utf8_char_def)
  moreover from zip_roundtrip [OF this] have "read_zip bs = Some [\<lparr>z_path = ''a.txt'', z_data = [1, 2]\<rparr>]"
    by (simp add: encode_def utf8_char_def)
  ultimately show ?thesis by blast
qed

end
