(* ===== verification/Export.thy ===== *)
theory Export
  imports Document Outline Pages Zip Trace
begin

text \<open>
  The plaintext export of a notebook (\<open>web/src/exportNotebook.ts\<close>): safe and unique names, folders for groups and sections, a
  Markdown file per page, canvas bodies, attachments and the manifest, as the entries handed to the archive writer. The
  attachment source and the Markdown serializer are arguments and may answer or fail in any way; the time stamp is an argument.
\<close>

section \<open>Names\<close>

definition EXPORT_FORMAT :: string where "EXPORT_FORMAT = ''kynotes.export.v1''"
definition ATTACHMENT_URL :: string where "ATTACHMENT_URL = ''attachment://''"
definition ATTACHMENTS :: string where "ATTACHMENTS = ''attachments''"
definition PLACEHOLDER :: string where "PLACEHOLDER = ''kynotes-export:''"
definition MAX_NAME :: nat where "MAX_NAME = 100"

definition UNSAFE :: "char \<Rightarrow> bool" where
  "UNSAFE c = (let n = (of_char c :: nat) in n < 32 \<or> 127 \<le> n \<and> n \<le> 159 \<or> c \<in> set [CHR ''<'', CHR ''>'', CHR '':'', quote_char, CHR ''/'', backslash, CHR ''|'', CHR ''?'', CHR ''*''])"

definition reserved_stem :: "string \<Rightarrow> bool" where
  "reserved_stem s = (s \<in> set [''con'', ''prn'', ''aux'', ''nul''] \<or> length s = 4 \<and> take 3 s \<in> set [''com'', ''lpt''] \<and> is_digit (s ! 3))"

text \<open>A reserved word followed by a dot or the end, in any case.\<close>

definition RESERVED :: "string \<Rightarrow> bool" where
  "RESERVED s = reserved_stem (takeWhile (\<lambda>c. c \<noteq> CHR ''.'') (js_lower s))"

definition edge_char :: "char \<Rightarrow> bool" where
  "edge_char c = (js_space c \<or> c = CHR ''.'')"

definition trim_edges :: "string \<Rightarrow> string" where
  "trim_edges s = rev (dropWhile edge_char (rev (dropWhile edge_char s)))"

text \<open>The characters of the model are composed already, so \<open>normalize("NFC")\<close> leaves a name as it is.\<close>

definition safeName :: "string \<Rightarrow> string \<Rightarrow> string" where
  "safeName name fallback =
     (let cleaned = trim_edges (take MAX_NAME (trim_edges (map (\<lambda>c. if UNSAFE c then CHR ''_'' else c) name))) in
      if cleaned = [] then fallback else if RESERVED cleaned then CHR ''_'' # cleaned else cleaned)"

definition candidate :: "string \<Rightarrow> nat \<Rightarrow> string" where
  "candidate name n = (if n = 1 then name else name @ '' ('' @ nat_text n @ '')'')"

definition name_keys :: "string \<Rightarrow> string \<Rightarrow> string list" where
  "name_keys c extension =
     map js_lower ((c @ extension) # (if extension = ''.md'' then [c @ ''.canvas.json'', c @ ''.json''] else []))"

definition clashes :: "string list \<Rightarrow> string \<Rightarrow> string \<Rightarrow> nat \<Rightarrow> bool" where
  "clashes taken name extension n = list_ex (\<lambda>key. key \<in> set taken) (name_keys (candidate name n) extension)"

lemma nat_text_inj: "nat_text m = nat_text n \<Longrightarrow> m = n"
  by (metis read_nat_text)

lemma lower_digits: "list_all is_digit s \<Longrightarrow> js_lower s = s"
  by (induction s) (auto simp: js_lower_def js_lower_char_def is_digit_def less_eq_char_def Let_def)

lemma js_lower_append: "js_lower (s @ t) = js_lower s @ js_lower t"
  by (simp add: js_lower_def)

lemma candidate_key_inj: "2 \<le> m \<Longrightarrow> 2 \<le> n \<Longrightarrow> js_lower (candidate name m @ e) = js_lower (candidate name n @ e) \<Longrightarrow> m = n"
proof -
  assume mn: "2 \<le> m" "2 \<le> n" "js_lower (candidate name m @ e) = js_lower (candidate name n @ e)"
  have "js_lower (nat_text k) = nat_text k" for k using nat_text_digits by (simp add: lower_digits)
  moreover from mn have "js_lower (name @ '' ('' @ nat_text m @ '')'' @ e) = js_lower (name @ '' ('' @ nat_text n @ '')'' @ e)"
    by (simp add: candidate_def)
  ultimately show "m = n" by (simp only: js_lower_append same_append_eq append_same_eq nat_text_inj)
qed

lemma finite_clashes: "finite {n. clashes taken name extension n}"
proof -
  let ?f = "\<lambda>e n. js_lower (candidate name n @ e)"
  have inj: "inj_on (?f e) {2..}" for e by (rule inj_onI) (auto dest: candidate_key_inj)
  have one: "finite {n. 2 \<le> n \<and> ?f e n \<in> set taken}" for e
  proof (rule finite_imageD)
    show "finite (?f e ` {n. 2 \<le> n \<and> ?f e n \<in> set taken})" by (rule finite_subset [of _ "set taken"]) auto
    show "inj_on (?f e) {n. 2 \<le> n \<and> ?f e n \<in> set taken}" by (rule inj_on_subset [OF inj]) auto
  qed
  have "{n. clashes taken name extension n} \<subseteq> {0, 1} \<union> (\<Union>e\<in>{extension, ''.canvas.json'', ''.json''}. {n. 2 \<le> n \<and> ?f e n \<in> set taken})"
    by (auto simp: clashes_def name_keys_def js_lower_append split: if_splits)
  then show ?thesis by (rule finite_subset) (simp add: one)
qed

text \<open>The counting loop: it ends because only finitely many numbers clash.\<close>

function free_number :: "string list \<Rightarrow> string \<Rightarrow> string \<Rightarrow> nat \<Rightarrow> nat" where
  "free_number taken name extension n = (if clashes taken name extension n then free_number taken name extension (Suc n) else n)"
  by pat_completeness auto
termination
proof (relation "measure (\<lambda>(taken, name, extension, n). card {m. clashes taken name extension m \<and> n \<le> m})")
  fix taken name extension n
  assume "clashes taken name extension n"
  then have "n \<in> {m. clashes taken name extension m \<and> n \<le> m}" "n \<notin> {m. clashes taken name extension m \<and> Suc n \<le> m}" by simp_all
  moreover have "{m. clashes taken name extension m \<and> Suc n \<le> m} \<subseteq> {m. clashes taken name extension m \<and> n \<le> m}" by (simp add: Collect_mono)
  ultimately have "{m. clashes taken name extension m \<and> Suc n \<le> m} \<subset> {m. clashes taken name extension m \<and> n \<le> m}" by blast
  moreover have "finite {m. clashes taken name extension m \<and> n \<le> m}" by (rule finite_subset [OF _ finite_clashes]) auto
  ultimately show "((taken, name, extension, Suc n), taken, name, extension, n) \<in> measure (\<lambda>(taken, name, extension, n). card {m. clashes taken name extension m \<and> n \<le> m})"
    by (simp add: psubset_card_mono)
qed simp

declare free_number.simps [simp del]

definition taken_in :: "(string, string list) dict \<Rightarrow> string \<Rightarrow> string list" where
  "taken_in used dir = (case map_of used dir of None \<Rightarrow> [] | Some taken \<Rightarrow> taken)"

definition namer :: "(string, string list) dict \<Rightarrow> string \<Rightarrow> string \<Rightarrow> string \<Rightarrow> string \<times> (string, string list) dict" where
  "namer used dir name extension =
     (let taken = taken_in used dir; c = candidate name (free_number taken name extension 1) in
      (c, AList.update dir (fold List.insert (name_keys c extension) taken) used))"

section \<open>Paths and links\<close>

fun join_with :: "string \<Rightarrow> string list \<Rightarrow> string" where
  "join_with d [] = []"
| "join_with d [s] = s"
| "join_with d (s # t # r) = s @ d @ join_with d (t # r)"

definition join_path :: "string list \<Rightarrow> string" where
  "join_path segments = join_with ''/'' (filter (\<lambda>s. s \<noteq> []) segments)"

fun shared_segments :: "string list \<Rightarrow> string list \<Rightarrow> nat" where
  "shared_segments (d # ds) (t # u # ts) = (if d = t then Suc (shared_segments ds (u # ts)) else 0)"
| "shared_segments _ _ = 0"

definition linkTo :: "string \<Rightarrow> string \<Rightarrow> string" where
  "linkTo fr to =
     (let dir = butlast (split_on (CHR ''/'') fr); target = split_on (CHR ''/'') to; n = shared_segments dir target in
      concat (replicate (length dir - n) ''../'') @ join_with ''/'' (map encodeURIComponent (drop n target)))"

section \<open>Markdown of a page\<close>

text \<open>\<open>{ ...block }\<close>: a string or an array has its elements as fields.\<close>

fun spread_fields :: "json \<Rightarrow> (string, json) dict" where
  "spread_fields (JObj fs) = fs"
| "spread_fields (JArr xs) = zip (map nat_text [0..<length xs]) xs"
| "spread_fields (JStr s) = zip (map nat_text [0..<length s]) (map (\<lambda>c. JStr [c]) s)"
| "spread_fields _ = []"

definition block_url :: "json \<Rightarrow> string option" where
  "block_url block =
     (case field ''props'' block of
        Some props \<Rightarrow> (case field ''url'' props of Some (JStr url) \<Rightarrow> if url = [] then None else Some url | _ \<Rightarrow> None)
      | None \<Rightarrow> None)"

definition real_url :: "(string, string) dict \<Rightarrow> string \<Rightarrow> string \<Rightarrow> string" where
  "real_url paths fr url =
     (case strip_prefix ATTACHMENT_URL url of
        Some i \<Rightarrow> (case map_of paths i of Some target \<Rightarrow> if target = [] then url else linkTo fr target | None \<Rightarrow> url)
      | None \<Rightarrow> url)"

definition with_url :: "json \<Rightarrow> string \<Rightarrow> json" where
  "with_url block placeholder =
     JObj (AList.update ''props'' (JObj (AList.update ''url'' (JStr placeholder) (spread_fields (the (field ''props'' block))))) (spread_fields block))"

text \<open>A child list that is not an array has no \<open>map\<close> to call.\<close>

definition children_of :: "json \<Rightarrow> json list option result" where
  "children_of block =
     (if truthy (field ''children'' block)
      then (case field ''children'' block of Some (JArr xs) \<Rightarrow> Inr (Some xs) | _ \<Rightarrow> Inl TypeError)
      else Inr None)"

lemma children_of_smaller: "children_of block = Inr (Some xs) \<Longrightarrow> size_list size xs < Suc (size block)"
  by (auto simp: children_of_def dest!: field_smaller split: if_splits option.splits json.splits)

function hide :: "(string, string) dict \<Rightarrow> string \<Rightarrow> json list \<Rightarrow> string list \<Rightarrow> (json list \<times> string list) result" where
  "hide paths fr [] urls = Inr ([], urls)"
| "hide paths fr (block # blocks) urls =
     (if block = JNull then Inl TypeError
      else
        let (block1, urls1) =
              (case block_url block of
                 None \<Rightarrow> (JObj (spread_fields block), urls)
               | Some url \<Rightarrow> (with_url block (PLACEHOLDER @ nat_text (length urls)), urls @ [real_url paths fr url])) in
        rbind
          (case children_of block of
             Inl e \<Rightarrow> Inl e
           | Inr None \<Rightarrow> Inr (block1, urls1)
           | Inr (Some xs) \<Rightarrow>
               rbind (hide paths fr xs urls1) (\<lambda>(ys, urls2). Inr (JObj (AList.update ''children'' (JArr ys) (spread_fields block1)), urls2)))
          (\<lambda>(block2, urls2). rbind (hide paths fr blocks urls2) (\<lambda>(rest, urls3). Inr (block2 # rest, urls3))))"
  by pat_completeness auto
termination
  by (relation "measure (\<lambda>(paths, fr, blocks, urls). size_list size blocks)") (auto dest: children_of_smaller)

function restore :: "string list \<Rightarrow> string \<Rightarrow> string" where
  "restore urls [] = []"
| "restore urls (c # s) =
     (case strip_prefix PLACEHOLDER (c # s) of
        Some after \<Rightarrow>
          if takeWhile is_digit after = [] then c # restore urls s
          else (let i = read_nat (takeWhile is_digit after) in if i < length urls then urls ! i else []) @ restore urls (dropWhile is_digit after)
      | None \<Rightarrow> c # restore urls s)"
  by pat_completeness auto

lemma strip_prefix_shorter: "strip_prefix p s = Some r \<Longrightarrow> length (dropWhile P r) \<le> length s - length p \<and> length p \<le> length s"
proof -
  assume "strip_prefix p s = Some r"
  then have "take (length p) s = p" "r = drop (length p) s" by (auto simp: strip_prefix_def split: if_splits)
  moreover from arg_cong [OF this(1), of length] have "length p \<le> length s" by (simp add: min_def split: if_splits)
  ultimately show ?thesis using length_dropWhile_le [of P r] by simp
qed

termination restore
  by (relation "measure (\<lambda>(urls, s). length s)")
    (auto simp: PLACEHOLDER_def dest!: strip_prefix_shorter [where P = is_digit])

definition pageMarkdown :: "json list \<Rightarrow> (json list \<Rightarrow> string result) \<Rightarrow> (string, string) dict \<Rightarrow> string \<Rightarrow> string result" where
  "pageMarkdown blocks toMarkdown paths fr =
     rbind (hide paths fr blocks []) (\<lambda>(hidden, urls). rbind (toMarkdown hidden) (\<lambda>md. Inr (restore urls md)))"

definition isCanvas :: "string \<Rightarrow> bool" where
  "isCanvas body = (case parse body of Inr v \<Rightarrow> field ''format'' v = Some (JStr CANVAS_FORMAT) | Inl _ \<Rightarrow> False)"


section \<open>The export in progress\<close>

record attachment_ref =
  ar_id :: string

record exported_attachment =
  ea_id :: string
  ea_name :: string
  ea_type :: string
  ea_bytes :: bytes

record ('o, 'r) attachment_source =
  as_list :: "string \<Rightarrow> ('o, 'r attachment_ref_scheme list) io"
  as_open :: "'r attachment_ref_scheme \<Rightarrow> ('o, exported_attachment) io"

record export_note = outline_page +
  xn_title :: string
  xn_body :: string

record ('o, 'r) notebook_input =
  ni_name :: string
  ni_notes :: "export_note list"
  ni_sections :: "section_obj list"
  ni_groups :: "section_obj list"
  ni_unreadable :: int
  ni_attachments :: "('o, 'r) attachment_source"
  ni_toMarkdown :: "json list \<Rightarrow> string result"

record attachment_meta =
  am_id :: string
  am_name :: string
  am_type :: string
  am_path :: string

text \<open>The local variables of the running export; the log notes the attachments it opens and the pages it writes.\<close>

datatype export_event =
    Opening string
  | PageWritten string

record 'o export_world = "('o, export_event) traced" +
  x_used :: "(string, string list) dict"
  x_entries :: "zip_entry list"
  x_unreadable :: int
  x_groupDirs :: "(string, string) dict"
  x_meta :: "(string, attachment_meta) dict"
  x_paths :: "(string, string) dict"
  x_failed :: "string list"
  x_pages :: "json list"

definition name_in :: "string \<Rightarrow> string \<Rightarrow> string \<Rightarrow> ('o export_world, string) io" where
  "name_in dir name extension w = (let (c, used) = namer (x_used w) dir name extension in (Inr c, w\<lparr>x_used := used\<rparr>))"

definition add_entry :: "string \<Rightarrow> bytes \<Rightarrow> ('o export_world, unit) io" where
  "add_entry path data w = (Inr (), w\<lparr>x_entries := x_entries w @ [\<lparr>z_path = path, z_data = data\<rparr>]\<rparr>)"

definition count_unreadable :: "('o export_world, unit) io" where
  "count_unreadable w = (Inr (), w\<lparr>x_unreadable := x_unreadable w + 1\<rparr>)"

definition as_grouped :: "section_obj \<Rightarrow> grouped" where
  "as_grouped s = \<lparr>g_id = s_id s, g_group = sp_group s\<rparr>"

definition parent_of :: "(string, string option) dict \<Rightarrow> string \<Rightarrow> string option" where
  "parent_of parents i = (case map_of parents i of Some p \<Rightarrow> p | None \<Rightarrow> None)"

definition named_dir :: "string \<Rightarrow> string \<Rightarrow> ('o export_world, string) io" where
  "named_dir parentDir name = bind_io (name_in parentDir name []) (\<lambda>seg. ret (join_path [parentDir, seg]))"

definition keep_group_dir :: "string \<Rightarrow> string \<Rightarrow> ('o export_world, string) io" where
  "keep_group_dir i dir w = (Inr dir, w\<lparr>x_groupDirs := AList.update i dir (x_groupDirs w)\<rparr>)"

text \<open>The folder of a group, made after its parent's. The fuel stands for the stack; five levels are enough, because parents form a forest.\<close>

fun groupDir :: "nat \<Rightarrow> section_obj list \<Rightarrow> (string, string option) dict \<Rightarrow> string \<Rightarrow> string option \<Rightarrow> ('o export_world, string) io" where
  "groupDir n groups parents rootDir None = ret rootDir"
| "groupDir 0 groups parents rootDir (Some i) = throw (NamedError ''RangeError'' ''Maximum call stack size exceeded'')"
| "groupDir (Suc n) groups parents rootDir (Some i) = (\<lambda>w.
     (case map_of (x_groupDirs w) i of
        Some known \<Rightarrow> ret known
      | None \<Rightarrow>
          bind_io (groupDir n groups parents rootDir (parent_of parents i)) (\<lambda>parentDir.
            case find (\<lambda>g. s_id g = i) groups of
              None \<Rightarrow> throw TypeError
            | Some g \<Rightarrow> bind_io (named_dir parentDir (safeName (sp_title g) ''Untitled group'')) (keep_group_dir i))) w)"

definition group_before :: "(string, string option) dict \<Rightarrow> section_obj \<Rightarrow> section_obj \<Rightarrow> bool" where
  "group_before parents a b = (length (groupPath (Some (s_id a)) parents) \<le> length (groupPath (Some (s_id b)) parents))"

definition groups_in_order :: "section_obj list \<Rightarrow> (string, string option) dict \<Rightarrow> section_obj list" where
  "groups_in_order groups parents =
     sort_by (group_before parents) (sort_by (\<lambda>a b. compareOrdered (section_key a) (section_key b) \<le> 0) groups)"

fun make_group_dirs :: "section_obj list \<Rightarrow> (string, string option) dict \<Rightarrow> string \<Rightarrow> section_obj list \<Rightarrow> ('o export_world, unit) io" where
  "make_group_dirs groups parents rootDir [] = ret ()"
| "make_group_dirs groups parents rootDir (g # gs) =
     bind_io (groupDir (Suc MAX_GROUP_DEPTH) groups parents rootDir (Some (s_id g))) (\<lambda>_. make_group_dirs groups parents rootDir gs)"

definition section_dir :: "section_obj list \<Rightarrow> (string, string option) dict \<Rightarrow> string \<Rightarrow> section_obj \<Rightarrow> ('o export_world, string) io" where
  "section_dir groups parents rootDir s =
     bind_io (groupDir (Suc MAX_GROUP_DEPTH) groups parents rootDir (sectionGroup (as_grouped s) parents)) (\<lambda>parentDir.
       named_dir parentDir (safeName (sp_title s) ''Untitled section''))"

fun section_dirs :: "section_obj list \<Rightarrow> (string, string option) dict \<Rightarrow> string \<Rightarrow> section_obj list \<Rightarrow> ('o export_world, (string, string) dict) io" where
  "section_dirs groups parents rootDir [] = ret []"
| "section_dirs groups parents rootDir (s # ss) =
     bind_io (section_dir groups parents rootDir s) (\<lambda>dir.
       bind_io (section_dirs groups parents rootDir ss) (\<lambda>rest. ret ((s_id s, dir) # rest)))"

section \<open>Attachments\<close>

definition open_ref :: "string \<Rightarrow> ('o, 'r) attachment_source \<Rightarrow> 'r attachment_ref_scheme \<Rightarrow> ('o export_world, attachment_meta) io" where
  "open_ref rootDir src ref =
     bind_io (log_event (Opening (ar_id ref))) (\<lambda>_.
       bind_io (call (as_open src ref)) (\<lambda>opened.
         let path = join_path [join_path [rootDir, ATTACHMENTS, safeName (ar_id ref) ''attachment''], safeName (ea_name opened) ''file''];
             meta = \<lparr>am_id = ar_id ref, am_name = ea_name opened, am_type = ea_type opened, am_path = path\<rparr> in
         (\<lambda>w. (Inr meta, w\<lparr>x_meta := AList.update (ar_id ref) meta (x_meta w), x_paths := AList.update (ar_id ref) path (x_paths w),
            x_entries := x_entries w @ [\<lparr>z_path = path, z_data = ea_bytes opened\<rparr>]\<rparr>))))"

definition mark_failed :: "string \<Rightarrow> ('o export_world, unit) io" where
  "mark_failed i w = (Inr (), w\<lparr>x_failed := List.insert i (x_failed w), x_unreadable := x_unreadable w + 1\<rparr>)"

definition attach_one :: "string \<Rightarrow> ('o, 'r) attachment_source \<Rightarrow> attachment_meta list \<Rightarrow> 'r attachment_ref_scheme \<Rightarrow> ('o export_world, attachment_meta list) io" where
  "attach_one rootDir src found ref = (\<lambda>w.
     (if ar_id ref \<in> set (x_failed w) \<or> ar_id ref \<in> am_id ` set found then ret found
      else case map_of (x_meta w) (ar_id ref) of
        Some meta \<Rightarrow> ret (found @ [meta])
      | None \<Rightarrow>
          catch_io (bind_io (open_ref rootDir src ref) (\<lambda>meta. ret (found @ [meta])))
            (\<lambda>_. bind_io (mark_failed (ar_id ref)) (\<lambda>_. ret found))) w)"

fun attach_refs :: "string \<Rightarrow> ('o, 'r) attachment_source \<Rightarrow> attachment_meta list \<Rightarrow> 'r attachment_ref_scheme list \<Rightarrow> ('o export_world, attachment_meta list) io" where
  "attach_refs rootDir src found [] = ret found"
| "attach_refs rootDir src found (r # rs) = bind_io (attach_one rootDir src found r) (\<lambda>found'. attach_refs rootDir src found' rs)"

definition pageAttachments :: "string \<Rightarrow> ('o, 'r) attachment_source \<Rightarrow> string \<Rightarrow> ('o export_world, attachment_meta list) io" where
  "pageAttachments rootDir src pageID =
     bind_io (catch_io (bind_io (call (as_list src pageID)) (\<lambda>refs. ret (Some refs))) (\<lambda>_. bind_io count_unreadable (\<lambda>_. ret None))) (\<lambda>listed.
       case listed of None \<Rightarrow> ret [] | Some refs \<Rightarrow> attach_refs rootDir src [] refs)"


section \<open>Pages\<close>

text \<open>\<open>replace(/\s+/g, " ")\<close>; the flag says whether the last character was white space.\<close>

fun one_spaced :: "bool \<Rightarrow> string \<Rightarrow> string" where
  "one_spaced spaced [] = []"
| "one_spaced spaced (c # s) = (if js_space c then (if spaced then [] else '' '') @ one_spaced True s else c # one_spaced False s)"

definition link_text :: "string \<Rightarrow> string" where
  "link_text s = concat (map (\<lambda>c. if c \<in> set [CHR ''['', CHR '']'', backslash] then [backslash, c] else [c]) s)"

abbreviation newline :: string where "newline \<equiv> [CHR 0x0A]"

definition page_title :: "export_note \<Rightarrow> string" where
  "page_title page = (if js_trim (xn_title page) = [] then ''Untitled page'' else js_trim (xn_title page))"

definition page_name :: "nat \<Rightarrow> string \<Rightarrow> string" where
  "page_name index title = (let n = nat_text (index + 1) in replicate (3 - length n) (CHR ''0'') @ n @ '' '' @ safeName title ''Untitled page'')"

definition raw_name :: "string \<Rightarrow> bool \<Rightarrow> string" where
  "raw_name base canvas = base @ (if canvas then ''.canvas'' else []) @ ''.json''"

definition page_text :: "(json list \<Rightarrow> string result) \<Rightarrow> (string, string) dict \<Rightarrow> string \<Rightarrow> string \<Rightarrow> string \<Rightarrow> bool \<Rightarrow> string \<Rightarrow> bool \<times> string" where
  "page_text toMarkdown paths path raw base canvas body =
     (case rbind (pageBlocks body) (\<lambda>blocks. pageMarkdown blocks toMarkdown paths path) of
        Inr md \<Rightarrow> (True, js_trim md)
      | Inl _ \<Rightarrow> (False, ''_This page could not be converted to Markdown. Its content is kept as saved in ['' @ raw_name base canvas @ ''](''
                    @ linkTo path raw @ '')._''))"

definition page_markdown :: "string \<Rightarrow> string \<Rightarrow> bool \<Rightarrow> string \<Rightarrow> string \<Rightarrow> string \<Rightarrow> attachment_meta list \<Rightarrow> string" where
  "page_markdown title md canvas_note base path raw attachments =
     ''# '' @ one_spaced False title @ newline @ newline @ md @ newline @
     (if canvas_note then newline @ ''_Canvas page: positions and ink are in ['' @ base @ ''.canvas.json]('' @ linkTo path raw @ '')._'' @ newline else []) @
     (if attachments \<noteq> [] then newline @ ''## Attachments'' @ newline @ newline @
        join_with newline (map (\<lambda>entry. ''- ['' @ link_text (am_name entry) @ '']('' @ linkTo path (am_path entry) @ '')'') attachments) @ newline
      else [])"

definition relative :: "string \<Rightarrow> string \<Rightarrow> json" where
  "relative rootDir path = JStr (drop (length rootDir + 1) path)"

definition attachment_json :: "string \<Rightarrow> attachment_meta \<Rightarrow> json" where
  "attachment_json rootDir entry =
     JObj [(''id'', JStr (am_id entry)), (''name'', JStr (am_name entry)), (''type'', JStr (am_type entry)), (''path'', relative rootDir (am_path entry))]"

definition string_or_null :: "string option \<Rightarrow> json" where
  "string_or_null v = (case v of Some s \<Rightarrow> JStr s | None \<Rightarrow> JNull)"

definition page_json_of :: "string \<Rightarrow> string option \<Rightarrow> string \<Rightarrow> string \<Rightarrow> export_note \<Rightarrow> int \<Rightarrow> string \<Rightarrow> bool \<Rightarrow> attachment_meta list \<Rightarrow> json" where
  "page_json_of rootDir sectionID dir base page level path canvas attachments =
     JObj ([(''id'', JStr (o_id page)), (''title'', JStr (xn_title page)), (''section'', string_or_null sectionID), (''level'', JNum level), (''path'', relative rootDir path)] @
       (if canvas then [(''canvas'', relative rootDir (join_path [dir, base @ ''.canvas.json'']))] else []) @
       [(''attachments'', JArr (map (attachment_json rootDir) attachments))])"

definition add_page_json :: "string \<Rightarrow> json \<Rightarrow> ('o export_world, unit) io" where
  "add_page_json i v w = (Inr (), w\<lparr>x_pages := x_pages w @ [v], t_log := t_log w @ [PageWritten i]\<rparr>)"

definition write_files ::
  "string \<Rightarrow> string option \<Rightarrow> string \<Rightarrow> int \<Rightarrow> export_note \<Rightarrow> string \<Rightarrow> attachment_meta list \<Rightarrow> bool \<Rightarrow> string \<Rightarrow> ('o export_world, unit) io" where
  "write_files rootDir sectionID dir level page base attachments converted md =
     (let path = join_path [dir, base @ ''.md'']; canvas = isCanvas (xn_body page); raw = join_path [dir, raw_name base canvas] in
      bind_io (if converted then ret () else count_unreadable) (\<lambda>_.
        bind_io (add_entry path (encode (page_markdown (page_title page) md (canvas \<and> converted) base path raw attachments))) (\<lambda>_.
          bind_io (if canvas \<or> \<not> converted then add_entry raw (encode (xn_body page)) else ret ()) (\<lambda>_.
            add_page_json (o_id page) (page_json_of rootDir sectionID dir base page level path canvas attachments)))))"

definition write_page ::
  "('o, 'r) notebook_input \<Rightarrow> string \<Rightarrow> string option \<Rightarrow> string \<Rightarrow> int \<Rightarrow> export_note \<Rightarrow> string \<Rightarrow> attachment_meta list \<Rightarrow> ('o export_world, unit) io" where
  "write_page input rootDir sectionID dir level page base attachments w =
     (let path = join_path [dir, base @ ''.md'']; canvas = isCanvas (xn_body page); raw = join_path [dir, raw_name base canvas];
          (converted, md) = page_text (ni_toMarkdown input) (x_paths w) path raw base canvas (xn_body page) in
      write_files rootDir sectionID dir level page base attachments converted md w)"

definition export_page ::
  "('o, 'r) notebook_input \<Rightarrow> string \<Rightarrow> string option \<Rightarrow> string \<Rightarrow> nat \<Rightarrow> int \<Rightarrow> export_note \<Rightarrow> ('o export_world, unit) io" where
  "export_page input rootDir sectionID dir index level page =
     bind_io (name_in dir (page_name index (page_title page)) ''.md'') (\<lambda>base.
       bind_io (pageAttachments rootDir (ni_attachments input) (o_id page)) (write_page input rootDir sectionID dir level page base))"

fun export_pages ::
  "('o, 'r) notebook_input \<Rightarrow> string \<Rightarrow> string option \<Rightarrow> string \<Rightarrow> nat \<Rightarrow> (int \<times> export_note) list \<Rightarrow> ('o export_world, unit) io" where
  "export_pages input rootDir sectionID dir index [] = ret ()"
| "export_pages input rootDir sectionID dir index ((level, page) # rest) =
     bind_io (export_page input rootDir sectionID dir index level page) (\<lambda>_. export_pages input rootDir sectionID dir (Suc index) rest)"

definition export_list :: "('o, 'r) notebook_input \<Rightarrow> string \<Rightarrow> string option \<Rightarrow> string \<Rightarrow> ('o export_world, unit) io" where
  "export_list input rootDir sectionID dir =
     (let pages = pagesInSection (ni_notes input) (ni_sections input) (case sectionID of Some i \<Rightarrow> i | None \<Rightarrow> QUICK_NOTES) in
      export_pages input rootDir sectionID dir 0 (zip (displayLevels pages) pages))"

fun export_lists :: "('o, 'r) notebook_input \<Rightarrow> string \<Rightarrow> (string option \<times> string) list \<Rightarrow> ('o export_world, unit) io" where
  "export_lists input rootDir [] = ret ()"
| "export_lists input rootDir ((sectionID, dir) # rest) =
     bind_io (export_list input rootDir sectionID dir) (\<lambda>_. export_lists input rootDir rest)"

section \<open>The whole export\<close>

fun result_list :: "'a result list \<Rightarrow> 'a list result" where
  "result_list [] = Inr []"
| "result_list (r # rs) = rbind r (\<lambda>x. rbind (result_list rs) (\<lambda>xs. Inr (x # xs)))"

definition sliced :: "string \<Rightarrow> string option \<Rightarrow> json result" where
  "sliced rootDir dir = (case dir of Some d \<Rightarrow> Inr (relative rootDir d) | None \<Rightarrow> Inl TypeError)"

definition group_json :: "string \<Rightarrow> (string, string option) dict \<Rightarrow> (string, string) dict \<Rightarrow> section_obj \<Rightarrow> json result" where
  "group_json rootDir parents dirs g =
     rbind (sliced rootDir (map_of dirs (s_id g))) (\<lambda>path.
       Inr (JObj [(''id'', JStr (s_id g)), (''title'', JStr (sp_title g)), (''color'', JStr (sp_color g)),
         (''parent'', string_or_null (parent_of parents (s_id g))), (''path'', path)]))"

definition section_json :: "string \<Rightarrow> (string, string option) dict \<Rightarrow> (string, string) dict \<Rightarrow> section_obj \<Rightarrow> json result" where
  "section_json rootDir parents dirs s =
     rbind (sliced rootDir (map_of dirs (s_id s))) (\<lambda>path.
       Inr (JObj [(''id'', JStr (s_id s)), (''title'', JStr (sp_title s)), (''color'', JStr (sp_color s)),
         (''group'', string_or_null (sectionGroup (as_grouped s) parents)), (''path'', path)]))"

text \<open>\<open>JSON.stringify(value, null, 2)\<close>; the first argument is the depth.\<close>

definition indented :: "nat \<Rightarrow> string" where
  "indented n = newline @ replicate (2 * n) (CHR '' '')"

fun pretty :: "nat \<Rightarrow> json \<Rightarrow> string" where
  "pretty n (JArr xs) =
     (if xs = [] then ''[]''
      else ''['' @ indented (Suc n) @ join_with ('','' @ indented (Suc n)) (map (pretty (Suc n)) xs) @ indented n @ '']'')"
| "pretty n (JObj ms) =
     (if ms = [] then ''{}''
      else ''{'' @ indented (Suc n) @ join_with ('','' @ indented (Suc n)) (map (\<lambda>(k, v). str_text k @ '': '' @ pretty (Suc n) v) ms) @ indented n @ ''}'')"
| "pretty n v = stringify v"

record exported =
  ex_entries :: "zip_entry list"
  ex_pages :: nat
  ex_unreadable :: int

definition finish_export :: "('o, 'r) notebook_input \<Rightarrow> string \<Rightarrow> string \<Rightarrow> (string, string option) dict \<Rightarrow> (string, string) dict \<Rightarrow> ('o export_world, exported) io" where
  "finish_export input exportedAt rootDir parents sectionDirs = (\<lambda>w. lift_result (
     rbind (result_list (map (group_json rootDir parents (x_groupDirs w)) (ni_groups input))) (\<lambda>groups.
       rbind (result_list (map (section_json rootDir parents sectionDirs) (sortedSections (ni_sections input)))) (\<lambda>sections.
         let manifest = JObj [(''format'', JStr EXPORT_FORMAT), (''notebook'', JStr (ni_name input)), (''exportedAt'', JStr exportedAt),
               (''groups'', JArr groups), (''sections'', JArr sections), (''pages'', JArr (x_pages w)), (''unreadable'', JNum (x_unreadable w))] in
         Inr \<lparr>ex_entries = \<lparr>z_path = join_path [rootDir, ''manifest.json''], z_data = encode (pretty 0 manifest @ newline)\<rparr> # x_entries w,
           ex_pages = length (x_pages w), ex_unreadable = x_unreadable w\<rparr>))) w)"

text \<open>Every section has its folder, so the lookups of the lists cannot miss.\<close>

definition section_lists :: "section_obj list \<Rightarrow> (string, string) dict \<Rightarrow> (string option \<times> string) list result" where
  "section_lists sections sectionDirs =
     result_list (map (\<lambda>s. case map_of sectionDirs (s_id s) of Some d \<Rightarrow> Inr (Some (s_id s), d) | None \<Rightarrow> Inl TypeError) sections)"

definition export_body :: "('o, 'r) notebook_input \<Rightarrow> string \<Rightarrow> string \<Rightarrow> (string, string option) dict \<Rightarrow> (string, string) dict \<Rightarrow> ('o export_world, exported) io" where
  "export_body input exportedAt rootDir parents sectionDirs =
     bind_io (lift_result (section_lists (sortedSections (ni_sections input)) sectionDirs)) (\<lambda>rows.
       bind_io (named_dir rootDir ''Quick Notes'') (\<lambda>quick.
         bind_io (export_lists input rootDir (rows @ [(None, quick)])) (\<lambda>_.
           finish_export input exportedAt rootDir parents sectionDirs)))"

definition export_from :: "('o, 'r) notebook_input \<Rightarrow> string \<Rightarrow> string \<Rightarrow> ('o export_world, exported) io" where
  "export_from input exportedAt rootDir =
     (let parents = groupParents (map as_grouped (ni_groups input)) in
      bind_io (bind_io (name_in rootDir ''manifest'' ''.json'') (\<lambda>_. name_in rootDir ATTACHMENTS [])) (\<lambda>_.
        bind_io (make_group_dirs (ni_groups input) parents rootDir (groups_in_order (ni_groups input) parents)) (\<lambda>_.
          bind_io (section_dirs (ni_groups input) parents rootDir (sortedSections (ni_sections input))) (\<lambda>rows.
            export_body input exportedAt rootDir parents (spread [] rows)))))"

text \<open>The variables start empty; what is left when the export returns is dropped, apart from the outside and the log.\<close>

definition fresh_export :: "int \<Rightarrow> ('o, export_event) traced \<Rightarrow> 'o export_world" where
  "fresh_export unreadable w = traced.extend w
     \<lparr>x_used = [], x_entries = [], x_unreadable = unreadable, x_groupDirs = [], x_meta = [], x_paths = [], x_failed = [], x_pages = []\<rparr>"

definition buildNotebookExport :: "('o, 'r) notebook_input \<Rightarrow> string \<Rightarrow> (('o, export_event) traced, exported) io" where
  "buildNotebookExport input exportedAt w =
     (let (r, w') = export_from input exportedAt (safeName (ni_name input) ''Notebook'') (fresh_export (ni_unreadable input) w) in
      (r, traced.truncate w'))"


end
