(* ===== verification/ExportPaths.thy ===== *)
theory ExportPaths
  imports Export
begin

text \<open>
  What the export promises of its paths: every path lies under the notebook's folder and consists of names that
  are safe on every system, no two paths agree even without regard to case, and the export always returns.
\<close>

section \<open>Safe names\<close>

definition safe_segment :: "string \<Rightarrow> bool" where
  "safe_segment s \<longleftrightarrow> s \<noteq> [] \<and> list_all (\<lambda>c. \<not> UNSAFE c) s \<and> \<not> edge_char (hd s) \<and> \<not> edge_char (last s) \<and> \<not> RESERVED s"

lemma trim_edges_facts:
  "set (trim_edges s) \<subseteq> set s" "trim_edges s \<noteq> [] \<Longrightarrow> \<not> edge_char (hd (trim_edges s)) \<and> \<not> edge_char (last (trim_edges s))"
proof -
  let ?a = "dropWhile edge_char s"
  show "set (trim_edges s) \<subseteq> set s" by (auto simp: trim_edges_def dest!: set_dropWhileD)
  assume ne: "trim_edges s \<noteq> []"
  then have r: "dropWhile edge_char (rev ?a) \<noteq> []" by (simp add: trim_edges_def)
  have "?a = trim_edges s @ rev (takeWhile edge_char (rev ?a))"
    unfolding trim_edges_def rev_append [symmetric] takeWhile_dropWhile_id rev_rev_ident ..
  then have "hd ?a = hd (trim_edges s)" "?a \<noteq> []" using ne by (metis hd_append2, metis append_is_Nil_conv)
  then have "\<not> edge_char (hd (trim_edges s))" using hd_dropWhile [of edge_char s] by simp
  moreover have "last (trim_edges s) = hd (dropWhile edge_char (rev ?a))" using r by (simp add: trim_edges_def last_rev)
  then have "\<not> edge_char (last (trim_edges s))" using hd_dropWhile [OF r] by simp
  ultimately show "\<not> edge_char (hd (trim_edges s)) \<and> \<not> edge_char (last (trim_edges s))" by simp
qed

lemma underscore_ok: "\<not> UNSAFE (CHR ''_'')" "\<not> edge_char (CHR ''_'')"
  by (simp_all add: UNSAFE_def edge_char_def js_space_def)

lemma reserved_start: "reserved_stem (c # s) \<Longrightarrow> c \<in> set ''cpanl''"
  by (auto simp: reserved_stem_def numeral_3_eq_3)

lemma not_reserved_start: "js_lower_char c \<notin> set ''cpanl'' \<Longrightarrow> c \<noteq> CHR ''.'' \<Longrightarrow> js_lower_char c \<noteq> CHR ''.'' \<Longrightarrow> \<not> RESERVED (c # s)"
  using reserved_start by (auto simp: RESERVED_def js_lower_def)

lemma safe_safeName:
  assumes "safe_segment fallback"
  shows "safe_segment (safeName name fallback)"
proof -
  let ?m = "map (\<lambda>c. if UNSAFE c then CHR ''_'' else c) name"
  let ?c = "trim_edges (take MAX_NAME (trim_edges ?m))"
  have "set ?c \<subseteq> set ?m" using trim_edges_facts(1) set_take_subset by fast
  moreover have "list_all (\<lambda>c. \<not> UNSAFE c) ?m" by (auto simp: list_all_iff underscore_ok)
  ultimately have clean: "list_all (\<lambda>c. \<not> UNSAFE c) ?c" unfolding list_all_iff by blast
  have "\<not> RESERVED (CHR ''_'' # ?c)" by (rule not_reserved_start) (simp_all add: js_lower_char_def)
  with clean trim_edges_facts(2) [of "take MAX_NAME (trim_edges ?m)"] assms show ?thesis
    by (auto simp: safeName_def Let_def safe_segment_def underscore_ok)
qed

text \<open>What follows the first dot does not matter to a reserved word, and neither does a numbered suffix make one.\<close>

lemma lower_low: "(of_char d :: nat) < 65 \<Longrightarrow> js_lower_char c = d \<longleftrightarrow> c = d"
proof -
  assume d: "(of_char d :: nat) < 65"
  have "js_lower_char c = c \<or> 97 \<le> (of_char (js_lower_char c) :: nat)" by (auto simp: js_lower_char_def Let_def)
  moreover have "js_lower_char d = d" using d by (simp add: js_lower_char_def)
  ultimately show ?thesis using d by auto
qed

lemma lower_low_in: "(of_char d :: nat) < 65 \<Longrightarrow> d \<in> set (js_lower s) \<longleftrightarrow> d \<in> set s"
proof -
  assume "(of_char d :: nat) < 65"
  then have "(\<exists>x\<in>set s. d = js_lower_char x) \<longleftrightarrow> (\<exists>x\<in>set s. x = d)" using lower_low by metis
  then show ?thesis by (simp add: js_lower_def image_iff)
qed

lemma stem_append:
  "takeWhile (\<lambda>c. c \<noteq> CHR ''.'') (js_lower (s @ t)) =
   (if CHR ''.'' \<in> set s then takeWhile (\<lambda>c. c \<noteq> CHR ''.'') (js_lower s) else js_lower s @ takeWhile (\<lambda>c. c \<noteq> CHR ''.'') (js_lower t))"
proof (cases "CHR ''.'' \<in> set s")
  case True
  then have "CHR ''.'' \<in> set (js_lower s)" by (simp add: lower_low_in)
  with True show ?thesis by (simp add: js_lower_append takeWhile_append1)
next
  case False
  then have "\<forall>c\<in>set (js_lower s). c \<noteq> CHR ''.''" using lower_low_in [of "CHR ''.''" s] by auto
  with False show ?thesis by (simp add: js_lower_append takeWhile_append2)
qed

lemma RESERVED_extension: "RESERVED (s @ CHR ''.'' # t) \<longleftrightarrow> RESERVED s"
proof -
  have "js_lower (CHR ''.'' # t) = CHR ''.'' # js_lower t" by (simp add: js_lower_def js_lower_char_def)
  moreover have "CHR ''.'' \<notin> set s \<Longrightarrow> takeWhile (\<lambda>c. c \<noteq> CHR ''.'') (js_lower s) = js_lower s"
    using lower_low_in [of "CHR ''.''" s] by (auto simp: takeWhile_eq_all_conv)
  ultimately show ?thesis by (cases "CHR ''.'' \<in> set s") (simp_all add: RESERVED_def stem_append del: takeWhile_eq_all_conv)
qed


lemma reserved_last: "reserved_stem s \<Longrightarrow> last s \<noteq> CHR '')''"
proof -
  assume r: "reserved_stem s"
  consider "s \<in> set [''con'', ''prn'', ''aux'', ''nul'']" | "length s = 4" "is_digit (s ! 3)" using r by (auto simp: reserved_stem_def)
  then show ?thesis
  proof cases
    case 2
    then have "last s = s ! 3" by (subst last_conv_nth) auto
    with 2 show ?thesis by (auto simp: is_digit_def)
  qed auto
qed

lemma RESERVED_suffix:
  assumes "CHR ''.'' \<notin> set t" "t \<noteq> []" "last t = CHR '')''" "RESERVED (s @ t)"
  shows "RESERVED s"
proof (cases "CHR ''.'' \<in> set s")
  case True
  with assms(4) show ?thesis by (simp add: RESERVED_def stem_append)
next
  case False
  have "CHR ''.'' \<notin> set (js_lower t)" using assms(1) by (simp add: lower_low_in)
  then have "takeWhile (\<lambda>c. c \<noteq> CHR ''.'') (js_lower t) = js_lower t" by (auto simp: takeWhile_eq_all_conv)
  with False assms(4) have "reserved_stem (js_lower s @ js_lower t)" by (simp only: RESERVED_def stem_append if_False)
  moreover have "last (js_lower s @ js_lower t) = CHR '')''" using assms(2,3) by (simp add: js_lower_def last_map js_lower_char_def)
  ultimately show ?thesis using reserved_last by blast
qed

lemma no_dot_number: "CHR ''.'' \<notin> set (nat_text n)"
proof -
  have "\<not> is_digit (CHR ''.'')" by (simp add: is_digit_def)
  with nat_text_digits [of n] show ?thesis unfolding list_all_iff by blast
qed

lemma RESERVED_numbered: "RESERVED (s @ '' ('' @ nat_text n @ '')'') \<Longrightarrow> RESERVED s"
  by (rule RESERVED_suffix [of "'' ('' @ nat_text n @ '')''"]) (simp_all add: no_dot_number)

lemma ordinary_chars: "\<not> UNSAFE (CHR '' '')" "\<not> UNSAFE (CHR ''('')" "\<not> UNSAFE (CHR '')'')" "\<not> edge_char (CHR '')'')" "is_digit c \<Longrightarrow> \<not> UNSAFE c" "is_digit c \<Longrightarrow> \<not> edge_char c"
  by (auto simp: UNSAFE_def edge_char_def js_space_def is_digit_def Let_def)

lemma safe_candidate: "safe_segment name \<Longrightarrow> safe_segment (candidate name n)"
  using RESERVED_numbered [of name n] nat_text_digits [of n]
  by (auto simp: safe_segment_def candidate_def list_all_iff ordinary_chars)

lemma safe_extension:
  "safe_segment c \<Longrightarrow> safe_segment (c @ ''.md'')" "safe_segment c \<Longrightarrow> safe_segment (c @ ''.json'')" "safe_segment c \<Longrightarrow> safe_segment (c @ ''.canvas.json'')"
  by (auto simp: safe_segment_def RESERVED_extension UNSAFE_def edge_char_def js_space_def)

lemma safe_page_name: "safe_segment (page_name index title)"
proof -
  let ?n = "nat_text (index + 1)"
  let ?d = "replicate (3 - length ?n) (CHR ''0'') @ ?n"
  have s: "safe_segment (safeName title ''Untitled page'')" by (rule safe_safeName) code_simp
  have "list_all is_digit (replicate k (CHR ''0''))" for k by (simp add: list_all_iff is_digit_def)
  then have d: "list_all is_digit ?d" "?d \<noteq> []" using nat_text_digits [of "index + 1"] by simp_all
  then obtain c r where cr: "?d = c # r" by (metis neq_Nil_conv)
  then have cr_ok: "list_all is_digit (c # r)" using d(1) by (simp only:)
  then have c: "is_digit c" by simp
  have "js_lower_char c = c" using lower_digits [of "[c]"] c by (simp add: js_lower_def)
  then have "\<not> RESERVED (c # t)" for t using c by (intro not_reserved_start) (auto simp: is_digit_def)
  moreover have "page_name index title = c # r @ '' '' @ safeName title ''Untitled page''" using cr by (simp add: page_name_def Let_def)
  moreover have "list_all (\<lambda>c. \<not> UNSAFE c) (c # r)" using cr_ok ordinary_chars(5) by (auto simp: list_all_iff)
  ultimately show ?thesis using s c by (auto simp: safe_segment_def ordinary_chars)
qed


section \<open>Paths\<close>

lemma safe_no_slash: "safe_segment s \<Longrightarrow> CHR ''/'' \<notin> set s"
proof -
  have "UNSAFE (CHR ''/'')" by (simp add: UNSAFE_def)
  then show "safe_segment s \<Longrightarrow> CHR ''/'' \<notin> set s" unfolding safe_segment_def list_all_iff by blast
qed

lemma lower_no_slash: "CHR ''/'' \<notin> set s \<Longrightarrow> CHR ''/'' \<notin> set (js_lower s)"
  by (simp add: lower_low_in)

lemma split_last: "CHR ''/'' \<notin> set c \<Longrightarrow> split_on (CHR ''/'') (d @ CHR ''/'' # c) = split_on (CHR ''/'') d @ [c]"
proof (induction d)
  case (Cons x d)
  obtain p ps where "split_on (CHR ''/'') d = p # ps" using split_on_nonempty by (metis neq_Nil_conv)
  with Cons show ?case by simp
qed (simp add: split_clean)

lemma last_segment_eq:
  assumes "CHR ''/'' \<notin> set c" "CHR ''/'' \<notin> set c'"
  shows "d @ CHR ''/'' # c = d' @ CHR ''/'' # c' \<longleftrightarrow> d = d' \<and> c = c'"
proof
  assume "d @ CHR ''/'' # c = d' @ CHR ''/'' # c'"
  from arg_cong [OF this, of rev] have eq: "rev c @ CHR ''/'' # rev d = rev c' @ CHR ''/'' # rev d'" by simp
  have "takeWhile (\<lambda>x. x \<noteq> CHR ''/'') (rev a @ CHR ''/'' # b) = rev a" if "CHR ''/'' \<notin> set a" for a b :: string
    using that by (subst takeWhile_append2) auto
  with eq have "rev c = rev c'" using assms by metis
  with eq show "d = d' \<and> c = c'" by simp
qed simp

lemma lower_path: "js_lower (d @ CHR ''/'' # c) = js_lower d @ CHR ''/'' # js_lower c"
  by (simp add: js_lower_def js_lower_char_def)

lemma lower_path_eq:
  assumes "CHR ''/'' \<notin> set c" "CHR ''/'' \<notin> set c'"
  shows "js_lower (d @ CHR ''/'' # c) = js_lower (d' @ CHR ''/'' # c') \<longleftrightarrow> js_lower d = js_lower d' \<and> js_lower c = js_lower c'"
  unfolding lower_path using assms by (intro last_segment_eq lower_no_slash)

lemma join_two: "d \<noteq> [] \<Longrightarrow> c \<noteq> [] \<Longrightarrow> join_path [d, c] = d @ CHR ''/'' # c"
  by (simp add: join_path_def)

text \<open>A path under the notebook's folder, all of whose names are safe.\<close>

definition safe_path :: "string \<Rightarrow> string \<Rightarrow> bool" where
  "safe_path rootDir p \<longleftrightarrow> list_all safe_segment (split_on (CHR ''/'') p) \<and> hd (split_on (CHR ''/'') p) = rootDir"

lemma safe_path_root: "safe_segment r \<Longrightarrow> safe_path r r"
  by (simp add: safe_path_def split_clean safe_no_slash)

lemma safe_path_add: "safe_path r d \<Longrightarrow> safe_segment c \<Longrightarrow> safe_path r (d @ CHR ''/'' # c)"
  using split_on_nonempty [of "CHR ''/''" d] by (simp add: safe_path_def split_last safe_no_slash)

lemma safe_path_nonempty: "safe_path r d \<Longrightarrow> d \<noteq> []"
  by (auto simp: safe_path_def safe_segment_def)

section \<open>Names handed out\<close>

lemma free_number_free: "\<not> clashes taken name e (free_number taken name e n)"
proof (induction taken name e n rule: free_number.induct)
  case (1 taken name e n)
  then show ?case by (subst free_number.simps) simp
qed

lemma set_insert_all: "set (fold List.insert ks taken) = set ks \<union> set taken"
  by (induction ks arbitrary: taken) auto

text \<open>
  What is known after a number of names were handed out, as a set of folder, name and extension: the folders form a
  tree under the root, and two names never agree on a key, so that folders differ without regard to case.
\<close>

type_synonym handed = "(string \<times> string \<times> string) set"

definition folders :: "string \<Rightarrow> handed \<Rightarrow> string set" where
  "folders r H = insert r {d @ CHR ''/'' # c | d c. (d, c, []) \<in> H}"

definition names_ok :: "string \<Rightarrow> handed \<Rightarrow> (string, string list) dict \<Rightarrow> bool" where
  "names_ok r H used \<longleftrightarrow>
     safe_segment r \<and>
     (\<forall>d c e. (d, c, e) \<in> H \<longrightarrow> d \<in> folders r H \<and> safe_segment c \<and> set (name_keys c e) \<subseteq> set (taken_in used d)) \<and>
     (\<forall>d c e c' e'. (d, c, e) \<in> H \<longrightarrow> (d, c', e') \<in> H \<longrightarrow> (c, e) \<noteq> (c', e') \<longrightarrow> set (name_keys c e) \<inter> set (name_keys c' e') = {}) \<and>
     (\<forall>d\<in>folders r H. safe_path r d \<and> (\<forall>d'\<in>folders r H. js_lower d = js_lower d' \<longrightarrow> d = d'))"

lemma names_ok_start: "safe_segment r \<Longrightarrow> names_ok r {} []"
  by (simp add: names_ok_def folders_def safe_path_root)

lemma folders_add: "folders r (insert (d, c, e) H) = (if e = [] then insert (d @ CHR ''/'' # c) (folders r H) else folders r H)"
  by (auto simp: folders_def)

lemma name_keys_head: "js_lower (c @ e) \<in> set (name_keys c e)" "name_keys c e \<noteq> []"
  by (simp_all add: name_keys_def)


lemma namer_facts:
  assumes "namer used d name e = (c, used')"
  shows "c = candidate name (free_number (taken_in used d) name e 1)" "set (name_keys c e) \<inter> set (taken_in used d) = {}"
    "set (taken_in used' d) = set (name_keys c e) \<union> set (taken_in used d)" "d' \<noteq> d \<Longrightarrow> taken_in used' d' = taken_in used d'"
proof -
  show c: "c = candidate name (free_number (taken_in used d) name e 1)" using assms by (simp add: namer_def Let_def)
  show "set (name_keys c e) \<inter> set (taken_in used d) = {}"
    using free_number_free [of "taken_in used d" name e 1] by (auto simp: c clashes_def list_ex_iff)
  show "set (taken_in used' d) = set (name_keys c e) \<union> set (taken_in used d)" "d' \<noteq> d \<Longrightarrow> taken_in used' d' = taken_in used d'"
    using assms by (auto simp: namer_def Let_def taken_in_def set_insert_all)
qed

lemma new_folder:
  assumes ok: "names_ok r H used" and d: "d \<in> folders r H" and c: "safe_segment c"
    and fresh: "set (name_keys c []) \<inter> set (taken_in used d) = {}" and f: "f \<in> folders r H"
  shows "js_lower f \<noteq> js_lower (d @ CHR ''/'' # c)"
proof
  assume eq: "js_lower f = js_lower (d @ CHR ''/'' # c)"
  have "f \<noteq> r"
  proof
    assume "f = r"
    with ok have "CHR ''/'' \<notin> set (js_lower f)" by (intro lower_no_slash safe_no_slash) (simp add: names_ok_def)
    with eq show False by (simp add: lower_path)
  qed
  with f obtain d' c' where f': "f = d' @ CHR ''/'' # c'" "(d', c', []) \<in> H" by (auto simp: folders_def)
  with ok have H: "d' \<in> folders r H" "safe_segment c'" "set (name_keys c' []) \<subseteq> set (taken_in used d')" by (auto simp: names_ok_def)
  with eq f'(1) c have "js_lower d' = js_lower d" "js_lower c' = js_lower c" using lower_path_eq [of c' c] safe_no_slash by auto
  with ok d H(1) have "d' = d" by (auto simp: names_ok_def)
  with H(3) \<open>js_lower c' = js_lower c\<close> fresh show False using name_keys_head(1) [of c' "[]"] name_keys_head(1) [of c "[]"] by auto
qed

lemma folder_safe: "names_ok r H used \<Longrightarrow> d \<in> folders r H \<Longrightarrow> safe_path r d"
  by (simp add: names_ok_def)

lemma folder_eq: "names_ok r H used \<Longrightarrow> d \<in> folders r H \<Longrightarrow> d' \<in> folders r H \<Longrightarrow> js_lower d = js_lower d' \<Longrightarrow> d = d'"
  by (simp add: names_ok_def)

lemma names_ok_add:
  assumes ok: "names_ok r H used" and d: "d \<in> folders r H" and name: "safe_segment name" and named: "namer used d name e = (c, used')"
  shows "names_ok r (insert (d, c, e) H) used'" "(d, c, e) \<notin> H" "safe_segment c" "e = [] \<Longrightarrow> d @ CHR ''/'' # c \<notin> folders r H"
proof -
  note facts = namer_facts [OF named]
  show c: "safe_segment c" using safe_candidate [OF name] by (simp add: facts(1))
  show "(d, c, e) \<notin> H" using ok facts(2) name_keys_head(2) [of c e] unfolding names_ok_def by (metis inf.absorb_iff2 inf_commute set_empty)
  show "e = [] \<Longrightarrow> d @ CHR ''/'' # c \<notin> folders r H" using new_folder [OF ok d c] facts(2) by blast
  have taken: "set (taken_in used d') \<subseteq> set (taken_in used' d')" for d' using facts(3,4) by (cases "d' = d") auto
  have mono: "folders r H \<subseteq> folders r (insert (d, c, e) H)" by (auto simp: folders_add)
  have keys: "set (name_keys c e) \<inter> set (name_keys c' e') = {}" if "(d, c', e') \<in> H" for c' e'
  proof -
    have "set (name_keys c' e') \<subseteq> set (taken_in used d)" using ok that unfolding names_ok_def by blast
    with facts(2) show ?thesis by blast
  qed
  have new: "safe_path r (d @ CHR ''/'' # c)" using ok d c by (auto simp: names_ok_def intro: safe_path_add)
  have apart: "js_lower f \<noteq> js_lower (d @ CHR ''/'' # c)" if "f \<in> folders r H" "e = []" for f
    using new_folder [OF ok d c _ that(1)] facts(2) that(2) by simp
  have safe: "safe_path r f" if "f \<in> folders r (insert (d, c, e) H)" for f
    using that new folder_safe [OF ok] by (auto simp: folders_add split: if_splits)
  have tree: "f = f'" if "f \<in> folders r (insert (d, c, e) H)" "f' \<in> folders r (insert (d, c, e) H)" "js_lower f = js_lower f'" for f f'
  proof (cases "e = []")
    case True
    with that(1,2) have "f = d @ CHR ''/'' # c \<or> f \<in> folders r H" "f' = d @ CHR ''/'' # c \<or> f' \<in> folders r H" by (simp_all add: folders_add)
    with that(3) apart [OF _ True] folder_eq [OF ok] show ?thesis by metis
  qed (use that folder_eq [OF ok] in \<open>simp add: folders_add\<close>)
  have rows: "d' \<in> folders r (insert (d, c, e) H) \<and> safe_segment c' \<and> set (name_keys c' e') \<subseteq> set (taken_in used' d')"
    if "(d', c', e') \<in> insert (d, c, e) H" for d' c' e'
    using that ok d c mono taken [of d'] facts(3) unfolding names_ok_def by blast
  have "set (name_keys c1 e1) \<inter> set (name_keys c2 e2) = {}"
    if "(d', c1, e1) \<in> insert (d, c, e) H" "(d', c2, e2) \<in> insert (d, c, e) H" "(c1, e1) \<noteq> (c2, e2)" for d' c1 e1 c2 e2
    using that ok keys unfolding names_ok_def by blast
  with safe tree rows ok show "names_ok r (insert (d, c, e) H) used'" unfolding names_ok_def by blast
qed

text \<open>Files of different names differ without regard to case, whatever their folders.\<close>

lemma keys_no_slash: "safe_segment c \<Longrightarrow> CHR ''/'' \<notin> set e \<Longrightarrow> k \<in> set (name_keys c e) \<Longrightarrow> CHR ''/'' \<notin> set k"
  using safe_no_slash [of c] by (auto simp: name_keys_def lower_low_in split: if_splits)

lemma handed_apart:
  assumes ok: "names_ok r H used" and H: "(d, c, e) \<in> H" "(d', c', e') \<in> H" "(d, c, e) \<noteq> (d', c', e')"
    and e: "CHR ''/'' \<notin> set e" "CHR ''/'' \<notin> set e'" and k: "k \<in> set (name_keys c e)" "k' \<in> set (name_keys c' e')"
  shows "js_lower d @ CHR ''/'' # k \<noteq> js_lower d' @ CHR ''/'' # k'"
proof
  assume "js_lower d @ CHR ''/'' # k = js_lower d' @ CHR ''/'' # k'"
  moreover have "CHR ''/'' \<notin> set k" "CHR ''/'' \<notin> set k'" using ok H e k keys_no_slash unfolding names_ok_def by blast+
  ultimately have eq: "js_lower d = js_lower d'" "k = k'" by (simp_all add: last_segment_eq)
  with ok H have "d = d'" unfolding names_ok_def by blast
  with ok H k eq(2) show False unfolding names_ok_def by blast
qed


section \<open>The running export\<close>

text \<open>
  \<open>H\<close> are the names handed out, \<open>P\<close> those whose files are written, and \<open>G\<close> what is known of attachment identifiers. No name is
  handed out in the attachments folder, whose files are named by identifiers.
\<close>

abbreviation attachments_dir :: "string \<Rightarrow> string" where "attachments_dir r \<equiv> r @ CHR ''/'' # ATTACHMENTS"

definition file_names :: "string \<Rightarrow> string set" where
  "file_names c = {c @ ''.md'', c @ ''.canvas.json'', c @ ''.json''}"

definition page_entry :: "handed \<Rightarrow> string \<Rightarrow> bool" where
  "page_entry P p \<longleftrightarrow> (\<exists>d c k. (d, c, ''.md'') \<in> P \<and> k \<in> file_names c \<and> p = d @ CHR ''/'' # k)"

definition attachment_path :: "string \<Rightarrow> string \<Rightarrow> string \<Rightarrow> string" where
  "attachment_path r i f = (attachments_dir r @ CHR ''/'' # safeName i ''attachment'') @ CHR ''/'' # f"

definition attachment_entry :: "string \<Rightarrow> string list \<Rightarrow> string \<Rightarrow> bool" where
  "attachment_entry r ids p \<longleftrightarrow> (\<exists>i f. i \<in> set ids \<and> safe_segment f \<and> p = attachment_path r i f)"

text \<open>An identifier that stays as it is as a name, in lower case.\<close>

definition plain_id :: "string \<Rightarrow> bool" where
  "plain_id i \<longleftrightarrow> safeName i ''attachment'' = i \<and> js_lower i = i"

definition spot :: "string \<Rightarrow> handed \<Rightarrow> string \<Rightarrow> bool" where
  "spot r H d \<longleftrightarrow> d \<in> folders r H \<and> d \<noteq> attachments_dir r"

definition export_ok :: "(string \<Rightarrow> bool) \<Rightarrow> string \<Rightarrow> handed \<Rightarrow> handed \<Rightarrow> 'o export_world \<Rightarrow> bool" where
  "export_ok G r H P w \<longleftrightarrow>
     names_ok r H (x_used w) \<and> {(r, ''manifest'', ''.json''), (r, ATTACHMENTS, [])} \<subseteq> H \<and> P \<subseteq> H \<and>
     (\<forall>(d, c, e)\<in>H. d \<noteq> attachments_dir r \<and> e \<in> {[], ''.md'', ''.json''}) \<and>
     list_all (spot r H) (map snd (x_groupDirs w)) \<and> list_all G (map fst (x_meta w)) \<and>
     list_all (\<lambda>z. page_entry P (z_path z) \<or> attachment_entry r (map fst (x_meta w)) (z_path z)) (x_entries w) \<and>
     (list_all plain_id (map fst (x_meta w)) \<longrightarrow> distinct (map (\<lambda>z. js_lower (z_path z)) (x_entries w)))"

lemma attachments_folder: "export_ok G r H P w \<Longrightarrow> attachments_dir r \<in> folders r H"
  by (auto simp: export_ok_def folders_def)

lemma spot_mono: "spot r H d \<Longrightarrow> H \<subseteq> H' \<Longrightarrow> spot r H' d"
  by (auto simp: spot_def folders_def)

lemma spot_safe: "export_ok G r H P w \<Longrightarrow> spot r H d \<Longrightarrow> safe_path r d"
  by (rule folder_safe [of r H "x_used w"]) (simp_all add: export_ok_def spot_def)

lemma wp_name_in: "wp (name_in d name e) Q E w = (\<forall>c used. namer (x_used w) d name e = (c, used) \<longrightarrow> Q c (w\<lparr>x_used := used\<rparr>))"
  by (auto simp: wp_def name_in_def split: prod.split)

text \<open>A name handed out in a folder that may get one.\<close>

definition handed_name :: "(string \<Rightarrow> bool) \<Rightarrow> string \<Rightarrow> handed \<Rightarrow> handed \<Rightarrow> 'o export_world \<Rightarrow> string \<Rightarrow> string \<Rightarrow> string \<Rightarrow> 'o export_world \<Rightarrow> bool" where
  "handed_name G r H P w d e c w' \<longleftrightarrow> export_ok G r (insert (d, c, e) H) P w' \<and> (d, c, e) \<notin> H \<and> safe_segment c \<and>
     (e = [] \<longrightarrow> spot r (insert (d, c, e) H) (d @ CHR ''/'' # c)) \<and> x_groupDirs w' = x_groupDirs w"

lemma name_in_ok:
  assumes w: "export_ok G r H P w" and d: "spot r H d" and name: "safe_segment name" and e: "e \<in> {[], ''.md'', ''.json''}"
  shows "wp (name_in d name e) (handed_name G r H P w d e) (\<lambda>_ _. False) w"
  unfolding wp_name_in
proof (intro allI impI)
  fix c used
  assume named: "namer (x_used w) d name e = (c, used)"
  from w d have "names_ok r H (x_used w)" "d \<in> folders r H" by (auto simp: export_ok_def spot_def)
  note added = names_ok_add [OF this name named]
  have "spot r (insert (d, c, e) H) (d @ CHR ''/'' # c)" if "e = []"
    using added(4) [OF that] attachments_folder [OF w] that by (auto simp: spot_def folders_add)
  moreover have "list_all (spot r (insert (d, c, e) H)) (map snd (x_groupDirs w))"
    using w spot_mono [of r H _ "insert (d, c, e) H"] unfolding export_ok_def list_all_iff by blast
  ultimately show "handed_name G r H P w d e c (w\<lparr>x_used := used\<rparr>)"
    using w d e added unfolding handed_name_def export_ok_def by (auto simp: spot_def)
qed

lemma named_dir_ok:
  assumes "export_ok G r H P w" "spot r H d" "safe_segment name"
  shows "wp (named_dir d name) (\<lambda>dir w'. \<exists>H'. H \<subseteq> H' \<and> export_ok G r H' P w' \<and> spot r H' dir \<and> x_groupDirs w' = x_groupDirs w) (\<lambda>_ _. False) w"
proof -
  have "d \<noteq> []" using spot_safe [OF assms(1,2)] by (rule safe_path_nonempty)
  then have "\<exists>H'. H \<subseteq> H' \<and> export_ok G r H' P w' \<and> spot r H' (join_path [d, c]) \<and> x_groupDirs w' = x_groupDirs w"
    if "handed_name G r H P w d [] c w'" for c w'
    using that by (intro exI [of _ "insert (d, c, []) H"]) (auto simp: handed_name_def join_two safe_segment_def)
  with wp_mono [OF name_in_ok [OF assms, of "[]"]] show ?thesis by (simp add: named_dir_def wp_bind wp_ret del: io_simps)
qed


section \<open>Folders\<close>

text \<open>What a step that hands out folders leaves behind: more names, the same written files, and every group folder made before.\<close>

definition dir_step :: "(string \<Rightarrow> bool) \<Rightarrow> string \<Rightarrow> handed \<Rightarrow> handed \<Rightarrow> 'o export_world \<Rightarrow> string \<Rightarrow> 'o export_world \<Rightarrow> bool" where
  "dir_step G r H P w dir w' \<longleftrightarrow> (\<exists>H'. H \<subseteq> H' \<and> export_ok G r H' P w' \<and> spot r H' dir) \<and> dom (map_of (x_groupDirs w)) \<subseteq> dom (map_of (x_groupDirs w'))"

lemma dir_stepI: "H \<subseteq> H' \<Longrightarrow> export_ok G r H' P w' \<Longrightarrow> spot r H' dir \<Longrightarrow> dom (map_of (x_groupDirs w)) \<subseteq> dom (map_of (x_groupDirs w')) \<Longrightarrow> dir_step G r H P w dir w'"
  by (auto simp: dir_step_def)

lemma dir_stepE:
  assumes "dir_step G r H P w dir w'"
  obtains H' where "H \<subseteq> H'" "export_ok G r H' P w'" "spot r H' dir" "dom (map_of (x_groupDirs w)) \<subseteq> dom (map_of (x_groupDirs w'))"
  using assms by (auto simp: dir_step_def)

lemma dir_step_trans: "dir_step G r H P w d w1 \<Longrightarrow> H' \<subseteq> H \<Longrightarrow> dom (map_of (x_groupDirs w0)) \<subseteq> dom (map_of (x_groupDirs w)) \<Longrightarrow> dir_step G r H' P w0 d w1"
  unfolding dir_step_def by (meson subset_trans)

lemma spot_root: "spot r H r"
proof -
  have "length r \<noteq> length (attachments_dir r)" by simp
  then show ?thesis by (auto simp: spot_def folders_def)
qed

lemma keep_group_dir_ok:
  assumes "export_ok G r H P w" "spot r H d"
  shows "wp (keep_group_dir i d) (\<lambda>dir w'. dir_step G r H P w dir w' \<and> map_of (x_groupDirs w') i \<noteq> None) (\<lambda>_ _. False) w"
proof -
  have "set (map snd (AList.update i d (x_groupDirs w))) \<subseteq> insert d (set (map snd (x_groupDirs w)))"
    using set_update_dict [of i d "x_groupDirs w"] by force
  then have "list_all (spot r H) (map snd (AList.update i d (x_groupDirs w)))" using assms unfolding export_ok_def list_all_iff by blast
  with assms have "export_ok G r H P (w\<lparr>x_groupDirs := AList.update i d (x_groupDirs w)\<rparr>)" by (simp add: export_ok_def)
  then show ?thesis using assms(2) by (auto simp: wp_def keep_group_dir_def intro: dir_stepI [of H H])
qed

lemma safe_fallbacks: "safe_segment ''Untitled group''" "safe_segment ''Untitled section''" "safe_segment ''Quick Notes''" "safe_segment ''Notebook''"
  "safe_segment ''attachment''" "safe_segment ''file''" "safe_segment ATTACHMENTS" "safe_segment ''manifest''"
  by code_simp+

text \<open>A group that has a folder, or whose ancestors still fit on the stack.\<close>

definition reachable_group :: "section_obj list \<Rightarrow> nat \<Rightarrow> string option \<Rightarrow> bool" where
  "reachable_group groups n cur \<longleftrightarrow>
     (case cur of None \<Rightarrow> True | Some i \<Rightarrow> i \<in> s_id ` set groups \<and> MAX_GROUP_DEPTH < n + levels_left (map as_grouped groups) i)"

lemma parent_known:
  assumes "reachable_group groups (Suc n) (Some i)"
  shows "reachable_group groups n (parent_of (groupParents (map as_grouped groups)) i)"
proof (cases "parent_of (groupParents (map as_grouped groups)) i")
  case (Some p)
  then have par: "map_of (groupParents (map as_grouped groups)) i = Some (Some p)" by (auto simp: parent_of_def split: option.splits)
  then have "p \<in> g_id ` set (map as_grouped groups)" using parent_iff raw_map_keys by metis
  then have "p \<in> s_id ` set groups" by (force simp: as_grouped_def)
  with assms child_levels(1) [OF par] Some show ?thesis by (simp add: reachable_group_def)
qed (simp add: reachable_group_def)

lemma group_named:
  assumes "dir_step G r H P w d w1"
  shows "wp (bind_io (named_dir d (safeName title ''Untitled group'')) (keep_group_dir i))
     (\<lambda>dir w'. dir_step G r H P w dir w' \<and> map_of (x_groupDirs w') i \<noteq> None) (\<lambda>_ _. False) w1"
proof -
  from assms obtain H1 where H1: "H \<subseteq> H1" "export_ok G r H1 P w1" "spot r H1 d" "dom (map_of (x_groupDirs w)) \<subseteq> dom (map_of (x_groupDirs w1))"
    by (rule dir_stepE)
  have keep: "wp (keep_group_dir i dir) (\<lambda>dir w'. dir_step G r H P w dir w' \<and> map_of (x_groupDirs w') i \<noteq> None) (\<lambda>_ _. False) w2"
    if "H1 \<subseteq> H2" "export_ok G r H2 P w2" "spot r H2 dir" "x_groupDirs w2 = x_groupDirs w1" for dir w2 H2
  proof (rule wp_mono [OF keep_group_dir_ok [OF that(2,3)]], elim conjE, intro conjI)
    have sub: "H \<subseteq> H2" "dom (map_of (x_groupDirs w)) \<subseteq> dom (map_of (x_groupDirs w2))" using H1(1,4) that(1,4) by auto
    show "dir_step G r H P w x wa" if "dir_step G r H2 P w2 x wa" for x wa using dir_step_trans [OF that sub] .
  qed
  show ?thesis unfolding wp_bind
    by (rule wp_mono [OF named_dir_ok [OF H1(2,3) safe_safeName [OF safe_fallbacks(1)]]]) (blast intro: keep)+
qed

lemma groupDir_ok:
  assumes "export_ok G r H P w" "reachable_group groups n cur"
  shows "wp (groupDir n groups (groupParents (map as_grouped groups)) r cur)
     (\<lambda>dir w'. dir_step G r H P w dir w' \<and> (\<forall>i. cur = Some i \<longrightarrow> map_of (x_groupDirs w') i \<noteq> None)) (\<lambda>_ _. False) w"
  using assms
proof (induction n arbitrary: cur w H)
  case 0
  have "\<not> MAX_GROUP_DEPTH < levels_left (map as_grouped groups) i" for i using levels_left_bounds by (simp add: not_less)
  then have "cur = None" using 0(2) by (auto simp: reachable_group_def split: option.splits)
  with 0(1) show ?case by (auto simp: wps spot_root simp del: io_simps intro: dir_stepI [of H H])
next
  case (Suc n)
  show ?case
  proof (cases cur)
    case None
    with Suc.prems(1) show ?thesis by (auto simp: wps spot_root simp del: io_simps intro: dir_stepI [of H H])
  next
    case (Some i)
    show ?thesis
    proof (cases "map_of (x_groupDirs w) i")
      case (Some known)
      then have "spot r H known" using Suc.prems(1) map_of_SomeD [OF Some] unfolding export_ok_def list_all_iff by force
      with Suc.prems(1) Some \<open>cur = Some i\<close> show ?thesis by (auto simp: wp_def intro: dir_stepI [of H H])
    next
      case None
      obtain g where g: "find (\<lambda>g. s_id g = i) groups = Some g"
        using Suc.prems(2) \<open>cur = Some i\<close> by (cases "find (\<lambda>g. s_id g = i) groups") (auto simp: reachable_group_def find_None_iff)
      let ?named = "\<lambda>parentDir. bind_io (named_dir parentDir (safeName (sp_title g) ''Untitled group'')) (keep_group_dir i)"
      have rest: "wp (?named d) (\<lambda>dir w'. dir_step G r H P w dir w' \<and> map_of (x_groupDirs w') i \<noteq> None) (\<lambda>_ _. False) w1"
        if "dir_step G r H P w d w1" for d w1
        using that by (rule group_named)
      have "wp (groupDir n groups (groupParents (map as_grouped groups)) r (parent_of (groupParents (map as_grouped groups)) i)) (dir_step G r H P w) (\<lambda>_ _. False) w"
        using wp_mono [OF Suc.IH [OF Suc.prems(1) parent_known [OF Suc.prems(2) [unfolded \<open>cur = Some i\<close>]]]] by blast
      then have "wp (bind_io (groupDir n groups (groupParents (map as_grouped groups)) r (parent_of (groupParents (map as_grouped groups)) i)) ?named)
          (\<lambda>dir w'. dir_step G r H P w dir w' \<and> map_of (x_groupDirs w') i \<noteq> None) (\<lambda>_ _. False) w"
        unfolding wp_bind by (rule wp_mono) (use rest in \<open>simp_all add: wp_bind\<close>)
      then show ?thesis using None g \<open>cur = Some i\<close> by (simp add: wp_def)
    qed
  qed
qed


lemma listed_reachable: "i \<in> s_id ` set groups \<Longrightarrow> reachable_group groups (Suc MAX_GROUP_DEPTH) (Some i)"
  using levels_left_bounds [of "map as_grouped groups" i] by (simp add: reachable_group_def)

lemma section_group_reachable:
  "reachable_group groups (Suc MAX_GROUP_DEPTH) (sectionGroup (as_grouped s) (groupParents (map as_grouped groups)))"
proof (cases "sectionGroup (as_grouped s) (groupParents (map as_grouped groups))")
  case (Some p)
  then have "map_of (raw_map (map as_grouped groups)) p \<noteq> None"
    by (auto simp: sectionGroup_def map_of_groupParents split: option.splits if_splits)
  then have "p \<in> s_id ` set groups" unfolding raw_map_keys by (force simp: as_grouped_def)
  with Some show ?thesis by (simp only: listed_reachable)
qed (simp add: reachable_group_def)

definition made :: "(string \<Rightarrow> bool) \<Rightarrow> string \<Rightarrow> handed \<Rightarrow> 'o export_world \<Rightarrow> 'o export_world \<Rightarrow> bool" where
  "made G r P w w' \<longleftrightarrow> (\<exists>H'. export_ok G r H' P w') \<and> dom (map_of (x_groupDirs w)) \<subseteq> dom (map_of (x_groupDirs w'))"

lemma make_group_dirs_ok:
  assumes "export_ok G r H P w" "set gs \<subseteq> set groups"
  shows "wp (make_group_dirs groups (groupParents (map as_grouped groups)) r gs)
     (\<lambda>_ w'. made G r P w w' \<and> s_id ` set gs \<subseteq> dom (map_of (x_groupDirs w'))) (\<lambda>_ _. False) w"
  using assms
proof (induction gs arbitrary: w H)
  case Nil
  then show ?case by (auto simp: wps made_def simp del: io_simps)
next
  case (Cons g gs)
  have "reachable_group groups (Suc MAX_GROUP_DEPTH) (Some (s_id g))" using Cons.prems(2) by (intro listed_reachable) simp
  note first = groupDir_ok [OF Cons.prems(1) this]
  have rest: "wp (make_group_dirs groups (groupParents (map as_grouped groups)) r gs)
     (\<lambda>_ w'. made G r P w w' \<and> s_id ` set (g # gs) \<subseteq> dom (map_of (x_groupDirs w'))) (\<lambda>_ _. False) w1"
    if step: "dir_step G r H P w d w1" "map_of (x_groupDirs w1) (s_id g) \<noteq> None" for d w1
  proof -
    obtain H1 where H1: "export_ok G r H1 P w1" "dom (map_of (x_groupDirs w)) \<subseteq> dom (map_of (x_groupDirs w1))"
      using step(1) by (rule dir_stepE)
    have "wp (make_group_dirs groups (groupParents (map as_grouped groups)) r gs)
       (\<lambda>_ w'. made G r P w1 w' \<and> s_id ` set gs \<subseteq> dom (map_of (x_groupDirs w'))) (\<lambda>_ _. False) w1"
      using Cons.IH [OF H1(1)] Cons.prems(2) by simp
    then show ?thesis by (rule wp_mono) (use H1(2) step(2) in \<open>auto simp: made_def\<close>)
  qed
  show ?case unfolding make_group_dirs.simps wp_bind by (rule wp_mono [OF first]) (blast intro: rest)+
qed

lemma section_dir_ok:
  assumes "export_ok G r H P w"
  shows "wp (section_dir groups (groupParents (map as_grouped groups)) r s) (dir_step G r H P w) (\<lambda>_ _. False) w"
proof -
  note first = groupDir_ok [OF assms section_group_reachable]
  have rest: "wp (named_dir d (safeName (sp_title s) ''Untitled section'')) (dir_step G r H P w) (\<lambda>_ _. False) w1"
    if "dir_step G r H P w d w1" for d w1
  proof -
    from that obtain H1 where H1: "H \<subseteq> H1" "export_ok G r H1 P w1" "spot r H1 d" "dom (map_of (x_groupDirs w)) \<subseteq> dom (map_of (x_groupDirs w1))"
      by (rule dir_stepE)
    show ?thesis
    proof (rule wp_mono [OF named_dir_ok [OF H1(2,3) safe_safeName [OF safe_fallbacks(2)]]], elim exE conjE)
      show "dir_step G r H P w x w2" if "H1 \<subseteq> H2" "export_ok G r H2 P w2" "spot r H2 x" "x_groupDirs w2 = x_groupDirs w1" for x w2 H2
        using that H1 by (intro dir_stepI [of H H2]) auto
    qed
  qed
  show ?thesis unfolding section_dir_def wp_bind by (rule wp_mono [OF first]) (blast intro: rest)+
qed

definition dirs_step :: "(string \<Rightarrow> bool) \<Rightarrow> string \<Rightarrow> handed \<Rightarrow> handed \<Rightarrow> 'o export_world \<Rightarrow> string list \<Rightarrow> 'o export_world \<Rightarrow> bool" where
  "dirs_step G r H P w dirs w' \<longleftrightarrow> (\<exists>H'. H \<subseteq> H' \<and> export_ok G r H' P w' \<and> list_all (spot r H') dirs) \<and> dom (map_of (x_groupDirs w)) \<subseteq> dom (map_of (x_groupDirs w'))"

lemma section_dirs_ok:
  assumes "export_ok G r H P w"
  shows "wp (section_dirs groups (groupParents (map as_grouped groups)) r ss)
     (\<lambda>rows w'. map fst rows = map s_id ss \<and> dirs_step G r H P w (map snd rows) w') (\<lambda>_ _. False) w"
  using assms
proof (induction ss arbitrary: w H)
  case Nil
  then show ?case by (auto simp: wps dirs_step_def simp del: io_simps)
next
  case (Cons s ss)
  have rest: "wp (bind_io (section_dirs groups (groupParents (map as_grouped groups)) r ss) (\<lambda>rest. ret ((s_id s, d) # rest)))
     (\<lambda>rows w'. map fst rows = map s_id (s # ss) \<and> dirs_step G r H P w (map snd rows) w') (\<lambda>_ _. False) w1"
    if "dir_step G r H P w d w1" for d w1
  proof -
    from that obtain H1 where H1: "H \<subseteq> H1" "export_ok G r H1 P w1" "spot r H1 d" "dom (map_of (x_groupDirs w)) \<subseteq> dom (map_of (x_groupDirs w1))"
      by (rule dir_stepE)
    have "dirs_step G r H P w (d # ds) w2" if "dirs_step G r H1 P w1 ds w2" for ds w2
      using that H1(1,4) spot_mono [OF H1(3)] unfolding dirs_step_def list.pred_inject by (meson subset_trans)
    then show ?thesis unfolding wp_bind by (intro wp_mono [OF Cons.IH [OF H1(2)]]) (auto simp: wp_ret simp del: io_simps)
  qed
  show ?case unfolding section_dirs.simps wp_bind [of "section_dir groups (groupParents (map as_grouped groups)) r s"]
    by (rule wp_mono [OF section_dir_ok [OF Cons.prems]]) (blast intro: rest)+
qed


section \<open>Attachments\<close>

lemma export_ok_frame [simp]:
  "export_ok G r H P (w\<lparr>t_outside := out\<rparr>) = export_ok G r H P w" "export_ok G r H P (w\<lparr>t_log := es\<rparr>) = export_ok G r H P w"
  "export_ok G r H P (w\<lparr>x_unreadable := n\<rparr>) = export_ok G r H P w" "export_ok G r H P (w\<lparr>x_failed := fs\<rparr>) = export_ok G r H P w"
  "export_ok G r H P (w\<lparr>x_paths := ps\<rparr>) = export_ok G r H P w" "export_ok G r H P (w\<lparr>x_pages := js\<rparr>) = export_ok G r H P w"
  by (simp_all add: export_ok_def)

lemma safe_id: "safe_segment (safeName i ''attachment'')"
  by (rule safe_safeName [OF safe_fallbacks(5)])

lemma attachments_apart:
  assumes "plain_id i" "plain_id j" "i \<noteq> j" "safe_segment f" "safe_segment g"
  shows "js_lower (attachment_path r i f) \<noteq> js_lower (attachment_path r j g)"
proof
  assume "js_lower (attachment_path r i f) = js_lower (attachment_path r j g)"
  then have "js_lower (attachments_dir r @ CHR ''/'' # safeName i ''attachment'') = js_lower (attachments_dir r @ CHR ''/'' # safeName j ''attachment'')"
    unfolding attachment_path_def lower_path_eq [OF safe_no_slash [OF assms(4)] safe_no_slash [OF assms(5)]] by blast
  then have "js_lower (safeName i ''attachment'') = js_lower (safeName j ''attachment'')"
    unfolding lower_path_eq [OF safe_no_slash [OF safe_id] safe_no_slash [OF safe_id]] by blast
  with assms(1-3) show False by (simp add: plain_id_def)
qed

lemma file_attachment_apart:
  assumes ok: "export_ok G r H P w" and dce: "(d, c, e) \<in> H" and k: "CHR ''/'' \<notin> set k" and f: "safe_segment f"
  shows "js_lower (d @ CHR ''/'' # k) \<noteq> js_lower (attachment_path r i f)"
proof
  assume eq: "js_lower (d @ CHR ''/'' # k) = js_lower (attachment_path r i f)"
  from ok have names: "names_ok r H (x_used w)" and H: "\<And>d c e. (d, c, e) \<in> H \<Longrightarrow> d \<noteq> attachments_dir r" by (auto simp: export_ok_def)
  have d: "d \<in> folders r H" using names dce by (auto simp: names_ok_def)
  from eq k f have low: "js_lower d = js_lower (attachments_dir r @ CHR ''/'' # safeName i ''attachment'')"
    unfolding attachment_path_def using lower_path_eq [OF _ safe_no_slash] by blast
  have "safe_segment r" using names by (simp add: names_ok_def)
  then have "CHR ''/'' \<notin> set (js_lower r)" by (intro lower_no_slash safe_no_slash)
  with low have "d \<noteq> r" by (auto simp: lower_path)
  with d obtain d' c' where d': "d = d' @ CHR ''/'' # c'" "(d', c', []) \<in> H" by (auto simp: folders_def)
  then have "d' \<in> folders r H" "safe_segment c'" using names by (auto simp: names_ok_def)
  moreover from this low have "js_lower d' = js_lower (attachments_dir r)"
    unfolding d'(1) using lower_path_eq [OF safe_no_slash safe_no_slash [OF safe_id]] by blast
  ultimately have "d' = attachments_dir r" using folder_eq [OF names] attachments_folder [OF ok] by blast
  with H [OF d'(2)] show False by simp
qed

lemma lower_extensions [simp]: "js_lower ''.md'' = ''.md''" "js_lower ''.canvas.json'' = ''.canvas.json''" "js_lower ''.json'' = ''.json''"
  by (simp_all add: js_lower_def js_lower_char_def)

lemma file_names_facts:
  assumes "k \<in> file_names c"
  shows "js_lower k \<in> set (name_keys c ''.md'')" "safe_segment c \<Longrightarrow> safe_segment k" "inj_on js_lower (file_names c)"
  using assms by (auto simp: file_names_def name_keys_def inj_on_def js_lower_append safe_extension)

lemma page_attachment_apart:
  assumes "export_ok G r H P w" "page_entry H p" "safe_segment f"
  shows "js_lower p \<noteq> js_lower (attachment_path r i f)"
proof -
  obtain d c k where p: "(d, c, ''.md'') \<in> H" "k \<in> file_names c" "p = d @ CHR ''/'' # k" using assms(2) by (auto simp: page_entry_def)
  then have "safe_segment c" using assms(1) by (auto simp: export_ok_def names_ok_def)
  with p(2) have "CHR ''/'' \<notin> set k" using file_names_facts(2) safe_no_slash by blast
  with p show ?thesis using file_attachment_apart [OF assms(1) p(1) _ assms(3)] by simp
qed

lemma page_entry_mono: "page_entry P p \<Longrightarrow> P \<subseteq> H \<Longrightarrow> page_entry H p"
  by (auto simp: page_entry_def)

lemma attachment_entry_mono: "attachment_entry r ids p \<Longrightarrow> attachment_entry r (ids @ more_ids) p"
  by (auto simp: attachment_entry_def)

definition opened_world :: "string \<Rightarrow> string \<Rightarrow> attachment_meta \<Rightarrow> bytes \<Rightarrow> 'o export_world \<Rightarrow> 'o export_world" where
  "opened_world i f meta data w = w\<lparr>x_meta := AList.update i meta (x_meta w), x_paths := AList.update i f (x_paths w),
     x_entries := x_entries w @ [\<lparr>z_path = f, z_data = data\<rparr>]\<rparr>"

lemma opened_ok:
  assumes ok: "export_ok G r H P w" and i: "map_of (x_meta w) i = None" "G i" and f: "safe_segment f"
  shows "export_ok G r H P (opened_world i (attachment_path r i f) meta data w)"
proof -
  let ?ids = "map fst (x_meta w)" and ?p = "attachment_path r i f"
  have new: "i \<notin> set ?ids" using i(1) by (simp add: map_of_eq_None_iff)
  then have ids: "map fst (AList.update i meta (x_meta w)) = ?ids @ [i]" by (simp add: update_new)
  have old: "page_entry P (z_path z) \<or> attachment_entry r ?ids (z_path z)" if "z \<in> set (x_entries w)" for z
    using ok that unfolding export_ok_def list_all_iff by blast
  have differs: "js_lower (z_path z) \<noteq> js_lower ?p" if z: "z \<in> set (x_entries w)" and plain: "list_all plain_id (?ids @ [i])" for z
    using old [OF z]
  proof
    assume "page_entry P (z_path z)"
    moreover have "P \<subseteq> H" using ok by (simp add: export_ok_def)
    ultimately show ?thesis using page_attachment_apart [OF ok _ f] page_entry_mono by blast
  next
    assume "attachment_entry r ?ids (z_path z)"
    then obtain j g where j: "j \<in> set ?ids" "safe_segment g" "z_path z = attachment_path r j g" by (auto simp: attachment_entry_def)
    moreover from j(1) plain have "plain_id i" "plain_id j" by (auto simp: list_all_iff)
    moreover from j(1) new have "j \<noteq> i" by blast
    ultimately show ?thesis using attachments_apart [of j i g f] f by simp
  qed
  have apart: "list_all plain_id (?ids @ [i]) \<longrightarrow> distinct (map (\<lambda>z. js_lower (z_path z)) (x_entries w) @ [js_lower ?p])"
  proof
    assume plain: "list_all plain_id (?ids @ [i])"
    have "list_all plain_id ?ids \<longrightarrow> distinct (map (\<lambda>z. js_lower (z_path z)) (x_entries w))" using ok by (simp add: export_ok_def)
    moreover have "js_lower ?p \<notin> (\<lambda>z. js_lower (z_path z)) ` set (x_entries w)" using differs [OF _ plain] by force
    ultimately show "distinct (map (\<lambda>z. js_lower (z_path z)) (x_entries w) @ [js_lower ?p])" using plain by simp
  qed
  have entry: "attachment_entry r (?ids @ [i]) ?p" using f by (auto simp: attachment_entry_def)
  have "list_all (\<lambda>z. page_entry P (z_path z) \<or> attachment_entry r (?ids @ [i]) (z_path z)) (x_entries w)"
    using old attachment_entry_mono unfolding list_all_iff by blast
  with ok apart entry i(2) show ?thesis by (simp add: export_ok_def opened_world_def ids)
qed

lemma attachment_path_joined:
  "safe_segment r \<Longrightarrow> safe_segment f \<Longrightarrow> join_path [join_path [r, ATTACHMENTS, safeName i ''attachment''], f] = attachment_path r i f"
  using safe_id [of i] by (simp add: join_path_def attachment_path_def safe_segment_def ATTACHMENTS_def)


lemma open_ref_ok:
  assumes ok: "export_ok G r H P w" and i: "map_of (x_meta w) (ar_id ref) = None" "G (ar_id ref)"
  shows "wp (open_ref r src ref) (\<lambda>_. export_ok G r H P) (\<lambda>_. export_ok G r H P) w"
proof -
  have r: "safe_segment r" using ok by (simp add: export_ok_def names_ok_def)
  have f: "safe_segment (safeName name ''file'')" for name by (rule safe_safeName [OF safe_fallbacks(6)])
  have "export_ok G r H P (opened_world (ar_id ref) (attachment_path r (ar_id ref) (safeName name ''file'')) meta data (w\<lparr>t_log := es, t_outside := out\<rparr>))"
    for name meta data es out using ok i f by (intro opened_ok) simp_all
  then show ?thesis using ok
    by (auto simp: open_ref_def wps attachment_path_joined [OF r f] opened_world_def wp_def [of "\<lambda>w. (Inr _, _ w)"] Let_def simp del: io_simps split: sum.split)
qed

lemma attach_one_ok:
  assumes ok: "export_ok G r H P w" and G: "G (ar_id ref)"
  shows "wp (attach_one r src found ref) (\<lambda>_. export_ok G r H P) (\<lambda>_ _. False) w"
proof -
  let ?open = "catch_io (bind_io (open_ref r src ref) (\<lambda>meta. ret (found @ [meta]))) (\<lambda>_. bind_io (mark_failed (ar_id ref)) (\<lambda>_. ret found))"
  have "wp ?open (\<lambda>_. export_ok G r H P) (\<lambda>_ _. False) w" if "map_of (x_meta w) (ar_id ref) = None"
    unfolding wp_catch wp_bind by (rule wp_mono [OF open_ref_ok [OF ok that G]]) (simp_all add: wp_ret wp_bind mark_failed_def wp_def)
  with ok show ?thesis by (auto simp: attach_one_def wp_def split: option.splits)
qed

lemma attach_refs_ok:
  "export_ok G r H P w \<Longrightarrow> list_all (\<lambda>ref. G (ar_id ref)) refs \<Longrightarrow> wp (attach_refs r src found refs) (\<lambda>_. export_ok G r H P) (\<lambda>_ _. False) w"
proof (induction refs arbitrary: w found)
  case (Cons ref refs)
  have "G (ar_id ref)" using Cons.prems(2) by simp
  from attach_one_ok [OF Cons.prems(1) this] show ?case
    unfolding attach_refs.simps wp_bind by (rule wp_mono) (use Cons in auto)
qed (simp add: wp_ret)

lemma wp_mark_failed [wps]: "wp (mark_failed i) Q E w = Q () (w\<lparr>x_failed := List.insert i (x_failed w), x_unreadable := x_unreadable w + 1\<rparr>)"
  by (simp add: wp_def mark_failed_def)

lemma wp_count [wps]: "wp count_unreadable Q E w = Q () (w\<lparr>x_unreadable := x_unreadable w + 1\<rparr>)"
  by (simp add: wp_def count_unreadable_def)

lemma wp_add_entry [wps]: "wp (add_entry path data) Q E w = Q () (w\<lparr>x_entries := x_entries w @ [\<lparr>z_path = path, z_data = data\<rparr>]\<rparr>)"
  by (simp add: wp_def add_entry_def)

text \<open>What the source promises of the identifiers it lists.\<close>

definition lists_only :: "(string \<Rightarrow> bool) \<Rightarrow> ('o, 'r) attachment_source \<Rightarrow> bool" where
  "lists_only G src \<longleftrightarrow> (\<forall>page out refs out'. as_list src page out = (Inr refs, out') \<longrightarrow> list_all (\<lambda>ref. G (ar_id ref)) refs)"

lemma pageAttachments_ok:
  assumes "export_ok G r H P w" "lists_only G src"
  shows "wp (pageAttachments r src page) (\<lambda>_. export_ok G r H P) (\<lambda>_ _. False) w"
proof -
  have "wp (catch_io (bind_io (call (as_list src page)) (\<lambda>refs. ret (Some refs))) (\<lambda>_. bind_io count_unreadable (\<lambda>_. ret None)))
     (\<lambda>listed w'. export_ok G r H P w' \<and> (case listed of None \<Rightarrow> True | Some refs \<Rightarrow> list_all (\<lambda>ref. G (ar_id ref)) refs)) (\<lambda>_ _. False) w"
    using assms by (auto simp: wps lists_only_def simp del: io_simps split: sum.split)
  then show ?thesis unfolding pageAttachments_def wp_bind [of "catch_io _ _"]
    by (rule wp_mono) (auto simp: wp_ret intro: attach_refs_ok simp del: io_simps split: option.splits)
qed


section \<open>Pages\<close>

lemma page_written:
  assumes ok: "export_ok G r H P w" and t: "(d, c, ''.md'') \<in> H - P" and ks: "set ks \<subseteq> file_names c" "distinct ks"
    and zs: "map z_path zs = map (\<lambda>k. d @ CHR ''/'' # k) ks"
  shows "export_ok G r H (insert (d, c, ''.md'') P) (w\<lparr>x_entries := x_entries w @ zs\<rparr>)"
proof -
  let ?P = "insert (d, c, ''.md'') P" and ?ids = "map fst (x_meta w)" and ?low = "\<lambda>z. js_lower (z_path z)"
  have names: "names_ok r H (x_used w)" and PH: "P \<subseteq> H" using ok by (simp_all add: export_ok_def)
  have new: "z_path z \<in> (\<lambda>k. d @ CHR ''/'' # k) ` set ks" if "z \<in> set zs" for z using arg_cong [OF zs, of set] that by auto
  have old: "page_entry P (z_path z) \<or> attachment_entry r ?ids (z_path z)" if "z \<in> set (x_entries w)" for z
    using ok that unfolding export_ok_def list_all_iff by blast
  have "page_entry ?P (z_path z)" if "z \<in> set zs" for z using new [OF that] ks(1) by (auto simp: page_entry_def)
  then have kinds: "list_all (\<lambda>z. page_entry ?P (z_path z) \<or> attachment_entry r ?ids (z_path z)) (x_entries w @ zs)"
    using old page_entry_mono [of P _ ?P] unfolding list_all_iff by (auto simp: subset_insertI)
  have apart: "?low z \<noteq> ?low z'" if z: "z \<in> set (x_entries w)" and z': "z' \<in> set zs" for z z'
  proof -
    obtain k where k: "k \<in> file_names c" "z_path z' = d @ CHR ''/'' # k" using new [OF z'] ks(1) by auto
    show ?thesis using old [OF z]
    proof
      assume "page_entry P (z_path z)"
      then obtain d1 c1 k1 where o1: "(d1, c1, ''.md'') \<in> P" "k1 \<in> file_names c1" "z_path z = d1 @ CHR ''/'' # k1" by (auto simp: page_entry_def)
      have "js_lower d1 @ CHR ''/'' # js_lower k1 \<noteq> js_lower d @ CHR ''/'' # js_lower k"
        using t o1(1) PH by (intro handed_apart [OF names _ _ _ _ _ file_names_facts(1) [OF o1(2)] file_names_facts(1) [OF k(1)]]) auto
      with o1(3) k(2) show ?thesis by (simp add: lower_path)
    next
      assume "attachment_entry r ?ids (z_path z)"
      then obtain i f where i: "safe_segment f" "z_path z = attachment_path r i f" by (auto simp: attachment_entry_def)
      have "page_entry H (z_path z')" using t k by (auto simp: page_entry_def)
      from page_attachment_apart [OF ok this i(1)] i(2) show ?thesis by simp metis
    qed
  qed
  have "map ?low zs = map (\<lambda>k. js_lower d @ CHR ''/'' # js_lower k) ks"
    using arg_cong [OF zs, of "map js_lower"] by (simp add: comp_def lower_path)
  moreover have "inj_on (\<lambda>k. js_lower d @ CHR ''/'' # js_lower k) (set ks)"
    using file_names_facts(3) ks(1) by (fastforce intro!: inj_onI dest: inj_onD)
  ultimately have "distinct (map ?low zs)" using ks(2) by (simp add: distinct_map)
  then have dist: "list_all plain_id ?ids \<longrightarrow> distinct (map ?low (x_entries w @ zs))"
    using ok apart by (auto simp: export_ok_def)
  show ?thesis using ok kinds dist t by (simp add: export_ok_def)
qed


lemma raw_name_file: "raw_name base canvas \<in> file_names base" "raw_name base canvas \<noteq> base @ ''.md''" "base @ ''.md'' \<in> file_names base"
  by (simp_all add: raw_name_def file_names_def)

lemma wp_add_page_json [wps]: "wp (add_page_json i v) Q E w = Q () (w\<lparr>x_pages := x_pages w @ [v], t_log := t_log w @ [PageWritten i]\<rparr>)"
  by (simp add: wp_def add_page_json_def)

lemma write_files_ok:
  assumes ok: "export_ok G r H P w" and t: "(dir, base, ''.md'') \<in> H - P"
  shows "wp (write_files r sectionID dir level page base attachments converted md) (\<lambda>_. export_ok G r H (insert (dir, base, ''.md'') P)) (\<lambda>_ _. False) w"
proof -
  have "names_ok r H (x_used w)" using ok by (simp add: export_ok_def)
  with t have "safe_path r dir" "safe_segment base" using folder_safe by (auto simp: names_ok_def)
  then have join: "k \<in> file_names base \<Longrightarrow> join_path [dir, k] = dir @ CHR ''/'' # k" for k
    using file_names_facts(2) [of k base] by (intro join_two) (auto simp: safe_path_nonempty safe_segment_def)
  have one: "export_ok G r H (insert (dir, base, ''.md'') P) (v\<lparr>x_entries := x_entries v @ [\<lparr>z_path = dir @ CHR ''/'' # (base @ ''.md''), z_data = a\<rparr>]\<rparr>)"
    if "export_ok G r H P v" for a v
    using raw_name_file by (intro page_written [OF that t, of "[base @ ''.md'']"]) simp_all
  have two: "export_ok G r H (insert (dir, base, ''.md'') P)
      (v\<lparr>x_entries := x_entries v @ [\<lparr>z_path = dir @ CHR ''/'' # (base @ ''.md''), z_data = a\<rparr>, \<lparr>z_path = dir @ CHR ''/'' # raw_name base canvas, z_data = b\<rparr>]\<rparr>)"
    if "export_ok G r H P v" for a b canvas v
    using raw_name_file(1,2) [of base canvas] raw_name_file(3) [of base] by (intro page_written [OF that t, of "[base @ ''.md'', raw_name base canvas]"]) auto
  show ?thesis
    unfolding write_files_def Let_def join [OF raw_name_file(1)] join [OF raw_name_file(3)]
    using one [of w] two [of w] one [of "w\<lparr>x_unreadable := x_unreadable w + 1\<rparr>"] two [of "w\<lparr>x_unreadable := x_unreadable w + 1\<rparr>"] ok
    by (simp add: wps del: io_simps)
qed

lemma write_page_ok:
  assumes "export_ok G r H P w" "(dir, base, ''.md'') \<in> H - P"
  shows "wp (write_page input r sectionID dir level page base attachments) (\<lambda>_. export_ok G r H (insert (dir, base, ''.md'') P)) (\<lambda>_ _. False) w"
proof -
  let ?canvas = "isCanvas (xn_body page)"
  obtain converted md where "page_text (ni_toMarkdown input) (x_paths w) (join_path [dir, base @ ''.md'']) (join_path [dir, raw_name base ?canvas]) base ?canvas (xn_body page) = (converted, md)"
    by fastforce
  then have "write_page input r sectionID dir level page base attachments w = write_files r sectionID dir level page base attachments converted md w"
    by (simp add: write_page_def)
  with write_files_ok [OF assms] show ?thesis unfolding wp_def by simp
qed

text \<open>Names handed out later and files written later do not matter to the next page.\<close>

definition ready :: "(string \<Rightarrow> bool) \<Rightarrow> string \<Rightarrow> handed \<Rightarrow> 'o export_world \<Rightarrow> bool" where
  "ready G r H w \<longleftrightarrow> (\<exists>H' P. H \<subseteq> H' \<and> export_ok G r H' P w)"

lemma export_page_ok:
  assumes w: "ready G r H w" and dir: "spot r H dir" and src: "lists_only G (ni_attachments input)"
  shows "wp (export_page input r sectionID dir index level page) (\<lambda>_. ready G r H) (\<lambda>_ _. False) w"
proof -
  obtain H1 P where H1: "H \<subseteq> H1" "export_ok G r H1 P w" using w by (auto simp: ready_def)
  have attached: "wp (pageAttachments r (ni_attachments input) (o_id page)) (\<lambda>_. export_ok G r (insert (dir, base, ''.md'') H1) P) (\<lambda>_ _. False) w1"
    if "handed_name G r H1 P w dir ''.md'' base w1" for base w1
    using that by (intro pageAttachments_ok [OF _ src]) (simp add: handed_name_def)
  have written: "wp (write_page input r sectionID dir level page base atts) (\<lambda>_. ready G r H) (\<lambda>_ _. False) w2"
    if "export_ok G r (insert (dir, base, ''.md'') H1) P w2" "(dir, base, ''.md'') \<notin> H1" for base atts w2
  proof (rule wp_mono [OF write_page_ok [OF that(1)]])
    show "(dir, base, ''.md'') \<in> insert (dir, base, ''.md'') H1 - P" using that(2) H1(2) by (auto simp: export_ok_def)
    show "export_ok G r (insert (dir, base, ''.md'') H1) (insert (dir, base, ''.md'') P) v \<Longrightarrow> ready G r H v" for v
      using H1(1) unfolding ready_def by (meson subset_insertI2)
  qed
  have "wp (bind_io (pageAttachments r (ni_attachments input) (o_id page)) (write_page input r sectionID dir level page base)) (\<lambda>_. ready G r H) (\<lambda>_ _. False) w1"
    if "handed_name G r H1 P w dir ''.md'' base w1" for base w1
    unfolding wp_bind using that by (intro wp_mono [OF attached [OF that]] written) (simp_all add: handed_name_def)
  then show ?thesis unfolding export_page_def wp_bind [of "name_in dir (page_name index (page_title page)) ''.md''"]
    by (intro wp_mono [OF name_in_ok [OF H1(2) spot_mono [OF dir H1(1)] safe_page_name]]) simp_all
qed

lemma export_pages_ok:
  assumes "spot r H dir" "lists_only G (ni_attachments input)" "ready G r H w"
  shows "wp (export_pages input r sectionID dir index pages) (\<lambda>_. ready G r H) (\<lambda>_ _. False) w"
  using assms(3)
proof (induction pages arbitrary: index w)
  case (Cons page pages)
  show ?case unfolding split_paired_all export_pages.simps(2) [of _ _ _ _ _ "fst page" "snd page", unfolded prod.collapse] wp_bind
    by (rule wp_mono [OF export_page_ok [OF Cons.prems assms(1,2)]]) (simp_all add: Cons.IH)
qed (simp add: wp_ret)

lemma export_lists_ok:
  assumes "list_all (spot r H) (map snd rows)" "lists_only G (ni_attachments input)" "ready G r H w"
  shows "wp (export_lists input r rows) (\<lambda>_. ready G r H) (\<lambda>_ _. False) w"
  using assms(1,3)
proof (induction rows arbitrary: w)
  case (Cons l rows)
  obtain sectionID dir where l: "l = (sectionID, dir)" by (cases l)
  with Cons.prems(1) have "spot r H dir" by simp
  from export_pages_ok [OF this assms(2) Cons.prems(2)] show ?case
    unfolding l export_lists.simps wp_bind export_list_def Let_def by (rule wp_mono) (use Cons in simp_all)
qed (simp add: wp_ret)


text \<open>The folders of the groups are not touched once they are made.\<close>

lemma keeps_here: "(\<And>v. keeps I (m v)) \<Longrightarrow> keeps I (\<lambda>w. m w w)"
  by (simp add: keeps_def wp_def)

lemma keeps_pages:
  fixes input :: "('o, 'r) notebook_input"
  shows "keeps (\<lambda>w. x_groupDirs w = gd) (export_lists input r rows)"
proof -
  let ?I = "\<lambda>w :: 'o export_world. x_groupDirs w = gd"
  have small: "keeps ?I (name_in d n e)" "keeps ?I (open_ref r src ref)" "keeps ?I (mark_failed i)" "keeps ?I count_unreadable"
    "keeps ?I (add_entry p b)" "keeps ?I (add_page_json i v)" "keeps ?I (call m)"
    for d n e i p b v and src :: "('o, 'r) attachment_source" and ref and m :: "('o, 'z) io"
    by (auto simp: keeps_def wp_name_in wps open_ref_def wp_def [of "\<lambda>w. (Inr _, _ w)"] Let_def simp del: io_simps split: sum.split)
  have one: "keeps ?I (attach_one r src found ref)" for src :: "('o, 'r) attachment_source" and found ref
  proof -
    have "keeps ?I (if ar_id ref \<in> set (x_failed v) \<or> ar_id ref \<in> am_id ` set found then ret found
      else case map_of (x_meta v) (ar_id ref) of
        Some meta \<Rightarrow> ret (found @ [meta])
      | None \<Rightarrow> catch_io (bind_io (open_ref r src ref) (\<lambda>meta. ret (found @ [meta]))) (\<lambda>_. bind_io (mark_failed (ar_id ref)) (\<lambda>_. ret found)))"
      for v :: "'o export_world" by (intro keepers small)
    then show ?thesis unfolding attach_one_def by (rule keeps_here)
  qed
  have "keeps ?I (attach_refs r src found refs)" for src :: "('o, 'r) attachment_source" and found refs
    by (induction refs arbitrary: found) (auto intro!: keepers one)
  then have atts: "keeps ?I (pageAttachments r src page)" for src :: "('o, 'r) attachment_source" and page
    unfolding pageAttachments_def by (intro keepers small)
  have files: "keeps ?I (write_files r sectionID dir level page base as c md)" for sectionID dir level page base as c md
    unfolding write_files_def Let_def by (intro keepers small)
  have "keeps ?I (write_page input r sectionID dir level page base as)" for sectionID dir level page base as
    using files unfolding keeps_def wp_def write_page_def Let_def case_prod_beta by blast
  then have page: "keeps ?I (export_page input r sectionID dir index level page)" for sectionID dir index level page
    unfolding export_page_def by (intro keepers small atts)
  have "keeps ?I (export_pages input r sectionID dir index ps)" for sectionID dir index ps
    by (induction ps arbitrary: index) (auto intro!: keepers page)
  then have "keeps ?I (export_list input r sectionID dir)" for sectionID dir unfolding export_list_def Let_def .
  then show ?thesis by (induction rows) (auto intro!: keepers)
qed

lemma wp_conj: "wp m Q E w \<Longrightarrow> wp m Q' E' w \<Longrightarrow> wp m (\<lambda>x w. Q x w \<and> Q' x w) (\<lambda>e w. E e w \<and> E' e w) w"
  by (auto simp: wp_def split: prod.splits sum.splits)

section \<open>The whole export\<close>

definition start_names :: "string \<Rightarrow> handed" where
  "start_names r = {(r, ''manifest'', ''.json''), (r, ATTACHMENTS, [])}"

lemma start_ok:
  assumes r: "safe_segment r"
  shows "wp (bind_io (name_in r ''manifest'' ''.json'') (\<lambda>_. name_in r ATTACHMENTS [])) (\<lambda>_. export_ok G r (start_names r) {}) (\<lambda>_ _. False) (fresh_export n w)"
proof -
  let ?u = "[(r, [''manifest.json''])]" and ?v = "[(r, [''attachments'', ''manifest.json''])]"
  have low: "js_lower ''manifest.json'' = ''manifest.json''" "js_lower ''attachments'' = ''attachments''" by (simp_all add: js_lower_def js_lower_char_def)
  have first: "namer [] r ''manifest'' ''.json'' = (''manifest'', ?u)"
    by (simp add: namer_def taken_in_def free_number.simps [of "[]"] clashes_def name_keys_def candidate_def low List.insert_def)
  have "free_number [''manifest.json''] ''attachments'' [] (Suc 0) = Suc 0"
    by (subst free_number.simps) (simp add: clashes_def name_keys_def candidate_def low)
  then have second: "namer ?u r ATTACHMENTS [] = (ATTACHMENTS, ?v)"
    by (simp add: namer_def taken_in_def ATTACHMENTS_def Let_def name_keys_def candidate_def low List.insert_def)
  note a = names_ok_add [OF names_ok_start [OF r] _ safe_fallbacks(8) first]
  have "names_ok r (insert (r, ATTACHMENTS, []) (insert (r, ''manifest'', ''.json'') {})) ?v"
    by (rule names_ok_add(1) [OF a(1) _ safe_fallbacks(7) second]) (simp_all add: folders_def)
  moreover have "length r \<noteq> length (attachments_dir r)" by simp
  then have "r \<noteq> attachments_dir r" by metis
  ultimately have "export_ok G r (start_names r) {} (fresh_export n w\<lparr>x_used := ?v\<rparr>)"
    by (auto simp: export_ok_def start_names_def fresh_export_def traced.defs insert_commute)
  moreover have "x_used (fresh_export n w) = []" by (simp add: fresh_export_def traced.defs)
  ultimately show ?thesis by (simp add: wp_bind wp_name_in first second)
qed


lemma result_list_total: "(\<And>x. x \<in> set xs \<Longrightarrow> \<exists>y. f x = Inr y) \<Longrightarrow> \<exists>ys. result_list (map f xs) = Inr ys"
proof (induction xs)
  case (Cons x xs)
  then obtain y ys where "f x = Inr y" "result_list (map f xs) = Inr ys" by (metis list.set_intros)
  then show ?case by simp
qed simp

lemma result_list_each: "result_list (map f xs) = Inr ys \<Longrightarrow> y \<in> set ys \<Longrightarrow> \<exists>x\<in>set xs. f x = Inr y"
  by (induction xs arbitrary: ys) (auto simp: rbind_eq_Inr)

lemma set_sorted [simp]: "set (sortedSections ss) = set ss" "set (groups_in_order gs ps) = set gs"
proof -
  have "set (sort_by le xs) = set xs" for le and xs :: "section_obj list" by (metis mset_sort_by set_mset_mset)
  then show "set (sortedSections ss) = set ss" "set (groups_in_order gs ps) = set gs" by (simp_all add: sortedSections_def groups_in_order_def)
qed

lemma section_lists_ok:
  assumes rows: "map fst rows = map s_id ss" and dirs: "list_all (spot r H) (map snd rows)"
  shows "\<exists>ls. section_lists ss (spread [] rows) = Inr ls \<and> list_all (spot r H) (map snd ls) \<and> (\<forall>s\<in>set ss. map_of (spread [] rows) (s_id s) \<noteq> None)"
proof -
  have "dom (map_of (spread [] rows)) = fst ` set rows" by (induction rows rule: rev_induct) (simp_all add: spread_snoc split_paired_all, force)
  also have "fst ` set rows = s_id ` set ss" using arg_cong [OF rows, of set] by simp
  finally have each: "map_of (spread [] rows) (s_id s) \<noteq> None" if "s \<in> set ss" for s using that by blast
  let ?f = "\<lambda>s. case map_of (spread [] rows) (s_id s) of Some d \<Rightarrow> Inr (Some (s_id s), d) | None \<Rightarrow> Inl TypeError"
  have "\<exists>y. ?f s = Inr y" if "s \<in> set ss" for s using each [OF that] by (auto split: option.splits)
  from result_list_total [of ss ?f, OF this] obtain ls where ls: "result_list (map ?f ss) = Inr ls" by blast
  have "spot r H (snd y)" if y: "y \<in> set ls" for y
  proof -
    obtain s where "s \<in> set ss" "?f s = Inr y" using result_list_each [OF ls y] by blast
    from this(2) obtain d where "map_of (spread [] rows) (s_id s) = Some d" "y = (Some (s_id s), d)" by (cases "map_of (spread [] rows) (s_id s)") auto
    then have "(s_id s, d) \<in> set rows" "snd y = d" using map_of_SomeD set_spread [of "[]" rows] by fastforce+
    with dirs show ?thesis by (force simp: list_all_iff)
  qed
  with ls each show ?thesis by (auto simp: section_lists_def list_all_iff)
qed

lemma finish_ok:
  assumes r: "r \<noteq> []" and groups: "s_id ` set (ni_groups input) \<subseteq> dom (map_of (x_groupDirs w))"
    and sections: "\<forall>s\<in>set (ni_sections input). map_of sectionDirs (s_id s) \<noteq> None"
  shows "\<exists>data. finish_export input stamp r parents sectionDirs w =
     (Inr \<lparr>ex_entries = \<lparr>z_path = r @ CHR ''/'' # ''manifest.json'', z_data = data\<rparr> # x_entries w, ex_pages = length (x_pages w), ex_unreadable = x_unreadable w\<rparr>, w)"
proof -
  have "\<exists>y. group_json r parents (x_groupDirs w) g = Inr y" if "g \<in> set (ni_groups input)" for g
    using groups that by (auto simp: group_json_def sliced_def split: option.splits)
  from result_list_total [of "ni_groups input" "group_json r parents (x_groupDirs w)", OF this] obtain gs where gs: "result_list (map (group_json r parents (x_groupDirs w)) (ni_groups input)) = Inr gs" by blast
  have "\<exists>y. section_json r parents sectionDirs s = Inr y" if "s \<in> set (sortedSections (ni_sections input))" for s
    using sections that by (auto simp: section_json_def sliced_def split: option.splits)
  from result_list_total [of "sortedSections (ni_sections input)" "section_json r parents sectionDirs", OF this] obtain ss where ss: "result_list (map (section_json r parents sectionDirs) (sortedSections (ni_sections input))) = Inr ss" by blast
  show ?thesis using r by (auto simp: finish_export_def gs ss Let_def join_two)
qed

text \<open>What the export returns, given the state it ended in.\<close>

definition returned :: "(string \<Rightarrow> bool) \<Rightarrow> string \<Rightarrow> exported \<Rightarrow> 'o export_world \<Rightarrow> bool" where
  "returned G r res w \<longleftrightarrow> ready G r (start_names r) w \<and>
     (\<exists>data. ex_entries res = \<lparr>z_path = r @ CHR ''/'' # ''manifest.json'', z_data = data\<rparr> # x_entries w) \<and>
     ex_pages res = length (x_pages w) \<and> ex_unreadable res = x_unreadable w"


lemma export_body_ok:
  assumes w: "export_ok G r H {} w" "start_names r \<subseteq> H" and src: "lists_only G (ni_attachments input)"
    and rows: "map fst rows = map s_id (sortedSections (ni_sections input))" "list_all (spot r H) (map snd rows)"
    and groups: "s_id ` set (ni_groups input) \<subseteq> dom (map_of (x_groupDirs w))"
  shows "wp (export_body input stamp r parents (spread [] rows)) (returned G r) (\<lambda>_ _. False) w"
proof -
  obtain ls where ls: "section_lists (sortedSections (ni_sections input)) (spread [] rows) = Inr ls" "list_all (spot r H) (map snd ls)"
    and known: "\<forall>s\<in>set (ni_sections input). map_of (spread [] rows) (s_id s) \<noteq> None"
    using section_lists_ok [OF rows] by auto
  have r: "r \<noteq> []" using w(1) by (auto simp: export_ok_def names_ok_def safe_segment_def)
  have pages: "wp (bind_io (export_lists input r (ls @ [(None, quick)])) (\<lambda>_. finish_export input stamp r parents (spread [] rows))) (returned G r) (\<lambda>_ _. False) w1"
    if H1: "H \<subseteq> H1" "export_ok G r H1 {} w1" "spot r H1 quick" "x_groupDirs w1 = x_groupDirs w" for quick w1 H1
  proof -
    have "list_all (spot r H1) (map snd (ls @ [(None, quick)]))" using ls(2) spot_mono [OF _ H1(1)] H1(3) by (auto simp: list_all_iff)
    moreover have "ready G r H1 w1" using H1(2) by (auto simp: ready_def)
    ultimately have "wp (export_lists input r (ls @ [(None, quick)])) (\<lambda>_. ready G r H1) (\<lambda>_ _. False) w1" by (intro export_lists_ok src)
    from wp_conj [OF this keepsD [OF keeps_pages [of "x_groupDirs w"] H1(4)]]
    show ?thesis unfolding wp_bind
    proof (rule wp_mono)
      fix w2 :: "'a export_world"
      assume w2: "ready G r H1 w2 \<and> x_groupDirs w2 = x_groupDirs w"
      with groups have "s_id ` set (ni_groups input) \<subseteq> dom (map_of (x_groupDirs w2))" by simp
      from finish_ok [OF r this known] obtain data where "finish_export input stamp r parents (spread [] rows) w2 =
        (Inr \<lparr>ex_entries = \<lparr>z_path = r @ CHR ''/'' # ''manifest.json'', z_data = data\<rparr> # x_entries w2, ex_pages = length (x_pages w2), ex_unreadable = x_unreadable w2\<rparr>, w2)"
        by blast
      moreover have "ready G r (start_names r) w2" using w2 w(2) H1(1) unfolding ready_def by blast
      ultimately show "wp (finish_export input stamp r parents (spread [] rows)) (returned G r) (\<lambda>_ _. False) w2" by (simp add: wp_def returned_def)
    qed simp
  qed
  have "wp (named_dir r ''Quick Notes'') (\<lambda>quick w1. \<exists>H1. H \<subseteq> H1 \<and> export_ok G r H1 {} w1 \<and> spot r H1 quick \<and> x_groupDirs w1 = x_groupDirs w) (\<lambda>_ _. False) w"
    by (rule named_dir_ok [OF w(1) spot_root safe_fallbacks(3)])
  then have "wp (bind_io (named_dir r ''Quick Notes'') (\<lambda>quick. bind_io (export_lists input r (ls @ [(None, quick)])) (\<lambda>_. finish_export input stamp r parents (spread [] rows))))
     (returned G r) (\<lambda>_ _. False) w"
    unfolding wp_bind [of "named_dir r ''Quick Notes''"] by (rule wp_mono) (blast intro: pages)+
  then show ?thesis by (simp add: export_body_def wp_def bind_io_def ls(1))
qed

lemma export_from_ok:
  assumes r: "safe_segment r" and src: "lists_only G (ni_attachments input)"
  shows "wp (export_from input stamp r) (returned G r) (\<lambda>_ _. False) (fresh_export n w)"
proof -
  let ?ps = "groupParents (map as_grouped (ni_groups input))" and ?ss = "sortedSections (ni_sections input)"
  have body: "wp (bind_io (section_dirs (ni_groups input) ?ps r ?ss) (\<lambda>rows. export_body input stamp r ?ps (spread [] rows))) (returned G r) (\<lambda>_ _. False) w2"
    if w2: "export_ok G r H {} w2" "s_id ` set (ni_groups input) \<subseteq> dom (map_of (x_groupDirs w2))" for H w2
    unfolding wp_bind
  proof (rule wp_mono [OF section_dirs_ok [OF w2(1)]], elim conjE)
    fix rows w3
    assume rows: "map fst rows = map s_id ?ss" and step: "dirs_step G r H {} w2 (map snd rows) w3"
    then obtain H' where H': "export_ok G r H' {} w3" "list_all (spot r H') (map snd rows)" and "dom (map_of (x_groupDirs w2)) \<subseteq> dom (map_of (x_groupDirs w3))"
      by (auto simp: dirs_step_def)
    with w2(2) have "s_id ` set (ni_groups input) \<subseteq> dom (map_of (x_groupDirs w3))" by blast
    moreover have "start_names r \<subseteq> H'" using H'(1) by (auto simp: export_ok_def start_names_def)
    ultimately show "wp (export_body input stamp r ?ps (spread [] rows)) (returned G r) (\<lambda>_ _. False) w3"
      by (intro export_body_ok [OF H'(1) _ src rows H'(2)])
  qed
  have "wp (bind_io (make_group_dirs (ni_groups input) ?ps r (groups_in_order (ni_groups input) ?ps))
      (\<lambda>_. bind_io (section_dirs (ni_groups input) ?ps r ?ss) (\<lambda>rows. export_body input stamp r ?ps (spread [] rows)))) (returned G r) (\<lambda>_ _. False) w1"
    if "export_ok G r (start_names r) {} w1" for w1
    unfolding wp_bind [of "make_group_dirs _ _ _ _"]
    by (rule wp_mono [OF make_group_dirs_ok [OF that, of "groups_in_order (ni_groups input) ?ps" "ni_groups input"]]) (auto simp: made_def intro: body)
  then show ?thesis unfolding export_from_def Let_def wp_bind [of "bind_io _ _"]
    by (intro wp_mono [OF start_ok [OF r]]) simp_all
qed


section \<open>Paths of the export\<close>

lemma entries_inside:
  assumes "export_ok G r H P w" "z \<in> set (x_entries w)"
  shows "safe_path r (z_path z)"
proof -
  have names: "names_ok r H (x_used w)" "P \<subseteq> H" and r: "safe_segment r" using assms(1) by (auto simp: export_ok_def names_ok_def)
  have "page_entry P (z_path z) \<or> attachment_entry r (map fst (x_meta w)) (z_path z)"
    using assms unfolding export_ok_def list_all_iff by blast
  then show ?thesis
  proof
    assume "page_entry P (z_path z)"
    then obtain d c k where p: "(d, c, ''.md'') \<in> H" "k \<in> file_names c" "z_path z = d @ CHR ''/'' # k" using names(2) by (auto simp: page_entry_def)
    then have "safe_path r d" "safe_segment c" using names(1) folder_safe by (auto simp: names_ok_def)
    with p(2,3) show ?thesis using file_names_facts(2) safe_path_add by simp
  next
    assume "attachment_entry r (map fst (x_meta w)) (z_path z)"
    then obtain i f where "safe_segment f" "z_path z = attachment_path r i f" by (auto simp: attachment_entry_def)
    then show ?thesis unfolding attachment_path_def
      using safe_path_add safe_path_root [OF r] safe_fallbacks(7) safe_id by metis
  qed
qed

lemma manifest_apart:
  assumes ok: "export_ok G r H P w" and z: "z \<in> set (x_entries w)"
  shows "js_lower (z_path z) \<noteq> js_lower (r @ CHR ''/'' # ''manifest.json'')"
proof -
  have names: "names_ok r H (x_used w)" "P \<subseteq> H" "(r, ''manifest'', ''.json'') \<in> H" using ok by (auto simp: export_ok_def)
  have "page_entry P (z_path z) \<or> attachment_entry r (map fst (x_meta w)) (z_path z)"
    using assms unfolding export_ok_def list_all_iff by blast
  then show ?thesis
  proof
    assume "page_entry P (z_path z)"
    then obtain d c k where p: "(d, c, ''.md'') \<in> H" "k \<in> file_names c" "z_path z = d @ CHR ''/'' # k" using names(2) by (auto simp: page_entry_def)
    have "js_lower d @ CHR ''/'' # js_lower k \<noteq> js_lower r @ CHR ''/'' # js_lower (''manifest'' @ ''.json'')"
      by (rule handed_apart [OF names(1) p(1) names(3) _ _ _ file_names_facts(1) [OF p(2)] name_keys_head(1)]) simp_all
    with p(3) show ?thesis by (simp add: lower_path)
  next
    assume "attachment_entry r (map fst (x_meta w)) (z_path z)"
    then obtain i f where i: "safe_segment f" "z_path z = attachment_path r i f" by (auto simp: attachment_entry_def)
    have "js_lower (r @ CHR ''/'' # ''manifest.json'') \<noteq> js_lower (attachment_path r i f)"
      by (rule file_attachment_apart [OF ok names(3) _ i(1)]) simp
    with i(2) show ?thesis by metis
  qed
qed

lemma returned_facts:
  assumes "returned G r res w"
  shows "list_all (\<lambda>z. safe_path r (z_path z)) (ex_entries res)"
    "(\<And>i. G i \<Longrightarrow> plain_id i) \<Longrightarrow> distinct (map (\<lambda>z. js_lower (z_path z)) (ex_entries res))"
proof -
  obtain H P data where ok: "export_ok G r H P w" and res: "ex_entries res = \<lparr>z_path = r @ CHR ''/'' # ''manifest.json'', z_data = data\<rparr> # x_entries w"
    using assms by (auto simp: returned_def ready_def)
  have "safe_segment r" using ok by (simp add: export_ok_def names_ok_def)
  then have "safe_path r (r @ CHR ''/'' # (''manifest'' @ ''.json''))" by (intro safe_path_add safe_path_root safe_extension(2) safe_fallbacks(8))
  then show "list_all (\<lambda>z. safe_path r (z_path z)) (ex_entries res)" using entries_inside [OF ok] by (auto simp: res list_all_iff)
  assume G: "\<And>i. G i \<Longrightarrow> plain_id i"
  have "list_all G (map fst (x_meta w))" using ok by (simp add: export_ok_def)
  then have "list_all plain_id (map fst (x_meta w))" using G by (auto simp: list_all_iff)
  then have "distinct (map (\<lambda>z. js_lower (z_path z)) (x_entries w))" using ok by (simp add: export_ok_def)
  then show "distinct (map (\<lambda>z. js_lower (z_path z)) (ex_entries res))" using manifest_apart [OF ok] by (force simp: res)
qed

lemma build_returns:
  fixes input :: "('o, 'r) notebook_input"
  assumes "lists_only G (ni_attachments input)"
  shows "\<exists>res w' (v :: 'o export_world). buildNotebookExport input stamp w = (Inr res, w') \<and> returned G (safeName (ni_name input) ''Notebook'') res v"
proof -
  have "safe_segment (safeName (ni_name input) ''Notebook'')" by (rule safe_safeName [OF safe_fallbacks(4)])
  from export_from_ok [OF this assms, of stamp "ni_unreadable input" w] show ?thesis
    by (fastforce simp: wp_def buildNotebookExport_def split: prod.splits sum.splits)
qed


lemma attachment_id_plain: "prefixed_id ''att'' i \<Longrightarrow> plain_id i"
proof -
  assume "prefixed_id ''att'' i"
  then have len: "length i = 30" and start: "take 4 i = ''att_''" and rest: "list_all crockford (drop 4 i)"
    by (auto simp: prefixed_id_def)
  have i: "i = ''att_'' @ drop 4 i" using append_take_drop_id [of 4 i] start by metis
  have "\<not> UNSAFE c \<and> \<not> edge_char c \<and> js_lower_char c = c \<and> c \<noteq> CHR ''.''" if "c \<in> set i" for c
  proof -
    have "set i = set ''att_'' \<union> set (drop 4 i)" using arg_cong [OF i, of set] by simp
    with that rest have "c \<in> set ''att_'' \<or> crockford c" unfolding list_all_iff by blast
    then have "c \<in> set ''att_0123456789abcdefghjkmnpqrstvwxyz''" by (auto simp: crockford_def)
    then show ?thesis by (auto simp: UNSAFE_def edge_char_def js_space_def js_lower_char_def)
  qed
  then have ok: "\<And>c. c \<in> set i \<Longrightarrow> \<not> UNSAFE c" "\<And>c. c \<in> set i \<Longrightarrow> \<not> edge_char c" "\<And>c. c \<in> set i \<Longrightarrow> js_lower_char c = c" "CHR ''.'' \<notin> set i"
    by blast+
  have low: "js_lower i = i" unfolding js_lower_def by (rule map_idI, rule ok(3))
  have "map (\<lambda>c. if UNSAFE c then CHR ''_'' else c) i = i" by (rule map_idI) (simp only: ok(1) if_False)
  moreover have "dropWhile edge_char i = i" "dropWhile edge_char (rev i) = rev i"
    using ok(2) [OF hd_in_set] ok(2) [OF last_in_set] unfolding dropWhile_eq_self_iff by (auto simp: hd_rev)
  then have "trim_edges i = i" by (simp add: trim_edges_def)
  moreover have stem: "takeWhile (\<lambda>c. c \<noteq> CHR ''.'') i = i" using ok(4) unfolding takeWhile_eq_all_conv by blast
  have "\<not> reserved_stem i" using len by (auto simp: reserved_stem_def)
  then have "\<not> RESERVED i" unfolding RESERVED_def low stem .
  ultimately show "plain_id i" using len low by (auto simp: plain_id_def safeName_def Let_def MAX_NAME_def)
qed


text \<open>C18: when attachment identifiers have the form the server mints, no two entries of an export have the same path, even on a file system that
  ignores case, however the titles of pages, sections, groups and files coincide: unpacking overwrites nothing.\<close>

theorem export_overwrites_nothing:
  assumes "lists_only (prefixed_id ''att'') (ni_attachments input)"
  shows "\<exists>res w'. buildNotebookExport input stamp w = (Inr res, w') \<and> distinct (map (\<lambda>z. js_lower (z_path z)) (ex_entries res))"
  using build_returns [OF assms, of stamp w] returned_facts(2) [where G = "prefixed_id ''att''"] attachment_id_plain by blast

definition demo_input :: "(nat, unit) notebook_input" where
  "demo_input = \<lparr>ni_name = ''con'',
     ni_notes = [\<lparr>o_id = ''p1'', o_order = None, o_level = None, o_section = None, xn_title = ''../A'', xn_body = ''x''\<rparr>,
       \<lparr>o_id = ''p2'', o_order = None, o_level = None, o_section = None, xn_title = ''a'', xn_body = ''y''\<rparr>],
     ni_sections = [], ni_groups = [], ni_unreadable = 0,
     ni_attachments = \<lparr>as_list = (\<lambda>page n. (Inr [\<lparr>ar_id = ''att_0123456789abcdefghjkmnpqrs''\<rparr>], n)),
       as_open = (\<lambda>ref n. (Inr \<lparr>ea_id = ar_id ref, ea_name = ''f'', ea_type = ''t'', ea_bytes = []\<rparr>, Suc n))\<rparr>,
     ni_toMarkdown = (\<lambda>_. Inr ''text'')\<rparr>"

theorem export_overwrites_nothing_witness:
  "\<exists>res w'. buildNotebookExport demo_input ''2026-01-01T00:00:00.000Z'' \<lparr>t_outside = 0, t_random = (\<lambda>_. 0), t_drawn = 0, t_log = []\<rparr> = (Inr res, w') \<and>
     distinct (map (\<lambda>z. js_lower (z_path z)) (ex_entries res))"
proof (rule export_overwrites_nothing)
  show "lists_only (prefixed_id ''att'') (ni_attachments demo_input)"
    by (auto simp: lists_only_def demo_input_def prefixed_id_def crockford_def)
qed

end
