(* ===== verification/ExportRuns.thy ===== *)
theory ExportRuns
  imports ExportPaths
begin

text \<open>
  What the export promises beside its paths: links lead where they should, the Markdown serializer sees no address but a
  placeholder for each, every page is written exactly once and every attachment is opened at most once.
\<close>

section \<open>Links\<close>

text \<open>Following a relative link from a file: \<open>..\<close> leaves a folder, anything else is a percent-encoded name.\<close>

fun unpercent :: "string \<Rightarrow> bytes option" where
  "unpercent [] = Some []"
| "unpercent (c # s) =
     (if c = CHR ''%'' then
        (case s of
           a # b # t \<Rightarrow> (case (index_from 0 a ''0123456789ABCDEF'', index_from 0 b ''0123456789ABCDEF'') of
             (Some m, Some n) \<Rightarrow> map_option ((#) (of_nat (16 * m + n))) (unpercent t) | _ \<Rightarrow> None)
         | _ \<Rightarrow> None)
      else map_option ((@) (utf8_char c)) (unpercent s))"

definition decodeURIComponent :: "string \<Rightarrow> string option" where
  "decodeURIComponent s = Option.bind (unpercent s) decode"

fun follow :: "string list \<Rightarrow> string list \<Rightarrow> string list option" where
  "follow dir [] = Some dir"
| "follow dir (p # ps) = (if p = ''..'' then (if dir = [] then None else follow (butlast dir) ps)
     else Option.bind (decodeURIComponent p) (\<lambda>s. follow (dir @ [s]) ps))"

lemma unpercent_percent: "unpercent (percent b @ s) = map_option ((#) b) (unpercent s)"
proof -
  let ?d = "''0123456789ABCDEF''"
  have at: "index_from 0 (hex_upper n) ?d = Some (n mod 16)" for n
    using index_from_nth [of ?d "n mod 16" 0] by (simp add: hex_upper_def)
  have "16 * (unat b div 16 mod 16) + unat b mod 16 = unat b" using unat_byte_less [of b] by (simp add: less_mult_imp_div_less)
  then show ?thesis using at by (simp add: percent_def)
qed

lemma unpercent_bytes: "unpercent (concat (map percent bs) @ s) = map_option ((@) bs) (unpercent s)"
  by (induction bs) (simp_all add: unpercent_percent option.map_comp comp_def option.map_ident)

lemma unpercent_encoded: "unpercent (encodeURIComponent s) = Some (encode s)"
proof (induction s)
  case (Cons c s)
  have "uri_plain c \<Longrightarrow> c \<noteq> CHR ''%''" by (auto simp: uri_plain_def Let_def)
  with Cons show ?case by (simp add: encodeURIComponent_def encode_def unpercent_bytes)
qed (simp add: encodeURIComponent_def encode_def)

lemma decode_encoded [simp]: "decodeURIComponent (encodeURIComponent s) = Some s"
  by (simp add: decodeURIComponent_def unpercent_encoded)


lemma plain_not_slash: "uri_plain c \<Longrightarrow> c \<noteq> CHR ''/''"
  by (auto simp: uri_plain_def)

lemma percent_no_slash: "CHR ''/'' \<notin> set (percent b)"
proof -
  have "hex_upper n \<in> set ''0123456789ABCDEF''" for n unfolding hex_upper_def by (rule nth_mem) simp
  moreover have "CHR ''/'' \<notin> set ''0123456789ABCDEF''" by simp
  ultimately have "hex_upper n \<noteq> CHR ''/''" for n by metis
  then show ?thesis by (simp add: percent_def) metis
qed

lemma encoded_no_slash: "CHR ''/'' \<notin> set (encodeURIComponent s)"
  using percent_no_slash plain_not_slash by (auto simp: encodeURIComponent_def split: if_splits)

lemma encoded_dots: "encodeURIComponent s = ''..'' \<Longrightarrow> s = ''..''"
proof -
  assume "encodeURIComponent s = ''..''"
  then have "Some s = decodeURIComponent ''..''" by (metis decode_encoded)
  also have "\<dots> = Some ''..''" by code_simp
  finally show ?thesis by simp
qed

lemma split_joined: "xs \<noteq> [] \<Longrightarrow> list_all (\<lambda>s. CHR ''/'' \<notin> set s) xs \<Longrightarrow> split_on (CHR ''/'') (join_with ''/'' xs) = xs"
  by (induction xs rule: induct_list012) (simp_all add: split_clean split_append)

lemma split_ups: "split_on (CHR ''/'') (concat (replicate m ''../'') @ s) = replicate m ''..'' @ split_on (CHR ''/'') s"
proof (induction m)
  case (Suc m)
  have "split_on (CHR ''/'') (''..'' @ CHR ''/'' # (concat (replicate m ''../'') @ s)) = ''..'' # split_on (CHR ''/'') (concat (replicate m ''../'') @ s)"
    by (rule split_append) simp
  with Suc show ?case by simp
qed simp

lemma follow_ups: "m \<le> length dir \<Longrightarrow> follow dir (replicate m ''..'' @ ps) = follow (take (length dir - m) dir) ps"
proof (induction m arbitrary: dir)
  case (Suc m)
  then have "follow (butlast dir) (replicate m ''..'' @ ps) = follow (take (length (butlast dir) - m) (butlast dir)) ps" by (intro Suc.IH) simp
  with Suc.prems show ?case by (auto simp: butlast_conv_take)
qed simp

lemma follow_names: "list_all (\<lambda>s. s \<noteq> ''..'') xs \<Longrightarrow> follow dir (map encodeURIComponent xs) = Some (dir @ xs)"
  using encoded_dots by (induction xs arbitrary: dir) auto

lemma shared_facts: "take (shared_segments dir target) dir = take (shared_segments dir target) target \<and> shared_segments dir target \<le> length dir \<and> (target \<noteq> [] \<longrightarrow> shared_segments dir target < length target)"
  by (induction dir target rule: shared_segments.induct) auto

text \<open>A link the export writes into a page leads to the file it names: followed from the page's folder, with every name decoded, it gives exactly the
  segments of the target's path.\<close>

lemma links_resolve:
  assumes "safe_path r to"
  shows "follow (butlast (split_on (CHR ''/'') fr)) (split_on (CHR ''/'') (linkTo fr to)) = Some (split_on (CHR ''/'') to)"
proof -
  let ?dir = "butlast (split_on (CHR ''/'') fr)" and ?target = "split_on (CHR ''/'') to"
  let ?n = "shared_segments ?dir ?target"
  note n = shared_facts [of ?dir ?target]
  have ne: "drop ?n ?target \<noteq> []" using n split_on_nonempty [of "CHR ''/''" to] by simp
  have "\<not> safe_segment ''..''" by (simp add: safe_segment_def edge_char_def)
  then have "list_all (\<lambda>s. s \<noteq> ''..'') ?target" using assms unfolding safe_path_def list_all_iff by metis
  then have names: "list_all (\<lambda>s. s \<noteq> ''..'') (drop ?n ?target)" unfolding list_all_iff by (meson in_set_dropD)
  have "split_on (CHR ''/'') (join_with ''/'' (map encodeURIComponent (drop ?n ?target))) = map encodeURIComponent (drop ?n ?target)"
    using ne encoded_no_slash by (intro split_joined) (simp_all add: list_all_iff)
  then have "split_on (CHR ''/'') (linkTo fr to) = replicate (length ?dir - ?n) ''..'' @ map encodeURIComponent (drop ?n ?target)"
    by (simp only: linkTo_def Let_def split_ups)
  then have "follow ?dir (split_on (CHR ''/'') (linkTo fr to)) = follow (take (length ?dir - (length ?dir - ?n)) ?dir) (map encodeURIComponent (drop ?n ?target))"
    by (simp only: follow_ups [OF diff_le_self])
  also have "length ?dir - (length ?dir - ?n) = ?n" using n by (intro diff_diff_cancel) blast
  also have "follow (take ?n ?dir) (map encodeURIComponent (drop ?n ?target)) = Some (take ?n ?dir @ drop ?n ?target)" by (rule follow_names [OF names])
  also have "take ?n ?dir = take ?n ?target" using n by blast
  finally show ?thesis by (simp only: append_take_drop_id)
qed

section \<open>Placeholders\<close>

text \<open>The addresses a serializer finds in blocks and their children, in order.\<close>

function seen_urls :: "json list \<Rightarrow> string list" where
  "seen_urls [] = []"
| "seen_urls (block # blocks) =
     (case block_url block of Some url \<Rightarrow> [url] | None \<Rightarrow> []) @
     (case field ''children'' block of Some (JArr xs) \<Rightarrow> seen_urls xs | _ \<Rightarrow> []) @ seen_urls blocks"
  by pat_completeness auto
termination
  by (relation "measure (size_list size)") (auto dest!: field_smaller)

lemma nat_text_not_word: "nat_text n \<noteq> ''props''" "nat_text n \<noteq> ''children''"
proof -
  have "is_digit (hd (nat_text n))" using nat_text_digits [of n] by (cases "nat_text n") auto
  then show "nat_text n \<noteq> ''props''" "nat_text n \<noteq> ''children''" by (auto simp: is_digit_def)
qed

lemma field_spread: "k \<in> {''props'', ''children''} \<Longrightarrow> map_of (spread_fields block) k = field k block"
proof -
  have "k \<in> {''props'', ''children''} \<Longrightarrow> map_of (zip (map nat_text [0..<n]) (xs :: json list)) k = None" for n xs
    by (auto simp: map_of_eq_None_iff nat_text_not_word [symmetric] dest!: set_zip_leftD)
  then show "k \<in> {''props'', ''children''} \<Longrightarrow> map_of (spread_fields block) k = field k block" by (cases block) (auto simp: field_def)
qed

lemma block_url_props: "block_url (JObj fs) = block_url block" if "map_of fs ''props'' = field ''props'' block"
  using that by (simp add: block_url_def field_def [of _ "JObj fs"])

lemma block_url_with: "block_url block = Some url \<Longrightarrow> block_url (with_url block p) = (if p = [] then None else Some p) \<and> field ''children'' (with_url block p) = field ''children'' block"
  using field_spread [of "''children''" block] by (auto simp: block_url_def with_url_def field_def [of _ "JObj _"])

lemma children_of_None: "children_of block = Inr None \<Longrightarrow> \<not> (\<exists>xs. field ''children'' block = Some (JArr xs))"
  by (auto simp: children_of_def split: if_splits option.splits json.splits)

lemma children_of_Some: "children_of block = Inr (Some xs) \<longleftrightarrow> field ''children'' block = Some (JArr xs)"
  by (auto simp: children_of_def split: if_splits option.splits json.splits)


definition placeholders :: "nat \<Rightarrow> nat \<Rightarrow> string list" where
  "placeholders m n = map (\<lambda>i. PLACEHOLDER @ nat_text i) [m..<n]"

lemma placeholders_append: "m \<le> n \<Longrightarrow> n \<le> k \<Longrightarrow> placeholders m n @ placeholders n k = placeholders m k"
  using upt_add_eq_append [of m n "k - n"] by (simp add: placeholders_def)

definition child_urls :: "json \<Rightarrow> string list" where
  "child_urls block = (case field ''children'' block of Some (JArr xs) \<Rightarrow> seen_urls xs | _ \<Rightarrow> [])"

definition own_url :: "json \<Rightarrow> string list" where
  "own_url block = (case block_url block of Some url \<Rightarrow> [url] | None \<Rightarrow> [])"

lemma seen_urls_Cons: "seen_urls (b # bs) = own_url b @ child_urls b @ seen_urls bs"
  by (simp add: own_url_def child_urls_def)

text \<open>One block: its own address is replaced, its children not yet.\<close>

definition hidden_own :: "(string, string) dict \<Rightarrow> string \<Rightarrow> json \<Rightarrow> string list \<Rightarrow> json \<times> string list" where
  "hidden_own paths fr block urls =
     (case block_url block of
        None \<Rightarrow> (JObj (spread_fields block), urls)
      | Some url \<Rightarrow> (with_url block (PLACEHOLDER @ nat_text (length urls)), urls @ [real_url paths fr url]))"

lemma hidden_own_facts:
  assumes "hidden_own paths fr block urls = (block1, urls1)"
  shows "urls1 = urls @ map (real_url paths fr) (own_url block)" "own_url block1 = placeholders (length urls) (length urls1)"
    "field ''children'' block1 = field ''children'' block" "block1 = JObj (spread_fields block1)"
proof -
  have same: "block_url (JObj (spread_fields block)) = block_url block" "field ''children'' (JObj (spread_fields block)) = field ''children'' block"
    using field_spread [of _ block] block_url_props [of "spread_fields block" block] by (auto simp: field_def [of _ "JObj _"])
  show "urls1 = urls @ map (real_url paths fr) (own_url block)" "own_url block1 = placeholders (length urls) (length urls1)"
    "field ''children'' block1 = field ''children'' block" "block1 = JObj (spread_fields block1)"
    using assms same block_url_with [of block]
    by (auto simp: hidden_own_def own_url_def placeholders_def PLACEHOLDER_def with_url_def split: option.splits)
qed

lemma with_children:
  assumes "block1 = JObj (spread_fields block1)"
  shows "own_url (JObj (AList.update ''children'' (JArr ys) (spread_fields block1))) = own_url block1"
    "child_urls (JObj (AList.update ''children'' (JArr ys) (spread_fields block1))) = seen_urls ys"
proof -
  have "field ''props'' block1 = map_of (spread_fields block1) ''props''" using field_spread [of "''props''" block1] by simp
  then show "own_url (JObj (AList.update ''children'' (JArr ys) (spread_fields block1))) = own_url block1"
    using block_url_props [of "AList.update ''children'' (JArr ys) (spread_fields block1)" block1] by (simp add: own_url_def)
  show "child_urls (JObj (AList.update ''children'' (JArr ys) (spread_fields block1))) = seen_urls ys"
    by (simp add: child_urls_def field_def)
qed


lemma hide_Cons:
  assumes "hide paths fr (block # blocks) urls = Inr (hs, urls')"
  obtains block1 urls1 block2 urls2 rest
  where "hidden_own paths fr block urls = (block1, urls1)" "hs = block2 # rest" "hide paths fr blocks urls2 = Inr (rest, urls')"
    "(children_of block = Inr None \<and> block2 = block1 \<and> urls2 = urls1) \<or>
     (\<exists>xs ys. children_of block = Inr (Some xs) \<and> hide paths fr xs urls1 = Inr (ys, urls2) \<and> block2 = JObj (AList.update ''children'' (JArr ys) (spread_fields block1)))"
proof -
  obtain block1 urls1 where own: "hidden_own paths fr block urls = (block1, urls1)" by fastforce
  let ?children = "case children_of block of Inl e \<Rightarrow> Inl e | Inr None \<Rightarrow> Inr (block1, urls1)
    | Inr (Some xs) \<Rightarrow> rbind (hide paths fr xs urls1) (\<lambda>(ys, urls2). Inr (JObj (AList.update ''children'' (JArr ys) (spread_fields block1)), urls2))"
  have "rbind ?children (\<lambda>(block2, urls2). rbind (hide paths fr blocks urls2) (\<lambda>(rest, urls3). Inr (block2 # rest, urls3))) = Inr (hs, urls')"
    using assms by (simp add: own [unfolded hidden_own_def] split: if_splits)
  then obtain block2 urls2 rest where "?children = Inr (block2, urls2)" "hide paths fr blocks urls2 = Inr (rest, urls')" "hs = block2 # rest"
    by (auto simp: rbind_eq_Inr)
  moreover from this(1) have "(children_of block = Inr None \<and> block2 = block1 \<and> urls2 = urls1) \<or>
     (\<exists>xs ys. children_of block = Inr (Some xs) \<and> hide paths fr xs urls1 = Inr (ys, urls2) \<and> block2 = JObj (AList.update ''children'' (JArr ys) (spread_fields block1)))"
    by (auto simp: rbind_eq_Inr split: sum.splits option.splits)
  ultimately show thesis using own that by blast
qed

definition hides :: "(string, string) dict \<Rightarrow> string \<Rightarrow> string list \<Rightarrow> string list \<Rightarrow> string list \<Rightarrow> string list \<Rightarrow> bool" where
  "hides paths fr before urls seen urls' \<longleftrightarrow> urls' = urls @ map (real_url paths fr) before \<and> seen = placeholders (length urls) (length urls')"

lemma hides_append:
  "hides paths fr a urls s urls1 \<Longrightarrow> hides paths fr b urls1 t urls2 \<Longrightarrow> hides paths fr (a @ b) urls (s @ t) urls2"
  by (auto simp: hides_def placeholders_append)

lemma hides_own: "hidden_own paths fr block urls = (block1, urls1) \<Longrightarrow> hides paths fr (own_url block) urls (own_url block1) urls1"
  by (simp add: hides_def hidden_own_facts)

lemma hides_nothing: "hides paths fr [] urls [] urls"
  by (simp add: hides_def placeholders_def)

lemma hide_facts: "hide paths fr blocks urls = Inr (hs, urls') \<Longrightarrow> hides paths fr (seen_urls blocks) urls (seen_urls hs) urls'"
proof (induction "size_list size blocks" arbitrary: blocks urls hs urls' rule: less_induct)
  case less
  show ?case
  proof (cases blocks)
    case Nil
    with less.prems show ?thesis by (auto simp: hides_nothing)
  next
    case (Cons block rest)
    from less.prems [unfolded Cons] obtain block1 urls1 block2 urls2 others
      where own: "hidden_own paths fr block urls = (block1, urls1)" and hs: "hs = block2 # others" and tail: "hide paths fr rest urls2 = Inr (others, urls')"
        and kids: "(children_of block = Inr None \<and> block2 = block1 \<and> urls2 = urls1) \<or>
     (\<exists>xs ys. children_of block = Inr (Some xs) \<and> hide paths fr xs urls1 = Inr (ys, urls2) \<and> block2 = JObj (AList.update ''children'' (JArr ys) (spread_fields block1)))"
      by (rule hide_Cons)
    note facts = hidden_own_facts [OF own]
    have "hides paths fr (child_urls block) urls1 (child_urls block2) urls2 \<and> own_url block2 = own_url block1" using kids
    proof (elim disjE exE conjE)
      assume none: "children_of block = Inr None" and "block2 = block1" "urls2 = urls1"
      moreover have "child_urls block = []" using children_of_None [OF none] by (auto simp: child_urls_def split: option.splits json.splits)
      ultimately show ?thesis using facts(3) hides_nothing by (simp add: child_urls_def)
    next
      fix xs ys
      assume some: "children_of block = Inr (Some xs)" and xs: "hide paths fr xs urls1 = Inr (ys, urls2)"
        and b2: "block2 = JObj (AList.update ''children'' (JArr ys) (spread_fields block1))"
      have "size_list size xs < size_list size blocks" using children_of_smaller [OF some] by (simp add: Cons)
      from less.hyps [OF this xs] some with_children [OF facts(4)] show ?thesis
        by (simp add: b2 child_urls_def children_of_Some)
    qed
    moreover have "hides paths fr (seen_urls rest) urls2 (seen_urls others) urls'" by (rule less.hyps [OF _ tail]) (simp add: Cons)
    ultimately show ?thesis unfolding Cons hs seen_urls_Cons using hides_own [OF own] by (auto intro: hides_append)
  qed
qed


definition demo_block :: "json" where
  "demo_block = JObj [(''type'', JStr ''image''), (''props'', JObj [(''url'', JStr ''attachment://att1'')]),
     (''children'', JArr [JObj [(''props'', JObj [(''url'', JStr ''https://x'')])]])]"


text \<open>Putting an address back.\<close>

lemma restore_placeholder:
  assumes "i < length urls" "rest = [] \<or> \<not> is_digit (hd rest)"
  shows "restore urls (PLACEHOLDER @ nat_text i @ rest) = urls ! i @ restore urls rest"
proof -
  obtain c s where cs: "PLACEHOLDER @ nat_text i @ rest = c # s" by (simp add: PLACEHOLDER_def)
  have "strip_prefix PLACEHOLDER (c # s) = Some (nat_text i @ rest)" by (simp add: strip_prefix_def flip: cs)
  moreover have "takeWhile is_digit (nat_text i @ rest) = nat_text i" "dropWhile is_digit (nat_text i @ rest) = rest"
    using take_digits [of "nat_text i" rest] nat_text_digits [of i] assms(2) by (cases rest; simp add: list_all_iff)+
  moreover have "nat_text i \<noteq> []" using nat_text_digits by blast
  ultimately show ?thesis using assms(1) by (simp only: cs restore.simps option.case Let_def read_nat_text if_False if_True)
qed


section \<open>Every page once, every attachment at most once\<close>

definition opened_ids :: "export_event list \<Rightarrow> string list" where
  "opened_ids es = List.map_filter (\<lambda>e. case e of Opening i \<Rightarrow> Some i | _ \<Rightarrow> None) es"

definition written_pages :: "export_event list \<Rightarrow> string list" where
  "written_pages es = List.map_filter (\<lambda>e. case e of PageWritten i \<Rightarrow> Some i | _ \<Rightarrow> None) es"

lemma event_simps [simp]:
  "opened_ids (es @ [Opening i]) = opened_ids es @ [i]" "opened_ids (es @ [PageWritten i]) = opened_ids es"
  "written_pages (es @ [Opening i]) = written_pages es" "written_pages (es @ [PageWritten i]) = written_pages es @ [i]"
  by (simp_all add: opened_ids_def written_pages_def map_filter_def)

text \<open>Since \<open>L\<close>, the pages \<open>ps\<close> were written and no attachment was opened twice: one that was opened is known or failed, apart from \<open>pending\<close>.\<close>

definition log_with :: "string set \<Rightarrow> export_event list \<Rightarrow> string list \<Rightarrow> 'o export_world \<Rightarrow> bool" where
  "log_with pending L ps w \<longleftrightarrow> (\<exists>es. t_log w = L @ es \<and> distinct (opened_ids es) \<and>
     set (opened_ids es) \<subseteq> fst ` set (x_meta w) \<union> set (x_failed w) \<union> pending \<and> written_pages es = ps \<and> length (x_pages w) = length ps)"

abbreviation log_ok :: "export_event list \<Rightarrow> string list \<Rightarrow> 'o export_world \<Rightarrow> bool" where "log_ok \<equiv> log_with {}"

lemma log_frame [simp]:
  "log_with X L ps (w\<lparr>x_used := u\<rparr>) = log_with X L ps w" "log_with X L ps (w\<lparr>x_groupDirs := g\<rparr>) = log_with X L ps w"
  "log_with X L ps (w\<lparr>x_unreadable := n\<rparr>) = log_with X L ps w" "log_with X L ps (w\<lparr>x_entries := z\<rparr>) = log_with X L ps w"
  "log_with X L ps (w\<lparr>t_outside := out\<rparr>) = log_with X L ps w" "log_with X L ps (w\<lparr>x_paths := p\<rparr>) = log_with X L ps w"
  by (simp_all add: log_with_def)

lemma keeps_naming:
  "keeps (log_ok L ps) (name_in d n e)" "keeps (log_ok L ps) (keep_group_dir i d)" "keeps (log_ok L ps) count_unreadable"
  "keeps (log_ok L ps) (add_entry p b)"
  by (auto simp: keeps_def wps wp_name_in keep_group_dir_def wp_def [of "keep_group_dir i d"] simp del: io_simps)

lemma keeps_named_dir: "keeps (log_ok L ps) (named_dir d n)"
  unfolding named_dir_def by (intro keepers keeps_naming)

lemma keeps_groupDir: "keeps (log_ok L ps) (groupDir n groups parents r cur :: ('o export_world, string) io)"
proof (induction n arbitrary: cur)
  case 0
  show ?case by (cases cur) (simp_all add: keepers del: io_simps)
next
  case (Suc n)
  show ?case
  proof (cases cur)
    case (Some i)
    have "keeps (log_ok L ps) (case map_of (x_groupDirs v) i of Some known \<Rightarrow> ret known
      | None \<Rightarrow> bind_io (groupDir n groups parents r (parent_of parents i) :: ('o export_world, string) io) (\<lambda>parentDir. case find (\<lambda>g. s_id g = i) groups of
          None \<Rightarrow> throw TypeError
        | Some g \<Rightarrow> bind_io (named_dir parentDir (safeName (sp_title g) ''Untitled group'')) (keep_group_dir i)))" for v :: "'o export_world"
      by (intro keepers keeps_named_dir keeps_naming Suc)
    then show ?thesis unfolding Some groupDir.simps by (rule keeps_here)
  qed (simp add: keepers del: io_simps)
qed

lemma keeps_dirs:
  "keeps (log_ok L ps) (make_group_dirs groups parents r gs)" "keeps (log_ok L ps) (section_dirs groups parents r ss)"
proof -
  show "keeps (log_ok L ps) (make_group_dirs groups parents r gs)"
  proof (induction gs)
    case (Cons g gs)
    then show ?case unfolding make_group_dirs.simps by (intro keepers keeps_groupDir)
  qed (simp add: keepers del: io_simps)
  have "keeps (log_ok L ps) (section_dir groups parents r s)" for s
    unfolding section_dir_def by (intro keepers keeps_groupDir keeps_named_dir)
  then show "keeps (log_ok L ps) (section_dirs groups parents r ss)" by (induction ss) (auto intro!: keepers)
qed

lemma open_ref_log:
  assumes "log_ok L ps w" "map_of (x_meta w) (ar_id ref) = None" "ar_id ref \<notin> set (x_failed w)"
  shows "wp (open_ref r src ref) (\<lambda>_. log_ok L ps) (\<lambda>_. log_with {ar_id ref} L ps) w"
proof -
  obtain es where es: "t_log w = L @ es" "distinct (opened_ids es)" "set (opened_ids es) \<subseteq> fst ` set (x_meta w) \<union> set (x_failed w)"
    "written_pages es = ps" "length (x_pages w) = length ps" using assms(1) by (auto simp: log_with_def)
  have new: "ar_id ref \<notin> fst ` set (x_meta w)" using assms(2) by (simp add: map_of_eq_None_iff)
  with es(3) assms(3) have "ar_id ref \<notin> set (opened_ids es)" by blast
  then have log: "L @ es @ [Opening (ar_id ref)] = L @ (es @ [Opening (ar_id ref)])" "distinct (opened_ids (es @ [Opening (ar_id ref)]))"
    "set (opened_ids (es @ [Opening (ar_id ref)])) \<subseteq> fst ` set (x_meta w) \<union> set (x_failed w) \<union> {ar_id ref}" using es by auto
  have failed: "log_with {ar_id ref} L ps (w\<lparr>t_log := t_log w @ [Opening (ar_id ref)]\<rparr>)"
    unfolding log_with_def using log es by (intro exI [of _ "es @ [Opening (ar_id ref)]"]) simp
  have ok: "log_ok L ps (w\<lparr>t_log := t_log w @ [Opening (ar_id ref)], x_meta := AList.update (ar_id ref) meta (x_meta w)\<rparr>)" for meta
    unfolding log_with_def using log es new by (intro exI [of _ "es @ [Opening (ar_id ref)]"]) (auto simp: update_new)
  have "log_ok L ps (w\<lparr>t_log := t_log w @ [Opening (ar_id ref)], t_outside := out, x_meta := AList.update (ar_id ref) meta (x_meta w), x_paths := p, x_entries := z\<rparr>)" for out meta p z
    using ok [of meta] by (simp add: log_with_def)
  then show ?thesis using failed
    by (auto simp: open_ref_def wps wp_def [of "\<lambda>w. (Inr _, _ w)"] Let_def simp del: io_simps split: sum.split)
qed


lemma attach_one_log: "keeps (log_ok L ps) (attach_one r src found ref)"
proof (rule keepsI)
  fix w :: "'a export_world"
  assume ok: "log_ok L ps w"
  let ?open = "catch_io (bind_io (open_ref r src ref) (\<lambda>meta. ret (found @ [meta]))) (\<lambda>_. bind_io (mark_failed (ar_id ref)) (\<lambda>_. ret found))"
  have "wp ?open (\<lambda>_. log_ok L ps) (\<lambda>_. log_ok L ps) w" if "map_of (x_meta w) (ar_id ref) = None" "ar_id ref \<notin> set (x_failed w)"
    unfolding wp_catch wp_bind by (rule wp_mono [OF open_ref_log [OF ok that]]) (auto simp: wps log_with_def simp del: io_simps)
  with ok show "wp (attach_one r src found ref) (\<lambda>_. log_ok L ps) (\<lambda>_. log_ok L ps) w"
    by (auto simp: attach_one_def wp_def split: option.splits)
qed

lemma pageAttachments_log: "keeps (log_ok L ps) (pageAttachments r src page)"
proof -
  have refs: "keeps (log_ok L ps) (attach_refs r src found refs)" for found refs
  proof (induction refs arbitrary: found)
    case (Cons ref refs)
    show ?case unfolding attach_refs.simps by (intro keepers attach_one_log Cons)
  qed (simp add: keepers del: io_simps)
  have "keeps (log_ok L ps) (call m)" for m by (auto simp: keeps_def wps split: sum.split)
  with refs show ?thesis unfolding pageAttachments_def by (intro keepers keeps_naming)
qed

definition writes :: "string list \<Rightarrow> ('o export_world, 'a) io \<Rightarrow> bool" where
  "writes new m \<longleftrightarrow> (\<forall>L ps w. log_ok L ps w \<longrightarrow> wp m (\<lambda>_. log_ok L (ps @ new)) (\<lambda>_ _. True) w)"

lemma writes_bind: "writes a m \<Longrightarrow> (\<And>x. writes b (f x)) \<Longrightarrow> writes (a @ b) (bind_io m f)"
proof -
  assume m: "writes a m" and f: "\<And>x. writes b (f x)"
  have "wp (bind_io m f) (\<lambda>_. log_ok L ((ps @ a) @ b)) (\<lambda>_ _. True) w" if "log_ok L ps w" for L ps w
  proof -
    have "wp m (\<lambda>_. log_ok L (ps @ a)) (\<lambda>_ _. True) w" using m that by (simp add: writes_def)
    then show ?thesis unfolding wp_bind by (rule wp_mono) (use f in \<open>auto simp only: writes_def\<close>)
  qed
  then show ?thesis by (simp add: writes_def)
qed

lemma writes_keeps: "(\<And>L ps. keeps (log_ok L ps) m) \<Longrightarrow> writes [] m"
  unfolding writes_def append_Nil2 by (blast intro: wp_mono [OF keepsD])

lemma write_page_log:
  fixes input :: "('o, 'r) notebook_input"
  shows "writes [o_id page] (write_page input r sectionID dir level page base atts)"
proof -
  have json: "writes [i] (add_page_json i v :: ('o export_world, unit) io)" for i v
  proof -
    have "log_ok L (ps @ [i]) (w\<lparr>x_pages := x_pages w @ [v], t_log := t_log w @ [PageWritten i]\<rparr>)" if ok: "log_ok L ps w" for L ps and w :: "'o export_world"
    proof -
      obtain es where "t_log w = L @ es" "distinct (opened_ids es)" "set (opened_ids es) \<subseteq> fst ` set (x_meta w) \<union> set (x_failed w)"
        "written_pages es = ps" "length (x_pages w) = length ps" using ok by (auto simp: log_with_def)
      then show ?thesis unfolding log_with_def by (intro exI [of _ "es @ [PageWritten i]"]) simp
    qed
    then show ?thesis by (simp add: writes_def wps)
  qed
  have quiet: "writes [] (if c then ret () else count_unreadable)" "writes [] (add_entry p b)" "writes [] (if c then add_entry p b else ret ())" for c p b
    by (intro writes_keeps keepers keeps_naming)+
  have "writes ([] @ [] @ [] @ [o_id page]) (write_files r sectionID dir level page base atts converted md :: ('o export_world, unit) io)" for converted md
    unfolding write_files_def Let_def by (intro writes_bind quiet json)
  then have "writes [o_id page] (write_files r sectionID dir level page base atts converted md :: ('o export_world, unit) io)" for converted md by simp
  then show ?thesis unfolding writes_def wp_def write_page_def Let_def case_prod_beta by blast
qed

lemma export_pages_log: "writes (map (\<lambda>p. o_id (snd p)) pages) (export_pages input r sectionID dir index pages)"
proof (induction pages arbitrary: index)
  case Nil
  show ?case by (simp add: writes_keeps keepers del: io_simps)
next
  case (Cons p pages)
  obtain level page where p: "p = (level, page)" by (cases p)
  have "writes ([] @ [] @ [o_id page]) (export_page input r sectionID dir index level page)"
    unfolding export_page_def by (intro writes_bind write_page_log writes_keeps keeps_naming pageAttachments_log)
  then have "writes [o_id page] (export_page input r sectionID dir index level page)" by simp
  from writes_bind [OF this Cons] show ?case by (simp add: p)
qed

definition listed_pages :: "('o, 'r) notebook_input \<Rightarrow> string option \<Rightarrow> export_note list" where
  "listed_pages input sectionID = pagesInSection (ni_notes input) (ni_sections input) (case sectionID of Some i \<Rightarrow> i | None \<Rightarrow> QUICK_NOTES)"

lemma export_lists_log: "writes (map o_id (concat (map (\<lambda>row. listed_pages input (fst row)) rows))) (export_lists input r rows)"
proof (induction rows)
  case Nil
  show ?case by (simp add: writes_keeps keepers del: io_simps)
next
  case (Cons row rows)
  have "map (\<lambda>p. o_id (snd p)) (zip (displayLevels ps) ps) = map o_id ps" for ps :: "export_note list"
  proof -
    have "map (\<lambda>p. o_id (snd p)) (zip (displayLevels ps) ps) = map o_id (map snd (zip (displayLevels ps) ps))" by (simp only: map_map comp_def)
    also have "map snd (zip (displayLevels ps) ps) = ps" by (rule map_snd_zip) simp
    finally show ?thesis .
  qed
  then have one: "writes (map o_id (listed_pages input (fst row))) (export_list input r (fst row) (snd row))"
    using export_pages_log [of "zip (displayLevels (listed_pages input (fst row))) (listed_pages input (fst row))"]
    by (simp add: export_list_def listed_pages_def Let_def)
  have "export_lists input r (row # rows) = bind_io (export_list input r (fst row) (snd row)) (\<lambda>_. export_lists input r rows)"
    by (cases row) simp
  with writes_bind [OF one Cons.IH] show ?case by simp
qed


lemma section_lists_ids: "section_lists ss dirs = Inr rows \<Longrightarrow> map fst rows = map (\<lambda>s. Some (s_id s)) ss"
  unfolding section_lists_def by (induction ss arbitrary: rows) (auto simp: rbind_eq_Inr split: option.splits)

text \<open>The pages an export writes, in its order.\<close>

definition all_lists :: "('o, 'r) notebook_input \<Rightarrow> string option list" where
  "all_lists input = map (\<lambda>s. Some (s_id s)) (sortedSections (ni_sections input)) @ [None]"

lemma export_from_log: "writes (map o_id (concat (map (listed_pages input) (all_lists input)))) (export_from input stamp r)"
proof -
  let ?out = "map o_id (concat (map (listed_pages input) (all_lists input)))"
  have finish: "writes [] (finish_export input stamp r parents dirs)" for parents dirs
    by (auto simp: writes_def wp_def finish_export_def split: sum.split)
  have body: "writes ?out (export_body input stamp r parents dirs)" for parents dirs
  proof (cases "section_lists (sortedSections (ni_sections input)) dirs")
    case (Inl e)
    then show ?thesis by (simp add: export_body_def writes_def wp_def bind_io_def)
  next
    case (Inr rows)
    have "map fst (rows @ [(None, quick)]) = all_lists input" for quick using section_lists_ids [OF Inr] by (simp add: all_lists_def)
    then have "map (\<lambda>row. listed_pages input (fst row)) (rows @ [(None, quick)]) = map (listed_pages input) (all_lists input)" for quick
      by (metis (no_types) map_map comp_def map_eq_conv)
    then have "writes ?out (export_lists input r (rows @ [(None, quick)]))" for quick using export_lists_log [of input "rows @ [(None, quick)]" r] by (simp only:)
    then have "writes ([] @ ?out @ []) (bind_io (named_dir r ''Quick Notes'') (\<lambda>quick. bind_io (export_lists input r (rows @ [(None, quick)])) (\<lambda>_. finish_export input stamp r parents dirs)))"
      by (intro writes_bind writes_keeps keeps_named_dir finish)
    then show ?thesis by (simp add: export_body_def Inr writes_def wp_def bind_io_def)
  qed
  have "writes (([] @ []) @ [] @ [] @ ?out) (export_from input stamp r)"
    unfolding export_from_def Let_def by (intro writes_bind body) (intro writes_keeps keeps_naming keeps_dirs)+
  then show ?thesis by simp
qed

text \<open>Lists that divide the pages among themselves hold every page once.\<close>

lemma mset_filters_Cons:
  "mset (concat (map (\<lambda>k. filter (P k) (p # ps)) ks)) =
   mset (concat (map (\<lambda>k. filter (P k) ps) ks)) + replicate_mset (length (filter (\<lambda>k. P k p) ks)) p"
  by (induction ks) simp_all

lemma mset_divided: "(\<And>p. p \<in> set ps \<Longrightarrow> length (filter (\<lambda>k. P k p) ks) = 1) \<Longrightarrow> mset (concat (map (\<lambda>k. filter (P k) ps) ks)) = mset ps"
proof (induction ps)
  case Nil
  show ?case by (induction ks) simp_all
next
  case (Cons p ps)
  then show ?case unfolding mset_filters_Cons by simp
qed

definition in_list :: "('o, 'r) notebook_input \<Rightarrow> string option \<Rightarrow> export_note \<Rightarrow> bool" where
  "in_list input k = in_section (ni_sections input) (case k of Some i \<Rightarrow> i | None \<Rightarrow> QUICK_NOTES)"

lemma one_key: "distinct (map f xs) \<Longrightarrow> x \<in> set xs \<Longrightarrow> length (filter (\<lambda>y. f x = f y) xs) = 1"
proof (induction xs)
  case (Cons y ys)
  then have "f x = f y \<Longrightarrow> filter (\<lambda>z. f x = f z) ys = []" by (auto simp: filter_empty_conv)
  with Cons show ?case by auto
qed simp

lemma one_list:
  assumes "distinct (map s_id (ni_sections input))" "list_all (\<lambda>s. OBJECT_ID (s_id s)) (ni_sections input)"
  shows "length (filter (\<lambda>k. in_list input k p) (all_lists input)) = 1"
proof -
  let ?ss = "sortedSections (ni_sections input)"
  have ids: "i \<noteq> QUICK_NOTES \<and> i \<noteq> []" if "i \<in> s_id ` set (ni_sections input)" for i
    using assms(2) that by (auto simp: list_all_iff OBJECT_ID_def prefixed_id_def QUICK_NOTES_def)
  have "mset (map s_id ?ss) = mset (map s_id (ni_sections input))" by (simp only: sortedSections_def mset_map mset_sort_by)
  then have dist: "distinct (map s_id ?ss)" using assms(1) mset_eq_imp_distinct_iff by blast
  have own: "filter (\<lambda>s. in_list input (Some (s_id s)) p) ?ss = filter (\<lambda>s. o_section p = Some (s_id s)) ?ss"
    using ids by (intro filter_cong) (auto simp: in_list_def in_section_def)
  have split: "length (filter (\<lambda>k. in_list input k p) (all_lists input)) =
    length (filter (\<lambda>s. o_section p = Some (s_id s)) ?ss) + (if in_list input None p then 1 else 0)"
    by (simp add: all_lists_def filter_map comp_def own)
  show ?thesis
  proof (cases "\<exists>s\<in>set ?ss. o_section p = Some (s_id s)")
    case True
    then obtain s where s: "s \<in> set ?ss" "o_section p = Some (s_id s)" by blast
    then have "\<not> in_list input None p" using ids [of "s_id s"] by (auto simp: in_list_def in_section_def set_order_def)
    moreover have "length (filter (\<lambda>x. o_section p = Some (s_id x)) ?ss) = 1"
      using one_key [OF dist s(1)] by (simp add: s(2))
    ultimately show ?thesis by (simp add: split)
  next
    case False
    then have "in_list input None p" by (cases "o_section p") (auto simp: in_list_def in_section_def set_order_def)
    with False show ?thesis by (simp add: split filter_empty_conv)
  qed
qed


lemma all_pages_once:
  assumes "distinct (map s_id (ni_sections input))" "list_all (\<lambda>s. OBJECT_ID (s_id s)) (ni_sections input)"
  shows "mset (map o_id (concat (map (listed_pages input) (all_lists input)))) = mset (map o_id (ni_notes input))"
proof -
  have "mset (listed_pages input k) = mset (filter (in_list input k) (ni_notes input))" for k
    by (simp add: listed_pages_def pagesInSection_def in_list_def mset_sort_by)
  then have "mset (concat (map (listed_pages input) ks)) = mset (concat (map (\<lambda>k. filter (in_list input k) (ni_notes input)) ks))" for ks
    by (induction ks) simp_all
  also have "mset (concat (map (\<lambda>k. filter (in_list input k) (ni_notes input)) (all_lists input))) = mset (ni_notes input)"
    using one_list [OF assms] by (intro mset_divided)
  finally show ?thesis by simp
qed




end
