(* ===== verification/Knowledge.thy ===== *)
theory Knowledge
  imports Document TaskDates Pins "HOL-Library.Sublist"
begin

text \<open>
  What the client finds in pages (\<open>web/src/knowledge.ts\<close>) and comments (\<open>web/src/mentions.ts\<close>): links, tags, open tasks, search, related pages and the graph of links. The source
  keeps results per page object, which never changes, so the caches are not part of the model. The lemmas: scanning finds what
  is written, in order; tasks are not empty; edges join pages that exist; searching keeps exactly the pages that contain the words.
\<close>

definition MAX_TASK_DEPTH :: nat where "MAX_TASK_DEPTH = 100"

record projection =
  pj_id :: string
  pj_title :: string
  pj_body :: string
  pj_updatedAt :: string
  pj_sourceBody :: "string option"

record 'n indexed_note = projection +
  pj_note :: 'n

definition indexNotes :: "'a projection_scheme list \<Rightarrow> 'a projection_scheme indexed_note list" where
  "indexNotes ns = map (\<lambda>note. \<lparr>pj_id = pj_id note, pj_title = pj_title note, pj_body = documentText (pj_body note), pj_updatedAt = pj_updatedAt note,
     pj_sourceBody = Some (pj_body note), pj_note = note\<rparr>) ns"

section \<open>Links and tags\<close>

text \<open>\<open>[[\<close>, at least one character other than \<open>]\<close>, then \<open>]]\<close>: the name and what follows.\<close>

definition link_here :: "string \<Rightarrow> (string \<times> string) option" where
  "link_here s =
     (case strip_prefix ''[['' s of
        None \<Rightarrow> None
      | Some r \<Rightarrow>
          let name = takeWhile (\<lambda>c. c \<noteq> CHR '']'') r; after = dropWhile (\<lambda>c. c \<noteq> CHR '']'') r in
          if name = [] then None else map_option (Pair name) (strip_prefix '']]'' after))"

lemma strip_prefix_append: "strip_prefix p s = Some r \<longleftrightarrow> s = p @ r"
  by (auto simp: strip_prefix_def) (metis append_take_drop_id)

lemma link_here_shorter: "link_here s = Some (name, r) \<Longrightarrow> length r < length s"
proof -
  assume "link_here s = Some (name, r)"
  then obtain t where "s = ''[['' @ t" "dropWhile (\<lambda>c. c \<noteq> CHR '']'') t = '']]'' @ r"
    by (auto simp: link_here_def Let_def strip_prefix_append split: option.splits if_splits)
  moreover from this(2) have "length ('']]'' @ r) \<le> length t" using length_dropWhile_le [of "\<lambda>c. c \<noteq> CHR '']''" t] by metis
  ultimately show ?thesis by simp
qed

function link_names :: "string \<Rightarrow> string list" where
  "link_names [] = []"
| "link_names (c # s) = (case link_here (c # s) of Some (name, r) \<Rightarrow> name # link_names r | None \<Rightarrow> link_names s)"
  by pat_completeness auto
termination by (relation "measure length") (auto dest: link_here_shorter)

definition noteLinks :: "'a projection_scheme \<Rightarrow> string list" where
  "noteLinks note = filter (\<lambda>s. s \<noteq> []) (map js_trim (link_names (pj_body note)))"

definition tag_char :: "char \<Rightarrow> bool" where
  "tag_char c = (let n = (of_char c :: nat) in 48 \<le> n \<and> n \<le> 57 \<or> 65 \<le> n \<and> n \<le> 90 \<or> 97 \<le> n \<and> n \<le> 122 \<or> c = CHR ''_'' \<or> c = CHR ''-'')"

definition hash_tag :: "string \<Rightarrow> (string \<times> string) option" where
  "hash_tag s =
     (case s of
        [] \<Rightarrow> None
      | c # r \<Rightarrow> if c = CHR ''#'' \<and> takeWhile tag_char r \<noteq> [] then Some (takeWhile tag_char r, dropWhile tag_char r) else None)"

text \<open>A tag stands at the start or after white space; the flag says whether this is the start.\<close>

definition tag_here :: "bool \<Rightarrow> string \<Rightarrow> (string \<times> string) option" where
  "tag_here start s =
     (case if start then hash_tag s else None of
        Some m \<Rightarrow> Some m
      | None \<Rightarrow> (case s of [] \<Rightarrow> None | c # r \<Rightarrow> if js_space c then hash_tag r else None))"

lemma hash_tag_shorter: "hash_tag s = Some (tag, r) \<Longrightarrow> length r < length s"
  using length_dropWhile_le [of tag_char "tl s"] by (auto simp: hash_tag_def le_imp_less_Suc split: list.splits if_splits)

lemma tag_here_shorter: "tag_here start s = Some (tag, r) \<Longrightarrow> length r < length s"
  by (auto simp: tag_here_def dest: hash_tag_shorter split: option.splits list.splits if_splits)

function tag_names :: "bool \<Rightarrow> string \<Rightarrow> string list" where
  "tag_names start [] = []"
| "tag_names start (c # s) = (case tag_here start (c # s) of Some (tag, r) \<Rightarrow> tag # tag_names False r | None \<Rightarrow> tag_names False s)"
  by pat_completeness auto
termination by (relation "measure (\<lambda>(start, s). length s)") (auto dest: tag_here_shorter)

definition noteTags :: "'a projection_scheme \<Rightarrow> string list" where
  "noteTags note = map js_lower (tag_names True (pj_body note))"

section \<open>Tasks\<close>

definition item_text :: "json \<Rightarrow> string" where
  "item_text item = (case str_of (field ''text'' item) of Some t \<Rightarrow> t | None \<Rightarrow> [])"

definition content_text :: "json option \<Rightarrow> string" where
  "content_text content = (case content of Some (JArr xs) \<Rightarrow> concat (map item_text xs) | Some (JStr s) \<Rightarrow> s | _ \<Rightarrow> [])"

definition is_checked :: "json \<Rightarrow> bool" where
  "is_checked block = (case field ''props'' block of Some props \<Rightarrow> field ''checked'' props = Some (JBool True) | None \<Rightarrow> False)"

text \<open>\<open>/^\[ \] (.+)$/\<close>: a dot is any character but a line end.\<close>

definition bullet_task :: "string \<Rightarrow> string option" where
  "bullet_task s =
     (case strip_prefix ''[ ] '' s of
        Some r \<Rightarrow> if r \<noteq> [] \<and> list_all (\<lambda>c. c \<noteq> CHR 0x0A \<and> c \<noteq> CHR 0x0D) r then Some r else None
      | None \<Rightarrow> None)"

definition check_tasks :: "json \<Rightarrow> string \<Rightarrow> string list" where
  "check_tasks block value = (if has_type ''checkListItem'' block \<and> \<not> is_checked block \<and> value \<noteq> [] then [value] else [])"

definition bullet_tasks :: "json \<Rightarrow> string \<Rightarrow> string list" where
  "bullet_tasks block value =
     (if has_type ''bulletListItem'' block then (case bullet_task value of Some v \<Rightarrow> [js_trim v] | None \<Rightarrow> []) else [])"

definition block_tasks :: "json \<Rightarrow> string list" where
  "block_tasks block = (let value = js_trim (content_text (field ''content'' block)) in check_tasks block value @ bullet_tasks block value)"

function visit_tasks :: "nat \<Rightarrow> json list \<Rightarrow> string list" where
  "visit_tasks depth [] = []"
| "visit_tasks depth (block # blocks) =
     (if depth > MAX_TASK_DEPTH then []
      else block_tasks block @ (case field ''children'' block of Some (JArr xs) \<Rightarrow> visit_tasks (Suc depth) xs | _ \<Rightarrow> []))
     @ visit_tasks depth blocks"
  by pat_completeness auto
termination
  by (relation "measure (\<lambda>(depth, blocks). size_list size blocks)") (auto dest!: field_smaller)

definition task_line :: "string \<Rightarrow> string option" where
  "task_line line = map_option js_trim (strip_prefix ''- [ ] '' (dropWhile js_space line))"

definition readTasks :: "string \<Rightarrow> string list result" where
  "readTasks source =
     rbind (structuredBlocks source) (\<lambda>b. Inr (case b of
        Some blocks \<Rightarrow> visit_tasks 0 blocks
      | None \<Rightarrow> List.map_filter task_line (split_on (CHR 0x0A) source)))"

definition parseTasks :: "string \<Rightarrow> string list" where
  "parseTasks source = (case readTasks source of Inr tasks \<Rightarrow> tasks | Inl _ \<Rightarrow> [])"

definition noteTasks :: "'a projection_scheme \<Rightarrow> string list" where
  "noteTasks note = parseTasks (case pj_sourceBody note of Some s \<Rightarrow> s | None \<Rightarrow> pj_body note)"

definition noteDatedTasks :: "'a projection_scheme \<Rightarrow> (task_dates \<times> string) list" where
  "noteDatedTasks note = map (\<lambda>raw. (parseTaskDates raw, raw)) (noteTasks note)"

section \<open>Search and related pages\<close>

definition searchNotes :: "'a projection_scheme list \<Rightarrow> string \<Rightarrow> 'a projection_scheme list" where
  "searchNotes ns query =
     (let needle = js_lower (js_trim query) in
      if needle = [] then ns else filter (\<lambda>note. sublist needle (js_lower (pj_title note @ [CHR 0x0A] @ pj_body note))) ns)"

definition openTaskNotes :: "'a projection_scheme list \<Rightarrow> 'a projection_scheme list" where
  "openTaskNotes ns = filter (\<lambda>note. noteTasks note \<noteq> []) ns"

definition related :: "'a projection_scheme \<Rightarrow> 'a projection_scheme \<Rightarrow> bool" where
  "related active note \<longleftrightarrow> pj_id note \<noteq> pj_id active \<and>
     (pj_id note \<in> set (noteLinks active) \<or> noteTasks note \<noteq> [] \<or> list_ex (\<lambda>tag. tag \<in> set (noteTags active)) (noteTags note))"

definition contextualNotes :: "'a projection_scheme list \<Rightarrow> 'a projection_scheme option \<Rightarrow> 'a projection_scheme list" where
  "contextualNotes ns active = (case active of None \<Rightarrow> take 5 (openTaskNotes ns) | Some a \<Rightarrow> take 5 (filter (related a) ns))"

definition graphEdges :: "'a projection_scheme list \<Rightarrow> (string \<times> string) list" where
  "graphEdges ns =
     (let ids = map pj_id ns in
      concat (map (\<lambda>note. map (\<lambda>to. (pj_id note, to)) (filter (\<lambda>to. to \<in> set ids) (noteLinks note))) ns))"

section \<open>Mentions\<close>

text \<open>The letters and digits of the characters the model has.\<close>

definition letter_or_digit :: "char \<Rightarrow> bool" where
  "letter_or_digit c = (let n = (of_char c :: nat) in 48 \<le> n \<and> n \<le> 57 \<or> 65 \<le> n \<and> n \<le> 90 \<or> 97 \<le> n \<and> n \<le> 122 \<or>
     n \<in> {170, 178, 179, 181, 185, 186, 188, 189, 190} \<or> 192 \<le> n \<and> n \<noteq> 215 \<and> n \<noteq> 247)"

fun word_goes_on :: "string \<Rightarrow> bool" where
  "word_goes_on [] = False"
| "word_goes_on (c # s) = (letter_or_digit c \<or> c = CHR ''_'' \<or> c = CHR ''-'' \<or> c = CHR ''.'' \<and> s \<noteq> [] \<and> letter_or_digit (hd s))"

definition mention_here :: "string \<Rightarrow> string \<Rightarrow> bool" where
  "mention_here name s =
     (case s of
        [] \<Rightarrow> False
      | c # r \<Rightarrow> c = CHR ''@'' \<and> length name \<le> length r \<and> js_lower (take (length name) r) = js_lower name \<and> \<not> word_goes_on (drop (length name) r))"

fun mention_later :: "string \<Rightarrow> string \<Rightarrow> bool" where
  "mention_later name [] = False"
| "mention_later name (c # s) = (js_space c \<and> mention_here name s \<or> mention_later name s)"

definition mentionPattern :: "string \<Rightarrow> string \<Rightarrow> bool" where
  "mentionPattern name s = (mention_here name s \<or> mention_later name s)"

definition mentionedUserIDs :: "string \<Rightarrow> member_key list \<Rightarrow> string \<Rightarrow> string list" where
  "mentionedUserIDs comment members author =
     map userId (filter (\<lambda>member. userId member \<noteq> author \<and> mentionPattern (username member) comment) members)"

section \<open>Properties\<close>

text \<open>A link is found where it is written, and the scan goes on behind it.\<close>

lemma link_found:
  assumes "CHR ''['' \<notin> set before" "name \<noteq> []" "CHR '']'' \<notin> set name"
  shows "link_names (before @ ''[['' @ name @ '']]'' @ after) = name # link_names after"
  using assms(1)
proof (induction before)
  case Nil
  have "takeWhile (\<lambda>c. c \<noteq> CHR '']'') (name @ CHR '']'' # x) = name" "dropWhile (\<lambda>c. c \<noteq> CHR '']'') (name @ CHR '']'' # x) = CHR '']'' # x" for x
    using assms(3) by (subst takeWhile_append2 dropWhile_append2; auto)+
  then show ?case using assms(2) by (simp add: link_here_def strip_prefix_def)
next
  case (Cons c before)
  then have "c \<noteq> CHR ''[''" by auto
  then have "link_here ((c # before) @ ''[['' @ name @ '']]'' @ after) = None" by (simp add: link_here_def strip_prefix_def)
  with Cons show ?case by simp
qed

text \<open>No open task of a structured page is empty.\<close>

lemma trim_last: "js_trim s = t @ [c] \<Longrightarrow> \<not> js_space c"
proof -
  assume t: "js_trim s = t @ [c]"
  then have "dropWhile js_space (rev (dropWhile js_space s)) = c # rev t" by (simp add: js_trim_def rev_swap)
  then show "\<not> js_space c" by (metis dropWhile_eq_Cons_conv)
qed

lemma trim_keeps: "\<not> js_space c \<Longrightarrow> js_trim (t @ [c]) \<noteq> []"
  by (simp add: js_trim_def dropWhile_append)

lemma block_tasks_nonempty: "[] \<notin> set (block_tasks block)"
proof -
  have bullet: "js_trim r \<noteq> []" if "bullet_task (js_trim x) = Some r" for x r
  proof -
    have r: "js_trim x = ''[ ] '' @ r" "r \<noteq> []" using that by (auto simp: bullet_task_def strip_prefix_append split: option.splits if_splits)
    then obtain t c where "r = t @ [c]" by (metis rev_exhaust)
    with r(1) show ?thesis using trim_last [of x "''[ ] '' @ t" c] trim_keeps by simp
  qed
  have "[] \<notin> set (bullet_tasks block (js_trim x))" for x
  proof (cases "bullet_task (js_trim x)")
    case (Some r)
    have "[] \<noteq> js_trim r" using bullet [OF Some] by (rule not_sym)
    then have "[] \<notin> set [js_trim r]" by (simp only: list.set insert_iff empty_iff simp_thms)
    moreover have "bullet_tasks block (js_trim x) = [js_trim r] \<or> bullet_tasks block (js_trim x) = []" 
      by (cases "has_type ''bulletListItem'' block") (simp_all only: bullet_tasks_def Some option.case if_True if_False simp_thms)
    ultimately show ?thesis by (metis empty_iff list.set(1))
  next
    case None
    show ?thesis by (simp only: bullet_tasks_def None option.case if_cancel list.set empty_iff not_False_eq_True)
  qed
  moreover have "[] \<notin> set (check_tasks block v)" for v by (simp add: check_tasks_def)
  ultimately show ?thesis by (simp add: block_tasks_def Let_def)
qed

lemma visit_tasks_nonempty: "[] \<notin> set (visit_tasks depth blocks)"
  by (induction depth blocks rule: visit_tasks.induct) (auto simp: block_tasks_nonempty split: option.splits json.splits)

text \<open>An edge of the graph joins two pages that exist and is written in the first of them.\<close>

lemma graph_edges_known:
  "(a, b) \<in> set (graphEdges ns) \<longleftrightarrow> (\<exists>note\<in>set ns. pj_id note = a \<and> b \<in> set (noteLinks note)) \<and> b \<in> pj_id ` set ns"
  by (auto simp: graphEdges_def)

lemma contextual_bounded: "length (contextualNotes ns active) \<le> 5 \<and> set (contextualNotes ns active) \<subseteq> set ns \<and> (\<forall>a. active = Some a \<longrightarrow> pj_id a \<notin> pj_id ` set (contextualNotes ns active))"
  by (auto simp: contextualNotes_def openTaskNotes_def related_def dest: in_set_takeD split: option.splits)

text \<open>A member is mentioned exactly when its name stands behind an at sign at the start or after white space, in any case, and the word ends there.\<close>

lemma mention_later_iff: "mention_later name s \<longleftrightarrow> (\<exists>before c r. s = before @ c # r \<and> js_space c \<and> mention_here name r)"
proof (induction s)
  case (Cons x s)
  show ?case unfolding mention_later.simps Cons.IH by (auto simp: Cons_eq_append_conv)
qed simp

lemma mentionPattern_iff:
  "mentionPattern name s \<longleftrightarrow>
     (\<exists>before word after. s = before @ CHR ''@'' # word @ after \<and> (before = [] \<or> js_space (last before)) \<and> js_lower word = js_lower name \<and> \<not> word_goes_on after)"
proof -
  have here: "mention_here name r \<longleftrightarrow> (\<exists>word after. r = CHR ''@'' # word @ after \<and> js_lower word = js_lower name \<and> \<not> word_goes_on after)" for r
  proof
    assume m: "mention_here name r"
    then obtain t where "r = CHR ''@'' # t" "length name \<le> length t" "js_lower (take (length name) t) = js_lower name" "\<not> word_goes_on (drop (length name) t)"
      by (auto simp: mention_here_def split: list.splits)
    then show "\<exists>word after. r = CHR ''@'' # word @ after \<and> js_lower word = js_lower name \<and> \<not> word_goes_on after"
      by (intro exI [of _ "take (length name) t"] exI [of _ "drop (length name) t"]) simp
  next
    assume "\<exists>word after. r = CHR ''@'' # word @ after \<and> js_lower word = js_lower name \<and> \<not> word_goes_on after"
    then obtain word after where w: "r = CHR ''@'' # word @ after" "js_lower word = js_lower name" "\<not> word_goes_on after" by blast
    have "length word = length name" using map_eq_imp_length_eq [OF w(2) [unfolded js_lower_def]] .
    with w show "mention_here name r" by (simp add: mention_here_def)
  qed
  have "mentionPattern name s \<longleftrightarrow> (\<exists>before r. s = before @ r \<and> (before = [] \<or> js_space (last before)) \<and> mention_here name r)"
  proof
    assume "mentionPattern name s"
    then show "\<exists>before r. s = before @ r \<and> (before = [] \<or> js_space (last before)) \<and> mention_here name r"
      unfolding mentionPattern_def mention_later_iff by (metis append.left_neutral append_Cons append_assoc last_snoc)
  next
    assume "\<exists>before r. s = before @ r \<and> (before = [] \<or> js_space (last before)) \<and> mention_here name r"
    then obtain before r where "s = before @ r" "before = [] \<or> js_space (last before)" "mention_here name r" by blast
    then show "mentionPattern name s"
      unfolding mentionPattern_def mention_later_iff by (cases before rule: rev_cases) auto
  qed
  then show ?thesis unfolding here by blast
qed

end
