(* ===== verification/ShareLabels.thy ===== *)
theory ShareLabels
  imports Content
begin

text \<open>
  Labels of share links (\<open>web/src/shareLabels.ts\<close>): which page a link shares, kept only in the browser that made it, sealed beside the cached
  pages. Lemmas: a kept label reads back with the notebook's key, a forgotten one is gone, and other rows stay.
\<close>

definition cacheID :: "string \<Rightarrow> string" where
  "cacheID linkID = ''share:'' @ linkID"

definition keepShareLabel ::
  "lib \<Rightarrow> bytes \<Rightarrow> string \<Rightarrow> string \<Rightarrow> string \<Rightarrow> string \<Rightarrow> write_key \<Rightarrow> string \<Rightarrow> string \<Rightarrow> ('a note_db_scheme, unit) io" where
  "keepShareLabel L iv now owner linkID containerID write title notebook =
     bind_io (lift_result (encryptShareLabel L iv (w_key write) containerID linkID title notebook)) (\<lambda>payload.
       putNote owner \<lparr>n_id = cacheID linkID, n_containerID = containerID, n_version = 0, n_payload = payload, n_updatedAt = now,
         n_keyGeneration = Some (w_generation write), n_unsent = False\<rparr>)"

datatype read_label = Label json | NoLabel | UnreadableLabel

definition readShareLabel :: "lib \<Rightarrow> string \<Rightarrow> string \<Rightarrow> (pending_save \<Rightarrow> bytes list) \<Rightarrow> ('a note_db_scheme, read_label) io" where
  "readShareLabel L owner linkID keysFor =
     bind_io (catch_io (getNote owner (cacheID linkID)) (\<lambda>_. ret None)) (\<lambda>found.
       case found of
         None \<Rightarrow> ret NoLabel
       | Some row \<Rightarrow>
           ret (case openFirst (keysFor row) (\<lambda>key. decryptShareLabel L key (n_containerID row) linkID (n_payload row)) of
             Inr label \<Rightarrow> Label label | Inl _ \<Rightarrow> UnreadableLabel))"

definition forgetShareLabel :: "string \<Rightarrow> string \<Rightarrow> ('a note_db_scheme, unit) io" where
  "forgetShareLabel owner linkID = catch_io (deleteNote owner (cacheID linkID)) (\<lambda>_. ret ())"

lemma kept_label_reads_back:
  assumes "gcm_roundtrip L" "gcm_overhead L" "length iv = 12" "keepShareLabel L iv now owner linkID containerID write title notebook db = (Inr (), db')"
    and "\<And>row. n_containerID row = containerID \<Longrightarrow> n_keyGeneration row = Some (w_generation write) \<Longrightarrow> keysFor row = [w_key write]"
  shows "readShareLabel L owner linkID keysFor db' = (Inr (Label (JObj [(''title'', JStr title), (''notebook'', JStr notebook)])), db')"
proof -
  have db: "db_ok db" using assms(4) by (auto simp: keepShareLabel_def bind_io_def putNote_def transact_def split: sum.splits if_splits prod.splits)
  obtain bs where bs: "encryptShareLabel L iv (w_key write) containerID linkID title notebook = Inr bs"
    using assms(4) by (auto simp: keepShareLabel_def bind_io_def split: sum.splits)
  then have "db' = put_note (cache_row owner \<lparr>n_id = cacheID linkID, n_containerID = containerID, n_version = 0, n_payload = bs, n_updatedAt = now,
         n_keyGeneration = Some (w_generation write), n_unsent = False\<rparr>) db"
    using assms(4) db by (simp add: keepShareLabel_def bind_io_def putNote_def transact_def)
  moreover have "decryptShareLabel L (w_key write) containerID linkID bs = Inr (JObj [(''title'', JStr title), (''notebook'', JStr notebook)])"
    using sealed_json_opens [OF assms(1-3) bs [unfolded encryptShareLabel_def]] by (simp add: decryptShareLabel_def openJSON_def)
  ultimately show ?thesis using db assms(5)
    by (simp add: readShareLabel_def bind_io_def catch_io_def getNote_def transact_def put_note_def cache_row_def row_key_def openFirst_single)
qed

lemma forgotten_label_gone: "db_ok db \<Longrightarrow> readShareLabel L owner linkID keysFor (snd (forgetShareLabel owner linkID db)) = (Inr NoLabel, snd (forgetShareLabel owner linkID db))"
  by (simp add: readShareLabel_def forgetShareLabel_def bind_io_def catch_io_def getNote_def deleteNote_def transact_def delete_conv')

lemma labels_touch_nothing_else:
  "row \<noteq> (owner, cacheID linkID) \<Longrightarrow> map_of (cache (snd (keepShareLabel L iv now owner linkID containerID write title notebook db))) row = map_of (cache db) row"
  "row \<noteq> (owner, cacheID linkID) \<Longrightarrow> map_of (cache (snd (forgetShareLabel owner linkID db))) row = map_of (cache db) row"
  by (auto simp: keepShareLabel_def forgetShareLabel_def bind_io_def catch_io_def putNote_def deleteNote_def transact_def put_note_def cache_row_def row_key_def
      delete_conv' split: sum.splits)

end
