(* ===== verification/Spec2Isabelle.thy ===== *)
theory Spec2Isabelle
  imports Http Session Canvas Observe Reminders Floors Vault Outline Pages KeyTrust Linking Drafts ExportRuns Knowledge ShareLabels
begin

text \<open>
  The KyNotes web client: end-to-end encrypted notes (\<open>src/web/src\<close>).

  \<^bold>\<open>The program.\<close> The browser holds an account's identity key and, per notebook, a ring of content keys by generation. Members
  hand keys to each other in envelopes; every browser pins the public keys it saw first and remembers how far the server's
  reports have come, so that a server can neither swap a key nor roll a notebook back unnoticed. Text is sealed before it
  leaves; edits wait in a local queue until they may be sent under the current key. An identity reaches a new browser by a
  recovery code or by linking two browsers. On top of that are the page outline, routes, task dates and exports.

  \<^bold>\<open>Which theory models what.\<close>
  \<^item> \<open>Prelude\<close>: errors, results, the state-and-error programs (\<open>io\<close>, \<open>bind_io\<close>, \<open>catch_io\<close>), triples, dictionaries in insertion order.
    \<open>Bytes\<close>: bytes, UTF-8, base64, identifiers. \<open>Json\<close>: \<open>JSON.parse\<close> and \<open>JSON.stringify\<close>, which are inverse on well-formed values.
    \<open>Trace\<close>: programs that call an unknown outside and log what they do, with a weakest precondition calculus and the locale
    \<open>inside\<close> of invariants no call of the outside can break.
  \<^item> \<open>Crypto\<close> (\<open>crypto.ts\<close>): frames, associated data, sealing and opening, derived keys. \<open>Content\<close> (rest of \<open>crypto.ts\<close>, \<open>drain.ts\<close>,
    \<open>outbound.ts\<close>): the JSON in ciphertexts, what the queue may send, the gate in front of uploads.
  \<^item> \<open>TeamKeys\<close> (\<open>teamKeys.ts\<close>): envelopes and wrapped identities. \<open>Pins\<close> (\<open>pins.ts\<close>): pinned keys and confirmations.
    \<open>Keyring\<close> (\<open>keyring.ts\<close>): floors, opening a ring, read and write keys, planning a sweep. \<open>Floors\<close> (\<open>floors.ts\<close>): floors in
    several tabs with messages between them. \<open>Observe\<close> (\<open>observe.ts\<close>, \<open>keyNotices.ts\<close>): reported rows raising them, and notices. \<open>KeyService\<close> and \<open>KeyTrust\<close> (\<open>keyService.ts\<close>): one key pass and its proofs.
  \<^item> \<open>NoteStore\<close> and \<open>Vault\<close> (\<open>storage.ts\<close>): the note cache, queue and uploads; the record of an account's keys.
    \<open>Identity\<close> (\<open>identity.ts\<close>), \<open>RecoveryCode\<close> and \<open>Recovery\<close> (\<open>recovery.ts\<close>), \<open>Linking\<close> (\<open>linking.ts\<close>, \<open>linkFlow.ts\<close>).
  \<^item> \<open>Order\<close> (\<open>order.ts\<close>), \<open>Outline\<close> (\<open>outline.ts\<close>), \<open>Pages\<close> (\<open>pages.ts\<close>): order keys, levels and groups, payloads, lists, routes.
  \<^item> \<open>Edits\<close> (\<open>notes.ts\<close>, \<open>migrate.ts\<close>, \<open>stuckEdits.ts\<close>) and \<open>Drafts\<close> (\<open>drafts.ts\<close>): pages in memory, the migration pass, unsendable edits,
    sealed drafts. \<open>Calendar\<close> and \<open>TaskDates\<close> (\<open>taskDates.ts\<close>): dates, tokens, recurrence. \<open>Zip\<close> (\<open>zip.ts\<close>): archives.
  \<^item> \<open>Document\<close> (\<open>document.ts\<close>): page bodies in the canvas format and both older ones, and their text. \<open>Canvas\<close> (\<open>canvas.ts\<close>): boxes, strokes,
    the eraser, extents, reading order and the undo history. \<open>Reminders\<close> (\<open>reminderPush.ts\<close>): what a server is told of reminders.
    \<open>Export\<close>, \<open>ExportPaths\<close> and \<open>ExportRuns\<close> (\<open>exportNotebook.ts\<close>): names, folders, links, Markdown with placeholders, attachments and the
    manifest of a plaintext export. \<open>Knowledge\<close> (\<open>knowledge.ts\<close>, \<open>mentions.ts\<close>): search, links, tasks, mentions. \<open>ShareLabels\<close> (\<open>shareLabels.ts\<close>).
  \<^item> \<open>Http\<close> (\<open>request\<close> and \<open>actionFetch\<close> of \<open>api.ts\<close>, \<open>reauth.ts\<close>): requests, refusals, the single-sign-on confirmation. \<open>Session\<close>
    (\<open>loginUpgrade.ts\<close>, \<open>stepup.ts\<close>, \<open>setup.ts\<close>, \<open>passwordChange.ts\<close>, \<open>loadGate.ts\<close>, \<open>invitations.ts\<close>): signing in and invitation links.

  \<^bold>\<open>State and operations.\<close> Objects are records or datatypes with the source's fields and cases, a thrown error is the left value of a result. Code that
  only computes is a function. Code that awaits is a program over a world: the local database as one value with each
  transaction as one step, or an unknown outside plus what the module itself keeps (one-time keys, confirmations, a log).
  The server, the user and other tabs are arguments of these programs and may answer anything, also change the outside
  between two calls; the log records the calls that matter. The cryptographic primitives are fields of a record; what is
  relied on (authenticated opening inverts sealing and nothing else opens, lengths, HPKE opens what it sealed) are named
  hypotheses, shown satisfiable by \<open>demo_lib\<close>. Random bytes are a stream or arguments, and so are time and time zone.

  \<^bold>\<open>What the lemmas show.\<close>
  \<^item> Keys: every key a ring gives out came from a trusted sender and never contradicts what is remembered; memory and floors only rise, in
    one tab, across tabs and in the store; below the floor nothing is written; a key pass sends envelopes only to vouched keys
    and ends; pins change only by a confirmation of the key the user saw.
  \<^item> Content: what opens was sealed for this place; what the queue, a draft or an upload sends is current and holds the edit;
    the gate lets nothing else pass; the migration marker is written only by a complete pass; queued edits leave only by the
    named steps, accounts do not touch each other, and edits waiting for a replaced key are all retired.
  \<^item> Identity: keeping, wrapping, recovering, resetting and linking an identity follow their order whatever the server answers, codes read back exactly.
  \<^item> Data: order keys exist between any two, placed and reordered items land where asked, groups form a forest, narrowed payloads are stable;
    dates are calendar dates, repetition advances them, a completed item loses one repetition word; the table checksum is the
    bit-serial one and archives read back. Every stored body opens to a page within its bounds; editing keeps it there and saving
    loses nothing; undone steps are redone exactly. Pushed reminders are a three-way merge.
  \<^item> Export: it always succeeds, stays inside its folder, overwrites nothing, writes every page once and opens an attachment at most once; its
    links lead where they should, and the Markdown serializer sees only placeholders.
  \<^item> Requests: one is sent once, or once more after a verified confirmation; a pinned account never derives a secret with fewer iterations;
    an upgraded account keeps its identity; a pending invitation is always a well-formed link.

  \<^bold>\<open>Loops and fuel.\<close> Structural loops are recursions over their lists; \<open>keyBetween_loop\<close>, \<open>words_from\<close> and the outline walks have termination proofs.
  \<open>settle_changes\<close> takes the number of members as fuel, shown to be enough. \<open>awaitLinkBundle\<close> takes the answers it polls for
  and \<open>flush_rounds\<close> the round limit of the code. \<open>pick_from\<close> and \<open>draft_rounds\<close> may run forever and are partial functions,
  with lemmas when they return. JSON parsing has fuel from the length of the text. \<open>sso_poll\<close> has fuel, of which a round per millisecond
  of its five minutes is enough (\<open>confirmation_ends\<close>). \<open>free_number\<close> ends because only finitely many numbers clash, and \<open>groupDir\<close> has
  fuel for five levels, enough because groups form a forest of depth four.

  \<^bold>\<open>Strings\<close> are lists of 8-bit characters: code points up to 255, which covers identifiers, keys and digits; case folding and white
  space are those of this range. Numbers in JSON are integers and decimal
  fractions, kept exactly; arithmetic on them does not round. Stack depth is not limited.

  \<^bold>\<open>Not modelled.\<close> React components and hooks (\<open>main.tsx\<close>, \<open>components\<close>, \<open>CanvasPage.tsx\<close>, \<open>BlockNoteEditor.tsx\<close>, \<open>reminders.tsx\<close>) and DOM dialogs, which render and
  wire the modules above; the wrappers of \<open>api.ts\<close> that name one route each, which are arguments; message texts, themes and backup
  administration; and the server, which is another program in Go.
\<close>

end
